(* ===== verification/Prelude.thy ===== *)
theory Prelude
  imports Main "HOL-Library.Word"
begin

unbundle bit_operations_syntax

text \<open>
  Shared vocabulary of the development: the machine integers of \<open>kernel/stdint.h\<close>, the
  faults a run of the kernel can end in, the result type of an operation that may fault, and
  the generic lemmas on words, lists and results that the component theories use.

  \<^item> A fault is a value.  \<open>Panic\<close> is a call of \<open>Debug::panic\<close> (which never returns:
    it loops on the exit port, \<open>kernel/debug.cc\<close>), also through a failed \<open>ASSERT\<close>;
    \<open>NullDeref\<close> is a dereference of a null pointer and \<open>OutOfRange\<close> an access
    past the end of an array, \<open>DivByZero\<close> a division by zero, none of which the source
    checks for.
  \<^item> \<open>'a res\<close> is the result of an operation: \<open>Inl\<close> a fault or \<open>Inr\<close> a value.
  \<^item> An operation with a loop that may not end has the result type \<open>'a res option\<close>,
    with \<open>None\<close> for a run that never returns.
\<close>

type_synonym u8 = "8 word"
type_synonym u16 = "16 word"
type_synonym u32 = "32 word"
type_synonym u64 = "64 word"

datatype fault = Panic | NullDeref | OutOfRange | DivByZero

type_synonym 'a res = "fault + 'a"

named_theorems res_simps \<open>unfolding rules of the result type\<close>
named_theorems word_facts \<open>bounds and bit facts of machine words\<close>

text \<open>Sequencing of operations that may fault, and the \<open>ASSERT\<close> macro of
  \<open>kernel/debug.h\<close>.\<close>

definition rbind :: "'a res \<Rightarrow> ('a \<Rightarrow> 'b res) \<Rightarrow> 'b res" where
  "rbind m f = (case m of Inl e \<Rightarrow> Inl e | Inr x \<Rightarrow> f x)"

definition assert_that :: "bool \<Rightarrow> unit res" where
  "assert_that b = (if b then Inr () else Inl Panic)"

lemma rbind_Inl [simp, res_simps]: "rbind (Inl e) f = Inl e"
  by (simp add: rbind_def)

lemma rbind_Inr [simp, res_simps]: "rbind (Inr x) f = f x"
  by (simp add: rbind_def)

lemma assert_True [simp, res_simps]: "assert_that True = Inr ()"
  by (simp add: assert_that_def)

lemma assert_False [simp, res_simps]: "assert_that False = Inl Panic"
  by (simp add: assert_that_def)

lemma rbind_eq_Inr_iff:
  "rbind m f = Inr y \<longleftrightarrow> (\<exists>x. m = Inr x \<and> f x = Inr y)"
  by (cases m) simp_all

lemma assert_eq_Inr_iff [simp]: "assert_that b = Inr u \<longleftrightarrow> b"
  by (cases b) simp_all

text \<open>Sequencing under \<open>option\<close>: the first operation may also never return.\<close>

definition obind :: "'a res option \<Rightarrow> ('a \<Rightarrow> 'b res option) \<Rightarrow> 'b res option" where
  "obind m f = Option.bind m (\<lambda>r. case r of Inl e \<Rightarrow> Some (Inl e) | Inr x \<Rightarrow> f x)"

lemma obind_simps [simp, res_simps]:
  "obind None f = None"
  "obind (Some (Inl e)) f = Some (Inl e)"
  "obind (Some (Inr x)) f = f x"
  by (simp_all add: obind_def)

section \<open>Words and integers\<close>

lemma uint_of_int_u32 [word_facts]:
  "0 \<le> x \<Longrightarrow> x < 2 ^ 32 \<Longrightarrow> uint (of_int x :: u32) = x"
  by (simp add: uint_word_of_int_eq take_bit_int_eq_self)

lemma sint_of_int_u32 [word_facts]:
  "- (2 ^ 31) \<le> x \<Longrightarrow> x < 2 ^ 31 \<Longrightarrow> sint (of_int x :: u32) = x"
  by (simp add: sint_sbintrunc' signed_take_bit_int_eq_self)

lemma uint_add_of_int_u32:
  assumes "0 \<le> x" "uint (b :: u32) + x < 2 ^ 32"
  shows "uint (b + of_int x) = uint b + x"
proof -
  have "x < 2 ^ 32" using assms uint_nonnegative [of b] by linarith
  then have "uint (of_int x :: u32) = x" by (rule uint_of_int_u32 [OF assms(1)])
  then show ?thesis using assms by (simp add: uint_add_lem [THEN iffD1])
qed

text \<open>The same number read as a natural number.\<close>

lemma uint_unat [word_facts]:
  fixes a b :: "'a::len word"
  shows "uint a \<le> uint b \<longleftrightarrow> unat a \<le> unat b" "uint a < uint b \<longleftrightarrow> unat a < unat b"
    "0 < uint a \<longleftrightarrow> 0 < unat a" "uint a < int k \<longleftrightarrow> unat a < k" "int k \<le> uint a \<longleftrightarrow> k \<le> unat a"
    "uint a = int k \<longleftrightarrow> unat a = k"
  by (simp_all only: uint_nat of_nat_le_iff of_nat_less_iff of_nat_0_less_iff of_nat_eq_iff)

lemma unat_eqD: "unat a = unat b \<Longrightarrow> a = b"
  by (rule word_unat_eq_iff [THEN iffD2])

lemma unat_u32_less: "unat (w :: u32) < 4294967296"
  using unsigned_less [of w] by simp

lemma unat_of_nat_u32: "n < 4294967296 \<Longrightarrow> unat (of_nat n :: u32) = n"
  by (simp add: unsigned_of_nat take_bit_nat_eq_self)

text \<open>A 32 bit signed number after an operation that may have left its range.\<close>

definition s32 :: "int \<Rightarrow> int" where "s32 x = signed_take_bit 31 x"

lemma s32_id: "- (2 ^ 31) \<le> x \<Longrightarrow> x < 2 ^ 31 \<Longrightarrow> s32 x = x"
  by (simp add: s32_def signed_take_bit_int_eq_self)

end
