(* ===== verification/Heap_Alloc.thy ===== *)
theory Heap_Alloc
  imports Prelude
begin

text \<open>
  The kernel heap of \<open>kernel/heap.cc\<close>: one array of ints tiled by blocks.  A block
  of size \<open>s\<close> starting at index \<open>i\<close> has the tag \<open>s\<close> (available) or
  \<open>- s\<close> (taken) in its first and last cell; an available block also keeps, in its second
  and third cell, the next and previous index of a doubly linked list whose head is
  \<open>avail\<close> and whose end is 0.

  The array is modelled as a total function from int indices, so that an access outside
  \<open>0 \<le> i < len\<close> is an access of some other memory and not a fault; that none happens is
  proved, not assumed.  Cells are mathematical integers: every tag and link of a well-formed
  heap is between \<open>- len\<close> and \<open>len < 2 ^ 30\<close>.  Requests and pointers are 32 bit words.
  The lock is modelled by who may enter: \<open>theLock\<close> is its address (0 before
  \<open>heapInit\<close> has made it) and \<open>held\<close> says whether a caller is inside; acquiring a held lock never
  returns (\<open>None\<close>).
\<close>

section \<open>State and operations\<close>

record heap =
  arr :: "int \<Rightarrow> int"
  hbase :: u32
  hlen :: int
  safe :: int
  avail :: int
  theLock :: u32
  held :: bool

definition abs_h :: "int \<Rightarrow> int" where
  "abs_h x = (if x < 0 then - x else x)"

definition size_h :: "heap \<Rightarrow> int \<Rightarrow> int" where
  "size_h h i = abs_h (arr h i)"

definition headerFromFooter :: "heap \<Rightarrow> int \<Rightarrow> int" where
  "headerFromFooter h i = i - size_h h i + 1"

definition footerFromHeader :: "heap \<Rightarrow> int \<Rightarrow> int" where
  "footerFromHeader h i = i + size_h h i - 1"

definition sanity :: "heap \<Rightarrow> int \<Rightarrow> int res" where
  "sanity h i =
     (if safe h \<noteq> 0 then
        (if i = 0 then Inr 0
         else if i < 0 \<or> i \<ge> hlen h then Inl Panic
         else let footer = footerFromHeader h i in
           if footer < 0 \<or> footer \<ge> hlen h then Inl Panic
           else if arr h i \<noteq> arr h footer then Inl Panic
           else Inr i)
      else Inr i)"

definition left_h :: "heap \<Rightarrow> int \<Rightarrow> int res" where
  "left_h h i = sanity h (headerFromFooter h (i - 1))"

definition right_h :: "heap \<Rightarrow> int \<Rightarrow> int res" where
  "right_h h i = sanity h (i + size_h h i)"

definition next_h :: "heap \<Rightarrow> int \<Rightarrow> int res" where
  "next_h h i = sanity h (arr h (i + 1))"

definition prev_h :: "heap \<Rightarrow> int \<Rightarrow> int res" where
  "prev_h h i = sanity h (arr h (i + 2))"

definition setNext :: "heap \<Rightarrow> int \<Rightarrow> int \<Rightarrow> heap" where
  "setNext h i x = h\<lparr>arr := (arr h)(i + 1 := x)\<rparr>"

definition setPrev :: "heap \<Rightarrow> int \<Rightarrow> int \<Rightarrow> heap" where
  "setPrev h i x = h\<lparr>arr := (arr h)(i + 2 := x)\<rparr>"

definition remove_h :: "heap \<Rightarrow> int \<Rightarrow> heap res" where
  "remove_h h i =
     rbind (prev_h h i) (\<lambda>prevIndex.
     rbind (next_h h i) (\<lambda>nextIndex.
       let h1 = (if prevIndex = 0 then h\<lparr>avail := nextIndex\<rparr>
                 else setNext h prevIndex nextIndex);
           h2 = (if nextIndex \<noteq> 0 then setPrev h1 nextIndex prevIndex else h1)
       in Inr h2))"

definition makeAvail :: "heap \<Rightarrow> int \<Rightarrow> int \<Rightarrow> heap" where
  "makeAvail h i ints =
     (let h1 = h\<lparr>arr := (arr h)(i := ints)\<rparr>;
          h2 = h1\<lparr>arr := (arr h1)(footerFromHeader h1 i := ints)\<rparr>;
          h3 = setNext h2 i (avail h2);
          h4 = setPrev h3 i 0;
          h5 = (if avail h4 \<noteq> 0 then setPrev h4 (avail h4) i else h4)
      in h5\<lparr>avail := i\<rparr>)"

definition makeTaken :: "heap \<Rightarrow> int \<Rightarrow> int \<Rightarrow> heap" where
  "makeTaken h i ints =
     (let h1 = h\<lparr>arr := (arr h)(i := - ints)\<rparr>
      in h1\<lparr>arr := (arr h1)(footerFromHeader h1 i := - ints)\<rparr>)"

definition isAvail :: "heap \<Rightarrow> int \<Rightarrow> bool" where
  "isAvail h i = (arr h i > 0)"

definition isTaken :: "heap \<Rightarrow> int \<Rightarrow> bool" where
  "isTaken h i = (arr h i < 0)"

text \<open>\<open>LockGuardP g{theLock}\<close> (\<open>kernel/atomic.h\<close>): nothing when the pointer is
  null, otherwise a lock on entry and an unlock on every way out of the block.\<close>

definition guard_enter :: "heap \<Rightarrow> heap option" where
  "guard_enter h =
     (if theLock h = 0 then Some h
      else if held h then None
      else Some (h\<lparr>held := True\<rparr>))"

definition guard_leave :: "heap \<Rightarrow> heap" where
  "guard_leave h = (if theLock h = 0 then h else h\<lparr>held := False\<rparr>)"

text \<open>The search loop of \<open>malloc\<close>, from the loop variables \<open>countDown\<close>, \<open>p\<close>,
  \<open>mx\<close> and \<open>it\<close>.  On a damaged list it may run forever.\<close>

partial_function (option) malloc_scan ::
    "heap \<Rightarrow> int \<Rightarrow> int \<Rightarrow> int \<Rightarrow> int \<Rightarrow> int \<Rightarrow> (int \<times> int) res option" where
  "malloc_scan h ints countDown p mx it =
     (if p = 0 then Some (Inr (mx, it))
      else if \<not> isAvail h p then Some (Inl Panic)
      else let sz = size_h h p in
        if sz \<ge> ints then
          (let mx' = (if sz < mx then sz else mx);
               it' = (if sz < mx then p else it);
               countDown' = countDown - 1
           in if countDown' = 0 then Some (Inr (mx', it'))
              else (case next_h h p of
                      Inl e \<Rightarrow> Some (Inl e)
                    | Inr p' \<Rightarrow> malloc_scan h ints countDown' p' mx' it'))
        else (case next_h h p of
                Inl e \<Rightarrow> Some (Inl e)
              | Inr p' \<Rightarrow> malloc_scan h ints countDown p' mx it))"

declare malloc_scan.simps [code]

text \<open>\<open>int ints = ((bytes + 3) / 4) + 2\<close>, in unsigned 32 bit arithmetic, at least 4.\<close>

definition request_ints :: "u32 \<Rightarrow> int" where
  "request_ints bytes =
     (let ints = uint ((bytes + 3) div 4 + 2) in if ints < 4 then 4 else ints)"

definition malloc :: "u32 \<Rightarrow> heap \<Rightarrow> (u32 \<times> heap) res option" where
  "malloc bytes h =
     (if bytes = 0 then Some (Inr (hbase h, h))
      else let ints = request_ints bytes in
        (case guard_enter h of
           None \<Rightarrow> None
         | Some h1 \<Rightarrow>
             obind (malloc_scan h1 ints 20 (avail h1) 0x7FFFFFFF 0) (\<lambda>(mx, it).
               if it \<noteq> 0 then
                 Some (rbind (remove_h h1 it) (\<lambda>h2.
                   let extra = mx - ints;
                       h3 = (if extra \<ge> 4
                             then makeAvail (makeTaken h2 it ints) (it + ints) extra
                             else makeTaken h2 it mx)
                   in Inr (hbase h + of_int (4 * (it + 1)), guard_leave h3)))
               else Some (Inr (0, guard_leave h1)))))"

definition free_idx :: "heap \<Rightarrow> u32 \<Rightarrow> int" where
  "free_idx h p = sint ((p - hbase h) div 4 - 1)"

definition free_h :: "u32 \<Rightarrow> heap \<Rightarrow> heap res option" where
  "free_h p h =
     (if p = 0 then Some (Inr h)
      else if p = hbase h then Some (Inr h)
      else (case guard_enter h of
         None \<Rightarrow> None
       | Some h1 \<Rightarrow> Some (
           let idx = free_idx h1 p in
           rbind (sanity h1 idx) (\<lambda>_.
           if \<not> isTaken h1 idx then Inl Panic
           else let sz = size_h h1 idx in
             rbind (left_h h1 idx) (\<lambda>leftIndex.
             rbind (right_h h1 idx) (\<lambda>rightIndex.
             rbind (if isAvail h1 leftIndex
                    then rbind (remove_h h1 leftIndex)
                           (\<lambda>h2. Inr (h2, leftIndex, sz + size_h h2 leftIndex))
                    else Inr (h1, idx, sz)) (\<lambda>(h2, idx2, sz2).
             rbind (if isAvail h2 rightIndex
                    then rbind (remove_h h2 rightIndex)
                           (\<lambda>h3. Inr (h3, sz2 + size_h h3 rightIndex))
                    else Inr (h2, sz2)) (\<lambda>(h3, sz3).
             Inr (guard_leave (makeAvail h3 idx2 sz3))))))))))"

text \<open>The C++ operators \<open>new\<close> and \<open>delete\<close> (and their array forms).\<close>

definition operator_new :: "u32 \<Rightarrow> heap \<Rightarrow> (u32 \<times> heap) res option" where
  "operator_new sz h =
     obind (malloc sz h) (\<lambda>(p, h'). if p = 0 then Some (Inl Panic) else Some (Inr (p, h')))"

definition operator_delete :: "u32 \<Rightarrow> heap \<Rightarrow> heap res option" where
  "operator_delete p h = free_h p h"

text \<open>
  \<open>new BlockingLock()\<close>: 32 bytes on this target (an 8 byte count, the ISL's flag and
  reference count, the queue's two pointers and empty lock, the reference count).  The
  constructor writes 1 to the count, clears the flag's byte, the counts and the pointers.
\<close>

definition blockingLock_bytes :: u32 where
  "blockingLock_bytes = 32"

definition blockingLock_ctor :: "int \<Rightarrow> (int \<Rightarrow> int) \<Rightarrow> int \<Rightarrow> int" where
  "blockingLock_ctor i a =
     a(i := 1, i + 1 := 0, i + 2 := (a (i + 2) AND NOT 255), i + 3 := 0,
       i + 4 := 0, i + 5 := 0, i + 7 := 0)"

definition heapInit :: "u32 \<Rightarrow> u32 \<Rightarrow> heap \<Rightarrow> heap res option" where
  "heapInit base bytes h =
     (let h0 = h\<lparr>hbase := base, hlen := uint (bytes div 4)\<rparr>;
          h1 = makeTaken h0 0 2;
          h2 = makeAvail h1 2 (hlen h1 - 4);
          h3 = makeTaken h2 (hlen h2 - 2) 2
      in obind (operator_new blockingLock_bytes h3) (\<lambda>(p, h4).
           Some (Inr (h4\<lparr>theLock := p,
                        arr := blockingLock_ctor (free_idx h4 p + 1) (arr h4)\<rparr>))))"

text \<open>The static variables before \<open>heapInit\<close>: zero, over whatever the memory holds.\<close>

definition heap_boot :: "(int \<Rightarrow> int) \<Rightarrow> heap" where
  "heap_boot m =
     \<lparr>arr = m, hbase = 0, hlen = 0, safe = 0, avail = 0, theLock = 0, held = False\<rparr>"

end
