(* ===== verification/Heap_Inv.thy ===== *)
theory Heap_Inv
  imports Heap_Alloc
begin

text \<open>
  Well-formedness of the heap of \<open>Heap_Alloc\<close> and the effect of the list and tag
  operations on it.  \<open>blocks a B n\<close>: the set \<open>B\<close> of block starts tiles the cells
  \<open>0..<n\<close> of \<open>a\<close>.  \<open>seg a q xs n\<close>: the blocks \<open>xs\<close> are linked
  from previous block \<open>q\<close> to next block \<open>n\<close>.  \<open>heap_inv h B fl\<close>: the whole
  invariant, with the block starts and the free list as ghost arguments.
\<close>

section \<open>Tilings\<close>

definition blocks :: "(int \<Rightarrow> int) \<Rightarrow> int set \<Rightarrow> int \<Rightarrow> bool" where
  "blocks a B n \<longleftrightarrow>
     0 \<in> B \<and>
     (\<forall>b\<in>B. 0 \<le> b \<and> 2 \<le> \<bar>a b\<bar> \<and> b + \<bar>a b\<bar> \<le> n \<and> a (b + \<bar>a b\<bar> - 1) = a b \<and>
            (b + \<bar>a b\<bar> \<in> B \<or> b + \<bar>a b\<bar> = n)) \<and>
     (\<forall>b\<in>B. \<forall>c\<in>B. b < c \<longrightarrow> b + \<bar>a b\<bar> \<le> c)"

definition tag :: "(int \<Rightarrow> int) \<Rightarrow> int \<Rightarrow> int \<Rightarrow> int \<Rightarrow> int" where
  "tag a b v = a(b := v, b + \<bar>v\<bar> - 1 := v)"

named_theorems block_facts \<open>facts of one block of a tiling\<close>

lemma abs_h_abs [simp]: "abs_h x = \<bar>x\<bar>"
  by (simp add: abs_h_def)

lemma blocksD:
  assumes "blocks a B n" and "b \<in> B"
  shows blocks_nonneg: "0 \<le> b" and blocks_size: "2 \<le> \<bar>a b\<bar>"
    and blocks_end: "b + \<bar>a b\<bar> \<le> n" and blocks_footer: "a (b + \<bar>a b\<bar> - 1) = a b"
    and blocks_succ: "b + \<bar>a b\<bar> \<in> B \<or> b + \<bar>a b\<bar> = n"
  using assms by (auto simp: blocks_def)

lemma blocks_disjoint:
  "blocks a B n \<Longrightarrow> b \<in> B \<Longrightarrow> c \<in> B \<Longrightarrow> b < c \<Longrightarrow> b + \<bar>a b\<bar> \<le> c"
  by (auto simp: blocks_def)

lemma blocks_zero: "blocks a B n \<Longrightarrow> 0 \<in> B"
  by (simp add: blocks_def)

lemma blocks_finite: "blocks a B n \<Longrightarrow> finite B"
proof -
  assume "blocks a B n"
  then have "B \<subseteq> {0..n}" by (fastforce dest: blocksD)
  then show ?thesis by (rule finite_subset) simp
qed

text \<open>Every block but the first has a left neighbour.\<close>

lemma blocks_pred:
  assumes bl: "blocks a B n" and b: "b \<in> B" "b \<noteq> 0"
  obtains c where "c \<in> B" "c + \<bar>a c\<bar> = b"
proof -
  let ?S = "{c \<in> B. c < b}"
  have fin: "finite ?S" using blocks_finite [OF bl] by simp
  have "0 \<in> ?S" using blocks_zero [OF bl] blocks_nonneg [OF bl b(1)] b(2) by auto
  then have ne: "?S \<noteq> {}" by blast
  define c where "c = Max ?S"
  have cS: "c \<in> ?S" unfolding c_def by (rule Max_in [OF fin ne])
  then have le: "c + \<bar>a c\<bar> \<le> b" using blocks_disjoint [OF bl _ b(1)] by simp
  have big: "2 \<le> \<bar>a c\<bar>" using blocks_size [OF bl] cS by simp
  have "c + \<bar>a c\<bar> \<in> B \<or> c + \<bar>a c\<bar> = n" using blocks_succ [OF bl] cS by simp
  moreover have "b < n" using blocks_end [OF bl b(1)] blocks_size [OF bl b(1)] by linarith
  ultimately have "c + \<bar>a c\<bar> \<in> B" using le by auto
  moreover have False if "c + \<bar>a c\<bar> < b" "c + \<bar>a c\<bar> \<in> B"
  proof -
    have "c + \<bar>a c\<bar> \<in> ?S" using that by simp
    then have "c + \<bar>a c\<bar> \<le> c" unfolding c_def by (rule Max_ge [OF fin])
    then show False using big by simp
  qed
  ultimately have "c + \<bar>a c\<bar> = b" using le by fastforce
  with cS that [of c] show ?thesis by blast
qed

text \<open>A write strictly inside a block leaves the tiling alone.\<close>

definition inside :: "(int \<Rightarrow> int) \<Rightarrow> int set \<Rightarrow> int \<Rightarrow> bool" where
  "inside a B k \<longleftrightarrow> (\<exists>b\<in>B. b < k \<and> k < b + \<bar>a b\<bar> - 1)"

lemma inside_not_tag:
  assumes bl: "blocks a B n" and k: "inside a B k" and b: "b \<in> B"
  shows "k \<noteq> b" and "k \<noteq> b + \<bar>a b\<bar> - 1"
proof -
  obtain c where c: "c \<in> B" "c < k" "k < c + \<bar>a c\<bar> - 1" using k by (auto simp: inside_def)
  have "b = c \<or> b < c \<or> c < b" by linarith
  then show "k \<noteq> b" "k \<noteq> b + \<bar>a b\<bar> - 1"
    using c blocks_disjoint [OF bl b c(1)] blocks_disjoint [OF bl c(1) b] blocks_size [OF bl b]
    by auto
qed

lemma blocks_inside_upd:
  assumes bl: "blocks a B n" and k: "inside a B k"
  shows "blocks (a(k := v)) B n" and "\<And>b. b \<in> B \<Longrightarrow> (a(k := v)) b = a b"
proof -
  have tags: "(a(k := v)) b = a b \<and> (a(k := v)) (b + \<bar>a b\<bar> - 1) = a (b + \<bar>a b\<bar> - 1)"
    if "b \<in> B" for b
    using inside_not_tag [OF bl k that] by simp
  then show "\<And>b. b \<in> B \<Longrightarrow> (a(k := v)) b = a b" by blast
  show "blocks (a(k := v)) B n"
    using bl tags unfolding blocks_def by simp
qed

text \<open>Replacing all blocks between two boundaries by one.\<close>

lemma tag_outside: "lo + \<bar>v\<bar> = hi \<Longrightarrow> v \<noteq> 0 \<Longrightarrow> k < lo \<or> hi \<le> k \<Longrightarrow> tag a lo v k = a k"
  by (auto simp: tag_def)

lemma tag_lo [simp]: "tag a lo v lo = v"
  by (simp add: tag_def)

lemma tag_footer [simp]: "tag a lo v (lo + \<bar>v\<bar> - 1) = v"
  by (simp add: tag_def)

lemma blocks_merge:
  assumes bl: "blocks a B n" and lo: "lo \<in> B" and hi: "hi \<in> B \<or> hi = n"
    and v: "lo + \<bar>v\<bar> = hi" "2 \<le> \<bar>v\<bar>"
  shows "blocks (tag a lo v) (B - {lo<..<hi}) n"
    and "\<And>c. c \<in> B - {lo<..<hi} \<Longrightarrow> c \<noteq> lo \<Longrightarrow> tag a lo v c = a c"
proof -
  let ?B = "B - {lo<..<hi}" let ?a = "tag a lo v"
  have v0: "v \<noteq> 0" using v(2) by auto
  have side: "c + \<bar>a c\<bar> \<le> lo \<or> hi \<le> c" if "c \<in> ?B" "c \<noteq> lo" for c
    using that blocks_disjoint [OF bl _ lo, of c] by force
  have out: "?a c = a c \<and> ?a (c + \<bar>a c\<bar> - 1) = a (c + \<bar>a c\<bar> - 1)"
    if "c \<in> ?B" "c \<noteq> lo" for c
    using side [OF that] blocks_size [OF bl, of c] that
    by (auto intro!: tag_outside [OF v(1) v0])
  show keep: "\<And>c. c \<in> ?B \<Longrightarrow> c \<noteq> lo \<Longrightarrow> ?a c = a c" using out by blast
  have hin: "hi \<le> n" using hi blocks_end [OF bl] blocks_size [OF bl] by fastforce
  have one: "0 \<le> b \<and> 2 \<le> \<bar>?a b\<bar> \<and> b + \<bar>?a b\<bar> \<le> n \<and> ?a (b + \<bar>?a b\<bar> - 1) = ?a b \<and>
      (b + \<bar>?a b\<bar> \<in> ?B \<or> b + \<bar>?a b\<bar> = n)" if b: "b \<in> ?B" for b
  proof (cases "b = lo")
    case True
    then show ?thesis
      using v hin hi blocks_nonneg [OF bl lo] by auto
  next
    case False
    have B: "b \<in> B" using b by simp
    have eq: "?a b = a b" "?a (b + \<bar>a b\<bar> - 1) = a (b + \<bar>a b\<bar> - 1)"
      using out [OF b False] by simp_all
    have "b + \<bar>a b\<bar> \<notin> {lo<..<hi}" using side [OF b False] blocks_size [OF bl B] by auto
    then show ?thesis using blocksD [OF bl B] by (simp add: eq)
  qed
  have dis: "b + \<bar>?a b\<bar> \<le> c" if "b \<in> ?B" "c \<in> ?B" "b < c" for b c
  proof (cases "b = lo")
    case True
    then have "hi \<le> c" using that by auto
    then show ?thesis using True v by simp
  next
    case False
    then show ?thesis using keep [OF that(1)] blocks_disjoint [OF bl _ _ that(3)] that by simp
  qed
  have "0 \<in> ?B" using blocks_zero [OF bl] blocks_nonneg [OF bl lo] by auto
  then show "blocks ?a ?B n" using one dis unfolding blocks_def by blast
qed

text \<open>Splitting one block in two.\<close>

lemma tag2_outside:
  assumes "2 \<le> \<bar>v\<bar>" "2 \<le> \<bar>w\<bar>" "k < b \<or> b + \<bar>v\<bar> + \<bar>w\<bar> \<le> k"
  shows "tag (tag a b v) (b + \<bar>v\<bar>) w k = a k"
proof -
  have "k \<noteq> b" "k \<noteq> b + \<bar>v\<bar> - 1" "k \<noteq> b + \<bar>v\<bar>" "k \<noteq> b + \<bar>v\<bar> + \<bar>w\<bar> - 1"
    using assms by linarith+
  then show ?thesis by (simp add: tag_def)
qed

lemma blocks_split:
  assumes bl: "blocks a B n" and b: "b \<in> B"
    and v: "2 \<le> \<bar>v\<bar>" "2 \<le> \<bar>w\<bar>" "\<bar>v\<bar> + \<bar>w\<bar> = \<bar>a b\<bar>"
  shows "blocks (tag (tag a b v) (b + \<bar>v\<bar>) w) (insert (b + \<bar>v\<bar>) B) n"
    and "\<And>c. c \<in> B \<Longrightarrow> c \<noteq> b \<Longrightarrow> tag (tag a b v) (b + \<bar>v\<bar>) w c = a c"
    and "tag (tag a b v) (b + \<bar>v\<bar>) w b = v"
    and "b + \<bar>v\<bar> \<notin> B"
proof -
  let ?m = "b + \<bar>v\<bar>" let ?a = "tag (tag a b v) ?m w" let ?B = "insert ?m B"
  have side: "c + \<bar>a c\<bar> \<le> b \<or> b + \<bar>a b\<bar> \<le> c" if "c \<in> B" "c \<noteq> b" for c
    using that blocks_disjoint [OF bl that(1) b] blocks_disjoint [OF bl b that(1)] by linarith
  show new: "?m \<notin> B" using side [of ?m] v blocks_size [OF bl, of ?m] by force
  show at_b: "?a b = v" using v by (auto simp: tag_def)
  have foot_m: "?a (b + \<bar>a b\<bar> - 1) = w"
    using tag_footer [of "tag a b v" ?m w] v(3) by (metis add.assoc)
  have foot_b: "?a (b + \<bar>v\<bar> - 1) = v" using v by (auto simp: tag_def)
  have out: "?a c = a c \<and> ?a (c + \<bar>a c\<bar> - 1) = a (c + \<bar>a c\<bar> - 1)"
    if "c \<in> B" "c \<noteq> b" for c
  proof -
    have "c < b \<or> b + \<bar>v\<bar> + \<bar>w\<bar> \<le> c"
      "c + \<bar>a c\<bar> - 1 < b \<or> b + \<bar>v\<bar> + \<bar>w\<bar> \<le> c + \<bar>a c\<bar> - 1"
      using side [OF that] blocks_size [OF bl that(1)] v by linarith+
    then show ?thesis using tag2_outside [OF v(1,2)] by simp
  qed
  show keep: "\<And>c. c \<in> B \<Longrightarrow> c \<noteq> b \<Longrightarrow> ?a c = a c" using out by blast
  have one: "0 \<le> c \<and> 2 \<le> \<bar>?a c\<bar> \<and> c + \<bar>?a c\<bar> \<le> n \<and> ?a (c + \<bar>?a c\<bar> - 1) = ?a c \<and>
      (c + \<bar>?a c\<bar> \<in> ?B \<or> c + \<bar>?a c\<bar> = n)" if c: "c \<in> ?B" for c
  proof -
    consider "c = ?m" | "c = b" | "c \<in> B" "c \<noteq> b" using c by blast
    then show ?thesis
    proof cases
      case 1
      then show ?thesis
        using v blocksD [OF bl b] foot_m by (auto simp: add.assoc)
    next
      case 2
      then show ?thesis using v blocksD [OF bl b] at_b foot_b by auto
    next
      case 3
      then show ?thesis using out [OF 3] blocksD [OF bl 3(1)] by simp
    qed
  qed
  have dis: "c + \<bar>?a c\<bar> \<le> d" if cd: "c \<in> ?B" "d \<in> ?B" "c < d" for c d
  proof -
    have sb: "0 < \<bar>a b\<bar>" "0 < \<bar>w\<bar>" using v by linarith+
    consider "c = ?m" "d = ?m" | "c = ?m" "d \<in> B" "d \<noteq> b" | "c = b" "d = ?m"
      | "c = b" "d \<in> B" "d \<noteq> b" | "c \<in> B" "c \<noteq> b" "d = ?m" | "c \<in> B" "c \<noteq> b" "d \<in> B"
      | "c = ?m" "d = b" using cd by blast
    then show ?thesis
    proof cases
      case 2
      then show ?thesis using side [OF 2(2,3)] cd(3) v blocks_size [OF bl 2(2)] by auto
    next
      case 4
      then show ?thesis using side [OF 4(2,3)] at_b v cd(3) blocks_size [OF bl 4(2)] by auto
    next
      case 5
      then show ?thesis using side [OF 5(1,2)] keep [OF 5(1,2)] v cd(3) by auto
    next
      case 6
      then show ?thesis
        using keep [OF 6(1,2)] blocks_disjoint [OF bl 6(1) 6(3) cd(3)] by simp
    qed (use cd v at_b in auto)
  qed
  have "0 \<in> ?B" using blocks_zero [OF bl] by simp
  then show "blocks ?a ?B n" using one dis unfolding blocks_def by blast
qed

section \<open>The free list\<close>

fun hd0 :: "int list \<Rightarrow> int \<Rightarrow> int" where
  "hd0 [] n = n"
| "hd0 (x # xs) n = x"

definition last0 :: "int list \<Rightarrow> int \<Rightarrow> int" where
  "last0 xs q = (if xs = [] then q else last xs)"

fun seg :: "(int \<Rightarrow> int) \<Rightarrow> int \<Rightarrow> int list \<Rightarrow> int \<Rightarrow> bool" where
  "seg a q [] n = True"
| "seg a q (x # xs) n = (a (x + 2) = q \<and> a (x + 1) = hd0 xs n \<and> seg a x xs n)"

lemma hd0_append [simp]: "hd0 (xs @ ys) n = hd0 xs (hd0 ys n)"
  by (cases xs) simp_all

lemma last0_simps [simp]:
  "last0 [] q = q" "last0 (xs @ [x]) q = x" "last0 (x # xs) q = last0 xs x"
  by (simp_all add: last0_def)

lemma seg_append [simp]:
  "seg a q (xs @ ys) n \<longleftrightarrow> seg a q xs (hd0 ys n) \<and> seg a (last0 xs q) ys n"
  by (induction xs arbitrary: q) simp_all

lemma seg_cong:
  "(\<And>x. x \<in> set xs \<Longrightarrow> a' (x + 1) = a (x + 1) \<and> a' (x + 2) = a (x + 2)) \<Longrightarrow>
   seg a' q xs n = seg a q xs n"
  by (induction xs arbitrary: q) auto

lemma hd0_in: "hd0 xs n = n \<or> hd0 xs n \<in> set xs"
  by (cases xs) auto

lemma last0_in: "last0 xs q = q \<or> last0 xs q \<in> set xs"
  by (auto simp: last0_def)

text \<open>Blocks of a free list are at least 4 cells apart, so their links do not overlap.\<close>

definition spaced :: "int list \<Rightarrow> bool" where
  "spaced xs \<longleftrightarrow> distinct xs \<and> (\<forall>x\<in>set xs. \<forall>y\<in>set xs. x < y \<longrightarrow> x + 4 \<le> y)"

lemma seg_set_next:
  assumes "spaced (zs @ [l])" and "seg a q (zs @ [l]) n"
  shows "seg (a(l + 1 := m)) q (zs @ [l]) m"
proof -
  have far: "x + 4 \<le> l \<or> l + 4 \<le> x" if "x \<in> set zs" for x
  proof -
    have "x \<noteq> l" using assms(1) that by (auto simp: spaced_def)
    then show ?thesis using assms(1) that by (auto simp: spaced_def neq_iff)
  qed
  have "seg (a(l + 1 := m)) q zs l = seg a q zs l"
    by (rule seg_cong) (use far in fastforce)
  then show ?thesis using assms(2) by simp
qed

lemma seg_set_prev:
  assumes "spaced (y # ws)" and "seg a q (y # ws) n"
  shows "seg (a(y + 2 := p)) p (y # ws) n"
proof -
  have far: "x + 4 \<le> y \<or> y + 4 \<le> x" if "x \<in> set ws" for x
  proof -
    have "x \<noteq> y" using assms(1) that by (auto simp: spaced_def)
    then show ?thesis using assms(1) that by (auto simp: spaced_def neq_iff)
  qed
  have "seg (a(y + 2 := p)) y ws n = seg a y ws n"
    by (rule seg_cong) (use far in fastforce)
  then show ?thesis using assms(2) by simp
qed

lemma spaced_append:
  "spaced (xs @ ys) \<Longrightarrow> spaced xs \<and> spaced ys"
  by (auto simp: spaced_def)

lemma spaced_sublist:
  "spaced fl \<Longrightarrow> distinct xs \<Longrightarrow> set xs \<subseteq> set fl \<Longrightarrow> spaced xs"
  unfolding spaced_def by blast

lemma spaced_far:
  "spaced fl \<Longrightarrow> x \<in> set fl \<Longrightarrow> y \<in> set fl \<Longrightarrow> x \<noteq> y \<Longrightarrow> x + 4 \<le> y \<or> y + 4 \<le> x"
  unfolding spaced_def by (metis linorder_neq_iff)

definition flist :: "heap \<Rightarrow> int list \<Rightarrow> bool" where
  "flist h fl \<longleftrightarrow> seg (arr h) 0 fl 0 \<and> avail h = hd0 fl 0"

text \<open>What no operation changes.\<close>

definition same_frame :: "heap \<Rightarrow> heap \<Rightarrow> bool" where
  "same_frame h h' \<longleftrightarrow> hbase h' = hbase h \<and> hlen h' = hlen h \<and> safe h' = safe h \<and>
     theLock h' = theLock h \<and> held h' = held h"

definition links :: "int list \<Rightarrow> int set" where
  "links fl = (\<lambda>x. x + 1) ` set fl \<union> (\<lambda>x. x + 2) ` set fl"

text \<open>The free blocks of a list, as blocks of a tiling.\<close>

definition free_in :: "(int \<Rightarrow> int) \<Rightarrow> int set \<Rightarrow> int list \<Rightarrow> bool" where
  "free_in a B fl \<longleftrightarrow> distinct fl \<and> (\<forall>x\<in>set fl. x \<in> B \<and> x \<noteq> 0 \<and> 4 \<le> a x)"

lemma free_in_spaced:
  assumes "blocks a B n" and "free_in a B fl"
  shows "spaced fl"
  unfolding spaced_def
proof (intro conjI ballI impI)
  show "distinct fl" using assms(2) by (simp add: free_in_def)
  fix x y assume "x \<in> set fl" "y \<in> set fl" "x < y"
  then show "x + 4 \<le> y"
    using blocks_disjoint [OF assms(1), of x y] assms(2) by (fastforce simp: free_in_def)
qed

lemma free_links_inside:
  assumes "blocks a B n" and "free_in a B fl" and "k \<in> links fl"
  shows "inside a B k"
  using assms(2,3) by (force simp: links_def free_in_def inside_def)

lemma sanity_ok:
  assumes "blocks (arr h) B (hlen h)" and "i = 0 \<or> i \<in> B"
  shows "sanity h i = Inr i"
proof (cases "i = 0")
  case True
  then show ?thesis by (simp add: sanity_def)
next
  case False
  then have "i \<in> B" using assms(2) by simp
  from blocksD [OF assms(1) this] show ?thesis
    by (auto simp: sanity_def footerFromHeader_def size_h_def Let_def)
qed

section \<open>The list operations\<close>

definition unlink :: "(int \<Rightarrow> int) \<Rightarrow> int \<Rightarrow> int \<Rightarrow> int \<Rightarrow> int" where
  "unlink a p n =
     (let a1 = (if p = 0 then a else a(p + 1 := n)) in if n \<noteq> 0 then a1(n + 2 := p) else a1)"

lemma remove_h_unlink:
  assumes "prev_h h i = Inr p" "next_h h i = Inr n"
  shows "remove_h h i =
    Inr (h\<lparr>arr := unlink (arr h) p n, avail := (if p = 0 then n else avail h)\<rparr>)"
  using assms by (simp add: remove_h_def unlink_def setNext_def setPrev_def Let_def)

lemma unlink_seg:
  assumes seg: "seg a 0 (xs @ i # ys) 0" and sp: "spaced (xs @ i # ys)"
    and nz: "0 \<notin> set (xs @ i # ys)"
  shows "seg (unlink a (last0 xs 0) (hd0 ys 0)) 0 (xs @ ys) 0"
proof -
  have sp': "spaced (xs @ ys)" by (rule spaced_sublist [OF sp]) (use sp in \<open>auto simp: spaced_def\<close>)
  have sx: "seg a 0 xs i" and sy: "seg a i ys 0" using seg by simp_all
  define a1 where "a1 = (if last0 xs 0 = 0 then a else a(last0 xs 0 + 1 := hd0 ys 0))"
  have x1: "seg a1 0 xs (hd0 ys 0) \<and> seg a1 i ys 0"
  proof (cases xs rule: rev_exhaust)
    case Nil
    then show ?thesis using sy by (simp add: a1_def)
  next
    case (snoc zs l)
    have l0: "l \<noteq> 0" using nz snoc by auto
    have "seg a1 0 xs (hd0 ys 0)"
      using seg_set_next [of zs l a 0 i "hd0 ys 0"] sx snoc l0 spaced_append [OF sp']
      by (simp add: a1_def)
    moreover have "seg a1 i ys 0 = seg a i ys 0"
    proof (rule seg_cong)
      fix y assume y: "y \<in> set ys"
      have "y \<noteq> l" using sp' y snoc by (auto simp: spaced_def)
      then have "y + 4 \<le> l \<or> l + 4 \<le> y"
        using spaced_far [OF sp', of y l] y snoc by simp
      then show "a1 (y + 1) = a (y + 1) \<and> a1 (y + 2) = a (y + 2)"
        by (auto simp: a1_def snoc)
    qed
    ultimately show ?thesis using sy by simp
  qed
  have un: "unlink a (last0 xs 0) (hd0 ys 0) =
      (if hd0 ys 0 \<noteq> 0 then a1(hd0 ys 0 + 2 := last0 xs 0) else a1)"
    by (simp add: unlink_def a1_def Let_def)
  show ?thesis
  proof (cases ys)
    case Nil
    then show ?thesis using x1 un by simp
  next
    case (Cons y ws)
    have y0: "y \<noteq> 0" using nz Cons by auto
    let ?a2 = "a1(y + 2 := last0 xs 0)"
    have "seg ?a2 0 xs y = seg a1 0 xs y"
    proof (rule seg_cong)
      fix x assume x: "x \<in> set xs"
      have "x \<noteq> y" using sp' x Cons by (auto simp: spaced_def)
      then have "x + 4 \<le> y \<or> y + 4 \<le> x"
        using spaced_far [OF sp', of x y] x Cons by simp
      then show "?a2 (x + 1) = a1 (x + 1) \<and> ?a2 (x + 2) = a1 (x + 2)" by auto
    qed
    moreover have "seg ?a2 (last0 xs 0) (y # ws) 0"
      by (rule seg_set_prev [of _ _ _ i]) (use spaced_append [OF sp'] x1 Cons in auto)
    ultimately show ?thesis using x1 un y0 Cons by simp
  qed
qed

lemma unlink_frame:
  assumes "k \<notin> links (xs @ ys)"
  shows "unlink a (last0 xs 0) (hd0 ys 0) k = a k"
proof -
  have p: "last0 xs 0 \<noteq> 0 \<Longrightarrow> k \<noteq> last0 xs 0 + 1"
    using assms last0_in [of xs 0] by (auto simp: links_def)
  have n: "hd0 ys 0 \<noteq> 0 \<Longrightarrow> k \<noteq> hd0 ys 0 + 2"
    using assms hd0_in [of ys 0] by (auto simp: links_def)
  show ?thesis using p n by (simp add: unlink_def Let_def)
qed

lemma blocks_cong_tags:
  assumes bl: "blocks a B n" and eq: "\<And>k. \<not> inside a B k \<Longrightarrow> a' k = a k"
  shows "blocks a' B n" and "\<And>b. b \<in> B \<Longrightarrow> a' b = a b"
proof -
  have tags: "a' b = a b \<and> a' (b + \<bar>a b\<bar> - 1) = a (b + \<bar>a b\<bar> - 1)" if "b \<in> B" for b
    using eq inside_not_tag [OF bl _ that] by metis
  then show "\<And>b. b \<in> B \<Longrightarrow> a' b = a b" by blast
  show "blocks a' B n" using bl tags unfolding blocks_def by simp
qed

lemma remove_spec:
  assumes bl: "blocks (arr h) B (hlen h)" and fr: "free_in (arr h) B (xs @ i # ys)"
    and li: "flist h (xs @ i # ys)"
  obtains h' where "remove_h h i = Inr h'" "same_frame h h'" "flist h' (xs @ ys)"
    "blocks (arr h') B (hlen h)" "\<And>b. b \<in> B \<Longrightarrow> arr h' b = arr h b"
    "\<And>k. k \<notin> links (xs @ ys) \<Longrightarrow> arr h' k = arr h k"
proof -
  let ?p = "last0 xs 0" and ?n = "hd0 ys 0"
  let ?a = "unlink (arr h) ?p ?n"
  have seg: "seg (arr h) 0 (xs @ i # ys) 0" and av: "avail h = hd0 (xs @ i # ys) 0"
    using li by (simp_all add: flist_def)
  have p: "prev_h h i = Inr ?p"
    unfolding prev_h_def using seg fr last0_in [of xs 0]
    by (auto intro!: sanity_ok [OF bl] simp: free_in_def)
  have n: "next_h h i = Inr ?n"
    unfolding next_h_def using seg fr hd0_in [of ys 0]
    by (auto intro!: sanity_ok [OF bl] simp: free_in_def)
  have nz: "0 \<notin> set (xs @ i # ys)" using fr by (auto simp: free_in_def)
  have nx: "?p = 0 \<Longrightarrow> xs = []" using nz last0_in [of xs 0] by (cases xs rule: rev_exhaust) auto
  let ?h = "h\<lparr>arr := ?a, avail := (if ?p = 0 then ?n else avail h)\<rparr>"
  have fr': "free_in (arr h) B (xs @ ys)" using fr by (auto simp: free_in_def)
  have frame: "k \<notin> links (xs @ ys) \<Longrightarrow> ?a k = arr h k" for k by (rule unlink_frame)
  then have cong: "\<not> inside (arr h) B k \<Longrightarrow> ?a k = arr h k" for k
    using free_links_inside [OF bl fr'] by blast
  have "seg ?a 0 (xs @ ys) 0" by (rule unlink_seg [OF seg free_in_spaced [OF bl fr] nz])
  moreover have "(if ?p = 0 then ?n else avail h) = hd0 (xs @ ys) 0"
    using nx av by (cases xs) (auto simp: last0_def split: if_splits)
  ultimately have "flist ?h (xs @ ys)" by (simp add: flist_def)
  then show ?thesis
    using that [of ?h] remove_h_unlink [OF p n] blocks_cong_tags [OF bl cong] frame
    by (simp add: same_frame_def)
qed

text \<open>\<open>makeTaken\<close> writes the two tags of a block.\<close>

lemma makeTaken_arr:
  "s \<ge> 0 \<Longrightarrow> makeTaken h i s = h\<lparr>arr := tag (arr h) i (- s)\<rparr>"
  by (simp add: makeTaken_def footerFromHeader_def size_h_def tag_def Let_def)

text \<open>\<open>makeAvail\<close> writes the two tags and pushes the block on the list.\<close>

lemma makeAvail_spec:
  assumes bl: "blocks (tag (arr h) i s) B (hlen h)" and i: "i \<in> B" "i \<noteq> 0" and s: "4 \<le> s"
    and fr: "free_in (tag (arr h) i s) B fl" and new: "i \<notin> set fl" and li: "flist h fl"
  shows "same_frame h (makeAvail h i s)" and "flist (makeAvail h i s) (i # fl)"
    and "blocks (arr (makeAvail h i s)) B (hlen h)"
    and "\<And>b. b \<in> B \<Longrightarrow> arr (makeAvail h i s) b = tag (arr h) i s b"
    and "\<And>k. k \<notin> links (i # fl) \<Longrightarrow> arr (makeAvail h i s) k = tag (arr h) i s k"
proof -
  let ?t = "tag (arr h) i s" let ?m = "makeAvail h i s"
  define a1 where "a1 = ?t(i + 1 := avail h, i + 2 := 0)"
  have arr_m: "arr ?m = (if avail h \<noteq> 0 then a1(avail h + 2 := i) else a1)"
    and av_m: "avail ?m = i"
    using s by (simp_all add: makeAvail_def footerFromHeader_def size_h_def tag_def a1_def
        setNext_def setPrev_def Let_def)
  show "same_frame h ?m"
    by (simp add: makeAvail_def same_frame_def setNext_def setPrev_def Let_def)
  have fr2: "free_in ?t B (i # fl)" using fr i s new by (auto simp: free_in_def)
  have sp: "spaced (i # fl)" by (rule free_in_spaced [OF bl fr2])
  have av: "avail h = 0 \<or> avail h \<in> set fl" using li hd0_in [of fl 0] by (simp add: flist_def)
  show frame: "arr ?m k = ?t k" if "k \<notin> links (i # fl)" for k
    using that av by (auto simp: arr_m a1_def links_def)
  then have cong: "\<not> inside ?t B k \<Longrightarrow> arr ?m k = ?t k" for k
    using free_links_inside [OF bl fr2] by blast
  show "blocks (arr ?m) B (hlen h)" "\<And>b. b \<in> B \<Longrightarrow> arr ?m b = ?t b"
    using blocks_cong_tags [OF bl cong] by blast+
  have seg_t: "seg ?t 0 fl 0"
  proof -
    have "seg ?t 0 fl 0 = seg (arr h) 0 fl 0"
    proof (rule seg_cong)
      fix x assume x: "x \<in> set fl"
      then have "x + 1 \<in> links fl" "x + 2 \<in> links fl" by (auto simp: links_def)
      then have "inside ?t B (x + 1)" "inside ?t B (x + 2)"
        using free_links_inside [OF bl fr] by blast+
      then have "x + 1 \<noteq> i" "x + 1 \<noteq> i + \<bar>s\<bar> - 1" "x + 2 \<noteq> i" "x + 2 \<noteq> i + \<bar>s\<bar> - 1"
        using inside_not_tag [OF bl _ i(1)] by force+
      then show "?t (x + 1) = arr h (x + 1) \<and> ?t (x + 2) = arr h (x + 2)"
        by (simp add: tag_def)
    qed
    then show ?thesis using li by (simp add: flist_def)
  qed
  have far: "x + 4 \<le> i \<or> i + 4 \<le> x" if "x \<in> set fl" for x
    using spaced_far [OF sp, of x i] that new by auto
  have seg1: "seg a1 0 fl 0"
  proof -
    have "seg a1 0 fl 0 = seg ?t 0 fl 0"
      by (rule seg_cong) (use far in \<open>fastforce simp: a1_def\<close>)
    then show ?thesis using seg_t by simp
  qed
  show "flist ?m (i # fl)"
  proof (cases fl)
    case Nil
    then show ?thesis using li by (simp add: flist_def arr_m av_m a1_def)
  next
    case (Cons y ws)
    have y: "avail h = y" "y \<noteq> 0" using li Cons fr by (auto simp: flist_def free_in_def)
    have "seg (a1(y + 2 := i)) i (y # ws) 0"
      by (rule seg_set_prev [of _ _ _ 0])
         (use sp seg1 Cons in \<open>auto simp: spaced_def\<close>)
    moreover have "y + 2 \<noteq> i + 1" "y + 2 \<noteq> i + 2" using far [of y] Cons by auto
    ultimately show ?thesis using y Cons by (simp add: flist_def arr_m av_m a1_def)
  qed
qed

end
