(* ===== verification/Heap_Ops.thy ===== *)
theory Heap_Ops
  imports Heap_Inv
begin

text \<open>
  The invariant of the kernel heap and what \<open>malloc\<close>, \<open>free\<close> and \<open>heapInit\<close>
  do to it.  Ghost arguments: \<open>B\<close> the block starts, \<open>fl\<close> the free list.
\<close>

section \<open>The invariant\<close>

definition heap_inv :: "heap \<Rightarrow> int set \<Rightarrow> int list \<Rightarrow> bool" where
  "heap_inv h B fl \<longleftrightarrow>
     blocks (arr h) B (hlen h) \<and>
     arr h 0 = -2 \<and> hlen h - 2 \<in> B \<and> 0 < hlen h - 2 \<and> arr h (hlen h - 2) = -2 \<and>
     (\<forall>b\<in>B. 0 < arr h b \<longrightarrow> 4 \<le> arr h b \<and> arr h (b + arr h b) < 0) \<and>
     (\<forall>b\<in>B. b \<noteq> 0 \<and> b \<noteq> hlen h - 2 \<longrightarrow> 4 \<le> \<bar>arr h b\<bar>) \<and>
     set fl = {b \<in> B. 0 < arr h b} \<and> distinct fl \<and> flist h fl \<and>
     uint (hbase h) + 4 * hlen h \<le> 2 ^ 32"

definition live :: "heap \<Rightarrow> int set \<Rightarrow> int set" where
  "live h B = {b \<in> B. arr h b < 0}"

text \<open>The cells of the live blocks, tags included, are the same in both heaps.\<close>

definition keeps_live :: "heap \<Rightarrow> heap \<Rightarrow> int set \<Rightarrow> bool" where
  "keeps_live h h' L \<longleftrightarrow> (\<forall>b\<in>L. \<forall>k. b \<le> k \<and> k < b + \<bar>arr h b\<bar> \<longrightarrow> arr h' k = arr h k)"

lemma heap_invD:
  assumes "heap_inv h B fl"
  shows heap_inv_blocks: "blocks (arr h) B (hlen h)"
    and heap_inv_first: "arr h 0 = -2"
    and heap_inv_last: "hlen h - 2 \<in> B" "0 < hlen h - 2" "arr h (hlen h - 2) = -2"
    and heap_inv_free: "\<And>b. b \<in> B \<Longrightarrow> 0 < arr h b \<Longrightarrow> 4 \<le> arr h b \<and> arr h (b + arr h b) < 0"
    and heap_inv_big: "\<And>b. b \<in> B \<Longrightarrow> b \<noteq> 0 \<Longrightarrow> b \<noteq> hlen h - 2 \<Longrightarrow> 4 \<le> \<bar>arr h b\<bar>"
    and heap_inv_fl: "set fl = {b \<in> B. 0 < arr h b}" "distinct fl" "flist h fl"
    and heap_inv_fits: "uint (hbase h) + 4 * hlen h \<le> 2 ^ 32"
  using assms by (auto simp: heap_inv_def)

lemma heap_inv_held [simp]: "heap_inv (h\<lparr>held := x\<rparr>) B fl = heap_inv h B fl"
  by (simp add: heap_inv_def flist_def)

lemma heap_inv_free_in:
  "heap_inv h B fl \<Longrightarrow> free_in (arr h) B fl"
  unfolding free_in_def using heap_invD [of h B fl] by fastforce

lemma live_held [simp]: "live (h\<lparr>held := x\<rparr>) B = live h B"
  by (simp add: live_def)

lemma keeps_live_held [simp]: "keeps_live (h\<lparr>held := x\<rparr>) h' L = keeps_live h h' L"
  by (simp add: keeps_live_def)

text \<open>A block before the last has its right neighbour among the blocks.\<close>

lemma heap_inv_right:
  assumes inv: "heap_inv h B fl" and b: "b \<in> B" "b \<noteq> hlen h - 2"
  shows "b + \<bar>arr h b\<bar> \<in> B"
proof -
  note bl = heap_inv_blocks [OF inv] and la = heap_inv_last [OF inv]
  have "b < hlen h - 2 \<or> hlen h - 2 < b" using b by linarith
  then have "b + \<bar>arr h b\<bar> \<le> hlen h - 2"
    using blocks_disjoint [OF bl b(1) la(1)] blocks_disjoint [OF bl la(1) b(1)]
      blocks_end [OF bl b(1)] blocks_size [OF bl b(1)] la(3) by auto
  then show ?thesis using blocks_succ [OF bl b(1)] by auto
qed

lemma blocks_same_end:
  assumes bl: "blocks a B n" and "b \<in> B" "c \<in> B" and eq: "b + \<bar>a b\<bar> = c + \<bar>a c\<bar>"
  shows "b = c"
  using blocks_disjoint [OF bl assms(2,3)] blocks_disjoint [OF bl assms(3,2)]
    blocks_size [OF bl assms(2)] blocks_size [OF bl assms(3)] eq
  by (metis abs_ge_zero add_le_same_cancel1 linorder_neqE_linordered_idom not_numeral_le_zero order_trans)

lemma blocks_between:
  assumes bl: "blocks a B n" and b: "b \<in> B" and c: "c \<in> B"
  shows "c \<notin> {b<..<b + \<bar>a b\<bar>}"
  using blocks_disjoint [OF bl b c] by auto

text \<open>Rebuilding the invariant from a tiling, its tags and the list.\<close>

lemma heap_invI:
  assumes "blocks (arr h) B (hlen h)" "arr h 0 = -2" "hlen h - 2 \<in> B" "0 < hlen h - 2"
    "arr h (hlen h - 2) = -2"
    "\<And>b. b \<in> B \<Longrightarrow> 0 < arr h b \<Longrightarrow> 4 \<le> arr h b \<and> arr h (b + arr h b) < 0"
    "\<And>b. b \<in> B \<Longrightarrow> b \<noteq> 0 \<Longrightarrow> b \<noteq> hlen h - 2 \<Longrightarrow> 4 \<le> \<bar>arr h b\<bar>"
    "set fl = {b \<in> B. 0 < arr h b}" "distinct fl" "flist h fl"
    "uint (hbase h) + 4 * hlen h \<le> 2 ^ 32"
  shows "heap_inv h B fl"
  using assms by (auto simp: heap_inv_def)

section \<open>The guard\<close>

lemma guard_enter_free:
  "\<not> held h \<Longrightarrow> guard_enter h = Some (h\<lparr>held := (theLock h \<noteq> 0)\<rparr>)"
  by (simp add: guard_enter_def)

lemma guard_leave_eq:
  "same_frame (h\<lparr>held := (theLock h \<noteq> 0)\<rparr>) h' \<Longrightarrow> \<not> held h \<Longrightarrow> same_frame h (guard_leave h')"
  by (auto simp: same_frame_def guard_leave_def)

lemma guard_leave_arr [simp]:
  "arr (guard_leave h) = arr h" "hlen (guard_leave h) = hlen h" "hbase (guard_leave h) = hbase h"
  "avail (guard_leave h) = avail h" "theLock (guard_leave h) = theLock h"
  by (simp_all add: guard_leave_def)

lemma guard_leave_live [simp]:
  "live (guard_leave h) B = live h B" "keeps_live h0 (guard_leave h) L = keeps_live h0 h L"
  by (simp_all add: live_def keeps_live_def)

lemma guard_leave_inv [simp]: "heap_inv (guard_leave h) B fl = heap_inv h B fl"
  by (simp add: heap_inv_def flist_def)

section \<open>The search loop\<close>

text \<open>The reference: the smallest of the first 20 blocks of the list that are big enough,
  the earliest of them when several have its size.\<close>

definition take_smaller :: "(int \<Rightarrow> int) \<Rightarrow> int \<Rightarrow> int \<times> int \<Rightarrow> int \<times> int" where
  "take_smaller a p best = (case best of (mx, it) \<Rightarrow> if a p < mx then (a p, p) else (mx, it))"

lemma take_smaller_apply [simp]:
  "take_smaller a p (mx, it) = (if a p < mx then (a p, p) else (mx, it))"
  by (simp add: take_smaller_def)

definition candidates :: "(int \<Rightarrow> int) \<Rightarrow> int \<Rightarrow> int list \<Rightarrow> int list" where
  "candidates a ints fl = take 20 (filter (\<lambda>p. ints \<le> a p) fl)"

lemma malloc_scan_fold:
  assumes bl: "blocks (arr h) B (hlen h)" and fr: "free_in (arr h) B fl"
    and seg: "seg (arr h) q fl 0" and cd: "0 < cd"
  shows "malloc_scan h ints (int cd) (hd0 fl 0) mx it =
    Some (Inr (fold (take_smaller (arr h)) (take cd (filter (\<lambda>p. ints \<le> arr h p) fl)) (mx, it)))"
  using fr seg cd
proof (induction fl arbitrary: q cd mx it)
  case Nil
  then show ?case by (simp add: malloc_scan.simps)
next
  case (Cons x xs)
  have x: "x \<in> B" "x \<noteq> 0" "4 \<le> arr h x" using Cons.prems(1) by (auto simp: free_in_def)
  have fr': "free_in (arr h) B xs" using Cons.prems(1) by (auto simp: free_in_def)
  have nx: "next_h h x = Inr (hd0 xs 0)"
    unfolding next_h_def using Cons.prems(2) hd0_in [of xs 0] fr'
    by (auto intro!: sanity_ok [OF bl] simp: free_in_def)
  have seg': "seg (arr h) x xs 0" using Cons.prems(2) by simp
  note step = malloc_scan.simps [of h ints "int cd" x mx it]
  have av: "isAvail h x" "size_h h x = arr h x" using x by (simp_all add: isAvail_def size_h_def)
  show ?case
  proof (cases "ints \<le> arr h x")
    case False
    then show ?thesis
      using step x(2) av nx Cons.IH [OF fr' seg' Cons.prems(3)] by simp
  next
    case True
    obtain c where c: "cd = Suc c" using Cons.prems(3) by (cases cd) auto
    show ?thesis
    proof (cases c)
      case 0
      then show ?thesis
        using step x(2) av True c by (simp add: Let_def)
    next
      case (Suc d)
      then show ?thesis
        using step x(2) av True c nx Cons.IH [OF fr' seg', of c]
        by (simp add: Let_def)
    qed
  qed
qed

lemma fold_take_smaller:
  assumes "fold (take_smaller a) cs (m0, i0) = (mx, it)"
  shows "mx \<le> m0 \<and> (\<forall>c\<in>set cs. mx \<le> a c) \<and>
    ((mx, it) = (m0, i0) \<or> (it \<in> set cs \<and> mx = a it \<and> mx < m0))"
  using assms
proof (induction cs arbitrary: m0 i0)
  case Nil
  then show ?case by simp
next
  case (Cons c cs)
  show ?case
  proof (cases "a c < m0")
    case True
    then have "fold (take_smaller a) cs (a c, c) = (mx, it)"
      using Cons.prems by simp
    from Cons.IH [OF this] True show ?thesis by auto
  next
    case False
    then have "fold (take_smaller a) cs (m0, i0) = (mx, it)"
      using Cons.prems by simp
    from Cons.IH [OF this] False show ?thesis by auto
  qed
qed

lemma heap_inv_small:
  assumes "heap_inv h B fl"
  shows "hlen h \<le> 2 ^ 30"
proof -
  have "4 * hlen h \<le> 2 ^ 32" using heap_inv_fits [OF assms] uint_nonnegative [of "hbase h"] by linarith
  then show ?thesis by simp
qed

lemma scan_result:
  assumes inv: "heap_inv h B fl"
    and res: "fold (take_smaller (arr h)) (candidates (arr h) ints fl) (0x7FFFFFFF, 0) = (mx, it)"
  shows "if it = 0 then candidates (arr h) ints fl = []
    else it \<in> set fl \<and> ints \<le> arr h it \<and> mx = arr h it"
proof -
  let ?cs = "candidates (arr h) ints fl"
  have sub: "set ?cs \<subseteq> {p \<in> set fl. ints \<le> arr h p}"
    by (auto simp: candidates_def dest: in_set_takeD)
  have small: "arr h c < 0x7FFFFFFF" and nz: "c \<noteq> 0" if "c \<in> set fl" for c
  proof -
    have c: "c \<in> B" "0 < arr h c" using heap_inv_fl(1) [OF inv] that by auto
    have "c + \<bar>arr h c\<bar> \<le> hlen h" "0 \<le> c"
      using blocks_end [OF heap_inv_blocks [OF inv] c(1)]
        blocks_nonneg [OF heap_inv_blocks [OF inv] c(1)] by auto
    then show "arr h c < 0x7FFFFFFF" using heap_inv_small [OF inv] c by simp
    show "c \<noteq> 0" using c heap_inv_first [OF inv] by auto
  qed
  from fold_take_smaller [OF res]
  have r: "\<forall>c\<in>set ?cs. mx \<le> arr h c" "(mx, it) = (0x7FFFFFFF, 0) \<or> (it \<in> set ?cs \<and> mx = arr h it)"
    by auto
  from r(2) show ?thesis
  proof
    assume 0: "(mx, it) = (0x7FFFFFFF, 0)"
    have "set ?cs = {}"
    proof (rule ccontr)
      assume "set ?cs \<noteq> {}"
      then obtain c where "c \<in> set ?cs" by (meson equals0I)
      then show False using r(1) small [of c] sub 0 by force
    qed
    then show ?thesis using 0 by simp
  next
    assume "it \<in> set ?cs \<and> mx = arr h it"
    then show ?thesis using sub nz by auto
  qed
qed

lemma malloc_scan_inv:
  assumes inv: "heap_inv h B fl"
  shows "malloc_scan h ints 20 (avail h) 0x7FFFFFFF 0 =
    Some (Inr (fold (take_smaller (arr h)) (candidates (arr h) ints fl) (0x7FFFFFFF, 0)))"
proof -
  have li: "seg (arr h) 0 fl 0" "avail h = hd0 fl 0"
    using heap_inv_fl(3) [OF inv] by (simp_all add: flist_def)
  show ?thesis
    using malloc_scan_fold [OF heap_inv_blocks [OF inv] heap_inv_free_in [OF inv] li(1), of 20]
    by (simp add: li(2) candidates_def)
qed

section \<open>Taking a block\<close>

text \<open>\<open>carve h it ints s\<close>: what \<open>malloc\<close> does with the chosen block.\<close>

definition carve :: "heap \<Rightarrow> int \<Rightarrow> int \<Rightarrow> int \<Rightarrow> heap" where
  "carve h it ints s =
     (if s - ints \<ge> 4 then makeAvail (makeTaken h it ints) (it + ints) (s - ints)
      else makeTaken h it s)"

text \<open>The heap between \<open>remove\<close> and the retagging: the block is out of the list.\<close>

lemma heap_inv_remove:
  assumes inv: "heap_inv h B fl" and i: "i \<in> set fl"
  obtains h' fl' where "remove_h h i = Inr h'" "same_frame h h'" "flist h' fl'"
    "set fl' = set fl - {i}" "distinct fl'" "blocks (arr h') B (hlen h)"
    "\<And>b. b \<in> B \<Longrightarrow> arr h' b = arr h b"
    "\<And>k. k \<notin> links fl' \<Longrightarrow> arr h' k = arr h k"
proof -
  obtain xs ys where fl: "fl = xs @ i # ys" using i by (meson split_list)
  have d: "distinct fl" by (rule heap_inv_fl(2) [OF inv])
  have fr: "free_in (arr h) B (xs @ i # ys)" using heap_inv_free_in [OF inv] fl by simp
  have li: "flist h (xs @ i # ys)" using heap_inv_fl(3) [OF inv] fl by simp
  obtain h' where h': "remove_h h i = Inr h'" "same_frame h h'" "flist h' (xs @ ys)"
    "blocks (arr h') B (hlen h)" "\<And>b. b \<in> B \<Longrightarrow> arr h' b = arr h b"
    "\<And>k. k \<notin> links (xs @ ys) \<Longrightarrow> arr h' k = arr h k"
    using remove_spec [OF heap_inv_blocks [OF inv] fr li] by blast
  show ?thesis
    by (rule that [OF h'(1,2,3) _ _ h'(4,5,6)]) (use d fl in auto)
qed

text \<open>Links of free blocks are outside every other block.\<close>

lemma link_outside:
  assumes bl: "blocks a B n" and fr: "\<forall>x\<in>set fl. x \<in> B \<and> 4 \<le> a x"
    and c: "c \<in> B" "c \<notin> set fl" and k: "c \<le> k" "k < c + \<bar>a c\<bar>"
  shows "k \<notin> links fl"
proof
  assume "k \<in> links fl"
  then obtain x where x: "x \<in> set fl" "k = x + 1 \<or> k = x + 2" by (auto simp: links_def)
  then have xB: "x \<in> B" "4 \<le> a x" "x \<noteq> c" using fr c by auto
  then have "x < c \<or> c < x" by linarith
  then show False
    using blocks_disjoint [OF bl xB(1) c(1)] blocks_disjoint [OF bl c(1) xB(1)] x k xB by auto
qed

lemma carve_inv:
  assumes inv: "heap_inv h B fl" and i: "it \<in> set fl" "ints \<le> arr h it" "4 \<le> ints"
    and h2: "remove_h h it = Inr h2"
  obtains B' fl' where "heap_inv (carve h2 it ints (arr h it)) B' fl'"
    "same_frame h (carve h2 it ints (arr h it))"
    "live (carve h2 it ints (arr h it)) B' = insert it (live h B)"
    "keeps_live h (carve h2 it ints (arr h it)) (live h B)"
    "it \<in> B'" "arr (carve h2 it ints (arr h it)) it \<le> - ints"
    "\<And>k. k < 0 \<or> hlen h \<le> k \<Longrightarrow> arr (carve h2 it ints (arr h it)) k = arr h k"
proof -
  note bl = heap_inv_blocks [OF inv] and la = heap_inv_last [OF inv]
  obtain fl2 where r: "same_frame h h2" "flist h2 fl2" "set fl2 = set fl - {it}" "distinct fl2"
    "blocks (arr h2) B (hlen h)" "\<And>b. b \<in> B \<Longrightarrow> arr h2 b = arr h b"
    "\<And>k. k \<notin> links fl2 \<Longrightarrow> arr h2 k = arr h k"
    using heap_inv_remove [OF inv i(1)] h2 by (metis Inr_inject)
  let ?s = "arr h it" let ?h3 = "carve h2 it ints ?s"
  have itB: "it \<in> B" "0 < ?s" using i(1) heap_inv_fl(1) [OF inv] by auto
  have s2: "arr h2 it = ?s" by (rule r(6) [OF itB(1)])
  have fl2: "\<And>x. x \<in> set fl2 \<Longrightarrow> x \<in> B \<and> x \<noteq> it \<and> 0 < arr h x"
    using r(3) heap_inv_fl(1) [OF inv] by auto
  have fl4: "\<forall>x\<in>set fl2. x \<in> B \<and> 4 \<le> arr h x" using fl2 heap_inv_free [OF inv] by blast
  have it0: "it \<noteq> 0" "it \<noteq> hlen h - 2" using itB heap_inv_first [OF inv] la by auto
  have succ: "it + ?s \<in> B" "arr h (it + ?s) < 0"
    using heap_inv_right [OF inv itB(1) it0(2)] heap_inv_free [OF inv itB(1,2)] itB by auto
  have len2: "hlen h2 = hlen h" using r(1) by (simp add: same_frame_def)
  have z: "0 \<in> B" by (rule blocks_zero [OF bl])
  have nb: "0 \<le> b" if "b \<in> B" for b using blocks_nonneg [OF bl that] .
  have lnk: "k \<notin> links fl2" if "k < 0 \<or> hlen h \<le> k" for k
  proof
    assume "k \<in> links fl2"
    then obtain x where "x \<in> set fl2" "k = x + 1 \<or> k = x + 2" by (auto simp: links_def)
    then show False
      using fl4 blocks_end [OF bl, of x] nb [of x] that by force
  qed
  have out2: "arr h2 k = arr h k" if "k < 0 \<or> hlen h \<le> k" for k by (rule r(7) [OF lnk [OF that]])
  have endit: "it + ?s \<le> hlen h" "0 < it" using blocks_end [OF bl itB(1)] itB it0 nb [OF itB(1)] by auto
  have keep_k: "k < it \<or> it + ?s \<le> k" "k \<notin> links fl2"
    if "b \<in> live h B" "b \<le> k" "k < b + \<bar>arr h b\<bar>" for b k
  proof -
    have b: "b \<in> B" "b \<noteq> it" using that(1) itB by (auto simp: live_def)
    then have "b < it \<or> it < b" by linarith
    then show "k < it \<or> it + ?s \<le> k"
      using blocks_disjoint [OF bl b(1) itB(1)] blocks_disjoint [OF bl itB(1) b(1)] that itB by auto
    show "k \<notin> links fl2"
      by (rule link_outside [OF bl fl4 b(1) _ that(2,3)])
         (use that(1) fl2 in \<open>fastforce simp: live_def\<close>)
  qed
  show ?thesis
  proof (cases "?s - ints \<ge> 4")
    case True
    let ?x = "?s - ints" let ?m = "it + ints"
    let ?t = "tag (tag (arr h2) it (- ints)) ?m ?x"
    define ht where "ht = makeTaken h2 it ints"
    have ht: "arr ht = tag (arr h2) it (- ints)" "avail ht = avail h2" "hlen ht = hlen h"
      "same_frame h ht"
      using i(3) r(1) by (simp_all add: ht_def makeTaken_arr len2 same_frame_def)
    have split: "blocks ?t (insert ?m B) (hlen h)" "\<And>c. c \<in> B \<Longrightarrow> c \<noteq> it \<Longrightarrow> ?t c = arr h2 c"
      "?t it = - ints" "?m \<notin> B"
      using blocks_split [OF r(5) itB(1), of "- ints" ?x] True i(3) s2 by auto
    have tags: "?t c = arr h c" if "c \<in> B" "c \<noteq> it" for c using split(2) [OF that] r(6) that by simp
    have tm: "?t ?m = ?x" by simp
    have fr: "free_in ?t (insert ?m B) fl2"
      unfolding free_in_def
      using r(4) fl2 fl4 tags heap_inv_first [OF inv] by force
    have seg: "flist ht fl2"
    proof -
      have "seg (arr ht) 0 fl2 0 = seg (arr h2) 0 fl2 0"
      proof (rule seg_cong)
        fix x assume x: "x \<in> set fl2"
        have xx: "x \<in> B" "x \<noteq> it" "4 \<le> arr h x" using fl2 [OF x] fl4 x by auto
        then have "x < it \<or> it < x" by linarith
        then have "x + 4 \<le> it \<or> it + ?s \<le> x"
          using blocks_disjoint [OF bl xx(1) itB(1)] blocks_disjoint [OF bl itB(1) xx(1)] xx itB by auto
        then show "arr ht (x + 1) = arr h2 (x + 1) \<and> arr ht (x + 2) = arr h2 (x + 2)"
          using i(2,3) by (auto simp: ht tag_def)
      qed
      then show ?thesis using r(2) by (simp add: flist_def ht)
    qed
    have mk: "?h3 = makeAvail ht ?m ?x" using True by (simp add: carve_def ht_def)
    have new: "?m \<notin> set fl2" using fl2 split(4) by blast
    have m0: "?m \<noteq> 0" using endit i(3) by linarith
    have blt: "blocks (tag (arr ht) ?m ?x) (insert ?m B) (hlen ht)"
      and frt: "free_in (tag (arr ht) ?m ?x) (insert ?m B) fl2"
      using split(1) fr by (simp_all add: ht)
    note ma = makeAvail_spec [OF blt insertI1 m0 True frt new seg, folded mk]
    have atb: "arr ?h3 b = ?t b" if "b \<in> insert ?m B" for b using ma(4) [OF that] by (simp add: ht)
    have atB: "arr ?h3 b = arr h b" if "b \<in> B" "b \<noteq> it" for b
      using atb [of b] tags [OF that] that by simp
    have at_it: "arr ?h3 it = - ints" and at_m: "arr ?h3 ?m = ?x"
      using atb [of it] split(3) itB(1) atb [of ?m] tm by auto
    have frame3: "same_frame h ?h3" using ma(1) ht(4) by (simp add: same_frame_def)
    then have len3: "hlen ?h3 = hlen h" "hbase ?h3 = hbase h" by (simp_all add: same_frame_def)
    have inv3: "heap_inv ?h3 (insert ?m B) (?m # fl2)"
    proof (rule heap_invI)
      show "blocks (arr ?h3) (insert ?m B) (hlen ?h3)" using ma(3) by (simp add: ht len3)
      show "arr ?h3 0 = -2" using atB [OF z] it0 heap_inv_first [OF inv] by simp
      show "hlen ?h3 - 2 \<in> insert ?m B" "0 < hlen ?h3 - 2" using la by (simp_all add: len3)
      show "arr ?h3 (hlen ?h3 - 2) = -2" using atB [OF la(1)] it0 la(3) by (simp add: len3)
      show "flist ?h3 (?m # fl2)" by (rule ma(2))
      show "distinct (?m # fl2)" using new r(4) by simp
      show "4 \<le> \<bar>arr ?h3 b\<bar>" if "b \<in> insert ?m B" "b \<noteq> 0" "b \<noteq> hlen ?h3 - 2" for b
      proof (cases "b = it \<or> b = ?m")
        case True
        then show ?thesis using at_it at_m i(3) \<open>?s - ints \<ge> 4\<close> by auto
      next
        case False
        then show ?thesis using that atB [of b] heap_inv_big [OF inv, of b] len3 by auto
      qed
      have "0 < arr ?h3 b \<longleftrightarrow> b = ?m \<or> (b \<noteq> it \<and> 0 < arr h b)" if "b \<in> insert ?m B" for b
        using that atB [of b] at_it at_m True i(3) split(4) by (cases "b = it") auto
      then show "set (?m # fl2) = {b \<in> insert ?m B. 0 < arr ?h3 b}"
        using r(3) heap_inv_fl(1) [OF inv] i(3) by auto
      show "uint (hbase ?h3) + 4 * hlen ?h3 \<le> 2 ^ 32" using heap_inv_fits [OF inv] len3 by simp
      fix b assume b: "b \<in> insert ?m B" "0 < arr ?h3 b"
      show "4 \<le> arr ?h3 b \<and> arr ?h3 (b + arr ?h3 b) < 0"
      proof (cases "b = ?m")
        case True
        have "it + ?s \<noteq> it" using itB by simp
        moreover have "b + arr ?h3 b = it + ?s" using True at_m by simp
        ultimately show ?thesis using True at_m atB [OF succ(1)] succ(2) \<open>?s - ints \<ge> 4\<close> by simp
      next
        case False
        then have bB: "b \<in> B" "b \<noteq> it" using b at_it i(3) by auto
        have eq: "arr ?h3 b = arr h b" by (rule atB [OF bB])
        have fb: "4 \<le> arr h b" "arr h (b + arr h b) < 0"
          using heap_inv_free [OF inv bB(1)] b(2) eq by auto
        have "b \<noteq> hlen h - 2" using la(3) b(2) eq by auto
        then have "b + arr h b \<in> B" using heap_inv_right [OF inv bB(1)] fb by simp
        moreover have "b + arr h b \<noteq> it" using fb itB by auto
        ultimately show ?thesis using fb eq atB by simp
      qed
    qed
    have "b \<in> live ?h3 (insert ?m B) \<longleftrightarrow> b \<in> insert it (live h B)" for b
      using atB [of b] at_it at_m True i(3) itB split(4) by (cases "b = it") (auto simp: live_def)
    then have live3: "live ?h3 (insert ?m B) = insert it (live h B)" by blast
    have others: "arr ?h3 k = arr h k"
      if k: "k < it \<or> it + ?s \<le> k" "k \<notin> links fl2" for k
    proof -
      have "k \<notin> links (?m # fl2)" using k True i(3) by (auto simp: links_def)
      then have "arr ?h3 k = ?t k" using ma(5) by (simp add: ht)
      also have "\<dots> = arr h2 k"
        using tag2_outside [of "- ints" ?x k it "arr h2"] k True i(3) by simp
      finally show ?thesis using r(7) [OF k(2)] by simp
    qed
    have keep: "keeps_live h ?h3 (live h B)"
      unfolding keeps_live_def using keep_k others by blast
    have "arr ?h3 k = arr h k" if "k < 0 \<or> hlen h \<le> k" for k
      using others [of k] lnk [OF that] that endit by auto
    then show ?thesis
      using that [OF inv3 frame3 live3 keep] itB at_it by simp
  next
    case False
    have mk: "?h3 = h2\<lparr>arr := tag (arr h2) it (- ?s)\<rparr>"
      using False itB by (simp add: carve_def makeTaken_arr)
    have cut: "B - {it<..<it + ?s} = B" using blocks_between [OF bl itB(1)] itB by auto
    have mg: "blocks (tag (arr h2) it (- ?s)) B (hlen h)"
      "\<And>c. c \<in> B \<Longrightarrow> c \<noteq> it \<Longrightarrow> tag (arr h2) it (- ?s) c = arr h2 c"
      using blocks_merge [OF r(5) itB(1), of "it + ?s" "- ?s"] succ(1) itB i(2,3) cut by auto
    have atB: "arr ?h3 b = arr h b" if "b \<in> B" "b \<noteq> it" for b
      using mg(2) [OF that] r(6) [OF that(1)] by (simp add: mk)
    have at_it: "arr ?h3 it = - ?s" by (simp add: mk)
    have frame3: "same_frame h ?h3" using r(1) by (simp add: same_frame_def mk)
    then have len3: "hlen ?h3 = hlen h" "hbase ?h3 = hbase h" by (simp_all add: same_frame_def)
    have others: "arr ?h3 k = arr h k"
      if k: "k < it \<or> it + ?s \<le> k" "k \<notin> links fl2" for k
      using tag_outside [of it "- ?s" "it + ?s" k "arr h2"] k itB r(7) [OF k(2)] by (simp add: mk)
    have inv3: "heap_inv ?h3 B fl2"
    proof (rule heap_invI)
      show "blocks (arr ?h3) B (hlen ?h3)" using mg(1) by (simp add: mk len2)
      show "arr ?h3 0 = -2" using atB [OF z] it0 heap_inv_first [OF inv] by simp
      show "hlen ?h3 - 2 \<in> B" "0 < hlen ?h3 - 2" using la by (simp_all add: len3)
      show "arr ?h3 (hlen ?h3 - 2) = -2" using atB [OF la(1)] it0 la(3) by (simp add: len3)
      show "distinct fl2" by (rule r(4))
      show "4 \<le> \<bar>arr ?h3 b\<bar>" if "b \<in> B" "b \<noteq> 0" "b \<noteq> hlen ?h3 - 2" for b
        using that atB [of b] heap_inv_big [OF inv, of b] len3 at_it i(2,3) by (cases "b = it") auto
      have "0 < arr ?h3 b \<longleftrightarrow> b \<noteq> it \<and> 0 < arr h b" if "b \<in> B" for b
        using that atB [of b] at_it itB by (cases "b = it") auto
      then show "set fl2 = {b \<in> B. 0 < arr ?h3 b}"
        using r(3) heap_inv_fl(1) [OF inv] by auto
      show "uint (hbase ?h3) + 4 * hlen ?h3 \<le> 2 ^ 32" using heap_inv_fits [OF inv] len3 by simp
      have "seg (arr ?h3) 0 fl2 0 = seg (arr h2) 0 fl2 0"
      proof (rule seg_cong)
        fix x assume x: "x \<in> set fl2"
        have xx: "x \<in> B" "x \<noteq> it" "4 \<le> arr h x" using fl2 [OF x] fl4 x by auto
        then have "x < it \<or> it < x" by linarith
        then have "x + 4 \<le> it \<or> it + ?s \<le> x"
          using blocks_disjoint [OF bl xx(1) itB(1)] blocks_disjoint [OF bl itB(1) xx(1)] xx itB by auto
        then show "arr ?h3 (x + 1) = arr h2 (x + 1) \<and> arr ?h3 (x + 2) = arr h2 (x + 2)"
          using itB by (auto simp: mk tag_def)
      qed
      then show "flist ?h3 fl2" using r(2) by (simp add: flist_def mk)
      fix b assume b: "b \<in> B" "0 < arr ?h3 b"
      have bn: "b \<noteq> it" using b(2) at_it itB by auto
      have eq: "arr ?h3 b = arr h b" by (rule atB [OF b(1) bn])
      have fb: "4 \<le> arr h b" "arr h (b + arr h b) < 0"
        using heap_inv_free [OF inv b(1)] b(2) eq by auto
      have "b \<noteq> hlen h - 2" using la(3) b(2) eq by auto
      then have "b + arr h b \<in> B" using heap_inv_right [OF inv b(1)] fb by simp
      moreover have "b + arr h b \<noteq> it" using fb itB by auto
      ultimately show "4 \<le> arr ?h3 b \<and> arr ?h3 (b + arr ?h3 b) < 0" using fb eq atB by simp
    qed
    have "b \<in> live ?h3 B \<longleftrightarrow> b \<in> insert it (live h B)" for b
      using atB [of b] at_it itB by (cases "b = it") (auto simp: live_def)
    then have live3: "live ?h3 B = insert it (live h B)" by blast
    have keep: "keeps_live h ?h3 (live h B)"
      unfolding keeps_live_def using keep_k others by blast
    have "arr ?h3 k = arr h k" if "k < 0 \<or> hlen h \<le> k" for k
      using others [of k] lnk [OF that] that endit by auto
    then show ?thesis
      using that [OF inv3 frame3 live3 keep itB(1)] i(2) at_it by simp
  qed
qed

section \<open>Pointers of blocks\<close>

definition block_ptr :: "heap \<Rightarrow> int \<Rightarrow> u32" where
  "block_ptr h i = hbase h + of_int (4 * (i + 1))"

lemma block_ptr_uint:
  assumes inv: "heap_inv h B fl" and i: "0 \<le> i" "i < hlen h - 2"
  shows "uint (block_ptr h i) = uint (hbase h) + 4 * (i + 1)"
  unfolding block_ptr_def
  by (rule uint_add_of_int_u32) (use i heap_inv_fits [OF inv] in arith)+

lemma block_ptr_ne:
  assumes inv: "heap_inv h B fl" and i: "0 \<le> i" "i < hlen h - 2"
  shows "block_ptr h i \<noteq> 0" and "block_ptr h i \<noteq> hbase h"
proof -
  have "0 \<le> uint (hbase h)" by simp
  then have "uint (block_ptr h i) \<noteq> uint (hbase h) \<and> uint (block_ptr h i) \<noteq> 0"
    using block_ptr_uint [OF inv i] i by arith
  then show "block_ptr h i \<noteq> 0" and "block_ptr h i \<noteq> hbase h" by auto
qed

lemma free_idx_block_ptr:
  assumes inv: "heap_inv h B fl" and i: "0 \<le> i" "i < hlen h - 2"
  shows "free_idx h (block_ptr h i) = i"
proof -
  let ?w = "of_int (4 * (i + 1)) :: u32"
  have small: "hlen h \<le> 2 ^ 30" by (rule heap_inv_small [OF inv])
  have u: "uint ?w = 4 * (i + 1)"
    by (rule uint_of_int_u32) (use i small in simp)+
  have "uint (?w div 4) = i + 1" by (simp only: uint_div u) simp
  then have "?w div 4 = of_int (i + 1)" by (metis word_of_int_uint)
  then have "?w div 4 - 1 = of_int i" by simp
  moreover have "sint (of_int i :: u32) = i"
    by (rule sint_of_int_u32) (use i small in simp)+
  ultimately have "sint (?w div 4 - 1) = i" by (simp only:)
  then show ?thesis by (simp only: free_idx_def block_ptr_def add_diff_cancel_left')
qed

section \<open>malloc\<close>

lemma request_ints_ge4: "4 \<le> request_ints bytes"
  by (simp add: request_ints_def Let_def)

lemma candidates_Nil_iff:
  "candidates a ints fl = [] \<longleftrightarrow> (\<forall>p\<in>set fl. a p < ints)"
  by (auto simp: candidates_def filter_empty_conv not_le)

lemma guard_round: "\<not> held h \<Longrightarrow> guard_leave (h\<lparr>held := (theLock h \<noteq> 0)\<rparr>) = h"
  by (cases h) (auto simp: guard_leave_def)

lemma malloc_none:
  assumes inv: "heap_inv h B fl" and un: "\<not> held h" and nz: "bytes \<noteq> 0"
    and none: "candidates (arr h) (request_ints bytes) fl = []"
  shows "malloc bytes h = Some (Inr (0, h))"
proof -
  let ?h1 = "h\<lparr>held := (theLock h \<noteq> 0)\<rparr>"
  have inv1: "heap_inv ?h1 B fl" using inv by simp
  have "malloc_scan ?h1 (request_ints bytes) 20 (avail ?h1) 0x7FFFFFFF 0 =
      Some (Inr (0x7FFFFFFF, 0))"
    using malloc_scan_inv [OF inv1, of "request_ints bytes"] none by simp
  then show ?thesis
    using nz by (simp add: malloc_def guard_enter_free [OF un] guard_round [OF un] Let_def)
qed

lemma malloc_some:
  assumes inv: "heap_inv h B fl" and un: "\<not> held h" and nz: "bytes \<noteq> 0"
    and some: "candidates (arr h) (request_ints bytes) fl \<noteq> []"
  obtains it mx B' fl' h' where
    "fold (take_smaller (arr h)) (candidates (arr h) (request_ints bytes) fl) (0x7FFFFFFF, 0) = (mx, it)"
    "it \<in> set fl" "request_ints bytes \<le> arr h it"
    "malloc bytes h = Some (Inr (block_ptr h it, h'))" "heap_inv h' B' fl'" "same_frame h h'"
    "live h' B' = insert it (live h B)" "keeps_live h h' (live h B)"
    "arr h' it \<le> - request_ints bytes"
    "\<And>k. k < 0 \<or> hlen h \<le> k \<Longrightarrow> arr h' k = arr h k"
proof -
  let ?ints = "request_ints bytes" let ?h1 = "h\<lparr>held := (theLock h \<noteq> 0)\<rparr>"
  have inv1: "heap_inv ?h1 B fl" using inv by simp
  obtain mx it where res:
    "fold (take_smaller (arr h)) (candidates (arr h) ?ints fl) (0x7FFFFFFF, 0) = (mx, it)"
    by (cases "fold (take_smaller (arr h)) (candidates (arr h) ?ints fl) (0x7FFFFFFF, 0)")
  have it: "it \<noteq> 0" "it \<in> set fl" "?ints \<le> arr h it" "mx = arr h it"
    using scan_result [OF inv res] some by (auto split: if_splits)
  obtain h2 where h2: "remove_h ?h1 it = Inr h2"
    using heap_inv_remove [OF inv1] it(2) by (metis)
  let ?hc = "carve h2 it ?ints (arr ?h1 it)"
  have le1: "?ints \<le> arr ?h1 it" using it(3) by simp
  obtain B' fl' where c: "heap_inv ?hc B' fl'" "same_frame ?h1 ?hc"
    "live ?hc B' = insert it (live ?h1 B)" "keeps_live ?h1 ?hc (live ?h1 B)"
    "it \<in> B'" "arr ?hc it \<le> - ?ints"
    "\<And>k. k < 0 \<or> hlen ?h1 \<le> k \<Longrightarrow> arr ?hc k = arr ?h1 k"
    using carve_inv [OF inv1 it(2) le1 request_ints_ge4 h2] by blast
  let ?h' = "guard_leave (carve h2 it ?ints (arr h it))"
  have scan: "malloc_scan ?h1 ?ints 20 (avail ?h1) 0x7FFFFFFF 0 = Some (Inr (arr h it, it))"
    using malloc_scan_inv [OF inv1, of ?ints] res it(4) by simp
  have "malloc bytes h = Some (Inr (block_ptr h it, ?h'))"
    using nz it(1) scan h2 c(2)
    by (simp add: malloc_def guard_enter_free [OF un] carve_def block_ptr_def Let_def
        same_frame_def)
  moreover have "same_frame h ?h'" using guard_leave_eq [OF c(2) un] by simp
  ultimately show ?thesis
    using that [OF res it(2,3), of ?h' B' fl'] c it by simp
qed

section \<open>free\<close>

text \<open>One neighbour: taken off the list when it is available.\<close>

lemma drop_neighbour:
  assumes bl: "blocks (arr h) B (hlen h)" and fl: "set fl = {b \<in> B. 0 < arr h b} - S" "distinct fl"
    and free4: "\<And>b. b \<in> B \<Longrightarrow> 0 < arr h b \<Longrightarrow> 4 \<le> arr h b" and z: "arr h 0 = -2"
    and li: "flist h fl" and c: "c \<in> B" "c \<notin> S"
  obtains h2 fl2 where "(if isAvail h c then remove_h h c else Inr h) = Inr h2"
    "same_frame h h2" "flist h2 fl2" "set fl2 = {b \<in> B. 0 < arr h b} - (insert c S)" "distinct fl2"
    "blocks (arr h2) B (hlen h)" "\<And>b. b \<in> B \<Longrightarrow> arr h2 b = arr h b"
    "\<And>k. k \<notin> links fl \<Longrightarrow> arr h2 k = arr h k"
proof (cases "isAvail h c")
  case True
  then have "c \<in> set fl" using fl(1) c by (simp add: isAvail_def)
  then obtain xs ys where xy: "fl = xs @ c # ys" by (meson split_list)
  have fr: "free_in (arr h) B (xs @ c # ys)"
    unfolding free_in_def xy [symmetric] using fl free4 z by fastforce
  obtain h2 where h2: "remove_h h c = Inr h2" "same_frame h h2" "flist h2 (xs @ ys)"
    "blocks (arr h2) B (hlen h)" "\<And>b. b \<in> B \<Longrightarrow> arr h2 b = arr h b"
    "\<And>k. k \<notin> links (xs @ ys) \<Longrightarrow> arr h2 k = arr h k"
    using remove_spec [OF bl fr li [unfolded xy]] by blast
  have "set (xs @ ys) = set fl - {c}" using fl(2) xy by auto
  then have "set (xs @ ys) = {b \<in> B. 0 < arr h b} - (insert c S)" using fl(1) by auto
  moreover have "distinct (xs @ ys)" using fl(2) xy by auto
  moreover have "k \<notin> links fl \<Longrightarrow> k \<notin> links (xs @ ys)" for k using xy by (auto simp: links_def)
  ultimately show ?thesis using that [of h2 "xs @ ys"] h2 True by simp
next
  case False
  then have "c \<notin> {b \<in> B. 0 < arr h b}" by (simp add: isAvail_def)
  then show ?thesis
    using that [of h fl] False bl fl li by (auto simp: same_frame_def)
qed

text \<open>The merged block goes back on the list.  \<open>lo\<close> and \<open>hi\<close> are its bounds; its
  right neighbour is taken, and so is the block that ends at \<open>lo\<close>.\<close>

lemma merge_inv:
  assumes inv: "heap_inv h B fl" and fr: "same_frame h h3" "blocks (arr h3) B (hlen h)"
    "\<And>b. b \<in> B \<Longrightarrow> arr h3 b = arr h b" "flist h3 fl3" "distinct fl3"
    "set fl3 = {b \<in> B. 0 < arr h b} - {lo..<hi}" "\<And>k. k \<notin> links fl \<Longrightarrow> arr h3 k = arr h k"
    and lo: "lo \<in> B" "lo \<noteq> 0" and hi: "hi \<in> B" "arr h hi < 0" "lo + 4 \<le> hi"
    and left: "\<And>b. b \<in> B \<Longrightarrow> 0 < arr h b \<Longrightarrow> b + arr h b \<noteq> lo"
    and one: "{b \<in> live h B. lo \<le> b \<and> b < hi} = {idx}"
  shows "heap_inv (makeAvail h3 lo (hi - lo)) (B - {lo<..<hi}) (lo # fl3)"
    and "same_frame h (makeAvail h3 lo (hi - lo))"
    and "live (makeAvail h3 lo (hi - lo)) (B - {lo<..<hi}) = live h B - {idx}"
    and "keeps_live h (makeAvail h3 lo (hi - lo)) (live h B - {idx})"
    and "\<And>k. k < 0 \<or> hlen h \<le> k \<Longrightarrow> arr (makeAvail h3 lo (hi - lo)) k = arr h k"
proof -
  note bl = heap_inv_blocks [OF inv] and la = heap_inv_last [OF inv]
  let ?B = "B - {lo<..<hi}" let ?s = "hi - lo" let ?m = "makeAvail h3 lo ?s"
  let ?t = "tag (arr h3) lo ?s"
  have len: "hlen h3 = hlen h" using fr(1) by (simp add: same_frame_def)
  have mg: "blocks ?t ?B (hlen h3)" "\<And>c. c \<in> ?B \<Longrightarrow> c \<noteq> lo \<Longrightarrow> ?t c = arr h3 c"
    using blocks_merge [OF fr(2) lo(1), of hi ?s] hi len by auto
  have loB: "lo \<in> ?B" using lo(1) by simp
  have s4: "4 \<le> ?s" using hi(3) by simp
  have tags: "?t c = arr h c" if "c \<in> ?B" "c \<noteq> lo" for c using mg(2) [OF that] fr(3) that by simp
  have f3: "x \<in> ?B \<and> x \<noteq> lo \<and> x \<noteq> 0 \<and> 4 \<le> arr h x" if "x \<in> set fl3" for x
  proof -
    have x: "x \<in> B" "0 < arr h x" "x \<notin> {lo..<hi}" using that fr(6) by auto
    then have "x \<noteq> 0" using heap_inv_first [OF inv] by auto
    then show ?thesis using x heap_inv_free [OF inv x(1,2)] hi(3) by auto
  qed
  have frt: "free_in ?t ?B fl3" unfolding free_in_def using fr(5) f3 tags by auto
  have new: "lo \<notin> set fl3" using f3 by blast
  note ma = makeAvail_spec [OF mg(1) loB lo(2) s4 frt new fr(4)]
  have at_lo: "arr ?m lo = ?s" using ma(4) [OF loB] by simp
  have atB: "arr ?m b = arr h b" if "b \<in> ?B" "b \<noteq> lo" for b using ma(4) [of b] tags [of b] that by simp
  show frame: "same_frame h ?m" using ma(1) fr(1) by (simp add: same_frame_def)
  then have lenm: "hlen ?m = hlen h" "hbase ?m = hbase h" by (simp_all add: same_frame_def)
  have nb: "0 \<le> b" if "b \<in> B" for b using blocks_nonneg [OF bl that] .
  have z: "0 \<in> ?B" using blocks_zero [OF bl] nb [OF lo(1)] by auto
  have hil: "hi \<le> hlen h - 2"
    using blocks_disjoint [OF bl la(1) hi(1)] blocks_end [OF bl hi(1)] blocks_size [OF bl hi(1)]
      la(3) by linarith
  have lal: "hlen h - 2 \<in> ?B" "hlen h - 2 \<noteq> lo" using la(1) hil hi(3) by auto
  show "heap_inv ?m ?B (lo # fl3)"
  proof (rule heap_invI)
    show "blocks (arr ?m) ?B (hlen ?m)" using ma(3) by (simp add: len lenm)
    show "arr ?m 0 = -2" using atB [OF z] lo(2) heap_inv_first [OF inv] by simp
    show "hlen ?m - 2 \<in> ?B" "0 < hlen ?m - 2" using la lal by (simp_all add: lenm)
    show "arr ?m (hlen ?m - 2) = -2" using atB [OF lal] la(3) by (simp add: lenm)
    show "distinct (lo # fl3)" using new fr(5) by simp
    show "flist ?m (lo # fl3)" by (rule ma(2))
    show "uint (hbase ?m) + 4 * hlen ?m \<le> 2 ^ 32" using heap_inv_fits [OF inv] lenm by simp
    show "4 \<le> \<bar>arr ?m b\<bar>" if "b \<in> ?B" "b \<noteq> 0" "b \<noteq> hlen ?m - 2" for b
      using that atB [of b] heap_inv_big [OF inv, of b] lenm at_lo hi(3) by (cases "b = lo") auto
    have pos: "0 < arr ?m b \<longleftrightarrow> b = lo \<or> 0 < arr h b" if "b \<in> ?B" for b
      using that atB [of b] at_lo hi(3) by (cases "b = lo") auto
    have "b \<in> set (lo # fl3) \<longleftrightarrow> b \<in> ?B \<and> (b = lo \<or> 0 < arr h b)" for b
      using loB hi(3) unfolding list.set fr(6) insert_iff
      by (metis (no_types, lifting) Diff_iff atLeastLessThan_iff greaterThanLessThan_iff
          less_le_not_le mem_Collect_eq order_less_le)
    then show "set (lo # fl3) = {b \<in> ?B. 0 < arr ?m b}" using pos by blast
    fix b assume b: "b \<in> ?B" "0 < arr ?m b"
    show "4 \<le> arr ?m b \<and> arr ?m (b + arr ?m b) < 0"
    proof (cases "b = lo")
      case True
      have "hi \<in> ?B" "hi \<noteq> lo" using hi by auto
      then show ?thesis using True at_lo s4 atB [of hi] hi(2) by simp
    next
      case False
      have bB: "b \<in> B" using b(1) by simp
      have eq: "arr ?m b = arr h b" by (rule atB [OF b(1) False])
      have fb: "4 \<le> arr h b" "arr h (b + arr h b) < 0"
        using heap_inv_free [OF inv bB] b(2) eq by auto
      have "b \<noteq> hlen h - 2" using la(3) b(2) eq by auto
      then have sB: "b + arr h b \<in> B" using heap_inv_right [OF inv bB] fb by simp
      have nlo: "b + arr h b \<noteq> lo" using left [OF bB] fb by simp
      have "b < lo \<or> hi \<le> b" using b(1) False by auto
      then have "b + arr h b \<le> lo \<or> hi \<le> b"
        using blocks_disjoint [OF bl bB lo(1)] fb by auto
      then have "b + arr h b \<in> ?B" using sB fb by auto
      then show ?thesis using fb eq atB [of "b + arr h b"] nlo by simp
    qed
  qed
  have "b \<in> live ?m ?B \<longleftrightarrow> b \<in> live h B - {idx}" for b
  proof (cases "b \<in> ?B \<and> b \<noteq> lo")
    case True
    then have "\<not> (lo \<le> b \<and> b < hi)" by auto
    then have "b \<in> live h B \<Longrightarrow> b \<noteq> idx" using one by blast
    then show ?thesis using True atB [of b] by (auto simp: live_def)
  next
    case False
    then have "b \<notin> live ?m ?B" using at_lo hi(3) by (auto simp: live_def)
    moreover have "b \<in> live h B \<Longrightarrow> lo \<le> b \<and> b < hi" using False hi(3) by (auto simp: live_def)
    then have "b \<notin> live h B - {idx}" using one by blast
    ultimately show ?thesis by blast
  qed
  then show "live ?m ?B = live h B - {idx}" by blast
  have flB: "\<forall>x\<in>set fl. x \<in> B \<and> 4 \<le> arr h x"
    using heap_inv_fl(1) [OF inv] heap_inv_free [OF inv] by blast
  have others: "arr ?m k = arr h k" if k: "k < lo \<or> hi \<le> k" "k \<notin> links fl" for k
  proof -
    have "set fl3 \<subseteq> set fl" using fr(6) heap_inv_fl(1) [OF inv] by blast
    then have "k \<notin> links (lo # fl3)" using k hi(3) by (auto simp: links_def)
    then have "arr ?m k = ?t k" by (rule ma(5))
    also have "\<dots> = arr h3 k" by (rule tag_outside [of _ _ hi]) (use k hi(3) in auto)
    finally show ?thesis using fr(7) [OF k(2)] by simp
  qed
  show "keeps_live h ?m (live h B - {idx})"
    unfolding keeps_live_def
  proof (intro ballI allI impI)
    fix b k assume b: "b \<in> live h B - {idx}" and k: "b \<le> k \<and> k < b + \<bar>arr h b\<bar>"
    have bB: "b \<in> B" "arr h b < 0" using b by (auto simp: live_def)
    have "\<not> (lo \<le> b \<and> b < hi)" using b one by blast
    then have "k < lo \<or> hi \<le> k" using blocks_disjoint [OF bl bB(1) lo(1)] k by auto
    moreover have "k \<notin> links fl"
      by (rule link_outside [OF bl flB bB(1)]) (use bB k heap_inv_fl(1) [OF inv] in auto)
    ultimately show "arr ?m k = arr h k" by (rule others)
  qed
  show "arr ?m k = arr h k" if k: "k < 0 \<or> hlen h \<le> k" for k
  proof (rule others)
    show "k < lo \<or> hi \<le> k" using k nb [OF lo(1)] hil by auto
    show "k \<notin> links fl"
    proof
      assume "k \<in> links fl"
      then obtain x where x: "x \<in> set fl" "k = x + 1 \<or> k = x + 2" by (auto simp: links_def)
      have "x \<in> B" "4 \<le> arr h x" using flB x(1) by auto
      then show False using blocks_end [OF bl, of x] nb [of x] x(2) k by auto
    qed
  qed
qed

lemma free_spec:
  assumes inv: "heap_inv h B fl" and un: "\<not> held h"
    and i: "idx \<in> live h B" "idx \<noteq> 0" "idx \<noteq> hlen h - 2"
  obtains h' B' fl' where "free_h (block_ptr h idx) h = Some (Inr h')"
    "heap_inv h' B' fl'" "same_frame h h'" "live h' B' = live h B - {idx}"
    "keeps_live h h' (live h B - {idx})"
    "\<And>k. k < 0 \<or> hlen h \<le> k \<Longrightarrow> arr h' k = arr h k"
proof -
  let ?h1 = "h\<lparr>held := (theLock h \<noteq> 0)\<rparr>"
  have inv1: "heap_inv ?h1 B fl" using inv by simp
  note bl = heap_inv_blocks [OF inv] and la = heap_inv_last [OF inv]
  note bl1 = heap_inv_blocks [OF inv1]
  have iB: "idx \<in> B" "arr h idx < 0" using i(1) by (auto simp: live_def)
  define s where "s = \<bar>arr h idx\<bar>"
  have s4: "4 \<le> s" using heap_inv_big [OF inv iB(1) i(2,3)] by (simp add: s_def)
  obtain c where c: "c \<in> B" "c + \<bar>arr h c\<bar> = idx" using blocks_pred [OF bl iB(1) i(2)] by blast
  have rB: "idx + s \<in> B" using heap_inv_right [OF inv iB(1) i(3)] by (simp add: s_def)
  define r where "r = idx + s"
  have cf: "arr h (idx - 1) = arr h c" using blocks_footer [OF bl c(1)] c(2) by simp
  have cs: "2 \<le> \<bar>arr h c\<bar>" by (rule blocks_size [OF bl c(1)])
  have left: "left_h ?h1 idx = Inr c"
    using sanity_ok [OF bl1, of c] c(1) cf c(2) [symmetric] by (simp add: left_h_def headerFromFooter_def size_h_def)
  have right: "right_h ?h1 idx = Inr r"
    using sanity_ok [OF bl1, of r] rB by (simp add: right_h_def size_h_def r_def s_def)
  have free4: "\<And>b. b \<in> B \<Longrightarrow> 0 < arr ?h1 b \<Longrightarrow> 4 \<le> arr ?h1 b"
    using heap_inv_free [OF inv] by simp
  have set1: "set fl = {b \<in> B. 0 < arr ?h1 b} - {}" using heap_inv_fl(1) [OF inv1] by simp
  obtain h2 fl2 where h2: "(if isAvail ?h1 c then remove_h ?h1 c else Inr ?h1) = Inr h2"
    "same_frame ?h1 h2" "flist h2 fl2" "set fl2 = {b \<in> B. 0 < arr h b} - {c}" "distinct fl2"
    "blocks (arr h2) B (hlen h)" "\<And>b. b \<in> B \<Longrightarrow> arr h2 b = arr h b"
    "\<And>k. k \<notin> links fl \<Longrightarrow> arr h2 k = arr h k"
    using drop_neighbour [OF bl1 set1 heap_inv_fl(2) [OF inv1] free4 heap_inv_first [OF inv1]
        heap_inv_fl(3) [OF inv1] c(1) empty_iff [THEN iffD1, THEN notI], simplified] by blast
  have len2: "hlen h2 = hlen h" using h2(2) by (simp add: same_frame_def)
  have bl2: "blocks (arr h2) B (hlen h2)" using h2(6) len2 by simp
  have set2: "set fl2 = {b \<in> B. 0 < arr h2 b} - {c}" using h2(4,7) by auto
  have crn: "r \<notin> {c}" using c(2) cs s4 by (auto simp: r_def)
  have free42: "\<And>b. b \<in> B \<Longrightarrow> 0 < arr h2 b \<Longrightarrow> 4 \<le> arr h2 b"
    using heap_inv_free [OF inv] h2(7) by simp
  have z2: "arr h2 0 = -2" using h2(7) [OF blocks_zero [OF bl]] heap_inv_first [OF inv] by simp
  have rB': "r \<in> B" using rB by (simp add: r_def)
  obtain h3 fl3 where h3: "(if isAvail h2 r then remove_h h2 r else Inr h2) = Inr h3"
    "same_frame h2 h3" "flist h3 fl3" "set fl3 = {b \<in> B. 0 < arr h2 b} - {r, c}" "distinct fl3"
    "blocks (arr h3) B (hlen h2)" "\<And>b. b \<in> B \<Longrightarrow> arr h3 b = arr h2 b"
    "\<And>k. k \<notin> links fl2 \<Longrightarrow> arr h3 k = arr h2 k"
    using drop_neighbour [OF bl2 set2 h2(5) free42 z2 h2(3) rB' crn] by blast
  define lo where "lo = (if 0 < arr h c then c else idx)"
  define hi where "hi = (if 0 < arr h r then r + arr h r else r)"
  have rr: "0 < arr h r \<Longrightarrow> r + arr h r \<in> B \<and> arr h (r + arr h r) < 0"
    using heap_inv_right [OF inv rB'] heap_inv_free [OF inv rB'] la(3) by (cases "r = hlen h - 2") auto
  have rtag: "arr h r \<noteq> 0" using blocks_size [OF bl rB'] by auto
  have hi: "hi \<in> B" "arr h hi < 0" "lo + 4 \<le> hi"
    using rr rB' rtag s4 c(2) cs by (auto simp: hi_def lo_def r_def)
  have lo: "lo \<in> B" "lo \<noteq> 0" using iB i c heap_inv_first [OF inv] by (auto simp: lo_def)
  have il: "idx < hlen h - 2"
    using blocks_disjoint [OF bl la(1) iB(1)] blocks_end [OF bl iB(1)] i(3) s4 la(3)
    by (cases "hlen h - 2 < idx") (auto simp: s_def)
  have near: "b \<in> {lo..<hi} \<longleftrightarrow> b = idx \<or> (b = c \<and> 0 < arr h c) \<or> (b = r \<and> 0 < arr h r)"
    if b: "b \<in> B" for b
  proof -
    have "b \<notin> {c<..<idx}" "b \<notin> {idx<..<r}" "b \<notin> {r<..<r + \<bar>arr h r\<bar>}"
      using blocks_between [OF bl c(1) b] blocks_between [OF bl iB(1) b] blocks_between [OF bl rB' b] c(2)
      by (simp_all add: r_def s_def)
    moreover have "c < idx" "idx < r" using c(2) cs s4 by (auto simp: r_def)
    ultimately show ?thesis by (auto simp: lo_def hi_def)
  qed
  have set3: "set fl3 = {b \<in> B. 0 < arr h b} - {lo..<hi}"
  proof (rule set_eqI)
    show "b \<in> set fl3 \<longleftrightarrow> b \<in> {b \<in> B. 0 < arr h b} - {lo..<hi}" for b
      unfolding h3(4) using h2(7) [of b] near [of b] iB(2) by (cases "b \<in> B") auto
  qed
  have one: "{b \<in> live h B. lo \<le> b \<and> b < hi} = {idx}"
  proof -
    have "lo \<le> b \<and> b < hi \<longleftrightarrow> b = idx" if "b \<in> live h B" for b
    proof -
      have "b \<in> B" "arr h b < 0" using that by (auto simp: live_def)
      then show ?thesis using near [of b] by auto
    qed
    then show ?thesis using i(1) by blast
  qed
  have leftok: "b + arr h b \<noteq> lo" if b: "b \<in> B" "0 < arr h b" for b
  proof (cases "0 < arr h c")
    case True
    then show ?thesis using heap_inv_free [OF inv b] by (auto simp: lo_def)
  next
    case False
    then show ?thesis using blocks_same_end [OF bl b(1) c(1)] b(2) c(2) by (auto simp: lo_def)
  qed
  have links2: "k \<notin> links fl \<Longrightarrow> k \<notin> links fl2" for k
    using h2(4) heap_inv_fl(1) [OF inv] by (auto simp: links_def)
  have h3k: "k \<notin> links fl \<Longrightarrow> arr h3 k = arr h k" for k using h3(8) h2(8) links2 by simp
  have h3B: "b \<in> B \<Longrightarrow> arr h3 b = arr h b" for b using h3(7) h2(7) by simp
  have bl3: "blocks (arr h3) B (hlen h)" using h3(6) len2 by simp
  have fr3: "same_frame ?h1 h3" using h2(2) h3(2) by (simp add: same_frame_def)
  note m = merge_inv [OF inv1 fr3, simplified, OF bl3 h3B h3(3,5) set3 h3k lo hi leftok one]
  have "free_h (block_ptr h idx) h = Some (Inr (guard_leave (makeAvail h3 lo (hi - lo))))"
  proof -
    have fi: "free_idx ?h1 (block_ptr h idx) = idx"
      using free_idx_block_ptr [OF inv blocks_nonneg [OF bl iB(1)] il] by (simp add: free_idx_def)
    have tk: "isTaken ?h1 idx" "size_h ?h1 idx = s" using iB(2) by (simp_all add: isTaken_def size_h_def s_def)
    have sn: "sanity ?h1 idx = Inr idx" using sanity_ok [OF bl1] iB(1) by simp
    have ac: "isAvail ?h1 c \<longleftrightarrow> 0 < arr h c" and ar: "isAvail h2 r \<longleftrightarrow> 0 < arr h r"
      using h2(7) [OF rB'] by (simp_all add: isAvail_def)
    have sc: "size_h h2 c = \<bar>arr h c\<bar>" and sr: "size_h h3 r = \<bar>arr h r\<bar>"
      using h2(7) [OF c(1)] h3B [OF rB'] by (simp_all add: size_h_def)
    have one': "(if isAvail ?h1 c
        then rbind (remove_h ?h1 c) (\<lambda>h2. Inr (h2, c, s + size_h h2 c))
        else Inr (?h1, idx, s)) = Inr (h2, lo, r - lo)"
      using h2(1) sc c(2) by (auto simp: ac lo_def r_def split: if_splits)
    have two: "(if isAvail h2 r then rbind (remove_h h2 r) (\<lambda>h3. Inr (h3, (r - lo) + size_h h3 r))
        else Inr (h2, r - lo)) = Inr (h3, hi - lo)"
      using h3(1) sr by (auto simp: ar hi_def split: if_splits)
    show ?thesis
      using block_ptr_ne [OF inv blocks_nonneg [OF bl iB(1)] il]
      by (simp add: free_h_def guard_enter_free [OF un] fi tk sn left right one' two Let_def
          del: fun_upd_apply)
  qed
  moreover have "same_frame h (guard_leave (makeAvail h3 lo (hi - lo)))"
    by (rule guard_leave_eq [OF m(2) un])
  ultimately show ?thesis
    using that [of "guard_leave (makeAvail h3 lo (hi - lo))"] m(1,3,4,5) by simp
qed

end
