(* ===== verification/Allocator.thy ===== *)
theory Allocator
  imports Prelude
begin

text \<open>
  The contract between a memory provider and its clients: \<open>malloc\<close>/\<open>free\<close> of the
  kernel heap and \<open>alloc_frame\<close>/\<open>dealloc_frame\<close> of the frame pool.  The provider
  never hands out what a client still owns, and takes back what a client owns.  The history
  of any client that only releases what it owns is then a history of an abstract ownership set.
\<close>

datatype 'p mem_event = Got 'p | Gave 'p | Refused

text \<open>One call of a client: a request that is granted or refused, or a release of something
  owned.\<close>

inductive client_step ::
    "('r \<Rightarrow> 's \<Rightarrow> ('p \<times> 's) res option) \<Rightarrow> ('p \<Rightarrow> 's \<Rightarrow> 's res option) \<Rightarrow>
     ('s \<Rightarrow> 'p set) \<Rightarrow> ('s \<Rightarrow> 'p \<Rightarrow> bool) \<Rightarrow> 's \<Rightarrow> 'p mem_event \<Rightarrow> 's \<Rightarrow> bool"
  for alloc release owned unowned where
  get: "alloc r s = Some (Inr (p, s')) \<Longrightarrow> \<not> unowned s p \<Longrightarrow>
        client_step alloc release owned unowned s (Got p) s'"
| refuse: "alloc r s = Some (Inr (p, s')) \<Longrightarrow> unowned s p \<Longrightarrow>
        client_step alloc release owned unowned s Refused s'"
| give: "p \<in> owned s \<Longrightarrow> release p s = Some (Inr s') \<Longrightarrow>
        client_step alloc release owned unowned s (Gave p) s'"

inductive client_run ::
    "('r \<Rightarrow> 's \<Rightarrow> ('p \<times> 's) res option) \<Rightarrow> ('p \<Rightarrow> 's \<Rightarrow> 's res option) \<Rightarrow>
     ('s \<Rightarrow> 'p set) \<Rightarrow> ('s \<Rightarrow> 'p \<Rightarrow> bool) \<Rightarrow> 's \<Rightarrow> 'p mem_event list \<Rightarrow> 's \<Rightarrow> bool"
  for alloc release owned unowned where
  stop: "client_run alloc release owned unowned s [] s"
| step: "client_step alloc release owned unowned s e s1 \<Longrightarrow>
         client_run alloc release owned unowned s1 es s' \<Longrightarrow>
         client_run alloc release owned unowned s (e # es) s'"

text \<open>The abstract provider: a set of owned things.  \<open>None\<close>: an illegal history.\<close>

fun replay :: "'p set \<Rightarrow> 'p mem_event list \<Rightarrow> 'p set option" where
  "replay A [] = Some A"
| "replay A (Got p # es) = (if p \<in> A then None else replay (insert p A) es)"
| "replay A (Gave p # es) = (if p \<in> A then replay (A - {p}) es else None)"
| "replay A (Refused # es) = replay A es"

text \<open>Between two grants of the same thing lies its release.\<close>

lemma replay_again:
  "replay A (es @ Got p # fs) = Some A' \<Longrightarrow> p \<in> A \<Longrightarrow> Gave p \<in> set es"
  by (induction A es rule: replay.induct) (auto split: if_splits)

locale allocator =
  fixes alloc :: "'r \<Rightarrow> 's \<Rightarrow> ('p \<times> 's) res option"
    and release :: "'p \<Rightarrow> 's \<Rightarrow> 's res option"
    and ok :: "'s \<Rightarrow> bool"
    and owned :: "'s \<Rightarrow> 'p set"
    and unowned :: "'s \<Rightarrow> 'p \<Rightarrow> bool"
  assumes alloc_ok: "ok s \<Longrightarrow> alloc r s = Some (Inr (p, s')) \<Longrightarrow> ok s'"
    and alloc_fresh: "ok s \<Longrightarrow> alloc r s = Some (Inr (p, s')) \<Longrightarrow> \<not> unowned s p \<Longrightarrow>
      p \<notin> owned s \<and> owned s' = insert p (owned s)"
    and alloc_refused: "ok s \<Longrightarrow> alloc r s = Some (Inr (p, s')) \<Longrightarrow> unowned s p \<Longrightarrow>
      owned s' = owned s"
    and release_ok: "ok s \<Longrightarrow> p \<in> owned s \<Longrightarrow>
      \<exists>s'. release p s = Some (Inr s') \<and> ok s' \<and> owned s' = owned s - {p}"
begin

lemma step_replay:
  assumes "client_step alloc release owned unowned s e s'" and "ok s"
  shows "ok s' \<and> replay (owned s) (e # es) = replay (owned s') es"
  using assms
proof (cases rule: client_step.cases)
  case (get r p)
  then show ?thesis using alloc_ok alloc_fresh assms(2) by auto
next
  case (refuse r p)
  then show ?thesis using alloc_ok alloc_refused assms(2) by auto
next
  case (give p)
  then show ?thesis using release_ok [OF assms(2), of p] by auto
qed

lemma run_replay:
  assumes "client_run alloc release owned unowned s es s'" and "ok s"
  shows "ok s' \<and> replay (owned s) es = Some (owned s')"
  using assms
proof (induction rule: client_run.induct)
  case (stop s)
  then show ?case by simp
next
  case (step s e s1 es s')
  then show ?case using step_replay [OF step(1) step.prems, of es] by simp
qed

lemma release_then_free:
  "ok s \<Longrightarrow> alloc r s = Some (Inr (p, s1)) \<Longrightarrow> \<not> unowned s p \<Longrightarrow>
   \<exists>s2. release p s1 = Some (Inr s2) \<and> ok s2 \<and> owned s2 = owned s"
  using alloc_fresh [of s r p s1] alloc_ok [of s r p s1] release_ok [of s1 p] by auto

end

end
