(* ===== verification/Heap_Props.thy ===== *)
theory Heap_Props
  imports Heap_Ops Allocator
begin

text \<open>
  The properties of the kernel heap: the block starts are determined by the memory, so
  well-formedness and ownership are predicates of the heap alone; the heap is an interpretation
  of the allocator contract; \<open>heapInit\<close> establishes the invariant.
\<close>

section \<open>The tiling is determined by the memory\<close>

lemma blocks_subset:
  assumes B: "blocks a B n" and C: "blocks a C n"
  shows "B \<subseteq> C"
proof
  fix b assume "b \<in> B"
  have "b \<in> C" if "nat b = k" "b \<in> B" for k b
    using that
  proof (induction k arbitrary: b rule: less_induct)
    case (less k)
    show ?case
    proof (cases "b = 0")
      case True
      then show ?thesis using blocks_zero [OF C] by simp
    next
      case False
      obtain c where c: "c \<in> B" "c + \<bar>a c\<bar> = b" by (rule blocks_pred [OF B less.prems(2) False])
      have "0 \<le> c" "2 \<le> \<bar>a c\<bar>" using blocks_nonneg [OF B c(1)] blocks_size [OF B c(1)] by auto
      then have "nat c < k" using c(2) less.prems(1) by auto
      then have cC: "c \<in> C" using less.IH [of "nat c" c] c(1) by simp
      have "b < n"
        using blocks_end [OF B less.prems(2)] blocks_size [OF B less.prems(2)] by linarith
      then show ?thesis using blocks_succ [OF C cC] c(2) by auto
    qed
  qed
  then show "b \<in> C" using \<open>b \<in> B\<close> by blast
qed

lemma heap_inv_unique: "heap_inv h B fl \<Longrightarrow> heap_inv h C gl \<Longrightarrow> B = C"
  using blocks_subset [OF heap_inv_blocks heap_inv_blocks] by (meson subset_antisym)

definition heap_ok :: "heap \<Rightarrow> bool" where
  "heap_ok h \<longleftrightarrow> (\<exists>B fl. heap_inv h B fl) \<and> \<not> held h"

definition user_blocks :: "heap \<Rightarrow> int set \<Rightarrow> int set" where
  "user_blocks h B = live h B - {0, hlen h - 2}"

definition owned_ptrs :: "heap \<Rightarrow> u32 set" where
  "owned_ptrs h = {p. \<exists>B fl. heap_inv h B fl \<and> p \<in> block_ptr h ` user_blocks h B}"

definition not_a_block :: "heap \<Rightarrow> u32 \<Rightarrow> bool" where
  "not_a_block h p \<longleftrightarrow> p = 0 \<or> p = hbase h"

lemma owned_ptrs_eq:
  assumes "heap_inv h B fl"
  shows "owned_ptrs h = block_ptr h ` user_blocks h B"
  unfolding owned_ptrs_def using heap_inv_unique assms by blast

lemma live_range:
  assumes inv: "heap_inv h B fl" and b: "b \<in> live h B" "b \<noteq> hlen h - 2"
  shows "0 \<le> b" and "b < hlen h - 2"
proof -
  note bl = heap_inv_blocks [OF inv] and la = heap_inv_last [OF inv]
  have bB: "b \<in> B" using b(1) by (simp add: live_def)
  show "0 \<le> b" by (rule blocks_nonneg [OF bl bB])
  show "b < hlen h - 2"
    using blocks_disjoint [OF bl la(1) bB] blocks_end [OF bl bB] blocks_size [OF bl bB] b(2) la(3)
    by (cases "hlen h - 2 < b") auto
qed

lemma free_idx_user:
  assumes inv: "heap_inv h B fl" and b: "b \<in> user_blocks h B"
  shows "free_idx h (block_ptr h b) = b"
proof -
  have "b \<in> live h B" "b \<noteq> hlen h - 2" using b by (simp_all add: user_blocks_def)
  then show ?thesis using free_idx_block_ptr [OF inv live_range [OF inv]] by blast
qed

lemma block_ptr_inj:
  assumes inv: "heap_inv h B fl"
  shows "inj_on (block_ptr h) (user_blocks h B)"
  by (rule inj_on_inverseI [of _ "free_idx h"]) (rule free_idx_user [OF inv])

lemma same_frame_block_ptr: "same_frame h h' \<Longrightarrow> block_ptr h' i = block_ptr h i"
  by (simp add: block_ptr_def same_frame_def)

lemma free_not_sentinel:
  assumes inv: "heap_inv h B fl" and x: "x \<in> set fl"
  shows "x \<in> B" "0 < x" "x < hlen h - 2" "x \<notin> live h B"
proof -
  note bl = heap_inv_blocks [OF inv] and la = heap_inv_last [OF inv]
  have x': "x \<in> B" "0 < arr h x" using heap_inv_fl(1) [OF inv] x by auto
  then show "x \<in> B" "x \<notin> live h B" by (auto simp: live_def)
  show "0 < x" using blocks_nonneg [OF bl x'(1)] x'(2) heap_inv_first [OF inv] by (cases "x = 0") auto
  have "x \<noteq> hlen h - 2" using x'(2) la(3) by auto
  then show "x < hlen h - 2"
    using blocks_disjoint [OF bl la(1) x'(1)] blocks_end [OF bl x'(1)] x'(2) la(3)
    by (cases "hlen h - 2 < x") auto
qed

lemma user_blocks_take:
  assumes "same_frame h h'" "live h' C = insert it (live h B)" "0 < it" "it < hlen h - 2"
  shows "user_blocks h' C = insert it (user_blocks h B)"
  using assms by (auto simp: user_blocks_def same_frame_def)

lemma user_blocks_give:
  assumes "same_frame h h'" "live h' C = live h B - {it}"
  shows "user_blocks h' C = user_blocks h B - {it}"
  using assms by (auto simp: user_blocks_def same_frame_def)

section \<open>The heap is an allocator\<close>

lemma malloc_cases:
  assumes inv: "heap_inv h B fl" and un: "\<not> held h"
  obtains (zero) "bytes = 0" "malloc bytes h = Some (Inr (hbase h, h))"
  | (none) "bytes \<noteq> 0" "\<forall>p\<in>set fl. arr h p < request_ints bytes" "malloc bytes h = Some (Inr (0, h))"
  | (some) it B' fl' h' where "bytes \<noteq> 0" "it \<in> set fl" "request_ints bytes \<le> arr h it"
      "malloc bytes h = Some (Inr (block_ptr h it, h'))" "heap_inv h' B' fl'" "same_frame h h'"
      "live h' B' = insert it (live h B)" "keeps_live h h' (live h B)"
      "arr h' it \<le> - request_ints bytes" "\<And>k. k < 0 \<or> hlen h \<le> k \<Longrightarrow> arr h' k = arr h k"
proof (cases "bytes = 0")
  case True
  then show ?thesis using zero by (simp add: malloc_def)
next
  case False
  show ?thesis
  proof (cases "candidates (arr h) (request_ints bytes) fl = []")
    case True
    then show ?thesis
      using none [OF False] malloc_none [OF inv un False True] candidates_Nil_iff by blast
  next
    case nonempty: False
    show ?thesis by (rule malloc_some [OF inv un False nonempty]) (rule some [OF False])
  qed
qed

lemma held_same: "same_frame h h' \<Longrightarrow> held h' = held h"
  by (simp add: same_frame_def)

text \<open>A block taken off the free list becomes an owned pointer.\<close>

lemma owned_take:
  assumes inv: "heap_inv h B fl" and it: "it \<in> set fl"
    and r: "heap_inv h' C gl" "same_frame h h'" "live h' C = insert it (live h B)"
  shows "\<not> not_a_block h (block_ptr h it)" "block_ptr h it \<notin> owned_ptrs h"
    "owned_ptrs h' = insert (block_ptr h it) (owned_ptrs h)"
proof -
  note f = free_not_sentinel [OF inv it]
  show "\<not> not_a_block h (block_ptr h it)"
    using block_ptr_ne [OF inv, of it] f by (simp add: not_a_block_def)
  show "owned_ptrs h' = insert (block_ptr h it) (owned_ptrs h)"
    unfolding owned_ptrs_eq [OF inv] owned_ptrs_eq [OF r(1)]
    using user_blocks_take [OF r(2,3) f(2,3)] same_frame_block_ptr [OF r(2)] by auto
  show "block_ptr h it \<notin> owned_ptrs h"
  proof
    assume "block_ptr h it \<in> owned_ptrs h"
    then obtain b where b: "b \<in> user_blocks h B" "block_ptr h b = block_ptr h it"
      using owned_ptrs_eq [OF inv] by auto
    have "free_idx h (block_ptr h it) = it" by (rule free_idx_block_ptr [OF inv]) (use f in auto)
    then have "b = it" using free_idx_user [OF inv b(1)] b(2) by simp
    then show False using b f(4) by (auto simp: user_blocks_def)
  qed
qed

lemma malloc_ok_law:
  assumes ok: "heap_ok h" and m: "malloc bytes h = Some (Inr (p, h'))"
  shows "heap_ok h'" and "not_a_block h p \<Longrightarrow> owned_ptrs h' = owned_ptrs h"
    and "\<not> not_a_block h p \<Longrightarrow> p \<notin> owned_ptrs h \<and> owned_ptrs h' = insert p (owned_ptrs h)"
proof -
  obtain B fl where inv: "heap_inv h B fl" and un: "\<not> held h" using ok by (auto simp: heap_ok_def)
  have "heap_ok h' \<and> (not_a_block h p \<longrightarrow> owned_ptrs h' = owned_ptrs h) \<and>
    (\<not> not_a_block h p \<longrightarrow> p \<notin> owned_ptrs h \<and> owned_ptrs h' = insert p (owned_ptrs h))"
  proof (rule malloc_cases [OF inv un, of bytes])
    assume "malloc bytes h = Some (Inr (hbase h, h))"
    then show ?thesis using m ok by (simp add: not_a_block_def)
  next
    assume "malloc bytes h = Some (Inr (0, h))"
    then show ?thesis using m ok by (simp add: not_a_block_def)
  next
    fix it C gl h1
    assume it: "it \<in> set fl" and r: "malloc bytes h = Some (Inr (block_ptr h it, h1))"
      "heap_inv h1 C gl" "same_frame h h1" "live h1 C = insert it (live h B)"
    have eq: "p = block_ptr h it" "h' = h1" using m r(1) by auto
    note own = owned_take [OF inv it r(2-4), folded eq]
    show ?thesis using own r(2) held_same [OF r(3)] un eq(2) by (auto simp: heap_ok_def)
  qed
  then show "heap_ok h'" "not_a_block h p \<Longrightarrow> owned_ptrs h' = owned_ptrs h"
    "\<not> not_a_block h p \<Longrightarrow> p \<notin> owned_ptrs h \<and> owned_ptrs h' = insert p (owned_ptrs h)"
    by blast+
qed

lemma free_ok_law:
  assumes ok: "heap_ok h" and p: "p \<in> owned_ptrs h"
  shows "\<exists>h'. free_h p h = Some (Inr h') \<and> heap_ok h' \<and> owned_ptrs h' = owned_ptrs h - {p}"
proof -
  obtain B fl where inv: "heap_inv h B fl" and un: "\<not> held h" using ok by (auto simp: heap_ok_def)
  obtain b where b: "b \<in> user_blocks h B" "p = block_ptr h b" using p owned_ptrs_eq [OF inv] by auto
  have b': "b \<in> live h B" "b \<noteq> 0" "b \<noteq> hlen h - 2" using b(1) by (auto simp: user_blocks_def)
  obtain h' C gl where r: "free_h (block_ptr h b) h = Some (Inr h')" "heap_inv h' C gl"
    "same_frame h h'" "live h' C = live h B - {b}"
    using free_spec [OF inv un b'] by metis
  have "owned_ptrs h' = block_ptr h ` (user_blocks h B - {b})"
    unfolding owned_ptrs_eq [OF r(2)]
    using user_blocks_give [OF r(3,4)] same_frame_block_ptr [OF r(3)] by simp
  also have "\<dots> = owned_ptrs h - {p}"
    unfolding owned_ptrs_eq [OF inv] using inj_on_image_set_diff [OF block_ptr_inj [OF inv], of _ "{b}"] b
    by auto
  finally show ?thesis using r held_same [OF r(3)] un b(2) by (auto simp: heap_ok_def)
qed

interpretation kheap: allocator malloc free_h heap_ok owned_ptrs not_a_block
  by unfold_locales (use malloc_ok_law free_ok_law in blast)+

section \<open>Writing into a live block\<close>

text \<open>What a client may write: the cells between the tags of its block.\<close>

definition payload :: "heap \<Rightarrow> int \<Rightarrow> int set" where
  "payload h b = {b <..< b + \<bar>arr h b\<bar> - 1}"

lemma payload_write:
  assumes inv: "heap_inv h B fl" and b: "b \<in> live h B"
    and same: "\<And>k. k \<notin> payload h b \<Longrightarrow> a k = arr h k"
  shows "heap_inv (h\<lparr>arr := a\<rparr>) B fl" and "live (h\<lparr>arr := a\<rparr>) B = live h B"
proof -
  note bl = heap_inv_blocks [OF inv]
  have bB: "b \<in> B" "arr h b < 0" using b by (auto simp: live_def)
  have cong: "\<not> inside (arr h) B k \<Longrightarrow> a k = arr h k" for k
    using same [of k] bB(1) by (auto simp: payload_def inside_def)
  have keep: "blocks a B (hlen h)" "\<And>b. b \<in> B \<Longrightarrow> a b = arr h b"
    using blocks_cong_tags [OF bl cong] by blast+
  have flB: "\<forall>x\<in>set fl. x \<in> B \<and> 4 \<le> arr h x"
    using heap_inv_fl(1) [OF inv] heap_inv_free [OF inv] by blast
  have "b \<notin> set fl" using bB heap_inv_fl(1) [OF inv] by auto
  then have nolink: "k \<in> links fl \<Longrightarrow> k \<notin> payload h b" for k
    using link_outside [OF bl flB bB(1)] by (auto simp: payload_def)
  have "seg a 0 fl 0 = seg (arr h) 0 fl 0"
  proof (rule seg_cong)
    fix x assume "x \<in> set fl"
    then have "x + 1 \<in> links fl" "x + 2 \<in> links fl" by (auto simp: links_def)
    then show "a (x + 1) = arr h (x + 1) \<and> a (x + 2) = arr h (x + 2)"
      using nolink same by blast
  qed
  then have fl': "flist (h\<lparr>arr := a\<rparr>) fl" using heap_inv_fl(3) [OF inv] by (simp add: flist_def)
  note la = heap_inv_last [OF inv]
  show "heap_inv (h\<lparr>arr := a\<rparr>) B fl"
  proof (rule heap_invI)
    show "set fl = {b \<in> B. 0 < arr (h\<lparr>arr := a\<rparr>) b}"
      using heap_inv_fl(1) [OF inv] keep(2) by auto
    fix c assume c: "c \<in> B"
    { assume "0 < arr (h\<lparr>arr := a\<rparr>) c"
      then have p: "0 < arr h c" using keep(2) [OF c] by simp
      then have "c \<noteq> hlen h - 2" using la(3) by auto
      then have "c + arr h c \<in> B" using heap_inv_right [OF inv c] p by simp
      then show "4 \<le> arr (h\<lparr>arr := a\<rparr>) c \<and> arr (h\<lparr>arr := a\<rparr>) (c + arr (h\<lparr>arr := a\<rparr>) c) < 0"
        using heap_inv_free [OF inv c p] keep(2) c by simp }
    { assume "c \<noteq> 0" "c \<noteq> hlen (h\<lparr>arr := a\<rparr>) - 2"
      then show "4 \<le> \<bar>arr (h\<lparr>arr := a\<rparr>) c\<bar>"
        using heap_inv_big [OF inv c] keep(2) [OF c] by simp }
  qed (use keep la heap_inv_first [OF inv] blocks_zero [OF bl] heap_inv_fl(2) [OF inv]
        heap_inv_fits [OF inv] fl' in auto)
  show "live (h\<lparr>arr := a\<rparr>) B = live h B" using keep(2) by (auto simp: live_def)
qed

section \<open>heapInit\<close>

text \<open>The heap before the lock object is made: two sentinels around one free block.\<close>

definition init_blocks :: "u32 \<Rightarrow> u32 \<Rightarrow> heap \<Rightarrow> heap" where
  "init_blocks base bytes h =
     (let h0 = h\<lparr>hbase := base, hlen := uint (bytes div 4)\<rparr>;
          h1 = makeTaken h0 0 2;
          h2 = makeAvail h1 2 (hlen h1 - 4)
      in makeTaken h2 (hlen h2 - 2) 2)"

lemma init_blocks_arr:
  assumes "8 \<le> uint (bytes div 4)"
  shows "init_blocks base bytes (heap_boot m) =
    \<lparr>arr = m(0 := -2, 1 := -2, 2 := uint (bytes div 4) - 4,
              uint (bytes div 4) - 3 := uint (bytes div 4) - 4, 3 := 0, 4 := 0,
              uint (bytes div 4) - 2 := -2, uint (bytes div 4) - 1 := -2),
     hbase = base, hlen = uint (bytes div 4), safe = 0, avail = 2, theLock = 0, held = False\<rparr>"
proof -
  obtain n where n: "uint (bytes div 4) = n" "8 \<le> n" using assms by blast
  have "\<bar>n - 4\<bar> = n - 4" using n by simp
  then show ?thesis
    unfolding init_blocks_def heap_boot_def makeTaken_def makeAvail_def footerFromHeader_def
      size_h_def setNext_def setPrev_def Let_def n(1)
    by (simp add: algebra_simps)
qed

lemma init_blocks_inv:
  assumes b: "32 \<le> uint bytes" "uint base + uint bytes \<le> 2 ^ 32"
  defines "n \<equiv> uint (bytes div 4)"
  shows "heap_inv (init_blocks base bytes (heap_boot m)) {0, 2, n - 2} [2]"
    and "n = uint bytes div 4"
proof -
  show n: "n = uint bytes div 4" by (simp add: n_def uint_div)
  then have n8: "8 \<le> n" using b(1) by simp
  note eq = init_blocks_arr [OF n8 [unfolded n_def], folded n_def]
  let ?a = "m(0 := -2, 1 := -2, 2 := n - 4, n - 3 := n - 4, 3 := 0, 4 := 0, n - 2 := -2, n - 1 := -2)"
  have at: "?a 0 = -2" "?a 1 = -2" "?a 2 = n - 4" "?a (n - 3) = n - 4" "?a 3 = 0" "?a 4 = 0"
    "?a (n - 2) = -2" "?a (n - 1) = -2" using n8 by auto
  have bl: "blocks ?a {0, 2, n - 2} n"
    unfolding blocks_def using at n8 by auto
  show "heap_inv (init_blocks base bytes (heap_boot m)) {0, 2, n - 2} [2]"
    unfolding eq
  proof (rule heap_invI, unfold heap.simps)
    show "blocks ?a {0, 2, n - 2} n" by (rule bl)
    show "uint base + 4 * n \<le> 2 ^ 32" using n b(2) by simp
  qed (use at n8 in \<open>auto simp: flist_def\<close>)
qed

lemma blockingLock_ctor_outside:
  "k < i \<or> i + 7 < k \<Longrightarrow> blockingLock_ctor i a k = a k"
  by (auto simp: blockingLock_ctor_def)

lemma heapInit_unfold:
  "heapInit base bytes h =
     obind (operator_new blockingLock_bytes (init_blocks base bytes h)) (\<lambda>(p, h4).
       Some (Inr (h4\<lparr>theLock := p, arr := blockingLock_ctor (free_idx h4 p + 1) (arr h4)\<rparr>)))"
  by (simp add: heapInit_def init_blocks_def Let_def)

lemma heap_inv_lock [simp]:
  "heap_inv (h\<lparr>theLock := p\<rparr>) B fl = heap_inv h B fl" "live (h\<lparr>theLock := p\<rparr>) B = live h B"
  by (simp_all add: heap_inv_def flist_def live_def)

lemma heapInit_spec:
  assumes b: "56 \<le> uint bytes" "uint base + uint bytes \<le> 2 ^ 32"
  obtains h B fl where "heapInit base bytes (heap_boot m) = Some (Inr h)"
    "heap_inv h B fl" "\<not> held h" "hbase h = base" "hlen h = uint bytes div 4"
    "theLock h = block_ptr h 2" "live h B = {0, 2, uint bytes div 4 - 2}"
    "\<And>k. k < 0 \<or> hlen h \<le> k \<Longrightarrow> arr h k = m k"
proof -
  let ?n = "uint (bytes div 4)" and ?h = "init_blocks base bytes (heap_boot m)"
  have b32: "32 \<le> uint bytes" using b(1) by simp
  note inv = init_blocks_inv(1) [OF b32 b(2)] and n = init_blocks_inv(2) [OF b32 b(2)]
  have n14: "14 \<le> ?n" using b(1) n by simp
  then have n8: "8 \<le> ?n" by simp
  note eq = init_blocks_arr [OF n8, of base m]
  have un: "\<not> held ?h" and hl: "hlen ?h = ?n" and hb: "hbase ?h = base" by (simp_all add: eq)
  have at: "arr ?h 0 = -2" "arr ?h 2 = ?n - 4" "arr ?h (?n - 2) = -2" using n14 by (simp_all add: eq)
  have r: "request_ints blockingLock_bytes = 10"
    by (simp add: request_ints_def blockingLock_bytes_def)
  have some: "candidates (arr ?h) (request_ints blockingLock_bytes) [2] \<noteq> []"
    using n14 by (simp add: r candidates_def at)
  have nz: "blockingLock_bytes \<noteq> 0" by (simp add: blockingLock_bytes_def)
  obtain it mx B fl h1 where m: "it \<in> set [2::int]"
    "malloc blockingLock_bytes ?h = Some (Inr (block_ptr ?h it, h1))" "heap_inv h1 B fl"
    "same_frame ?h h1" "live h1 B = insert it (live ?h {0, 2, ?n - 2})"
    "arr h1 it \<le> - request_ints blockingLock_bytes"
    "\<And>k. k < 0 \<or> hlen ?h \<le> k \<Longrightarrow> arr h1 k = arr ?h k"
    using malloc_some [OF inv un nz some] by metis
  have it: "it = 2" using m(1) by simp
  have sf: "hbase h1 = base" "hlen h1 = ?n" "\<not> held h1"
    using m(4) un by (simp_all add: same_frame_def hl hb)
  have l2: "2 \<in> live h1 B" using m(5) it by simp
  have p: "block_ptr ?h 2 = block_ptr h1 2" using same_frame_block_ptr [OF m(4)] by simp
  have fi: "free_idx h1 (block_ptr h1 2) = 2"
    by (rule free_idx_block_ptr [OF m(3)]) (use l2 sf n14 in \<open>auto simp: live_def\<close>)
  have "block_ptr h1 2 \<noteq> 0"
    using block_ptr_ne(1) [OF m(3), of 2] sf n14 by simp
  then have new: "operator_new blockingLock_bytes ?h = Some (Inr (block_ptr h1 2, h1))"
    using m(2) it p by (simp add: operator_new_def)
  define a where "a = blockingLock_ctor 3 (arr h1)"
  have same: "k \<notin> payload h1 2 \<Longrightarrow> a k = arr h1 k" for k
    using m(6) it r by (auto simp: a_def payload_def intro: blockingLock_ctor_outside)
  note w = payload_write [OF m(3) l2 same]
  let ?h' = "h1\<lparr>theLock := block_ptr h1 2, arr := a\<rparr>"
  have eqh: "?h' = (h1\<lparr>arr := a\<rparr>)\<lparr>theLock := block_ptr h1 2\<rparr>" by simp
  show ?thesis
  proof (rule that [of ?h' B fl])
    show "heapInit base bytes (heap_boot m) = Some (Inr ?h')"
      using new fi by (simp add: heapInit_unfold a_def)
    show "heap_inv ?h' B fl" unfolding eqh using w(1) by simp
    have "live ?h {0, 2, ?n - 2} = {0, ?n - 2}" using at n14 by (auto simp: live_def)
    then show "live ?h' B = {0, 2, uint bytes div 4 - 2}"
      unfolding eqh using w(2) m(5) it n by auto
    show "arr ?h' k = m k" if "k < 0 \<or> hlen ?h' \<le> k" for k
    proof -
      have k: "k < 0 \<or> ?n \<le> k" using that sf by simp
      then have "arr ?h k = m k" using n14 by (auto simp: eq)
      moreover have "k \<notin> payload h1 2"
      proof -
        have "2 + \<bar>arr h1 2\<bar> \<le> ?n"
          using blocks_end [OF heap_inv_blocks [OF m(3)], of 2] l2 sf by (simp add: live_def)
        then show ?thesis using k by (auto simp: payload_def)
      qed
      ultimately show ?thesis using same m(7) k hl by simp
    qed
  qed (use sf n in \<open>auto simp: block_ptr_def\<close>)
qed

end
