(* ===== verification/Heap_Correct.thy ===== *)
theory Heap_Correct
  imports Heap_Props
begin

text \<open>
  What the kernel heap promises its callers, and two small heaps on which the promises are
  exercised: \<open>fresh_heap\<close> is the heap \<open>heapInit\<close> makes of 64 bytes before its lock
  exists, \<open>full_heap\<close> a heap of 32 bytes whose only block is taken.
\<close>

section \<open>Two small heaps\<close>

definition fresh_heap :: heap where
  "fresh_heap = init_blocks 4096 64 (heap_boot (\<lambda>_. 0))"

definition full_heap :: heap where
  "full_heap = \<lparr>arr = (\<lambda>i. if i \<in> {0, 1, 6, 7} then -2 else if i \<in> {2, 5} then -4 else 0),
     hbase = 4096, hlen = 8, safe = 1, avail = 0, theLock = 0, held = False\<rparr>"

lemma fresh_heap_inv: "heap_inv fresh_heap {0, 2, 14} [2]" "\<not> held fresh_heap"
  using init_blocks_inv(1) [of 64 4096 "\<lambda>_. 0"] by (simp_all add: fresh_heap_def init_blocks_def
    heap_boot_def makeTaken_def makeAvail_def setNext_def setPrev_def Let_def)

lemma fresh_heap_eq:
  "fresh_heap =
    \<lparr>arr = (\<lambda>_. 0)(0 := -2, 1 := -2, 2 := 12, 13 := 12, 3 := 0, 4 := 0, 14 := -2, 15 := -2),
     hbase = 4096, hlen = 16, safe = 0, avail = 2, theLock = 0, held = False\<rparr>"
  using init_blocks_arr [of 64 4096 "\<lambda>_. 0"] by (simp add: fresh_heap_def)

lemma fresh_heap_fields [simp]:
  "hbase fresh_heap = 4096" "hlen fresh_heap = 16" "avail fresh_heap = 2" "theLock fresh_heap = 0"
  "held fresh_heap = False" "safe fresh_heap = 0"
  by (simp_all add: fresh_heap_eq)

lemma fresh_fits: "arr fresh_heap 2 = 12"
  by (simp add: fresh_heap_eq)

lemma request_9: "request_ints 9 = 5"
  by (simp add: request_ints_def)

lemma fresh_malloc: "\<exists>h'. malloc 9 fresh_heap = Some (Inr (4108, h'))"
proof -
  have "candidates (arr fresh_heap) (request_ints 9) [2] \<noteq> []"
    by (simp add: candidates_def fresh_fits request_9)
  moreover have "(9 :: u32) \<noteq> 0" by simp
  ultimately obtain it h' where
    "it \<in> set [2::int]" "malloc 9 fresh_heap = Some (Inr (block_ptr fresh_heap it, h'))"
    using malloc_some [OF fresh_heap_inv] by metis
  then show ?thesis by (simp add: block_ptr_def)
qed

lemma full_heap_inv: "heap_inv full_heap {0, 2, 6} []" "\<not> held full_heap"
proof -
  show "heap_inv full_heap {0, 2, 6} []"
    by (rule heap_invI) (auto simp: full_heap_def blocks_def flist_def)
qed (simp add: full_heap_def)

lemma full_heap_live: "2 \<in> live full_heap {0, 2, 6}" "hlen full_heap = 8"
  by (simp_all add: full_heap_def live_def)

section \<open>malloc\<close>

lemma fold_take_smaller_split:
  assumes "fold (take_smaller a) cs (m0, 0) = (mx, it)" and "it \<noteq> 0"
  shows "\<exists>pre post. cs = pre @ it # post \<and> (\<forall>c\<in>set pre. a it < a c) \<and>
    (\<forall>c\<in>set post. a it \<le> a c)"
  using assms
proof (induction cs arbitrary: mx it rule: rev_induct)
  case Nil
  then show ?case by simp
next
  case (snoc x cs)
  obtain mx0 it0 where f: "fold (take_smaller a) cs (m0, 0) = (mx0, it0)"
    by (cases "fold (take_smaller a) cs (m0, 0)")
  show ?case
  proof (cases "a x < mx0")
    case True
    then have "it = x" using snoc.prems(1) f by simp
    moreover have "\<forall>c\<in>set cs. a x < a c" using fold_take_smaller [OF f] True by force
    ultimately show ?thesis by (intro exI [of _ cs] exI [of _ "[]"]) simp
  next
    case False
    then have eq: "it = it0" using snoc.prems(1) f by simp
    then have nz: "it0 \<noteq> 0" using snoc.prems(2) by simp
    obtain pre post where s: "cs = pre @ it0 # post" "\<forall>c\<in>set pre. a it0 < a c"
      "\<forall>c\<in>set post. a it0 \<le> a c" using snoc.IH [OF f nz] by blast
    have "a it0 = mx0" using fold_take_smaller [OF f] nz by auto
    then show ?thesis using s eq False
      by (intro exI [of _ pre] exI [of _ "post @ [x]"]) auto
  qed
qed

lemma request_ints_covers:
  assumes "uint bytes \<le> 2 ^ 32 - 4"
  shows "uint bytes \<le> 4 * (request_ints bytes - 2)"
proof -
  have u: "uint (bytes + 3) = uint bytes + 3"
    using assms by (subst uint_add_lem [THEN iffD1]) simp_all
  have "uint ((bytes + 3) div 4) = (uint bytes + 3) div 4" by (simp add: uint_div u)
  moreover have "(uint bytes + 3) div 4 + 2 < 2 ^ 32" using assms by simp
  ultimately have "uint ((bytes + 3) div 4 + 2) = (uint bytes + 3) div 4 + 2"
    by (subst uint_add_lem [THEN iffD1]) simp_all
  moreover have "uint bytes \<le> 4 * ((uint bytes + 3) div 4)" by simp
  ultimately show ?thesis by (simp add: request_ints_def Let_def)
qed

text \<open>
  On every well-formed heap whose lock is free \<open>malloc\<close> returns, for every request:
  the heap it leaves is well-formed and unlocked again, everything that was taken is still taken
  with the same contents (tags included), and no cell outside the heap has changed.
\<close>

theorem malloc_preserves:
  assumes "heap_inv h B fl" and "\<not> held h"
  shows "\<exists>p h' B' fl'. malloc bytes h = Some (Inr (p, h')) \<and> heap_inv h' B' fl' \<and> \<not> held h' \<and>
    live h B \<subseteq> live h' B' \<and> keeps_live h h' (live h B) \<and>
    (\<forall>k. k < 0 \<or> hlen h \<le> k \<longrightarrow> arr h' k = arr h k)"
proof (rule malloc_cases [OF assms, of bytes])
  assume "malloc bytes h = Some (Inr (hbase h, h))"
  then show ?thesis using assms by (auto simp: keeps_live_def)
next
  assume "malloc bytes h = Some (Inr (0, h))"
  then show ?thesis using assms by (auto simp: keeps_live_def)
next
  fix it B' fl' h'
  assume r: "malloc bytes h = Some (Inr (block_ptr h it, h'))" "heap_inv h' B' fl'" "same_frame h h'"
    "live h' B' = insert it (live h B)" "keeps_live h h' (live h B)"
    "\<And>k. k < 0 \<or> hlen h \<le> k \<Longrightarrow> arr h' k = arr h k"
  then have "\<not> held h'" using assms(2) held_same by simp
  then show ?thesis using r by blast
qed

lemma malloc_preserves_witness:
  "\<exists>p h' B' fl'. malloc 9 fresh_heap = Some (Inr (p, h')) \<and> heap_inv h' B' fl' \<and> \<not> held h' \<and>
    live fresh_heap {0, 2, 14} \<subseteq> live h' B' \<and>
    keeps_live fresh_heap h' (live fresh_heap {0, 2, 14}) \<and>
    (\<forall>k. k < 0 \<or> hlen fresh_heap \<le> k \<longrightarrow> arr h' k = arr fresh_heap k)"
  by (rule malloc_preserves [OF fresh_heap_inv])

text \<open>
  The pointer \<open>malloc\<close> returns for a request of 1 to \<open>2^32 - 4\<close> bytes.  Null:
  nothing changed and no free block is big enough.  Otherwise it points just behind the header
  of a block that was not taken before and is now, lies inside the heap between the two
  sentinels and has room for the request between its two tags.
\<close>

theorem malloc_result:
  assumes inv: "heap_inv h B fl" and un: "\<not> held h"
    and req: "bytes \<noteq> 0" "uint bytes \<le> 2 ^ 32 - 4"
    and run: "malloc bytes h = Some (Inr (p, h'))"
  shows "(p = 0 \<and> h' = h \<and> (\<forall>b\<in>set fl. arr h b < request_ints bytes)) \<or>
    (\<exists>b B' fl'. heap_inv h' B' fl' \<and> p = block_ptr h b \<and> uint p = uint (hbase h) + 4 * (b + 1) \<and>
       b \<notin> live h B \<and> live h' B' = insert b (live h B) \<and>
       0 < b \<and> b + \<bar>arr h' b\<bar> \<le> hlen h - 2 \<and> uint bytes \<le> 4 * (\<bar>arr h' b\<bar> - 2))"
proof (rule malloc_cases [OF inv un, of bytes])
  fix it B' fl' h1
  assume it: "it \<in> set fl" and r: "malloc bytes h = Some (Inr (block_ptr h it, h1))"
    "heap_inv h1 B' fl'" "same_frame h h1" "live h1 B' = insert it (live h B)"
    "arr h1 it \<le> - request_ints bytes"
  have eq: "p = block_ptr h it" "h' = h1" using run r(1) by auto
  note f = free_not_sentinel [OF inv it]
  have sz: "request_ints bytes \<le> \<bar>arr h' it\<bar>" using r(5) eq by simp
  have "hlen h1 = hlen h" using r(3) by (simp add: same_frame_def)
  moreover have "it \<in> B'" using r(4) by (auto simp: live_def)
  ultimately have "it + \<bar>arr h1 it\<bar> \<in> B'" using heap_inv_right [OF r(2)] f(3) by simp
  moreover have "hlen h1 - 2 \<in> B'" "arr h1 (hlen h1 - 2) = -2" using heap_inv_last [OF r(2)] by auto
  ultimately have top: "it + \<bar>arr h1 it\<bar> \<le> hlen h - 2"
    using \<open>hlen h1 = hlen h\<close> blocks_disjoint [OF heap_inv_blocks [OF r(2)], of "hlen h1 - 2" "it + \<bar>arr h1 it\<bar>"]
      blocks_end [OF heap_inv_blocks [OF r(2)], of "it + \<bar>arr h1 it\<bar>"]
      blocks_size [OF heap_inv_blocks [OF r(2)], of "it + \<bar>arr h1 it\<bar>"]
    by (cases "hlen h - 2 < it + \<bar>arr h1 it\<bar>") auto
  have "0 < it" using f by auto
  then have "uint p = uint (hbase h) + 4 * (it + 1)"
    using block_ptr_uint [OF inv, of it] f eq by simp
  then show ?thesis
    using eq r sz f(4) top \<open>0 < it\<close> request_ints_covers [OF req(2)] by (intro disjI2) (rule exI [of _ it], auto)
qed (use run req in auto)

lemma malloc_result_witness:
  "\<exists>h'. malloc 9 fresh_heap = Some (Inr (4108, h')) \<and>
    (\<exists>b B' fl'. heap_inv h' B' fl' \<and> 4108 = block_ptr fresh_heap b \<and>
       b \<notin> live fresh_heap {0, 2, 14} \<and> live h' B' = insert b (live fresh_heap {0, 2, 14}) \<and>
       0 < b \<and> b + \<bar>arr h' b\<bar> \<le> hlen fresh_heap - 2 \<and> uint (9 :: u32) \<le> 4 * (\<bar>arr h' b\<bar> - 2))"
proof -
  obtain h' where m: "malloc 9 fresh_heap = Some (Inr (4108, h'))" using fresh_malloc by blast
  have "(9 :: u32) \<noteq> 0" "uint (9 :: u32) \<le> 2 ^ 32 - 4" "(4108 :: u32) \<noteq> 0" by simp_all
  then show ?thesis using malloc_result [OF fresh_heap_inv _ _ m] m by blast
qed

text \<open>
  Which block: among the first 20 blocks of the free list that are big enough, the smallest,
  and the earliest of the smallest.
\<close>

theorem malloc_best_fit:
  assumes "heap_inv h B fl" and "\<not> held h" and "bytes \<noteq> 0"
    and "take 20 (filter (\<lambda>b. request_ints bytes \<le> arr h b) fl) \<noteq> []"
  shows "\<exists>pre b post h'.
    take 20 (filter (\<lambda>b. request_ints bytes \<le> arr h b) fl) = pre @ b # post \<and>
    (\<forall>c\<in>set pre. arr h b < arr h c) \<and> (\<forall>c\<in>set post. arr h b \<le> arr h c) \<and>
    malloc bytes h = Some (Inr (block_ptr h b, h'))"
proof -
  let ?cs = "candidates (arr h) (request_ints bytes) fl"
  have cs: "?cs \<noteq> []" using assms(4) by (simp add: candidates_def)
  obtain it mx h' where r: "fold (take_smaller (arr h)) ?cs (0x7FFFFFFF, 0) = (mx, it)"
    "it \<in> set fl" "malloc bytes h = Some (Inr (block_ptr h it, h'))"
    using malloc_some [OF assms(1-3) cs] by metis
  have "it \<noteq> 0" using free_not_sentinel [OF assms(1) r(2)] by simp
  then have "\<exists>pre post. ?cs = pre @ it # post \<and>
      (\<forall>c\<in>set pre. arr h it < arr h c) \<and> (\<forall>c\<in>set post. arr h it \<le> arr h c)"
    using fold_take_smaller_split [OF r(1)] by blast
  then show ?thesis using r(3) unfolding candidates_def by blast
qed

lemma malloc_best_fit_witness:
  "\<exists>pre b post h'. take 20 (filter (\<lambda>b. request_ints 9 \<le> arr fresh_heap b) [2]) = pre @ b # post \<and>
    (\<forall>c\<in>set pre. arr fresh_heap b < arr fresh_heap c) \<and>
    (\<forall>c\<in>set post. arr fresh_heap b \<le> arr fresh_heap c) \<and>
    malloc 9 fresh_heap = Some (Inr (block_ptr fresh_heap b, h'))"
  by (rule malloc_best_fit [OF fresh_heap_inv]) (simp_all add: fresh_fits request_9)

text \<open>
  The size computation wraps: the three largest requests are served as requests for the
  smallest block.  On the 64 byte heap, \<open>malloc\<close> of 4 GB - 1 succeeds.
\<close>

theorem malloc_wraps:
  "request_ints 0xFFFFFFFD = 4 \<and> request_ints 0xFFFFFFFE = 4 \<and> request_ints 0xFFFFFFFF = 4 \<and>
   (\<exists>h'. malloc 0xFFFFFFFF fresh_heap = Some (Inr (4108, h')) \<and> arr h' 2 = -4)"
proof -
  have r: "request_ints 0xFFFFFFFD = 4" "request_ints 0xFFFFFFFE = 4" "request_ints 0xFFFFFFFF = 4"
    by (simp_all add: request_ints_def)
  have "malloc_scan fresh_heap 4 20 2 0x7FFFFFFF 0 = Some (Inr (12, 2))"
    using malloc_scan_inv [OF fresh_heap_inv(1), of 4] fresh_fits(1) fresh_heap_fields
    by (simp add: candidates_def)
  moreover have "guard_enter fresh_heap = Some fresh_heap"
    by (simp add: guard_enter_def fresh_heap_fields)
  ultimately show ?thesis
    using r by (simp add: malloc_def Let_def fresh_heap_eq remove_h_def prev_h_def next_h_def
      sanity_def makeTaken_def makeAvail_def setNext_def setPrev_def footerFromHeader_def size_h_def
      guard_leave_def)
qed

section \<open>free\<close>

text \<open>
  \<open>free\<close> of a taken block other than the two sentinels always returns.  The block is no
  longer taken, every other taken block still is with the same contents, and no cell outside the
  heap changes.  The heap is well-formed again, so in particular the block has been merged with
  its free neighbours: no two free blocks are adjacent.
\<close>

theorem free_preserves:
  assumes "heap_inv h B fl" and "\<not> held h"
    and "idx \<in> live h B" and "idx \<noteq> 0" and "idx \<noteq> hlen h - 2"
  shows "\<exists>h' B' fl'. free_h (block_ptr h idx) h = Some (Inr h') \<and> heap_inv h' B' fl' \<and> \<not> held h' \<and>
    live h' B' = live h B - {idx} \<and> keeps_live h h' (live h B - {idx}) \<and>
    (\<forall>b\<in>B'. 0 < arr h' b \<longrightarrow> arr h' (b + arr h' b) < 0) \<and>
    (\<forall>k. k < 0 \<or> hlen h \<le> k \<longrightarrow> arr h' k = arr h k)"
proof -
  obtain h' B' fl' where r: "free_h (block_ptr h idx) h = Some (Inr h')" "heap_inv h' B' fl'"
    "same_frame h h'" "live h' B' = live h B - {idx}" "keeps_live h h' (live h B - {idx})"
    "\<And>k. k < 0 \<or> hlen h \<le> k \<Longrightarrow> arr h' k = arr h k"
    using free_spec [OF assms] by metis
  then show ?thesis using assms(2) held_same [OF r(3)] heap_inv_free [OF r(2)] by blast
qed

lemma free_preserves_witness:
  "\<exists>h' B' fl'. free_h 4108 full_heap = Some (Inr h') \<and> heap_inv h' B' fl' \<and> \<not> held h' \<and>
    live h' B' = live full_heap {0, 2, 6} - {2} \<and>
    keeps_live full_heap h' (live full_heap {0, 2, 6} - {2}) \<and>
    (\<forall>b\<in>B'. 0 < arr h' b \<longrightarrow> arr h' (b + arr h' b) < 0) \<and>
    (\<forall>k. k < 0 \<or> hlen full_heap \<le> k \<longrightarrow> arr h' k = arr full_heap k)"
proof -
  have p: "block_ptr full_heap 2 = 4108" by (simp add: block_ptr_def full_heap_def)
  show ?thesis
    using free_preserves [OF full_heap_inv full_heap_live(1)] unfolding full_heap_live(2) p by simp
qed

section \<open>Histories of calls\<close>

text \<open>
  C4.  The heap refines an ownership set.  Take any sequence of calls of a client that frees only
  what \<open>malloc\<close> gave it and it has not freed since, starting on a well-formed heap: the heap
  stays well-formed, and replaying the events on the set of owned pointers is legal throughout (no
  pointer is given out while it is owned) and ends in the set the final heap owns.
\<close>

theorem heap_history:
  assumes "client_run malloc free_h owned_ptrs not_a_block h es h'" and "heap_ok h"
  shows "heap_ok h' \<and> replay (owned_ptrs h) es = Some (owned_ptrs h')"
  by (rule kheap.run_replay [OF assms])

lemma fresh_heap_ok: "heap_ok fresh_heap"
  unfolding heap_ok_def using fresh_heap_inv by blast

lemma fresh_history:
  "\<exists>h'. client_run malloc free_h owned_ptrs not_a_block fresh_heap [Got 4108, Gave 4108] h'"
proof -
  obtain h1 where m: "malloc 9 fresh_heap = Some (Inr (4108, h1))" using fresh_malloc by blast
  have n: "\<not> not_a_block fresh_heap 4108" by (simp add: not_a_block_def)
  obtain h2 where r: "free_h 4108 h1 = Some (Inr h2)"
    using kheap.release_then_free [OF fresh_heap_ok m n] by blast
  have own: "4108 \<in> owned_ptrs h1" using kheap.alloc_fresh [OF fresh_heap_ok m n] by simp
  have "client_step malloc free_h owned_ptrs not_a_block fresh_heap (Got 4108) h1"
    using m n by (rule client_step.get)
  moreover have "client_step malloc free_h owned_ptrs not_a_block h1 (Gave 4108) h2"
    using own r by (rule client_step.give)
  ultimately show ?thesis by (blast intro: client_run.intros)
qed

lemma heap_history_witness:
  "\<exists>h'. client_run malloc free_h owned_ptrs not_a_block fresh_heap [Got 4108, Gave 4108] h' \<and>
     heap_ok h' \<and> replay (owned_ptrs fresh_heap) [Got 4108, Gave 4108] = Some (owned_ptrs h')"
  using fresh_history heap_history [OF _ fresh_heap_ok] by blast

section \<open>heapInit and the contents of blocks\<close>

text \<open>
  \<open>heapInit\<close> on at least 56 bytes that do not wrap around the address space, over any
  memory: it returns, the heap is well-formed and unlocked, its only taken blocks are the two
  sentinels and the block at index 2, which holds the heap's own lock, and no cell outside the
  heap has changed.
\<close>

theorem heapInit_establishes:
  assumes "56 \<le> uint bytes" and "uint base + uint bytes \<le> 2 ^ 32"
  shows "\<exists>h B fl. heapInit base bytes (heap_boot m) = Some (Inr h) \<and> heap_inv h B fl \<and> \<not> held h \<and>
    hbase h = base \<and> hlen h = uint bytes div 4 \<and> theLock h = block_ptr h 2 \<and>
    live h B = {0, 2, hlen h - 2} \<and> (\<forall>k. k < 0 \<or> hlen h \<le> k \<longrightarrow> arr h k = m k)"
proof -
  obtain h B fl where "heapInit base bytes (heap_boot m) = Some (Inr h)"
    "heap_inv h B fl" "\<not> held h" "hbase h = base" "hlen h = uint bytes div 4"
    "theLock h = block_ptr h 2" "live h B = {0, 2, uint bytes div 4 - 2}"
    "\<And>k. k < 0 \<or> hlen h \<le> k \<Longrightarrow> arr h k = m k"
    using heapInit_spec [OF assms] by metis
  then show ?thesis by auto
qed

text \<open>The kernel's own heap: 5 MB at 1 MB (\<open>HEAP_START\<close>, \<open>HEAP_SIZE\<close> of
  \<open>kernel/init.cc\<close>).\<close>

lemma heapInit_establishes_witness:
  "\<exists>h B fl. heapInit 0x100000 0x500000 (heap_boot (\<lambda>_. 7)) = Some (Inr h) \<and> heap_inv h B fl \<and>
    \<not> held h \<and> hbase h = 0x100000 \<and> hlen h = uint (0x500000 :: u32) div 4 \<and>
    theLock h = block_ptr h 2 \<and> live h B = {0, 2, hlen h - 2} \<and>
    (\<forall>k. k < 0 \<or> hlen h \<le> k \<longrightarrow> arr h k = 7)"
  by (rule heapInit_establishes) simp_all

text \<open>
  A client that writes only between the two tags of a taken block cannot damage the heap: the
  invariant holds with the same blocks and the same free list, and the same blocks are taken.
\<close>

theorem payload_write_harmless:
  assumes "heap_inv h B fl" and "b \<in> live h B"
    and "\<And>k. k \<notin> payload h b \<Longrightarrow> a k = arr h k"
  shows "heap_inv (h\<lparr>arr := a\<rparr>) B fl \<and> live (h\<lparr>arr := a\<rparr>) B = live h B"
  using payload_write [OF assms] by blast

lemma payload_write_harmless_witness:
  "heap_inv (full_heap\<lparr>arr := (arr full_heap)(3 := 99, 4 := -99)\<rparr>) {0, 2, 6} [] \<and>
   live (full_heap\<lparr>arr := (arr full_heap)(3 := 99, 4 := -99)\<rparr>) {0, 2, 6} = live full_heap {0, 2, 6}"
  by (rule payload_write_harmless [OF full_heap_inv(1) full_heap_live(1)])
     (auto simp: payload_def full_heap_def)

end
