(* ===== verification/Queue_Model.thy ===== *)
theory Queue_Model
  imports Prelude
begin

text \<open>
  The intrusive queue of \<open>kernel/queue.h\<close>: \<open>first\<close>, \<open>last\<close> and a
  \<open>next\<close> field in every element.  The \<open>next\<close> fields are a map from element
  addresses that all queues share, as in the code; 0 is the null pointer.  The lock of the
  template (\<open>NoLock\<close> in every use the kernel makes under another lock) makes each
  operation one atomic step.

  The abstraction of a queue is the list of its elements; the interface \<open>fifo_queue\<close> states
  what its clients (semaphores, futures, the ready queue) use of it.
\<close>

section \<open>Operations\<close>

type_synonym ptr = u32
type_synonym next_map = "ptr \<Rightarrow> ptr"

record queue =
  first_q :: ptr
  last_q :: ptr

definition queue_init :: queue where
  "queue_init = \<lparr>first_q = 0, last_q = 0\<rparr>"

definition q_add :: "ptr \<Rightarrow> queue \<times> next_map \<Rightarrow> (queue \<times> next_map) res" where
  "q_add t = (\<lambda>(q, nx).
     if t = 0 then Inl NullDeref
     else let nx1 = nx(t := 0) in
       if first_q q = 0 then Inr (q\<lparr>first_q := t, last_q := t\<rparr>, nx1)
       else if last_q q = 0 then Inl NullDeref
       else Inr (q\<lparr>last_q := t\<rparr>, nx1(last_q q := t)))"

definition q_remove :: "queue \<times> next_map \<Rightarrow> ptr \<times> (queue \<times> next_map)" where
  "q_remove = (\<lambda>(q, nx).
     if first_q q = 0 then (0, (q, nx))
     else let it = first_q q;
              q1 = q\<lparr>first_q := nx it\<rparr>;
              q2 = (if first_q q1 = 0 then q1\<lparr>last_q := 0\<rparr> else q1)
          in (it, (q2, nx)))"

definition q_remove_all :: "queue \<times> next_map \<Rightarrow> ptr \<times> (queue \<times> next_map)" where
  "q_remove_all = (\<lambda>(q, nx). (first_q q, (q\<lparr>first_q := 0, last_q := 0\<rparr>, nx)))"

section \<open>The list a queue holds\<close>

text \<open>The elements from \<open>p\<close> along the \<open>next\<close> fields are \<open>xs\<close>.\<close>

fun chain :: "next_map \<Rightarrow> ptr \<Rightarrow> ptr list \<Rightarrow> bool" where
  "chain nx p [] \<longleftrightarrow> p = 0"
| "chain nx p (x # xs) \<longleftrightarrow> p = x \<and> x \<noteq> 0 \<and> chain nx (nx x) xs"

definition queue_holds :: "queue \<times> next_map \<Rightarrow> ptr list \<Rightarrow> bool" where
  "queue_holds = (\<lambda>(q, nx) xs. chain nx (first_q q) xs \<and> distinct xs \<and>
     (if xs = [] then first_q q = 0 else last_q q = last xs))"

lemma chain_nonnull: "chain nx p xs \<Longrightarrow> 0 \<notin> set xs"
  by (induction xs arbitrary: p) auto

lemma chain_unique: "chain nx p xs \<Longrightarrow> chain nx p ys \<Longrightarrow> xs = ys"
proof (induction xs arbitrary: p ys)
  case Nil
  then show ?case by (cases ys) auto
next
  case (Cons x xs)
  then show ?case by (cases ys) auto
qed

lemma chain_cong: "chain nx p xs \<Longrightarrow> \<forall>x\<in>set xs. nx' x = nx x \<Longrightarrow> chain nx' p xs"
  by (induction xs arbitrary: p) auto

lemma chain_snoc:
  assumes "chain nx p xs" "distinct xs" "t \<notin> set xs" "t \<noteq> 0" "xs \<noteq> []"
  shows "chain (nx(t := 0, last xs := t)) p (xs @ [t])"
  using assms
proof (induction xs arbitrary: p)
  case Nil
  then show ?case by simp
next
  case (Cons x xs)
  then show ?case by (cases xs) auto
qed

lemma queue_holds_first: "queue_holds (q, nx) xs \<Longrightarrow> first_q q = (case xs of [] \<Rightarrow> 0 | x # _ \<Rightarrow> x)"
  by (cases xs) (auto simp: queue_holds_def)

lemma queue_holds_unique: "queue_holds s xs \<Longrightarrow> queue_holds s ys \<Longrightarrow> xs = ys"
  using chain_unique by (auto simp: queue_holds_def split: prod.splits)

lemma queue_holds_nonnull: "queue_holds s xs \<Longrightarrow> 0 \<notin> set xs"
  using chain_nonnull by (auto simp: queue_holds_def split: prod.splits)

lemma queue_init_holds: "queue_holds (queue_init, nx) []"
  by (simp add: queue_holds_def queue_init_def)

lemma q_add_holds:
  assumes "queue_holds s xs" "t \<noteq> 0" "t \<notin> set xs"
  shows "\<exists>s'. q_add t s = Inr s' \<and> queue_holds s' (xs @ [t]) \<and>
    (\<forall>p. p \<notin> insert t (set xs) \<longrightarrow> snd s' p = snd s p)"
proof (cases s)
  case (Pair q nx)
  show ?thesis
  proof (cases xs)
    case Nil
    then show ?thesis using assms Pair by (auto simp: q_add_def queue_holds_def)
  next
    case (Cons x ys)
    then have ne: "xs \<noteq> []" by simp
    have h: "chain nx (first_q q) xs" "distinct xs" "last_q q = last xs"
      using assms(1) Pair ne by (auto simp: queue_holds_def)
    have l: "last xs \<in> set xs" using ne by (rule last_in_set)
    have "last_q q \<noteq> 0" "first_q q \<noteq> 0"
      using h chain_nonnull [OF h(1)] l Cons by auto
    then show ?thesis
      using Pair h chain_snoc [OF h(1,2) assms(3,2) ne] l ne assms
      by (auto simp: q_add_def queue_holds_def fun_upd_twist)
  qed
qed

lemma q_remove_holds:
  assumes "queue_holds s xs"
  shows "fst (q_remove s) = (case xs of [] \<Rightarrow> 0 | x # _ \<Rightarrow> x) \<and>
    queue_holds (snd (q_remove s)) (tl xs) \<and> snd (snd (q_remove s)) = snd s"
proof (cases s)
  case (Pair q nx)
  show ?thesis
  proof (cases xs)
    case Nil
    then show ?thesis using assms Pair by (auto simp: q_remove_def queue_holds_def)
  next
    case (Cons x ys)
    then show ?thesis using assms Pair
      by (cases ys) (auto simp: q_remove_def queue_holds_def Let_def)
  qed
qed

lemma q_remove_all_holds:
  assumes "queue_holds s xs"
  shows "chain (snd s) (fst (q_remove_all s)) xs \<and> queue_holds (snd (q_remove_all s)) [] \<and>
    snd (snd (q_remove_all s)) = snd s"
  using assms by (auto simp: q_remove_all_def queue_holds_def split: prod.splits)

text \<open>Another queue's links survive when the two share no element.\<close>

lemma queue_holds_frame:
  "queue_holds (q, nx) xs \<Longrightarrow> \<forall>x\<in>set xs. nx' x = nx x \<Longrightarrow> queue_holds (q, nx') xs"
  using chain_cong by (auto simp: queue_holds_def)

section \<open>The interface\<close>

text \<open>A queue as its clients see it: \<open>deq\<close> gives \<open>None\<close> when it is empty.\<close>

locale fifo_queue =
  fixes enq :: "'a \<Rightarrow> 's \<Rightarrow> 's res"
    and deq :: "'s \<Rightarrow> 'a option \<times> 's"
    and holds :: "'s \<Rightarrow> 'a list \<Rightarrow> bool"
    and element :: "'a \<Rightarrow> bool"
  assumes enq_holds: "holds s xs \<Longrightarrow> element x \<Longrightarrow> x \<notin> set xs \<Longrightarrow>
      \<exists>s'. enq x s = Inr s' \<and> holds s' (xs @ [x])"
    and deq_empty: "holds s [] \<Longrightarrow> fst (deq s) = None \<and> holds (snd (deq s)) []"
    and deq_cons: "holds s (x # xs) \<Longrightarrow> fst (deq s) = Some x \<and> holds (snd (deq s)) xs"
    and holds_unique: "holds s xs \<Longrightarrow> holds s ys \<Longrightarrow> xs = ys"
begin

lemma deq_None_iff: "holds s xs \<Longrightarrow> fst (deq s) = None \<longleftrightarrow> xs = []"
  by (cases xs) (auto dest: deq_empty deq_cons)

text \<open>A whole batch comes out in the order it went in.\<close>

fun enq_all :: "'a list \<Rightarrow> 's \<Rightarrow> 's res" where
  "enq_all [] s = Inr s"
| "enq_all (x # xs) s = rbind (enq x s) (enq_all xs)"

fun deq_n :: "nat \<Rightarrow> 's \<Rightarrow> 'a list \<times> 's" where
  "deq_n 0 s = ([], s)"
| "deq_n (Suc n) s = (case deq s of (None, s') \<Rightarrow> ([], s')
     | (Some x, s') \<Rightarrow> (case deq_n n s' of (xs, s'') \<Rightarrow> (x # xs, s'')))"

lemma enq_all_holds:
  "holds s ys \<Longrightarrow> distinct (ys @ xs) \<Longrightarrow> \<forall>x\<in>set xs. element x \<Longrightarrow>
   \<exists>s'. enq_all xs s = Inr s' \<and> holds s' (ys @ xs)"
proof (induction xs arbitrary: s ys)
  case Nil
  then show ?case by simp
next
  case (Cons x xs)
  obtain s1 where s1: "enq x s = Inr s1" "holds s1 (ys @ [x])"
    using enq_holds [OF Cons.prems(1), of x] Cons.prems by auto
  have "distinct ((ys @ [x]) @ xs)" "\<forall>x\<in>set xs. element x" using Cons.prems by auto
  from Cons.IH [OF s1(2) this] show ?case using s1 by simp
qed

lemma deq_n_holds:
  "holds s xs \<Longrightarrow> fst (deq_n n s) = take n xs \<and> holds (snd (deq_n n s)) (drop n xs)"
proof (induction n arbitrary: s xs)
  case 0
  then show ?case by simp
next
  case (Suc n)
  show ?case
  proof (cases xs)
    case Nil
    then show ?thesis using deq_empty [of s] Suc.prems
      by (cases "deq s") (auto split: option.splits)
  next
    case (Cons x ys)
    then have d: "fst (deq s) = Some x" "holds (snd (deq s)) ys" using deq_cons Suc.prems by auto
    show ?thesis using Suc.IH [OF d(2)] d Cons by (auto split: prod.splits)
  qed
qed

lemma batch_in_order:
  assumes "holds s []" "distinct xs" "\<forall>x\<in>set xs. element x"
  shows "\<exists>s'. enq_all xs s = Inr s' \<and> fst (deq_n (length xs) s') = xs"
proof -
  obtain s' where "enq_all xs s = Inr s'" "holds s' xs"
    using enq_all_holds [OF assms(1)] assms by auto
  then show ?thesis using deq_n_holds [of s' xs] by auto
qed

end

text \<open>The intrusive queue is one.\<close>

definition q_deq :: "queue \<times> next_map \<Rightarrow> ptr option \<times> (queue \<times> next_map)" where
  "q_deq s = (case q_remove s of (p, s') \<Rightarrow> (if p = 0 then None else Some p, s'))"

interpretation iq: fifo_queue q_add q_deq queue_holds "\<lambda>t. t \<noteq> 0"
proof (unfold_locales, goal_cases)
  case (1 s xs x)
  then show ?case using q_add_holds by blast
next
  case (2 s)
  then show ?case using q_remove_holds [of s "[]"] by (auto simp: q_deq_def split: prod.splits)
next
  case (3 s x xs)
  then show ?case using q_remove_holds [of s "x # xs"] queue_holds_nonnull [of s "x # xs"]
    by (auto simp: q_deq_def split: prod.splits)
next
  case (4 s xs ys)
  then show ?case by (rule queue_holds_unique)
qed

section \<open>Runs of operations\<close>

datatype q_op = Add ptr | Remove | RemoveAll

text \<open>What the operations do to the code's queue and to the list it stands for, with the
  pointers they return (0 for \<open>add\<close>, which returns nothing).\<close>

fun q_exec :: "q_op \<Rightarrow> queue \<times> next_map \<Rightarrow> (ptr \<times> (queue \<times> next_map)) res" where
  "q_exec (Add t) s = rbind (q_add t s) (\<lambda>s'. Inr (0, s'))"
| "q_exec Remove s = Inr (q_remove s)"
| "q_exec RemoveAll s = Inr (q_remove_all s)"

fun q_run :: "q_op list \<Rightarrow> queue \<times> next_map \<Rightarrow> (ptr list \<times> (queue \<times> next_map)) res" where
  "q_run [] s = Inr ([], s)"
| "q_run (o1 # os) s = rbind (q_exec o1 s) (\<lambda>(p, s1). rbind (q_run os s1) (\<lambda>(ps, s2). Inr (p # ps, s2)))"

definition hd_ptr :: "ptr list \<Rightarrow> ptr" where
  "hd_ptr xs = (case xs of [] \<Rightarrow> 0 | x # _ \<Rightarrow> x)"

fun list_run :: "q_op list \<Rightarrow> ptr list \<Rightarrow> (ptr list \<times> ptr list) option" where
  "list_run [] xs = Some ([], xs)"
| "list_run (Add t # os) xs = (if t = 0 \<or> t \<in> set xs then None
     else map_option (\<lambda>(ps, ys). (0 # ps, ys)) (list_run os (xs @ [t])))"
| "list_run (Remove # os) xs = map_option (\<lambda>(ps, ys). (hd_ptr xs # ps, ys)) (list_run os (tl xs))"
| "list_run (RemoveAll # os) xs = map_option (\<lambda>(ps, ys). (hd_ptr xs # ps, ys)) (list_run os [])"

lemma chain_hd: "chain nx p xs \<Longrightarrow> p = hd_ptr xs"
  by (cases xs) (auto simp: hd_ptr_def)

text \<open>
  C34.  The intrusive queue implements a list: for every sequence of \<open>add\<close>, \<open>remove\<close>
  and \<open>remove_all\<close> in which no null pointer and no element already in the queue is added,
  the queue returns exactly the pointers the list returns, no null pointer is followed, and at the
  end the queue holds the list's elements in the list's order.
\<close>

theorem queue_refines_list:
  assumes "queue_holds s xs" and "list_run os xs = Some (ps, ys)"
  shows "\<exists>s'. q_run os s = Inr (ps, s') \<and> queue_holds s' ys"
  using assms
proof (induction os xs arbitrary: s ps ys rule: list_run.induct)
  case (1 xs)
  then show ?case by simp
next
  case (2 t os xs)
  then have t: "t \<noteq> 0" "t \<notin> set xs" by (auto split: if_splits)
  obtain s1 where s1: "q_add t s = Inr s1" "queue_holds s1 (xs @ [t])"
    using q_add_holds [OF 2(2) t] by blast
  obtain qs where qs: "list_run os (xs @ [t]) = Some (qs, ys)" "ps = 0 # qs"
    using 2(3) t by auto
  from 2(1) [OF _ s1(2) qs(1)] show ?case using s1 t qs by auto
next
  case (3 os xs)
  obtain qs where qs: "list_run os (tl xs) = Some (qs, ys)" "ps = hd_ptr xs # qs"
    using 3(3) by auto
  note r = q_remove_holds [OF 3(2)]
  obtain s1 where s1: "q_remove s = (hd_ptr xs, s1)" "queue_holds s1 (tl xs)"
    using r by (cases "q_remove s") (simp add: hd_ptr_def)
  from 3(1) [OF s1(2) qs(1)] show ?case using s1(1) qs(2) by auto
next
  case (4 os xs)
  obtain qs where qs: "list_run os [] = Some (qs, ys)" "ps = hd_ptr xs # qs"
    using 4(3) by auto
  note r = q_remove_all_holds [OF 4(2)]
  obtain s1 where s1: "q_remove_all s = (hd_ptr xs, s1)" "queue_holds s1 []"
    using r chain_hd by (cases "q_remove_all s") auto
  from 4(1) [OF s1(2) qs(1)] show ?case using s1(1) qs(2) by auto
qed

lemma queue_refines_list_witness:
  "\<exists>s'. q_run [Add 8, Add 24, Remove, Add 8, Remove, RemoveAll, Remove] (queue_init, \<lambda>_. 77) =
      Inr ([0, 0, 8, 0, 24, 8, 0], s') \<and> queue_holds s' []"
  by (rule queue_refines_list [OF queue_init_holds]) (simp add: hd_ptr_def)

end
