(* ===== verification/Phys_Mem.thy ===== *)
theory Phys_Mem
  imports Queue_Model Allocator
begin

text \<open>
  The physical frame pool of \<open>kernel/physmem.cc\<close>.  Physical memory is a map from the
  addresses of 32 bit words to words (every access of this component and of the page tables is a
  word access); a free frame holds the address of the next one in its first word, so the free list
  is a \<open>chain\<close> of the queue theory.  Each operation runs under the interrupt-safe lock and
  is one atomic step.
\<close>

section \<open>Operations\<close>

record phys =
  mem :: "u32 \<Rightarrow> u32"
  firstFree :: u32
  p_avail :: u32
  p_limit :: u32

definition FRAME_SIZE :: u32 where
  "FRAME_SIZE = push_bit 12 1"

definition offset :: "u32 \<Rightarrow> u32" where
  "offset pa = pa AND 0xFFF"

definition ppn :: "u32 \<Rightarrow> u32" where
  "ppn pa = drop_bit 12 pa"

definition framedown :: "u32 \<Rightarrow> u32" where
  "framedown pa = (pa div FRAME_SIZE) * FRAME_SIZE"

definition frameup :: "u32 \<Rightarrow> u32" where
  "frameup pa = framedown (pa + FRAME_SIZE - 1)"

text \<open>\<open>bzero\<close> of \<open>kernel/machine.S\<close>, on whole words.\<close>

definition bzero :: "u32 \<Rightarrow> u32 \<Rightarrow> (u32 \<Rightarrow> u32) \<Rightarrow> u32 \<Rightarrow> u32" where
  "bzero p n m = (\<lambda>a. if uint p \<le> uint a \<and> uint a < uint p + uint n then 0 else m a)"

definition alloc_frame :: "phys \<Rightarrow> (u32 \<times> phys) res" where
  "alloc_frame s =
     rbind (if firstFree s \<noteq> 0
            then Inr (firstFree s, s\<lparr>firstFree := mem s (firstFree s)\<rparr>)
            else if p_avail s = p_limit s then Inl Panic
            else Inr (p_avail s, s\<lparr>p_avail := p_avail s + FRAME_SIZE\<rparr>)) (\<lambda>(p, s1).
     rbind (assert_that (offset p = 0)) (\<lambda>_.
     Inr (p, s1\<lparr>mem := bzero p FRAME_SIZE (mem s1)\<rparr>)))"

definition dealloc_frame :: "u32 \<Rightarrow> phys \<Rightarrow> phys res" where
  "dealloc_frame p s =
     rbind (assert_that (offset p = 0)) (\<lambda>_.
     Inr (s\<lparr>mem := (mem s)(p := firstFree s), firstFree := p\<rparr>))"

definition phys_init :: "u32 \<Rightarrow> u32 \<Rightarrow> phys \<Rightarrow> phys res" where
  "phys_init start sz s =
     rbind (assert_that (offset start = 0)) (\<lambda>_.
     rbind (assert_that (offset sz = 0)) (\<lambda>_.
     Inr (s\<lparr>p_avail := start, p_limit := start + sz\<rparr>)))"

definition phys_boot :: "(u32 \<Rightarrow> u32) \<Rightarrow> phys" where
  "phys_boot m = \<lparr>mem = m, firstFree = 0, p_avail = 0, p_limit = 0\<rparr>"

section \<open>Address arithmetic\<close>

lemma FRAME_SIZE_eq [simp]: "FRAME_SIZE = 4096"
  by (simp add: FRAME_SIZE_def)

lemma offset_uint [word_facts]: "uint (offset pa) = uint pa mod 4096"
proof -
  have "(0xFFF :: u32) = mask 12" by (simp add: mask_eq_decr_exp)
  then have "offset pa = take_bit 12 pa" by (simp add: offset_def take_bit_eq_mask)
  then show ?thesis by (simp add: unsigned_take_bit_eq take_bit_eq_mod uint_mod)
qed

lemma offset_0_iff: "offset pa = 0 \<longleftrightarrow> (\<exists>k. uint pa = 4096 * k)"
proof -
  have "offset pa = 0 \<longleftrightarrow> uint pa mod 4096 = 0"
    by (metis offset_uint uint_0_iff)
  then show ?thesis by (auto elim: dvdE simp: mod_eq_0_iff_dvd)
qed

lemma u32_less: "uint (x :: u32) < 4294967296"
  using uint_bounded [of x] by simp

lemma uint_eqD: "uint a = uint b \<Longrightarrow> a = b"
  by (rule word_uint_eqI)

lemma framedown_uint [word_facts]: "uint (framedown pa) = 4096 * (uint pa div 4096)"
proof -
  have d: "uint (pa div 4096 :: u32) = uint pa div 4096" by (simp add: uint_div)
  have "4096 * (uint pa div 4096) \<le> uint pa" by simp
  then have "uint (pa div 4096) * uint (4096 :: u32) < 2 ^ LENGTH(32)"
    using u32_less [of pa] by (simp add: d)
  then have "uint (pa div 4096 * (4096 :: u32)) = uint (pa div 4096) * 4096"
    by (subst uint_mult_lem [THEN iffD1]) simp_all
  then show ?thesis using d by (simp add: framedown_def)
qed

text \<open>An aligned word of a frame.\<close>

definition slot :: "u32 \<Rightarrow> u32 \<Rightarrow> u32" where
  "slot p i = p + 4 * i"

definition in_frame :: "u32 \<Rightarrow> u32 \<Rightarrow> bool" where
  "in_frame p a \<longleftrightarrow> uint p \<le> uint a \<and> uint a < uint p + 4096"

lemma in_frame_unique:
  assumes "offset p = 0" "offset q = 0" "in_frame p a" "in_frame q a"
  shows "p = q"
proof -
  obtain k l where "uint p = 4096 * k" "uint q = 4096 * l" using assms(1,2) by (auto simp: offset_0_iff)
  moreover from this have "k = l" using assms(3,4) unfolding in_frame_def by linarith
  ultimately show ?thesis by (simp add: uint_eqD)
qed

lemma in_frame_self [simp]: "in_frame p p"
  by (simp add: in_frame_def)

lemma frame_top: "offset p = 0 \<Longrightarrow> uint p + 4096 \<le> 2 ^ 32"
  using u32_less [of p] by (auto simp: offset_0_iff)

lemma slot_uint:
  assumes "offset p = 0" "uint i < 1024"
  shows "uint (slot p i) = uint p + 4 * uint i"
proof -
  have "uint (4 * i) = 4 * uint i"
    using assms(2) by (subst uint_mult_lem [THEN iffD1]) simp_all
  then show ?thesis
    using frame_top [OF assms(1)] assms(2) unfolding slot_def
    by (subst uint_add_lem [THEN iffD1]) simp_all
qed

lemma slot_in_frame: "offset p = 0 \<Longrightarrow> uint i < 1024 \<Longrightarrow> in_frame p (slot p i)"
  by (simp add: in_frame_def slot_uint)

lemma slot_inj:
  assumes "offset p = 0" "uint i < 1024" "uint j < 1024"
  shows "slot p i = slot p j \<longleftrightarrow> i = j"
proof
  assume "slot p i = slot p j"
  then have "uint i = uint j" using slot_uint [OF assms(1,2)] slot_uint [OF assms(1,3)] by simp
  then show "i = j" by (rule uint_eqD)
qed simp

lemma slot_eq_iff:
  assumes "offset p = 0" "offset q = 0" "uint i < 1024" "uint j < 1024"
  shows "slot p i = slot q j \<longleftrightarrow> p = q \<and> i = j"
proof
  assume eq: "slot p i = slot q j"
  have "p = q"
    using in_frame_unique [OF assms(1,2)] slot_in_frame [OF assms(1,3)] slot_in_frame [OF assms(2,4)] eq
    by metis
  then show "p = q \<and> i = j" using eq slot_inj [OF assms(1,3,4)] by simp
qed simp

lemma bzero_apply: "bzero p 4096 m = (\<lambda>a. if in_frame p a then 0 else m a)"
  by (simp add: bzero_def in_frame_def)

section \<open>The invariant of the pool\<close>

text \<open>\<open>start\<close> is the first frame of the pool, \<open>fl\<close> the free list.\<close>

definition pool_inv :: "u32 \<Rightarrow> phys \<Rightarrow> u32 list \<Rightarrow> bool" where
  "pool_inv start s fl \<longleftrightarrow>
     offset start = 0 \<and> offset (p_avail s) = 0 \<and> offset (p_limit s) = 0 \<and>
     0 < uint start \<and> uint start \<le> uint (p_avail s) \<and> uint (p_avail s) \<le> uint (p_limit s) \<and>
     chain (mem s) (firstFree s) fl \<and> distinct fl \<and>
     (\<forall>f\<in>set fl. offset f = 0 \<and> uint start \<le> uint f \<and> uint f < uint (p_avail s))"

text \<open>The frames handed out and not taken back.\<close>

definition in_use :: "u32 \<Rightarrow> phys \<Rightarrow> u32 list \<Rightarrow> u32 set" where
  "in_use start s fl =
     {f. offset f = 0 \<and> uint start \<le> uint f \<and> uint f < uint (p_avail s)} - set fl"

lemma pool_invD:
  assumes "pool_inv start s fl"
  shows "offset (p_avail s) = 0" "offset (p_limit s) = 0" "uint start \<le> uint (p_avail s)"
    "uint (p_avail s) \<le> uint (p_limit s)" "chain (mem s) (firstFree s) fl" "distinct fl"
    "offset start = 0" "0 < uint start"
    "\<And>f. f \<in> set fl \<Longrightarrow> offset f = 0 \<and> uint start \<le> uint f \<and> uint f < uint (p_avail s)"
  using assms by (auto simp: pool_inv_def)

lemma in_useD:
  "f \<in> in_use start s fl \<Longrightarrow> offset f = 0"
  "f \<in> in_use start s fl \<Longrightarrow> f \<notin> set fl"
  "f \<in> in_use start s fl \<Longrightarrow> uint f < uint (p_avail s)"
  "f \<in> in_use start s fl \<Longrightarrow> uint start \<le> uint f"
  by (auto simp: in_use_def)

lemma pool_inv_unique: "pool_inv start s fl \<Longrightarrow> pool_inv start s gl \<Longrightarrow> fl = gl"
  using chain_unique pool_invD(5) by blast

text \<open>A client may write anywhere in the frames it holds.\<close>

lemma pool_inv_write:
  assumes inv: "pool_inv start s fl" and fr: "f \<in> in_use start s fl" and a: "in_frame f a"
  shows "pool_inv start (s\<lparr>mem := (mem s)(a := v)\<rparr>) fl"
proof -
  have "a \<notin> set fl"
  proof
    assume "a \<in> set fl"
    then have "offset a = 0" using pool_invD(9) [OF inv] by blast
    then have "a = f" using in_frame_unique [of a f a] a in_useD(1) [OF fr] by simp
    then show False using \<open>a \<in> set fl\<close> in_useD(2) [OF fr] by simp
  qed
  then have "chain ((mem s)(a := v)) (firstFree s) fl"
    using chain_cong [OF pool_invD(5) [OF inv]] by auto
  then show ?thesis using inv by (simp add: pool_inv_def)
qed

lemma in_use_mem [simp]: "in_use start (s\<lparr>mem := m\<rparr>) fl = in_use start s fl"
  by (simp add: in_use_def)

lemma next_frame:
  assumes "offset a = 0" "offset b = 0" "uint a \<le> uint b" "a \<noteq> b"
  shows "uint (a + 4096) = uint a + 4096" "offset (a + 4096) = 0" "uint a + 4096 \<le> uint b"
proof -
  have ne: "uint a \<noteq> uint b" using assms(4) uint_eqD by blast
  obtain k l where m: "uint a = 4096 * k" "uint b = 4096 * l" using assms by (auto simp: offset_0_iff)
  then have "k < l" using ne assms(3) by linarith
  then show le: "uint a + 4096 \<le> uint b" using m by linarith
  then show u: "uint (a + 4096) = uint a + 4096"
    using u32_less [of b] by (subst uint_add_lem [THEN iffD1]) simp_all
  show "offset (a + 4096) = 0" unfolding offset_0_iff by (rule exI [of _ "k + 1"]) (simp add: u m)
qed

text \<open>How many frames can still be handed out.\<close>

definition free_frames :: "phys \<Rightarrow> u32 list \<Rightarrow> nat" where
  "free_frames s fl = length fl + nat ((uint (p_limit s) - uint (p_avail s)) div 4096)"

lemma free_frames_mem [simp]: "free_frames (s\<lparr>mem := m\<rparr>) fl = free_frames s fl"
  by (simp add: free_frames_def)

lemma free_frames_some: "0 < free_frames s fl \<Longrightarrow> fl \<noteq> [] \<or> p_avail s \<noteq> p_limit s"
  by (auto simp: free_frames_def)

lemma free_frames_next:
  assumes "uint a + 4096 \<le> uint b" "uint (a + 4096) = uint a + 4096"
  shows "nat ((uint b - uint (a + 4096)) div 4096) + 1 = nat ((uint b - uint a) div 4096)"
proof -
  define d where "d = uint b - uint a - 4096"
  have d: "0 \<le> d" using assms(1) by (simp add: d_def)
  have "(d + 4096) div 4096 = d div 4096 + 1" by simp
  moreover have "0 \<le> d div 4096" using d by simp
  moreover have "uint b - uint (a + 4096) = d" "uint b - uint a = d + 4096"
    by (simp_all add: d_def assms(2))
  ultimately show ?thesis by simp
qed

lemma alloc_frame_spec:
  assumes inv: "pool_inv start s fl" and some: "fl \<noteq> [] \<or> p_avail s \<noteq> p_limit s"
  obtains p s' where "alloc_frame s = Inr (p, s')" "pool_inv start s' (tl fl)"
    "p \<notin> in_use start s fl" "in_use start s' (tl fl) = insert p (in_use start s fl)"
    "mem s' = (\<lambda>a. if in_frame p a then 0 else mem s a)" "p_limit s' = p_limit s" "offset p = 0"
    "free_frames s' (tl fl) + 1 = free_frames s fl"
proof (cases fl)
  case Nil
  then have ff: "firstFree s = 0" and ne: "p_avail s \<noteq> p_limit s"
    using pool_invD(5) [OF inv] some by auto
  let ?p = "p_avail s" and ?s1 = "s\<lparr>p_avail := p_avail s + 4096\<rparr>"
  note d = pool_invD [OF inv] and nf = next_frame [OF pool_invD(1,2,4) [OF inv] ne]
  have run: "alloc_frame s = Inr (?p, ?s1\<lparr>mem := bzero ?p FRAME_SIZE (mem s)\<rparr>)"
    using ff ne d(1) by (simp add: alloc_frame_def)
  have al: "\<exists>k. uint (p_avail s) = 4096 * k" using d(1) unfolding offset_0_iff .
  have eq: "uint f < uint (p_avail s) + 4096 \<longleftrightarrow> uint f < uint (p_avail s) \<or> f = p_avail s"
    if fo: "offset f = 0" for f
  proof -
    obtain k l where "uint f = 4096 * k" "uint (p_avail s) = 4096 * l"
      using fo al unfolding offset_0_iff by blast
    moreover have "4096 * k < 4096 * l + 4096 \<longleftrightarrow> 4096 * k < 4096 * l \<or> 4096 * k = 4096 * l"
      for k l :: int by (cases k l rule: linorder_cases) auto
    ultimately have "uint f < uint (p_avail s) + 4096 \<longleftrightarrow>
      uint f < uint (p_avail s) \<or> uint f = uint (p_avail s)" by simp
    then show ?thesis using uint_eqD by blast
  qed
  show ?thesis
  proof (rule that [OF run])
    show "pool_inv start (?s1\<lparr>mem := bzero ?p FRAME_SIZE (mem s)\<rparr>) (tl fl)"
      using d nf Nil by (simp add: pool_inv_def)
    show "in_use start (?s1\<lparr>mem := bzero ?p FRAME_SIZE (mem s)\<rparr>) (tl fl) =
        insert ?p (in_use start s fl)"
      using d(1,3) eq nf(1) Nil by (auto simp: in_use_def)
    show "free_frames (?s1\<lparr>mem := bzero ?p FRAME_SIZE (mem s)\<rparr>) (tl fl) + 1 = free_frames s fl"
      using free_frames_next [OF nf(3) nf(1)] Nil by (simp add: free_frames_def)
  qed (use d Nil in \<open>auto simp: in_use_def bzero_apply\<close>)
next
  case (Cons f gl)
  note d = pool_invD [OF inv]
  have f: "firstFree s = f" "f \<noteq> 0" "chain (mem s) (mem s f) gl" using d(5) Cons by auto
  have fo: "offset f = 0" "uint start \<le> uint f" "uint f < uint (p_avail s)" using d(9) Cons by auto
  let ?s' = "s\<lparr>firstFree := mem s f, mem := bzero f FRAME_SIZE (mem s)\<rparr>"
  have run: "alloc_frame s = Inr (f, ?s')" using f fo by (simp add: alloc_frame_def)
  have "chain (bzero f FRAME_SIZE (mem s)) (mem s f) gl"
  proof (rule chain_cong [OF f(3)], rule ballI)
    fix x assume x: "x \<in> set gl"
    have "\<not> in_frame f x"
      using in_frame_unique [of f x x] fo(1) d(9) [of x] d(6) x Cons by auto
    then show "bzero f FRAME_SIZE (mem s) x = mem s x" by (simp add: bzero_apply)
  qed
  then have inv': "pool_inv start ?s' (tl fl)" using d Cons by (auto simp: pool_inv_def)
  show ?thesis
    by (rule that [OF run inv']) (use fo d(6) Cons in \<open>auto simp: in_use_def bzero_apply free_frames_def\<close>)
qed

lemma alloc_frame_empty:
  assumes "pool_inv start s []" "p_avail s = p_limit s"
  shows "alloc_frame s = Inl Panic"
  using pool_invD(5) [OF assms(1)] assms(2) by (simp add: alloc_frame_def)

lemma dealloc_frame_spec:
  assumes inv: "pool_inv start s fl" and p: "p \<in> in_use start s fl"
  shows "dealloc_frame p s = Inr (s\<lparr>mem := (mem s)(p := firstFree s), firstFree := p\<rparr>)"
    and "pool_inv start (s\<lparr>mem := (mem s)(p := firstFree s), firstFree := p\<rparr>) (p # fl)"
    and "in_use start (s\<lparr>mem := (mem s)(p := firstFree s), firstFree := p\<rparr>) (p # fl) =
      in_use start s fl - {p}"
proof -
  note d = pool_invD [OF inv] and pd = in_useD [OF p]
  have nz: "p \<noteq> 0" using pd(4) d(8) by auto
  show "dealloc_frame p s = Inr (s\<lparr>mem := (mem s)(p := firstFree s), firstFree := p\<rparr>)"
    using pd(1) by (simp add: dealloc_frame_def)
  have "chain ((mem s)(p := firstFree s)) (firstFree s) fl"
    using chain_cong [OF d(5)] pd(2) by auto
  then show "pool_inv start (s\<lparr>mem := (mem s)(p := firstFree s), firstFree := p\<rparr>) (p # fl)"
    using d pd nz by (auto simp: pool_inv_def)
  show "in_use start (s\<lparr>mem := (mem s)(p := firstFree s), firstFree := p\<rparr>) (p # fl) =
      in_use start s fl - {p}"
    by (auto simp: in_use_def)
qed

lemma phys_init_inv:
  assumes "offset start = 0" "offset sz = 0" "0 < uint start" "uint start + uint sz < 2 ^ 32"
  shows "phys_init start sz (phys_boot m) = Inr (phys_boot m\<lparr>p_avail := start, p_limit := start + sz\<rparr>)"
    and "pool_inv start (phys_boot m\<lparr>p_avail := start, p_limit := start + sz\<rparr>) []"
    and "in_use start (phys_boot m\<lparr>p_avail := start, p_limit := start + sz\<rparr>) [] = {}"
proof -
  have u: "uint (start + sz) = uint start + uint sz"
    using assms(4) by (subst uint_add_lem [THEN iffD1]) simp_all
  obtain k l where "uint start = 4096 * k" "uint sz = 4096 * l"
    using assms(1,2) by (auto simp: offset_0_iff)
  then have "offset (start + sz) = 0"
    unfolding offset_0_iff u by (intro exI [of _ "k + l"]) simp
  then show "pool_inv start (phys_boot m\<lparr>p_avail := start, p_limit := start + sz\<rparr>) []"
    using assms u by (simp add: pool_inv_def phys_boot_def)
  show "phys_init start sz (phys_boot m) = Inr (phys_boot m\<lparr>p_avail := start, p_limit := start + sz\<rparr>)"
    using assms by (simp add: phys_init_def)
  show "in_use start (phys_boot m\<lparr>p_avail := start, p_limit := start + sz\<rparr>) [] = {}"
    by (auto simp: in_use_def phys_boot_def)
qed

section \<open>The pool is an allocator\<close>

definition pool_ok :: "u32 \<Rightarrow> phys \<Rightarrow> bool" where
  "pool_ok start s \<longleftrightarrow> (\<exists>fl. pool_inv start s fl)"

definition frames :: "u32 \<Rightarrow> phys \<Rightarrow> u32 set" where
  "frames start s = {f. \<exists>fl. pool_inv start s fl \<and> f \<in> in_use start s fl}"

lemma frames_eq: "pool_inv start s fl \<Longrightarrow> frames start s = in_use start s fl"
  unfolding frames_def using pool_inv_unique by blast

definition get_frame :: "unit \<Rightarrow> phys \<Rightarrow> (u32 \<times> phys) res option" where
  "get_frame u s = Some (alloc_frame s)"

definition put_frame :: "u32 \<Rightarrow> phys \<Rightarrow> phys res option" where
  "put_frame p s = Some (dealloc_frame p s)"

lemma get_frame_law:
  assumes ok: "pool_ok start s" and run: "get_frame u s = Some (Inr (p, s'))"
  shows "pool_ok start s' \<and> p \<notin> frames start s \<and> frames start s' = insert p (frames start s)"
proof -
  obtain fl where inv: "pool_inv start s fl" using ok by (auto simp: pool_ok_def)
  have run': "alloc_frame s = Inr (p, s')" using run by (simp add: get_frame_def)
  have "fl \<noteq> [] \<or> p_avail s \<noteq> p_limit s"
    using alloc_frame_empty inv run' by force
  then obtain q t where "alloc_frame s = Inr (q, t)" "pool_inv start t (tl fl)"
    "q \<notin> in_use start s fl" "in_use start t (tl fl) = insert q (in_use start s fl)"
    by (rule alloc_frame_spec [OF inv])
  then show ?thesis using run' inv frames_eq by (auto simp: pool_ok_def)
qed

interpretation kpool: allocator get_frame put_frame "pool_ok start" "frames start" "\<lambda>_ _. False"
  for start
proof (unfold_locales, goal_cases)
  case (1 s r p s')
  then show ?case using get_frame_law by blast
next
  case (2 s r p s')
  then show ?case using get_frame_law by blast
next
  case (3 s r p s')
  then show ?case by simp
next
  case (4 s p)
  then obtain fl where inv: "pool_inv start s fl" by (auto simp: pool_ok_def)
  then have "p \<in> in_use start s fl" using 4(2) frames_eq by simp
  from dealloc_frame_spec [OF inv this] show ?case
    using frames_eq inv by (auto simp: pool_ok_def put_frame_def)
qed

section \<open>Properties\<close>

text \<open>
  C35.  Every history of frame allocations and releases of a client that releases only frames it
  holds keeps the pool well-formed and replays on the set of frames in use: no frame is handed out
  while it is in use.
\<close>

theorem frame_history:
  assumes "client_run get_frame put_frame (frames start) (\<lambda>_ _. False) s es s'" and "pool_ok start s"
  shows "pool_ok start s' \<and> replay (frames start s) es = Some (frames start s')"
  by (rule kpool.run_replay [OF assms])

definition demo_pool :: phys where
  "demo_pool = phys_boot (\<lambda>_. 0xAA)\<lparr>p_avail := 0x600000, p_limit := 0x600000 + 0x3000\<rparr>"

lemma demo_pool_inv: "pool_inv 0x600000 demo_pool []" "in_use 0x600000 demo_pool [] = {}"
  unfolding demo_pool_def by (rule phys_init_inv; simp add: offset_def)+

lemma demo_pool_ok: "pool_ok 0x600000 demo_pool"
  using demo_pool_inv by (auto simp: pool_ok_def)

lemma demo_frame: "\<exists>s'. alloc_frame demo_pool = Inr (0x600000, s')"
  by (simp add: alloc_frame_def demo_pool_def phys_boot_def offset_def)

lemma demo_frame_history:
  "\<exists>s'. client_run get_frame put_frame (frames 0x600000) (\<lambda>_ _. False) demo_pool
     [Got 0x600000, Gave 0x600000, Got 0x600000] s'"
proof -
  obtain s1 where s1: "get_frame () demo_pool = Some (Inr (0x600000, s1))"
    using demo_frame by (auto simp: get_frame_def)
  note l1 = get_frame_law [OF demo_pool_ok s1]
  then have own: "0x600000 \<in> frames 0x600000 s1" and ok1: "pool_ok 0x600000 s1" by auto
  obtain s2 where s2: "put_frame 0x600000 s1 = Some (Inr s2)" "pool_ok 0x600000 s2"
    using kpool.release_ok [OF ok1 own] by blast
  have "firstFree s2 = 0x600000" using s2(1) by (auto simp: put_frame_def dealloc_frame_def rbind_eq_Inr_iff)
  then obtain s3 where s3: "get_frame () s2 = Some (Inr (0x600000, s3))"
    by (simp add: get_frame_def alloc_frame_def offset_def)
  have "client_step get_frame put_frame (frames 0x600000) (\<lambda>_ _. False) demo_pool (Got 0x600000) s1"
    using s1 by (rule client_step.get) simp
  moreover have "client_step get_frame put_frame (frames 0x600000) (\<lambda>_ _. False) s1 (Gave 0x600000) s2"
    using own s2(1) by (rule client_step.give)
  moreover have "client_step get_frame put_frame (frames 0x600000) (\<lambda>_ _. False) s2 (Got 0x600000) s3"
    using s3 by (rule client_step.get) simp
  ultimately show ?thesis by (blast intro: client_run.intros)
qed

lemma frame_history_witness:
  "\<exists>s'. client_run get_frame put_frame (frames 0x600000) (\<lambda>_ _. False) demo_pool
       [Got 0x600000, Gave 0x600000, Got 0x600000] s' \<and>
     replay (frames 0x600000 demo_pool) [Got 0x600000, Gave 0x600000, Got 0x600000] =
       Some (frames 0x600000 s')"
  using demo_frame_history frame_history [OF _ demo_pool_ok] by blast

text \<open>
  \<open>alloc_frame\<close> on a well-formed pool.  It panics exactly when the free list is empty
  and the whole range has been handed out; otherwise it returns a frame-aligned frame that was not
  in use, filled with zeros, and changes no other word of memory.
\<close>

theorem alloc_frame_result:
  assumes inv: "pool_inv start s fl"
  shows "if fl = [] \<and> p_avail s = p_limit s then alloc_frame s = Inl Panic
    else \<exists>p s'. alloc_frame s = Inr (p, s') \<and> pool_inv start s' (tl fl) \<and> offset p = 0 \<and>
      p \<notin> in_use start s fl \<and> in_use start s' (tl fl) = insert p (in_use start s fl) \<and>
      (\<forall>a. mem s' a = (if in_frame p a then 0 else mem s a))"
proof (cases "fl = [] \<and> p_avail s = p_limit s")
  case True
  then show ?thesis using alloc_frame_empty inv by simp
next
  case False
  then obtain p s' where "alloc_frame s = Inr (p, s')" "pool_inv start s' (tl fl)"
    "p \<notin> in_use start s fl" "in_use start s' (tl fl) = insert p (in_use start s fl)"
    "mem s' = (\<lambda>a. if in_frame p a then 0 else mem s a)" "offset p = 0"
    by - (rule alloc_frame_spec [OF inv], auto)
  then show ?thesis using False by auto
qed

lemma alloc_frame_result_witness:
  "\<exists>p s'. alloc_frame demo_pool = Inr (p, s') \<and> pool_inv 0x600000 s' [] \<and> offset p = 0 \<and>
     in_use 0x600000 s' [] = {p} \<and> (\<forall>a. mem s' a = (if in_frame p a then 0 else 0xAA))"
proof -
  have "\<not> ([] = ([] :: u32 list) \<and> p_avail demo_pool = p_limit demo_pool)" "\<And>a. mem demo_pool a = 0xAA"
    by (simp_all add: demo_pool_def phys_boot_def)
  then show ?thesis
    using alloc_frame_result [OF demo_pool_inv(1)] by (simp add: demo_pool_inv(2) cong: if_cong)
qed

text \<open>\<open>framedown\<close> and \<open>frameup\<close> round to frames: the frame below contains the
  address, and the frame above is the least multiple of the frame size that is not below it unless
  that would be past the end of the address space, where it is 0.\<close>

theorem frame_rounding:
  "uint (framedown pa) = 4096 * (uint pa div 4096) \<and> in_frame (framedown pa) pa \<and>
   framedown pa + offset pa = pa \<and> uint (ppn pa) = uint pa div 4096 \<and>
   uint (frameup pa) = (4096 * ((uint pa + 4095) div 4096)) mod 2 ^ 32"
proof -
  note d = framedown_uint
  have sum: "uint pa = uint (framedown pa) + uint (offset pa)" by (simp add: d offset_uint)
  have "uint (framedown pa + offset pa) = uint (framedown pa) + uint (offset pa)"
    using sum u32_less [of pa] by (subst uint_add_lem [THEN iffD1]) simp_all
  then have "framedown pa + offset pa = pa" using sum by (intro uint_eqD) simp
  moreover have "in_frame (framedown pa) pa"
    using sum offset_uint [of pa] pos_mod_bound [of 4096 "uint pa"] pos_mod_sign [of 4096 "uint pa"]
    unfolding in_frame_def by linarith
  moreover have "uint (ppn pa) = uint pa div 4096"
    by (simp add: ppn_def unsigned_drop_bit_eq drop_bit_eq_div uint_div)
  moreover have "uint (frameup pa) = (4096 * ((uint pa + 4095) div 4096)) mod 2 ^ 32"
  proof -
    define x where "x = uint pa + 4095"
    have "uint (pa + 4095) = (uint pa + uint (4095 :: u32)) mod 2 ^ LENGTH(32)"
      by (rule uint_word_ariths(1))
    then have n: "uint (pa + 4095) = (uint pa + 4095) mod 4294967296" by simp
    have e: "pa + 4096 - 1 = pa + 4095" by simp
    have u: "uint (pa + 4096 - 1) = x mod 4294967296" unfolding x_def e by (rule n)
    have x: "4095 \<le> x" "x < 4294967296 + 4095" using u32_less [of pa] by (simp_all add: x_def)
    have up: "uint (frameup pa) = 4096 * ((x mod 4294967296) div 4096)"
      unfolding frameup_def FRAME_SIZE_eq d u ..
    have "4096 * ((x mod 4294967296) div 4096) = (4096 * (x div 4096)) mod 4294967296"
    proof (cases "x < 4294967296")
      case True
      have "0 \<le> 4096 * (x div 4096)" "4096 * (x div 4096) \<le> x" using x(1) by simp_all
      then have "(4096 * (x div 4096)) mod 4294967296 = 4096 * (x div 4096)" using True by simp
      then show ?thesis using True x(1) by simp
    next
      case False
      have "x mod 4294967296 = x - 4294967296"
      proof (rule int_mod_pos_eq)
        show "x = 4294967296 * 1 + (x - 4294967296)" by linarith
        show "0 \<le> x - 4294967296" "x - 4294967296 < 4294967296" using False x(2) by linarith+
      qed
      moreover have "x div 4096 = 1048576"
      proof (rule int_div_pos_eq)
        show "x = 4096 * 1048576 + (x - 4294967296)" by linarith
        show "0 \<le> x - 4294967296" "x - 4294967296 < 4096" using False x(2) by linarith+
      qed
      ultimately show ?thesis using False x(2) by simp
    qed
    then show ?thesis unfolding up x_def by simp
  qed
  ultimately show ?thesis using d [of pa] by (intro conjI)
qed

end
