(* ===== verification/Bytes.thy ===== *)
theory Bytes
  imports Prelude
begin

text \<open>
  Little-endian numbers in byte memory, as every structure the kernel reads from a disk, a
  firmware table or an executable holds them.
\<close>

type_synonym byte_mem = "u32 \<Rightarrow> u8"

definition u16_le :: "u8 \<Rightarrow> u8 \<Rightarrow> u16" where
  "u16_le b0 b1 = (ucast b0 OR push_bit 8 (ucast b1))"

definition u32_le :: "u8 \<Rightarrow> u8 \<Rightarrow> u8 \<Rightarrow> u8 \<Rightarrow> u32" where
  "u32_le b0 b1 b2 b3 =
     (ucast b0 OR push_bit 8 (ucast b1) OR push_bit 16 (ucast b2) OR push_bit 24 (ucast b3))"

definition mem16 :: "byte_mem \<Rightarrow> u32 \<Rightarrow> u16" where
  "mem16 m a = u16_le (m a) (m (a + 1))"

definition mem32 :: "byte_mem \<Rightarrow> u32 \<Rightarrow> u32" where
  "mem32 m a = u32_le (m a) (m (a + 1)) (m (a + 2)) (m (a + 3))"

text \<open>The same from a list of bytes, at an offset inside it.\<close>

definition bytes16 :: "u8 list \<Rightarrow> nat \<Rightarrow> u16" where
  "bytes16 bs i = u16_le (bs ! i) (bs ! (i + 1))"

definition bytes32 :: "u8 list \<Rightarrow> nat \<Rightarrow> u32" where
  "bytes32 bs i = u32_le (bs ! i) (bs ! (i + 1)) (bs ! (i + 2)) (bs ! (i + 3))"

definition put32 :: "u32 \<Rightarrow> u8 list" where
  "put32 w = [ucast w, ucast (drop_bit 8 w), ucast (drop_bit 16 w), ucast (drop_bit 24 w)]"

definition put16 :: "u16 \<Rightarrow> u8 list" where
  "put16 w = [ucast w, ucast (drop_bit 8 w)]"

lemma length_put [simp]: "length (put32 w) = 4" "length (put16 w') = 2"
  by (simp_all add: put32_def put16_def)

lemma u32_le_put: "u32_le (ucast w) (ucast (drop_bit 8 w)) (ucast (drop_bit 16 w)) (ucast (drop_bit 24 w)) = w"
proof (rule bit_word_eqI)
  fix n assume "n < LENGTH(32)"
  then have "n < 8 \<or> (8 \<le> n \<and> n < 16) \<or> (16 \<le> n \<and> n < 24) \<or> (24 \<le> n \<and> n < 32)" by auto
  then show "bit (u32_le (ucast w) (ucast (drop_bit 8 w)) (ucast (drop_bit 16 w))
      (ucast (drop_bit 24 w))) n = bit w n"
    by (elim disjE) (auto simp: u32_le_def bit_or_iff bit_push_bit_iff bit_ucast_iff bit_drop_bit_eq)
qed

lemma u16_le_put: "u16_le (ucast w) (ucast (drop_bit 8 w)) = (w :: u16)"
proof (rule bit_word_eqI)
  fix n assume "n < LENGTH(16)"
  then have "n < 8 \<or> (8 \<le> n \<and> n < 16)" by auto
  then show "bit (u16_le (ucast w) (ucast (drop_bit 8 w))) n = bit w n"
    by (elim disjE) (auto simp: u16_le_def bit_or_iff bit_push_bit_iff bit_ucast_iff bit_drop_bit_eq)
qed

lemma bytes32_put: "length pre = i \<Longrightarrow> bytes32 (pre @ put32 w @ post) i = w"
  by (simp add: bytes32_def put32_def nth_append u32_le_put)

lemma bytes16_put: "length pre = i \<Longrightarrow> bytes16 (pre @ put16 w @ post) i = w"
  by (simp add: bytes16_def put16_def nth_append u16_le_put)

end
