(* ===== verification/Kernel_Config.thy ===== *)
theory Kernel_Config
  imports Bytes
begin

text \<open>
  The configuration the kernel reads from the firmware at boot, \<open>kernel/config.h\<close> and
  \<open>kernel/config.cc\<close>: the root descriptor is searched in the BIOS area, the MADT among the
  tables it points to, and the MADT's entries fill \<open>kConfig\<close>.  Paging is off at that point, so
  every pointer, also a null one, reads physical byte memory and no read faults.
\<close>

section \<open>The configuration and its tables\<close>

record apic_info =
  ai_processorId :: u8
  ai_apicId :: u8
  ai_flags :: u32

record config =
  memSize :: u32
  nOtherProcs :: u32
  totalProcs :: u32
  localAPIC :: u32
  madtFlags :: u32
  ioAPIC :: u32
  apicInfo :: "apic_info list"
  oemid :: "u8 list"

definition MAX_PROCS :: nat where
  "MAX_PROCS = 16"

record memInfo =
  mi_ax :: u16
  mi_bx :: u16
  mi_cx :: u16
  mi_dx :: u16

text \<open>\<open>sizeof(SDT)\<close> and \<open>sizeof(MADT)\<close>; the offsets of the fields of the packed structures.\<close>

definition sizeof_SDT :: u32 where
  "sizeof_SDT = 36"

definition sizeof_MADT :: u32 where
  "sizeof_MADT = 44"

definition SDT_Length :: "byte_mem \<Rightarrow> u32 \<Rightarrow> u32" where
  "SDT_Length m p = mem32 m (p + 4)"

definition MADT_localAddress :: "byte_mem \<Rightarrow> u32 \<Rightarrow> u32" where
  "MADT_localAddress m p = mem32 m (p + 36)"

definition MADT_flags :: "byte_mem \<Rightarrow> u32 \<Rightarrow> u32" where
  "MADT_flags m p = mem32 m (p + 40)"

definition ENTRY_type :: "byte_mem \<Rightarrow> u32 \<Rightarrow> u8" where
  "ENTRY_type m p = m p"

definition ENTRY_len :: "byte_mem \<Rightarrow> u32 \<Rightarrow> u8" where
  "ENTRY_len m p = m (p + 1)"

definition APIC_processorId :: "byte_mem \<Rightarrow> u32 \<Rightarrow> u8" where
  "APIC_processorId m p = m (p + 2)"

definition APIC_apicId :: "byte_mem \<Rightarrow> u32 \<Rightarrow> u8" where
  "APIC_apicId m p = m (p + 3)"

definition APIC_flags :: "byte_mem \<Rightarrow> u32 \<Rightarrow> u32" where
  "APIC_flags m p = mem32 m (p + 4)"

definition IOAPIC_address :: "byte_mem \<Rightarrow> u32 \<Rightarrow> u32" where
  "IOAPIC_address m p = mem32 m (p + 4)"

definition RSD_OEMID :: "byte_mem \<Rightarrow> u32 \<Rightarrow> nat \<Rightarrow> u8" where
  "RSD_OEMID m p i = m (p + 9 + of_nat i)"

definition RSD_rootSDT :: "byte_mem \<Rightarrow> u32 \<Rightarrow> u32" where
  "RSD_rootSDT m p = mem32 m (p + 16)"

section \<open>Searching\<close>

definition iseq :: "byte_mem \<Rightarrow> u32 \<Rightarrow> u8 list \<Rightarrow> bool" where
  "iseq m a name = list_all (\<lambda>i. m (a + of_nat i) = name ! i) [0..<length name]"

text \<open>\<open>"RSD PTR "\<close> and \<open>"APIC"\<close>.\<close>

definition rsd_name :: "u8 list" where
  "rsd_name = [0x52, 0x53, 0x44, 0x20, 0x50, 0x54, 0x52, 0x20]"

definition apic_name :: "u8 list" where
  "apic_name = [0x41, 0x50, 0x49, 0x43]"

partial_function (option) findRSDInRange :: "byte_mem \<Rightarrow> u32 \<Rightarrow> u32 \<Rightarrow> u32 option" where
  "findRSDInRange m i stop =
     (if i < stop then (if iseq m i rsd_name then Some i else findRSDInRange m (i + 16) stop)
      else Some 0)"

declare findRSDInRange.simps [code]

definition findRSD :: "byte_mem \<Rightarrow> u32 option" where
  "findRSD m =
     Option.bind (findRSDInRange m 0x000E0000 0x00100000) (\<lambda>it.
       if it = 0 then
         let base = push_bit 4 (ucast (mem16 m 0x40E))
         in findRSDInRange m base (base + 0x400)
       else Some it)"

definition findSDT :: "byte_mem \<Rightarrow> u32 \<Rightarrow> u8 list \<Rightarrow> u32" where
  "findSDT m rsdp name =
     (let rsdt = RSD_rootSDT m rsdp;
          others = rsdt + sizeof_SDT;
          entries = unat ((SDT_Length m rsdt - sizeof_SDT) div 4)
      in case List.find (\<lambda>i. iseq m (mem32 m (others + 4 * of_nat i)) name) [0..<entries] of
           None \<Rightarrow> 0
         | Some i \<Rightarrow> mem32 m (others + 4 * of_nat i))"

definition memAbove1M :: "memInfo \<Rightarrow> u32 res" where
  "memAbove1M mi =
     rbind (assert_that (mi_cx mi = 15 * 1024 \<or> mi_dx mi = 0)) (\<lambda>_.
     Inr (push_bit 10 (ucast (mi_ax mi OR mi_cx mi)) + push_bit 16 (ucast (mi_bx mi OR mi_dx mi))))"

section \<open>The MADT\<close>

text \<open>The body of the loop after the pointer has moved: what one entry does to the
  configuration.\<close>

definition madt_entry :: "byte_mem \<Rightarrow> u32 \<Rightarrow> config \<Rightarrow> config res" where
  "madt_entry m e c =
     (if ENTRY_type m e = 0 then
        (if APIC_processorId m e = 0 then Inr c
         else let i = unat (nOtherProcs c); c1 = c\<lparr>nOtherProcs := nOtherProcs c + 1\<rparr> in
           if i < length (apicInfo c) then
             Inr (c1\<lparr>apicInfo := (apicInfo c)[i :=
               \<lparr>ai_processorId = APIC_processorId m e, ai_apicId = APIC_apicId m e,
                ai_flags = APIC_flags m e\<rparr>]\<rparr>)
           else Inl OutOfRange)
      else if ENTRY_type m e = 1 then Inr (c\<lparr>ioAPIC := IOAPIC_address m e\<rparr>)
      else Inr c)"

text \<open>\<open>bytesForEntries\<close> is a signed 32 bit number.\<close>

partial_function (option) madt_loop :: "byte_mem \<Rightarrow> u32 \<Rightarrow> u32 \<Rightarrow> config \<Rightarrow> config res option" where
  "madt_loop m entryPtr bytesForEntries c =
     (if 0 < sint bytesForEntries then
        (let len = ucast (ENTRY_len m entryPtr);
             entryPtr' = entryPtr + len;
             bytes' = bytesForEntries - len
         in (case madt_entry m entryPtr' c of
               Inl e \<Rightarrow> Some (Inl e)
             | Inr c' \<Rightarrow> madt_loop m entryPtr' bytes' c'))
      else Some (Inr c))"

declare madt_loop.simps [code]

definition configInit :: "byte_mem \<Rightarrow> memInfo \<Rightarrow> config \<Rightarrow> config res option" where
  "configInit m mi c =
     obind (Some (memAbove1M mi)) (\<lambda>above.
     Option.bind (findRSD m) (\<lambda>rsdp.
     let c1 = c\<lparr>memSize := above + push_bit 20 1\<rparr>;
         c2 = (if rsdp \<noteq> 0
               then c1\<lparr>oemid := map (\<lambda>i. if i < 6 then RSD_OEMID m rsdp i else 0) [0..<7]\<rparr>
               else c1);
         madt = findSDT m rsdp apic_name;
         c3 = c2\<lparr>localAPIC := MADT_localAddress m madt, madtFlags := MADT_flags m madt,
                 nOtherProcs := 0\<rparr>
     in obind (madt_loop m (madt + sizeof_MADT) (SDT_Length m madt - sizeof_MADT) c3) (\<lambda>c4.
        Some (Inr (c4\<lparr>totalProcs := nOtherProcs c4 + 1\<rparr>)))))"

text \<open>\<open>kConfig\<close> is a static variable: all zero.\<close>

definition config_boot :: config where
  "config_boot = \<lparr>memSize = 0, nOtherProcs = 0, totalProcs = 0, localAPIC = 0, madtFlags = 0,
     ioAPIC = 0, apicInfo = replicate MAX_PROCS \<lparr>ai_processorId = 0, ai_apicId = 0, ai_flags = 0\<rparr>,
     oemid = replicate 7 0\<rparr>"

section \<open>Lemmas\<close>

lemma findRSDInRange_spec:
  assumes "uint stop + 16 \<le> 2 ^ 32"
  shows "\<exists>r. findRSDInRange m i stop = Some r \<and>
    (r = 0 \<or> (iseq m r rsd_name \<and> uint i \<le> uint r \<and> uint r < uint stop))"
proof (induction "nat (uint stop - uint i)" arbitrary: i rule: less_induct)
  case less
  show ?case
  proof (cases "i < stop \<and> \<not> iseq m i rsd_name")
    case True
    then have lt: "uint i < uint stop" by (simp add: word_less_def)
    then have u: "uint (i + 16) = uint i + 16"
      using assms by (subst uint_add_lem [THEN iffD1]) simp_all
    obtain r where "findRSDInRange m (i + 16) stop = Some r"
      "r = 0 \<or> (iseq m r rsd_name \<and> uint (i + 16) \<le> uint r \<and> uint r < uint stop)"
      using less [of "i + 16"] u lt by auto
    then show ?thesis using True u by (subst findRSDInRange.simps) auto
  next
    case False
    then show ?thesis by (subst findRSDInRange.simps) (auto simp: word_less_def)
  qed
qed

fun rfold :: "('a \<Rightarrow> 'b \<Rightarrow> 'b res) \<Rightarrow> 'a list \<Rightarrow> 'b \<Rightarrow> 'b res" where
  "rfold f [] b = Inr b"
| "rfold f (x # xs) b = rbind (f x b) (rfold f xs)"

lemma sint_small_pos: "0 < n \<Longrightarrow> n < 2 ^ 31 \<Longrightarrow> sint (of_nat n :: u32) = int n"
  using sint_of_int_u32 [of "int n"] by simp

text \<open>The entries of a table: \<open>ls\<close> are their lengths, and each has its length in its
  second byte.\<close>

fun table_at :: "byte_mem \<Rightarrow> u32 \<Rightarrow> nat list \<Rightarrow> bool" where
  "table_at m e [] = True"
| "table_at m e (l # ls) \<longleftrightarrow> 0 < l \<and> l < 256 \<and> ENTRY_len m e = of_nat l \<and> table_at m (e + of_nat l) ls"

fun ends_of :: "u32 \<Rightarrow> nat list \<Rightarrow> u32 list" where
  "ends_of e [] = []"
| "ends_of e (l # ls) = (e + of_nat l) # ends_of (e + of_nat l) ls"

fun starts_of :: "u32 \<Rightarrow> nat list \<Rightarrow> u32 list" where
  "starts_of e [] = []"
| "starts_of e (l # ls) = e # starts_of (e + of_nat l) ls"

lemma madt_loop_stop: "sint b \<le> 0 \<Longrightarrow> madt_loop m e b c = Some (Inr c)"
  by (subst madt_loop.simps) simp

lemma ends_of_starts: "ls \<noteq> [] \<Longrightarrow> ends_of e ls = tl (starts_of e ls) @ [e + of_nat (sum_list ls)]"
proof (induction e ls rule: ends_of.induct)
  case (2 e l ls)
  then show ?case by (cases ls) (simp_all add: add.assoc)
qed simp

lemma len_word: "l < 256 \<Longrightarrow> (ucast (of_nat l :: u8) :: u32) = of_nat l"
  by (simp add: unsigned_of_nat take_bit_nat_eq_self)

lemma madt_loop_table:
  assumes "table_at m e ls" "sum_list ls < 2 ^ 31"
  shows "madt_loop m e (of_nat (sum_list ls)) c = Some (rfold (madt_entry m) (ends_of e ls) c)"
  using assms
proof (induction ls arbitrary: e c)
  case Nil
  then show ?case by (simp add: madt_loop_stop)
next
  case (Cons l ls)
  have l: "0 < l" "l < 256" "ENTRY_len m e = of_nat l" "table_at m (e + of_nat l) ls"
    using Cons.prems(1) by auto
  have len: "(ucast (ENTRY_len m e) :: u32) = of_nat l" by (simp add: l(3) len_word [OF l(2)])
  have pos: "0 < sint (of_nat (sum_list (l # ls)) :: u32)"
    using sint_small_pos [of "sum_list (l # ls)"] Cons.prems(2) l(1) by simp
  have rest: "of_nat (sum_list (l # ls)) - of_nat l = (of_nat (sum_list ls) :: u32)" by simp
  have le: "sum_list ls < 2 ^ 31" using Cons.prems(2) by simp
  show ?case
  proof (cases "madt_entry m (e + of_nat l) c")
    case (Inl f)
    then show ?thesis using pos by (subst madt_loop.simps) (simp add: len)
  next
    case (Inr c')
    then show ?thesis using pos Cons.IH [OF l(4) le, of c']
      by (subst madt_loop.simps) (simp add: len)
  qed
qed

section \<open>Properties\<close>

text \<open>
  The loop over the MADT moves to the next entry before it looks at it.  On every table whose
  entries are laid out one after the other it returns, the first entry is never examined, and after
  the last one the bytes behind the table are examined as if they were an entry.
\<close>

theorem madt_skips_first:
  assumes "table_at m e ls" and "ls \<noteq> []" and "sum_list ls < 2 ^ 31"
  shows "madt_loop m e (of_nat (sum_list ls)) c =
    Some (rfold (madt_entry m) (tl (starts_of e ls) @ [e + of_nat (sum_list ls)]) c)"
  using madt_loop_table [OF assms(1,3)] ends_of_starts [OF assms(2)] by simp

text \<open>A table with one IO APIC entry, at 0x1000, and zero bytes behind it: the address of the
  IO APIC is lost.\<close>

definition one_ioapic :: byte_mem where
  "one_ioapic = (\<lambda>_. 0)(0x1000 := 1, 0x1001 := 12, 0x1006 := 0xC0, 0x1007 := 0xFE)"

lemma madt_skips_first_witness:
  "madt_loop one_ioapic 0x1000 (of_nat (sum_list [12])) config_boot = Some (Inr config_boot) \<and>
   madt_entry one_ioapic 0x1000 config_boot = Inr (config_boot\<lparr>ioAPIC := 0xFEC00000\<rparr>)"
proof -
  have t: "table_at one_ioapic 0x1000 [12]" by (simp add: ENTRY_len_def one_ioapic_def)
  have "madt_loop one_ioapic 0x1000 (of_nat (sum_list [12])) config_boot =
      Some (rfold (madt_entry one_ioapic) (tl (starts_of 0x1000 [12]) @ [0x1000 + of_nat (sum_list [12])])
        config_boot)"
    by (rule madt_skips_first [OF t]) simp_all
  then show ?thesis
    by (simp add: madt_entry_def ENTRY_type_def APIC_processorId_def IOAPIC_address_def mem32_def
        u32_le_def one_ioapic_def)
qed

text \<open>What a zero-length entry does to the loop: the pointer and the byte count stay what they are.\<close>

lemma madt_loop_zero:
  assumes "ENTRY_len m e = 0" and "0 < sint b"
  shows "madt_loop m e b c = (case madt_entry m e c of Inl f \<Rightarrow> Some (Inl f) | Inr c' \<Rightarrow> madt_loop m e b c')"
  using assms by (subst madt_loop.simps) (simp split: sum.split)

text \<open>A processor that is not the first is counted until the array is full.\<close>

lemma madt_zero_faults:
  assumes "ENTRY_len m e = 0" and "0 < sint b" and "ENTRY_type m e = 0" and "APIC_processorId m e \<noteq> 0"
    and "length (apicInfo c) < 2 ^ 32"
  shows "madt_loop m e b c = Some (Inl OutOfRange)"
  using assms(5)
proof (induction "length (apicInfo c) - unat (nOtherProcs c)" arbitrary: c rule: less_induct)
  case less
  show ?case
  proof (cases "unat (nOtherProcs c) < length (apicInfo c)")
    case True
    then have next_index: "unat (nOtherProcs c + 1) = unat (nOtherProcs c) + 1"
      using less.prems by (subst unat_add_lem [THEN iffD1]) simp_all
    obtain c' where c': "madt_entry m e c = Inr c'" "nOtherProcs c' = nOtherProcs c + 1"
      "length (apicInfo c') = length (apicInfo c)"
      using True assms(3,4) by (simp add: madt_entry_def Let_def)
    have "madt_loop m e b c' = Some (Inl OutOfRange)"
      by (rule less.hyps) (use c' next_index True less.prems in simp_all)
    then show ?thesis by (simp add: madt_loop_zero [OF assms(1,2), of c] c'(1))
  next
    case False
    then show ?thesis
      by (simp add: madt_loop_zero [OF assms(1,2), of c] madt_entry_def assms(3,4) Let_def)
  qed
qed

text \<open>Any other entry is stepped over again and again.\<close>

lemma madt_zero_hangs:
  assumes "ENTRY_len m e = 0" and "0 < sint b" and "ENTRY_type m e \<noteq> 0 \<or> APIC_processorId m e = 0"
  shows "madt_loop m e b c = None"
proof (rule ccontr)
  have steps: "\<exists>c''. madt_entry m e c' = Inr c''" for c' using assms(3) by (auto simp: madt_entry_def)
  assume "madt_loop m e b c \<noteq> None"
  then obtain r where r: "madt_loop m e b c = Some r" by blast
  have "\<not> (m = m \<and> e = e \<and> b = b)"
  proof (rule madt_loop.raw_induct [where P = "\<lambda>m' e' b' c' r'. \<not> (m' = m \<and> e' = e \<and> b' = b)", OF _ r])
    fix loop m' e' b' c' r'
    assume ih: "\<And>m' e' b' c' r'. loop m' e' b' c' = Some r' \<Longrightarrow> \<not> (m' = m \<and> e' = e \<and> b' = b)"
      and run: "(if 0 < sint b' then
          let len = ucast (ENTRY_len m' e'); entryPtr' = e' + len; bytes' = b' - len
          in case madt_entry m' entryPtr' c' of Inl f \<Rightarrow> Some (Inl f)
             | Inr c'' \<Rightarrow> loop m' entryPtr' bytes' c''
        else Some (Inr c')) = Some r'"
    show "\<not> (m' = m \<and> e' = e \<and> b' = b)"
    proof
      assume eq: "m' = m \<and> e' = e \<and> b' = b"
      obtain c'' where "madt_entry m e c' = Inr c''" using steps by blast
      then have "loop m e b c'' = Some r'" using run assms(1,2) eq by simp
      from ih [OF this] show False by simp
    qed
  qed
  then show False by simp
qed

text \<open>
  C40.  An entry of length 0 is never passed: the pointer and the byte count stay what they are.  If it is
  a processor entry whose \<open>processorId\<close> is not 0, the same processor is recorded until \<open>apicInfo\<close> is
  full and the next one is written behind the array; if it is anything else the loop never returns.
\<close>

theorem madt_zero_length:
  assumes "ENTRY_len m e = 0" and "0 < sint b" and "length (apicInfo c) < 2 ^ 32"
  shows "madt_loop m e b c =
    (if ENTRY_type m e = 0 \<and> APIC_processorId m e \<noteq> 0 then Some (Inl OutOfRange) else None)"
  using madt_zero_faults [OF assms(1,2) _ _ assms(3)] madt_zero_hangs [OF assms(1,2), of c] by simp

lemma madt_zero_length_witness:
  "madt_loop (\<lambda>a. if a = 0x2000 then 4 else 0) 0x2000 16 config_boot = None \<and>
   madt_loop (\<lambda>a. if a = 0x2002 then 1 else 0) 0x2000 16 config_boot = Some (Inl OutOfRange)"
proof
  have n: "length (apicInfo config_boot) < 2 ^ 32" by (simp add: config_boot_def MAX_PROCS_def)
  show "madt_loop (\<lambda>a. if a = 0x2000 then 4 else 0) 0x2000 16 config_boot = None"
    by (subst madt_zero_length [OF _ _ n]) (simp_all add: ENTRY_len_def ENTRY_type_def)
  show "madt_loop (\<lambda>a. if a = 0x2002 then 1 else 0) 0x2000 16 config_boot = Some (Inl OutOfRange)"
    by (subst madt_zero_length [OF _ _ n]) (simp_all add: ENTRY_len_def ENTRY_type_def APIC_processorId_def)
qed

end
