(* ===== verification/Vmm.thy ===== *)
theory Vmm
  imports Phys_Mem Kernel_Config
begin

text \<open>
  The page tables of \<open>kernel/vmm.cc\<close>, in the physical memory of \<open>Phys_Mem\<close>: a page
  directory is a frame of 1024 entries, each 0 in its low bit or pointing to a table of 1024
  entries.  \<open>translate\<close> is what the hardware makes of them; the properties say what each
  operation does to that function and to the set of frames in use.  The kernel runs with physical
  memory mapped one to one, so a table is accessed at its physical address.
\<close>

section \<open>Operations\<close>

definition pdi_of :: "u32 \<Rightarrow> u32" where
  "pdi_of va = drop_bit 22 va"

definition pti_of :: "u32 \<Rightarrow> u32" where
  "pti_of va = drop_bit 12 va AND 0x3FF"

definition map_page :: "u32 \<Rightarrow> u32 \<Rightarrow> u32 \<Rightarrow> phys \<Rightarrow> phys res" where
  "map_page pd va pa s =
     (let pdi = pdi_of va; pti = pti_of va; pde = mem s (slot pd pdi)
      in rbind (if pde AND 1 = 0
                then rbind (alloc_frame s) (\<lambda>(f, s1).
                  let pde1 = f OR 7
                  in Inr (pde1, s1\<lparr>mem := (mem s1)(slot pd pdi := pde1)\<rparr>))
                else Inr (pde, s)) (\<lambda>(pde, s1).
         let pt = pde AND 0xFFFFF000
         in Inr (s1\<lparr>mem := (mem s1)(slot pt pti := pa OR 7)\<rparr>)))"

definition unmap_page :: "u32 \<Rightarrow> u32 \<Rightarrow> phys \<Rightarrow> phys res" where
  "unmap_page pd va s =
     (let pdi = pdi_of va; pti = pti_of va; pde = mem s (slot pd pdi)
      in if pde AND 1 = 0 then Inr s
         else let pt = mem s (slot pd pdi) AND 0xFFFFF000; pte = mem s (slot pt pti)
           in if pte AND 1 = 0 then Inr s
              else let pa = pte AND 0xFFFFF000
                in dealloc_frame pa (s\<lparr>mem := (mem s)(slot pt pti := 0)\<rparr>))"

text \<open>\<open>memcpy\<close> of the first \<open>n\<close> words of a page directory.\<close>

definition copy_words :: "u32 \<Rightarrow> u32 \<Rightarrow> nat \<Rightarrow> (u32 \<Rightarrow> u32) \<Rightarrow> u32 \<Rightarrow> u32" where
  "copy_words dst src n m =
     fold (\<lambda>i m'. m'(slot dst (of_nat i) := m' (slot src (of_nat i)))) [0..<n] m"

definition shared_words :: "config \<Rightarrow> nat" where
  "shared_words c = (let m4 = 4 * 1024 * 1024 :: u32 in unat ((memSize c + m4 - 1) div m4))"

definition make_pd :: "config \<Rightarrow> u32 \<Rightarrow> phys \<Rightarrow> (u32 \<times> phys) res" where
  "make_pd c shared s =
     rbind (alloc_frame s) (\<lambda>(pd, s1).
     rbind (map_page pd (ioAPIC c) (ioAPIC c)
              (s1\<lparr>mem := copy_words pd shared (shared_words c) (mem s1)\<rparr>)) (\<lambda>s2.
     rbind (map_page pd (localAPIC c) (localAPIC c) s2) (\<lambda>s3. Inr (pd, s3))))"

text \<open>The loop of \<open>delete_pd\<close> over the entries \<open>is\<close>.\<close>

fun delete_tables :: "u32 \<Rightarrow> u32 list \<Rightarrow> phys \<Rightarrow> phys res" where
  "delete_tables pd [] s = Inr s"
| "delete_tables pd (i # is) s =
     (let pde = mem s (slot pd i)
      in rbind (if pde AND 1 \<noteq> 0 then dealloc_frame (pde AND 0xFFFFF000) s else Inr s)
           (delete_tables pd is))"

definition delete_pd :: "u32 \<Rightarrow> phys \<Rightarrow> phys res" where
  "delete_pd pd s =
     rbind (delete_tables pd (map of_nat [512..<1024]) s) (\<lambda>s1. dealloc_frame pd s1)"

text \<open>The loop of \<open>global_init\<close>, from \<open>va\<close>.\<close>

partial_function (option) identity_loop :: "config \<Rightarrow> u32 \<Rightarrow> u32 \<Rightarrow> phys \<Rightarrow> phys res option" where
  "identity_loop c sh va s =
     (if va < memSize c
      then (case map_page sh va va s of
              Inl e \<Rightarrow> Some (Inl e)
            | Inr s1 \<Rightarrow> identity_loop c sh (va + FRAME_SIZE) s1)
      else Some (Inr s))"

declare identity_loop.simps [code]

definition global_init :: "config \<Rightarrow> phys \<Rightarrow> (u32 \<times> phys) res option" where
  "global_init c s =
     obind (Some (alloc_frame s)) (\<lambda>(sh, s1).
     obind (identity_loop c sh FRAME_SIZE s1) (\<lambda>s2. Some (Inr (sh, s2))))"

text \<open>\<open>vmm_pageFault\<close>: \<open>pd\<close> is the page directory of the current thread,
  \<open>cr3\<close> and \<open>saved_cr3\<close> what the processor and its saved state hold.\<close>

definition vmm_pageFault :: "u32 \<Rightarrow> u32 \<Rightarrow> u32 \<Rightarrow> u32 \<Rightarrow> phys \<Rightarrow> phys res" where
  "vmm_pageFault pd cr3 saved_cr3 fa s =
     rbind (assert_that (pd = cr3)) (\<lambda>_.
     rbind (assert_that (saved_cr3 = cr3)) (\<lambda>_.
     let va = framedown fa in
     if 0x80000000 \<le> va then rbind (alloc_frame s) (\<lambda>(pa, s1). map_page pd va pa s1)
     else Inl Panic))"

section \<open>The hardware's view\<close>

text \<open>Two-level translation with 4 kB pages (\<open>None\<close>: a page fault).\<close>

definition translate :: "(u32 \<Rightarrow> u32) \<Rightarrow> u32 \<Rightarrow> u32 \<Rightarrow> u32 option" where
  "translate m pd va =
     (let pde = m (slot pd (pdi_of va)) in
      if pde AND 1 = 0 then None
      else let pte = m (slot (pde AND 0xFFFFF000) (pti_of va)) in
        if pte AND 1 = 0 then None
        else Some ((pte AND 0xFFFFF000) OR (va AND 0xFFF)))"

section \<open>Entries\<close>

definition table_of :: "u32 \<Rightarrow> u32" where
  "table_of e = e AND 0xFFFFF000"

definition present :: "u32 \<Rightarrow> bool" where
  "present e \<longleftrightarrow> e AND 1 \<noteq> 0"

lemma mask_split: "x AND 0xFFFFF000 = x AND NOT 0xFFF" for x :: u32
proof -
  have "0xFFFFF000 = (NOT 0xFFF :: u32)" by (rule uint_eqD) simp
  then show ?thesis by (rule arg_cong)
qed

lemma table_of_offset [simp]: "offset (table_of e) = 0"
  unfolding offset_def table_of_def mask_split by (simp add: and.assoc)

lemma page_base: "offset pa = 0 \<Longrightarrow> pa AND 0xFFFFF000 = pa"
proof -
  assume "offset pa = 0"
  then have "pa AND 0xFFF = 0" by (simp add: offset_def)
  moreover have "pa = (pa AND NOT 0xFFF) OR (pa AND 0xFFF)"
    by (simp flip: bit.conj_disj_distrib)
  ultimately show ?thesis unfolding mask_split by simp
qed

lemma table_of_entry [simp]: "offset f = 0 \<Longrightarrow> table_of (f OR 7) = f"
  by (simp add: table_of_def bit.conj_disj_distrib2 page_base)

lemma present_entry [simp]: "present (x OR 7)"
proof -
  have "(x OR 7) AND 1 = (x AND 1) OR 1" by (simp add: bit.conj_disj_distrib2)
  moreover have "(x AND 1) OR 1 \<noteq> 0"
    by (simp add: or_eq_0_iff)
  ultimately show ?thesis by (simp add: present_def)
qed

lemma present_0 [simp]: "\<not> present 0"
  by (simp add: present_def)

lemma pdi_less: "uint (pdi_of va) < 1024"
  using u32_less [of va] by (simp add: pdi_of_def unsigned_drop_bit_eq drop_bit_eq_div uint_div)

lemma pti_less: "uint (pti_of va) < 1024"
proof -
  have "(0x3FF :: u32) = mask 10" by (simp add: mask_eq_decr_exp)
  then have "pti_of va = take_bit 10 (drop_bit 12 va)" by (simp add: pti_of_def take_bit_eq_mask)
  then have "uint (pti_of va) = take_bit 10 (uint (drop_bit 12 va))" by (simp add: unsigned_take_bit_eq)
  then show ?thesis by (simp add: take_bit_eq_mod)
qed

text \<open>Two addresses with the same indices are in the same page.\<close>

lemma page_indices: "pdi_of va = pdi_of vb \<and> pti_of va = pti_of vb \<longleftrightarrow> ppn va = ppn vb"
proof -
  have "(0x3FF :: u32) = mask 10" by (simp add: mask_eq_decr_exp)
  then have pti: "pti_of v = take_bit 10 (ppn v)" for v
    by (simp add: pti_of_def ppn_def take_bit_eq_mask)
  have pdi: "pdi_of v = drop_bit 10 (ppn v)" for v by (simp add: pdi_of_def ppn_def)
  show ?thesis unfolding pti pdi
    by (metis bits_ident)
qed

lemma slot_ne: "offset p = 0 \<Longrightarrow> offset q = 0 \<Longrightarrow> p \<noteq> q \<Longrightarrow> uint i < 1024 \<Longrightarrow> uint j < 1024 \<Longrightarrow>
    slot p i \<noteq> slot q j"
  using slot_eq_iff by blast

lemma translate_eq:
  "translate m pd va =
     (let pde = m (slot pd (pdi_of va)) in
      if \<not> present pde then None
      else let pte = m (slot (table_of pde) (pti_of va)) in
        if \<not> present pte then None else Some (table_of pte OR offset va))"
  by (simp add: translate_def present_def table_of_def offset_def Let_def)

section \<open>The invariant of a page directory\<close>

text \<open>\<open>pd\<close> is a frame in use; every present entry points to a table in a frame in use,
  and no two to the same.\<close>

definition pd_inv :: "u32 \<Rightarrow> phys \<Rightarrow> u32 list \<Rightarrow> u32 \<Rightarrow> bool" where
  "pd_inv start s fl pd \<longleftrightarrow>
     pool_inv start s fl \<and> pd \<in> in_use start s fl \<and>
     (\<forall>i. uint i < 1024 \<longrightarrow> present (mem s (slot pd i)) \<longrightarrow>
        table_of (mem s (slot pd i)) \<in> in_use start s fl - {pd} \<and>
        (\<forall>j. uint j < 1024 \<longrightarrow> present (mem s (slot pd j)) \<longrightarrow>
           table_of (mem s (slot pd i)) = table_of (mem s (slot pd j)) \<longrightarrow> i = j))"

lemma pd_invD:
  assumes "pd_inv start s fl pd"
  shows pd_inv_pool: "pool_inv start s fl" and pd_inv_pd: "pd \<in> in_use start s fl" "offset pd = 0"
    and pd_inv_table: "\<And>i. uint i < 1024 \<Longrightarrow> present (mem s (slot pd i)) \<Longrightarrow>
      table_of (mem s (slot pd i)) \<in> in_use start s fl \<and> table_of (mem s (slot pd i)) \<noteq> pd"
    and pd_inv_inj: "\<And>i j. uint i < 1024 \<Longrightarrow> uint j < 1024 \<Longrightarrow> present (mem s (slot pd i)) \<Longrightarrow>
      present (mem s (slot pd j)) \<Longrightarrow>
      table_of (mem s (slot pd i)) = table_of (mem s (slot pd j)) \<Longrightarrow> i = j"
  using assms in_useD(1) unfolding pd_inv_def by blast+

text \<open>The first half of \<open>map\<close>: after it the directory has a table for \<open>va\<close>.\<close>

definition with_table :: "u32 \<Rightarrow> u32 \<Rightarrow> phys \<Rightarrow> (u32 \<times> phys) res" where
  "with_table pd va s =
     (let pdi = pdi_of va; pde = mem s (slot pd pdi)
      in if pde AND 1 = 0
         then rbind (alloc_frame s) (\<lambda>(f, s1).
           let pde1 = f OR 7 in Inr (pde1, s1\<lparr>mem := (mem s1)(slot pd pdi := pde1)\<rparr>))
         else Inr (pde, s))"

lemma map_page_eq:
  "map_page pd va pa s = rbind (with_table pd va s) (\<lambda>(pde, s1).
     Inr (s1\<lparr>mem := (mem s1)(slot (table_of pde) (pti_of va) := pa OR 7)\<rparr>))"
  by (simp add: map_page_def with_table_def table_of_def Let_def)

lemma with_table_spec:
  assumes inv: "pd_inv start s fl pd"
    and room: "present (mem s (slot pd (pdi_of va))) \<or> fl \<noteq> [] \<or> p_avail s \<noteq> p_limit s"
  obtains e s1 fl1 where "with_table pd va s = Inr (e, s1)" "pd_inv start s1 fl1 pd" "present e"
    "mem s1 (slot pd (pdi_of va)) = e" "table_of e \<in> in_use start s1 fl1" "table_of e \<noteq> pd"
    "in_use start s1 fl1 = insert (table_of e) (in_use start s fl)"
    "\<And>a. \<not> in_frame (table_of e) a \<Longrightarrow> a \<noteq> slot pd (pdi_of va) \<Longrightarrow> mem s1 a = mem s a"
    "present (mem s (slot pd (pdi_of va))) \<Longrightarrow> mem s1 = mem s"
    "\<not> present (mem s (slot pd (pdi_of va))) \<Longrightarrow> table_of e \<notin> in_use start s fl"
    "\<And>j. \<not> present (mem s (slot pd (pdi_of va))) \<Longrightarrow> uint j < 1024 \<Longrightarrow>
      mem s1 (slot (table_of e) j) = 0"
    "p_limit s1 = p_limit s"
    "free_frames s1 fl1 + (if present (mem s (slot pd (pdi_of va))) then 0 else 1) = free_frames s fl"
proof (cases "present (mem s (slot pd (pdi_of va)))")
  case True
  note t = pd_inv_table [OF inv pdi_less True]
  have "with_table pd va s = Inr (mem s (slot pd (pdi_of va)), s)"
    using True by (simp add: with_table_def present_def)
  then show ?thesis by (rule that) (use inv True t in auto)
next
  case False
  note pool = pd_inv_pool [OF inv] and pd = pd_inv_pd [OF inv]
  have some: "fl \<noteq> [] \<or> p_avail s \<noteq> p_limit s" using room False by simp
  obtain f s0 where al: "alloc_frame s = Inr (f, s0)" "pool_inv start s0 (tl fl)"
    "f \<notin> in_use start s fl" "in_use start s0 (tl fl) = insert f (in_use start s fl)"
    "mem s0 = (\<lambda>a. if in_frame f a then 0 else mem s a)" "p_limit s0 = p_limit s" "offset f = 0"
    "free_frames s0 (tl fl) + 1 = free_frames s fl"
    by (rule alloc_frame_spec [OF pool some])
  let ?p = "slot pd (pdi_of va)"
  let ?s1 = "s0\<lparr>mem := (mem s0)(?p := f OR 7)\<rparr>"
  have ne: "f \<noteq> pd" using al(3) pd(1) by blast
  have far: "\<not> in_frame f (slot pd j)" if "uint j < 1024" for j
    using in_frame_unique [OF al(7) pd(2)] slot_in_frame [OF pd(2) that] ne by blast
  have run: "with_table pd va s = Inr (f OR 7, ?s1)"
    using al(1) False by (simp add: with_table_def present_def Let_def)
  have dir: "mem ?s1 (slot pd j) = (if j = pdi_of va then f OR 7 else mem s (slot pd j))"
    if "uint j < 1024" for j
    using far [OF that] slot_inj [OF pd(2) that pdi_less] by (simp add: al(5))
  have use: "in_use start ?s1 (tl fl) = insert f (in_use start s fl)" using al(4) by simp
  have pool1: "pool_inv start ?s1 (tl fl)"
    using pool_inv_write [OF al(2), of pd ?p] pd al(4) slot_in_frame [OF pd(2) pdi_less] by blast
  have inv1: "pd_inv start ?s1 (tl fl) pd"
    unfolding pd_inv_def use
  proof (intro conjI allI impI)
    show "pool_inv start ?s1 (tl fl)" by (rule pool1)
    show "pd \<in> insert f (in_use start s fl)" using pd(1) by blast
    fix i assume i: "uint i < 1024" and pi: "present (mem ?s1 (slot pd i))"
    show "table_of (mem ?s1 (slot pd i)) \<in> insert f (in_use start s fl) - {pd}"
      using pd_inv_table [OF inv i] pi ne al(7) unfolding dir [OF i] by (auto split: if_splits)
    fix j assume j: "uint j < 1024" and pj: "present (mem ?s1 (slot pd j))"
      and eq: "table_of (mem ?s1 (slot pd i)) = table_of (mem ?s1 (slot pd j))"
    have fresh: "present (mem s (slot pd k)) \<Longrightarrow> table_of (mem s (slot pd k)) \<noteq> f"
      if "uint k < 1024" for k using pd_inv_table [OF inv that] al(3) by blast
    show "i = j"
      using pi pj eq fresh [OF i] fresh [OF j] pd_inv_inj [OF inv i j] al(7)
      unfolding dir [OF i] dir [OF j] by (auto split: if_splits)
  qed
  have new: "table_of (f OR 7) = f" using al(7) by simp
  show ?thesis
  proof (rule that [OF run inv1], unfold new use)
    fix j :: u32 assume j: "uint j < 1024"
    have "slot f j \<noteq> ?p" using slot_ne [OF al(7) pd(2) ne j pdi_less] .
    then show "mem ?s1 (slot f j) = 0" using slot_in_frame [OF al(7) j] by (simp add: al(5))
  qed (use False al ne in auto)
qed

lemma map_page_spec:
  assumes inv: "pd_inv start s fl pd" and pa: "offset pa = 0"
    and room: "present (mem s (slot pd (pdi_of va))) \<or> fl \<noteq> [] \<or> p_avail s \<noteq> p_limit s"
  obtains s' fl' t where "map_page pd va pa s = Inr s'" "pd_inv start s' fl' pd"
    "in_use start s' fl' = insert t (in_use start s fl)"
    "\<And>vb. translate (mem s') pd vb =
       (if ppn vb = ppn va then Some (pa OR offset vb) else translate (mem s) pd vb)"
    "\<And>a. \<not> in_frame pd a \<Longrightarrow> \<not> in_frame t a \<Longrightarrow> mem s' a = mem s a"
    "t = table_of (mem s' (slot pd (pdi_of va)))" "p_limit s' = p_limit s"
    "present (mem s (slot pd (pdi_of va))) \<Longrightarrow> t \<in> in_use start s fl \<and> fl' = fl"
    "\<And>j. uint j < 1024 \<Longrightarrow> j \<noteq> pdi_of va \<Longrightarrow> mem s' (slot pd j) = mem s (slot pd j)"
    "free_frames s' fl' + (if present (mem s (slot pd (pdi_of va))) then 0 else 1) = free_frames s fl"
    "present (mem s' (slot pd (pdi_of va)))"
proof -
  obtain e s1 fl1 where w: "with_table pd va s = Inr (e, s1)" "pd_inv start s1 fl1 pd" "present e"
    "mem s1 (slot pd (pdi_of va)) = e" "table_of e \<in> in_use start s1 fl1" "table_of e \<noteq> pd"
    "in_use start s1 fl1 = insert (table_of e) (in_use start s fl)"
    "\<And>a. \<not> in_frame (table_of e) a \<Longrightarrow> a \<noteq> slot pd (pdi_of va) \<Longrightarrow> mem s1 a = mem s a"
    "present (mem s (slot pd (pdi_of va))) \<Longrightarrow> mem s1 = mem s"
    "\<not> present (mem s (slot pd (pdi_of va))) \<Longrightarrow> table_of e \<notin> in_use start s fl"
    "\<And>j. \<not> present (mem s (slot pd (pdi_of va))) \<Longrightarrow> uint j < 1024 \<Longrightarrow>
      mem s1 (slot (table_of e) j) = 0"
    "p_limit s1 = p_limit s"
    "free_frames s1 fl1 + (if present (mem s (slot pd (pdi_of va))) then 0 else 1) = free_frames s fl"
    by (rule with_table_spec [OF inv room]) blast
  let ?t = "table_of e" let ?q = "slot ?t (pti_of va)"
  let ?s' = "s1\<lparr>mem := (mem s1)(?q := pa OR 7)\<rparr>"
  note pd = pd_inv_pd [OF w(2)]
  have run: "map_page pd va pa s = Inr ?s'" using w(1) by (simp add: map_page_eq)
  have dir: "mem ?s' (slot pd j) = mem s1 (slot pd j)" if "uint j < 1024" for j
    using slot_ne [OF pd(2) table_of_offset w(6) [symmetric] that pti_less] by simp
  have pool: "pool_inv start ?s' fl1"
    using pool_inv_write [OF pd_inv_pool [OF w(2)] w(5) slot_in_frame [OF table_of_offset pti_less]] .
  have inv': "pd_inv start ?s' fl1 pd"
    using w(2) pool dir unfolding pd_inv_def by simp
  show ?thesis
  proof (rule that [OF run inv'])
    show "in_use start ?s' fl1 = insert ?t (in_use start s fl)" using w(7) by simp
    show "?t = table_of (mem ?s' (slot pd (pdi_of va)))" using dir [OF pdi_less] w(4) by simp
    show "p_limit ?s' = p_limit s" using w(12) by simp
    show "free_frames ?s' fl1 + (if present (mem s (slot pd (pdi_of va))) then 0 else 1) = free_frames s fl"
      using w(13) by simp
    show "present (mem ?s' (slot pd (pdi_of va)))" using dir [OF pdi_less] w(3,4) by simp
  next
    fix a assume a: "\<not> in_frame pd a" "\<not> in_frame ?t a"
    have "a \<noteq> slot pd (pdi_of va)" "a \<noteq> ?q"
      using a slot_in_frame [OF pd(2) pdi_less] slot_in_frame [OF table_of_offset pti_less] by blast+
    then show "mem ?s' a = mem s a" using w(8) a by simp
  next
    assume p: "present (mem s (slot pd (pdi_of va)))"
    have "with_table pd va s = Inr (mem s (slot pd (pdi_of va)), s)"
      using p by (simp add: with_table_def present_def)
    then have "e = mem s (slot pd (pdi_of va))" "s1 = s" using w(1) by auto
    then have "?t \<in> in_use start s fl" using pd_inv_table [OF inv pdi_less p] by simp
    moreover have "fl1 = fl"
      using pool_inv_unique [OF pd_inv_pool [OF w(2)]] pd_inv_pool [OF inv] \<open>s1 = s\<close> by simp
    ultimately show "?t \<in> in_use start s fl \<and> fl1 = fl" ..
  next
    fix j assume j: "uint j < 1024" "j \<noteq> pdi_of va"
    have "slot pd j \<noteq> slot pd (pdi_of va)" using slot_inj [OF pd(2) j(1) pdi_less] j(2) by simp
    moreover have "\<not> in_frame ?t (slot pd j)"
      using in_frame_unique [OF table_of_offset pd(2)] slot_in_frame [OF pd(2) j(1)] w(6) by blast
    ultimately show "mem ?s' (slot pd j) = mem s (slot pd j)" using dir [OF j(1)] w(8) by simp
  next
    fix vb
    have old: "mem ?s' (slot pd (pdi_of va)) = e" using dir [OF pdi_less] w(4) by simp
    show "translate (mem ?s') pd vb =
       (if ppn vb = ppn va then Some (pa OR offset vb) else translate (mem s) pd vb)"
    proof (cases "pdi_of vb = pdi_of va")
      case same: True
      have q: "mem ?s' (slot ?t (pti_of vb)) =
          (if pti_of vb = pti_of va then pa OR 7 else mem s1 (slot ?t (pti_of vb)))"
        using slot_inj [OF table_of_offset pti_less pti_less] by simp
      have "ppn vb = ppn va \<longleftrightarrow> pti_of vb = pti_of va" using page_indices [of vb va] same by simp
      moreover have "translate (mem s1) pd vb = translate (mem s) pd vb"
        if "pti_of vb \<noteq> pti_of va"
      proof (cases "present (mem s (slot pd (pdi_of va)))")
        case True
        then show ?thesis using w(9) by simp
      next
        case False
        then show ?thesis using w(3,4) w(11) [OF False pti_less] same
          by (simp add: translate_eq Let_def)
      qed
      moreover have "translate (mem ?s') pd vb = translate (mem s1) pd vb"
        if "pti_of vb \<noteq> pti_of va"
        using that q dir [OF pdi_less] w(4) same unfolding translate_eq Let_def by simp
      moreover have "translate (mem ?s') pd vb = Some (pa OR offset vb)"
        if "pti_of vb = pti_of va"
        using that q old same w(3) pa unfolding translate_eq Let_def by simp
      ultimately show ?thesis by simp
    next
      case False
      have ppn: "ppn vb \<noteq> ppn va" using page_indices [of vb va] False by simp
      have "slot pd (pdi_of vb) \<noteq> slot pd (pdi_of va)"
        using slot_inj [OF pd(2) pdi_less pdi_less] False by simp
      moreover have "\<not> in_frame ?t (slot pd (pdi_of vb))"
        using in_frame_unique [OF table_of_offset pd(2)] slot_in_frame [OF pd(2) pdi_less] w(6) by blast
      ultimately have d1: "mem s1 (slot pd (pdi_of vb)) = mem s (slot pd (pdi_of vb))"
        using w(8) by simp
      then have d: "mem ?s' (slot pd (pdi_of vb)) = mem s (slot pd (pdi_of vb))"
        using dir [OF pdi_less] by simp
      have "mem ?s' (slot u (pti_of vb)) = mem s (slot u (pti_of vb))"
        if pr: "present (mem s (slot pd (pdi_of vb)))" and u: "u = table_of (mem s (slot pd (pdi_of vb)))" for u
      proof -
        have pr1: "present (mem s1 (slot pd (pdi_of vb)))" using pr d1 by simp
        have "u \<noteq> ?t"
          using pd_inv_inj [OF w(2) pdi_less pdi_less pr1, of va] w(3,4) False u d1 by auto
        moreover have "u \<noteq> pd" using pd_inv_table [OF inv pdi_less pr] u by simp
        ultimately have "\<not> in_frame ?t (slot u (pti_of vb))" "\<not> in_frame pd (slot u (pti_of vb))"
          using in_frame_unique slot_in_frame [OF table_of_offset pti_less] pd(2) table_of_offset u by blast+
        then have "slot u (pti_of vb) \<noteq> ?q" "slot u (pti_of vb) \<noteq> slot pd (pdi_of va)"
          using slot_in_frame [OF table_of_offset pti_less] slot_in_frame [OF pd(2) pdi_less] by metis+
        then show ?thesis using w(8) \<open>\<not> in_frame ?t (slot u (pti_of vb))\<close> by simp
      qed
      then show ?thesis using ppn d unfolding translate_eq Let_def by simp
    qed
  qed
qed

section \<open>unmap\<close>

lemma unmap_page_none:
  assumes "translate (mem s) pd va = None"
  shows "unmap_page pd va s = Inr s"
  using assms by (auto simp: translate_def unmap_page_def Let_def split: if_splits)

lemma unmap_page_spec:
  assumes inv: "pd_inv start s fl pd" and tr: "translate (mem s) pd va = Some pa"
    and p: "p = table_of (mem s (slot (table_of (mem s (slot pd (pdi_of va)))) (pti_of va)))"
    and own: "p \<in> in_use start s fl" "p \<noteq> pd"
    and leaf: "\<And>i. uint i < 1024 \<Longrightarrow> present (mem s (slot pd i)) \<Longrightarrow> table_of (mem s (slot pd i)) \<noteq> p"
  obtains s' where "unmap_page pd va s = Inr s'" "pd_inv start s' (p # fl) pd"
    "in_use start s' (p # fl) = in_use start s fl - {p}"
    "\<And>vb. translate (mem s') pd vb = (if ppn vb = ppn va then None else translate (mem s) pd vb)"
proof -
  let ?e = "mem s (slot pd (pdi_of va))" let ?t = "table_of ?e" let ?q = "slot ?t (pti_of va)"
  let ?s1 = "s\<lparr>mem := (mem s)(?q := 0)\<rparr>"
  let ?s' = "?s1\<lparr>mem := (mem ?s1)(p := firstFree ?s1), firstFree := p\<rparr>"
  note pool = pd_inv_pool [OF inv] and pd = pd_inv_pd [OF inv]
  have pe: "present ?e" and pt: "present (mem s ?q)"
    using tr by (auto simp: translate_eq Let_def split: if_splits)
  note t = pd_inv_table [OF inv pdi_less pe]
  have q: "in_frame ?t ?q" by (rule slot_in_frame [OF table_of_offset pti_less])
  have pool1: "pool_inv start ?s1 fl" by (rule pool_inv_write [OF pool conjunct1 [OF t] q])
  have own1: "p \<in> in_use start ?s1 fl" using own(1) by simp
  note de = dealloc_frame_spec [OF pool1 own1]
  have po: "offset p = 0" by (simp add: p)
  have run: "unmap_page pd va s = Inr ?s'"
    using pe pt de(1) p by (simp add: unmap_page_def Let_def present_def table_of_def)
  have dir: "mem ?s' (slot pd j) = mem s (slot pd j)" if "uint j < 1024" for j
  proof -
    have "slot pd j \<noteq> ?q" using slot_ne [OF pd(2) table_of_offset _ that pti_less] t by metis
    moreover have "slot pd j \<noteq> p"
      using in_frame_unique [OF po pd(2), of p] slot_in_frame [OF pd(2) that] own(2) by auto
    ultimately show ?thesis by simp
  qed
  have inv': "pd_inv start ?s' (p # fl) pd"
    unfolding pd_inv_def de(3)
  proof (intro conjI allI impI)
    show "pool_inv start ?s' (p # fl)" by (rule de(2))
    show "pd \<in> in_use start ?s1 fl - {p}" using pd(1) own(2) by simp
    fix i assume i: "uint i < 1024" and pi: "present (mem ?s' (slot pd i))"
    have pi': "present (mem s (slot pd i))" using pi dir [OF i] by simp
    show "table_of (mem ?s' (slot pd i)) \<in> in_use start ?s1 fl - {p} - {pd}"
      using pd_inv_table [OF inv i pi'] leaf [OF i pi'] dir [OF i] by simp
    fix j assume j: "uint j < 1024" and pj: "present (mem ?s' (slot pd j))"
      and eq: "table_of (mem ?s' (slot pd i)) = table_of (mem ?s' (slot pd j))"
    show "i = j" using pd_inv_inj [OF inv i j pi'] pj eq dir [OF i] dir [OF j] by simp
  qed
  show ?thesis
  proof (rule that [OF run inv'])
    show "in_use start ?s' (p # fl) = in_use start s fl - {p}" using de(3) by simp
    fix vb
    have other: "mem ?s' (slot u (pti_of vb)) = (if slot u (pti_of vb) = ?q then 0 else mem s (slot u (pti_of vb)))"
      if "u = table_of (mem s (slot pd (pdi_of vb)))" "present (mem s (slot pd (pdi_of vb)))" for u
    proof -
      have "u \<noteq> p" "offset u = 0" using leaf [OF pdi_less that(2)] that(1) by simp_all
      then have "\<not> in_frame p (slot u (pti_of vb))"
        using in_frame_unique [OF po \<open>offset u = 0\<close>] slot_in_frame [OF \<open>offset u = 0\<close> pti_less] by metis
      then have "slot u (pti_of vb) \<noteq> p" by (metis in_frame_self)
      then show ?thesis by simp
    qed
    have hit: "slot (table_of (mem s (slot pd (pdi_of vb)))) (pti_of vb) = ?q \<longleftrightarrow> ppn vb = ppn va"
      if pr: "present (mem s (slot pd (pdi_of vb)))"
      using slot_eq_iff [OF table_of_offset table_of_offset pti_less pti_less, of "mem s (slot pd (pdi_of vb))" vb ?e va]
        pd_inv_inj [OF inv pdi_less pdi_less pr pe] page_indices [of vb va] by metis
    have unmapped: "ppn vb = ppn va \<Longrightarrow> present (mem s (slot pd (pdi_of vb)))"
      using page_indices [of vb va] pe by simp
    show "translate (mem ?s') pd vb = (if ppn vb = ppn va then None else translate (mem s) pd vb)"
    proof (cases "present (mem s (slot pd (pdi_of vb)))")
      case True
      then show ?thesis using other [OF refl True] hit [OF True] dir [OF pdi_less]
        unfolding translate_eq Let_def by simp
    next
      case False
      then show ?thesis using unmapped dir [OF pdi_less] unfolding translate_eq Let_def by auto
    qed
  qed
qed

section \<open>Page faults\<close>

lemma pd_inv_alloc:
  assumes inv: "pd_inv start s fl pd" and some: "fl \<noteq> [] \<or> p_avail s \<noteq> p_limit s"
  obtains p s1 where "alloc_frame s = Inr (p, s1)" "pd_inv start s1 (tl fl) pd"
    "p \<notin> in_use start s fl" "in_use start s1 (tl fl) = insert p (in_use start s fl)" "offset p = 0"
    "mem s1 = (\<lambda>a. if in_frame p a then 0 else mem s a)" "p_limit s1 = p_limit s"
    "\<And>vb. translate (mem s1) pd vb = translate (mem s) pd vb"
    "\<And>j. uint j < 1024 \<Longrightarrow> mem s1 (slot pd j) = mem s (slot pd j)"
    "free_frames s1 (tl fl) + 1 = free_frames s fl"
proof -
  note pool = pd_inv_pool [OF inv] and pd = pd_inv_pd [OF inv]
  obtain p s1 where al: "alloc_frame s = Inr (p, s1)" "pool_inv start s1 (tl fl)"
    "p \<notin> in_use start s fl" "in_use start s1 (tl fl) = insert p (in_use start s fl)"
    "mem s1 = (\<lambda>a. if in_frame p a then 0 else mem s a)" "p_limit s1 = p_limit s" "offset p = 0"
    "free_frames s1 (tl fl) + 1 = free_frames s fl"
    by (rule alloc_frame_spec [OF pool some])
  have far: "mem s1 (slot u j) = mem s (slot u j)" if "u \<in> in_use start s fl" "uint j < 1024" for u j
  proof -
    have "offset u = 0" "u \<noteq> p" using that(1) in_useD(1) al(3) by blast+
    then have "\<not> in_frame p (slot u j)"
      using in_frame_unique [OF al(7)] slot_in_frame [OF _ that(2)] by metis
    then show ?thesis by (simp add: al(5))
  qed
  note dir = far [OF pd(1)]
  have inv': "pd_inv start s1 (tl fl) pd"
    unfolding pd_inv_def al(4) using inv dir al(2) unfolding pd_inv_def by auto
  have "translate (mem s1) pd vb = translate (mem s) pd vb" for vb
    using dir [OF pdi_less] far [OF _ pti_less] pd_inv_table [OF inv pdi_less]
    unfolding translate_eq Let_def by simp
  then show ?thesis using that [OF al(1) inv' al(3,4,7,5,6) _ _ al(8)] dir by blast
qed

section \<open>Deleting a page directory\<close>

text \<open>The tables the present entries among \<open>I\<close> point to.\<close>

definition tables :: "(u32 \<Rightarrow> u32) \<Rightarrow> u32 \<Rightarrow> u32 set \<Rightarrow> u32 set" where
  "tables m pd I = (\<lambda>i. table_of (m (slot pd i))) ` {i \<in> I. present (m (slot pd i))}"

lemma tables_insert:
  "tables m pd (insert i I) =
    (if present (m (slot pd i)) then insert (table_of (m (slot pd i))) (tables m pd I)
     else tables m pd I)"
  by (auto simp: tables_def)

lemma tables_cong: "\<forall>i\<in>I. m' (slot pd i) = m (slot pd i) \<Longrightarrow> tables m' pd I = tables m pd I"
  unfolding tables_def by (rule image_cong) auto

lemma delete_tables_spec:
  assumes "pool_inv start s fl" and "pd \<in> in_use start s fl"
    and "distinct is" and "\<forall>i\<in>set is. uint i < 1024"
    and "\<forall>i\<in>set is. present (mem s (slot pd i)) \<longrightarrow>
      table_of (mem s (slot pd i)) \<in> in_use start s fl - {pd}"
    and "\<forall>i\<in>set is. \<forall>j\<in>set is. present (mem s (slot pd i)) \<longrightarrow> present (mem s (slot pd j)) \<longrightarrow>
      table_of (mem s (slot pd i)) = table_of (mem s (slot pd j)) \<longrightarrow> i = j"
  shows "\<exists>s' fl'. delete_tables pd is s = Inr s' \<and> pool_inv start s' fl' \<and>
    in_use start s' fl' = in_use start s fl -
      tables (mem s) pd (set is)"
  using assms
proof (induction "is" arbitrary: s fl)
  case Nil
  then show ?case by (auto simp: tables_def)
next
  case (Cons i "is")
  let ?e = "mem s (slot pd i)" let ?t = "table_of ?e"
  show ?case
  proof (cases "present ?e")
    case False
    then have run: "delete_tables pd (i # is) s = delete_tables pd is s" by (simp add: present_def)
    have "\<exists>s' fl'. delete_tables pd is s = Inr s' \<and> pool_inv start s' fl' \<and>
        in_use start s' fl' = in_use start s fl - tables (mem s) pd (set is)"
      by (rule Cons.IH [OF Cons.prems(1,2)]) (use Cons.prems(3-6) in auto)
    then show ?thesis unfolding run using False by (simp add: tables_insert)
  next
    case True
    have t: "?t \<in> in_use start s fl" "?t \<noteq> pd" using Cons.prems(5) True by auto
    note de = dealloc_frame_spec [OF Cons.prems(1) t(1)]
    let ?s1 = "s\<lparr>mem := (mem s)(?t := firstFree s), firstFree := ?t\<rparr>"
    have run: "delete_tables pd (i # is) s = delete_tables pd is ?s1"
      using True de(1) by (simp add: present_def table_of_def Let_def)
    have dir: "mem ?s1 (slot pd j) = mem s (slot pd j)" if "j \<in> set is" for j
    proof -
      have "in_frame pd (slot pd j)"
        using slot_in_frame [OF in_useD(1) [OF Cons.prems(2)]] Cons.prems(4) that by simp
      then have "slot pd j \<noteq> ?t"
        using in_frame_unique [OF table_of_offset in_useD(1) [OF Cons.prems(2)], of ?e ?t] t(2) by auto
      then show ?thesis by simp
    qed
    have pd1: "pd \<in> in_use start ?s1 (?t # fl)" using Cons.prems(2) t(2) de(3) by simp
    have d1: "distinct is" and l1: "\<forall>j\<in>set is. uint j < 1024" using Cons.prems(3,4) by auto
    have tab: "\<forall>j\<in>set is. present (mem ?s1 (slot pd j)) \<longrightarrow>
        table_of (mem ?s1 (slot pd j)) \<in> in_use start ?s1 (?t # fl) - {pd}"
    proof (intro ballI impI)
      fix j assume j: "j \<in> set is" "present (mem ?s1 (slot pd j))"
      have pj: "present (mem s (slot pd j))" using j dir by simp
      have "j \<noteq> i" using j(1) Cons.prems(3) by auto
      then have "table_of (mem s (slot pd j)) \<noteq> ?t"
        using Cons.prems(6) pj True j(1) by (metis list.set_intros)
      moreover have "table_of (mem s (slot pd j)) \<in> in_use start s fl - {pd}"
        using Cons.prems(5) j(1) pj by simp
      ultimately show "table_of (mem ?s1 (slot pd j)) \<in> in_use start ?s1 (?t # fl) - {pd}"
        unfolding de(3) dir [OF j(1)] by blast
    qed
    have inj: "\<forall>i\<in>set is. \<forall>j\<in>set is. present (mem ?s1 (slot pd i)) \<longrightarrow> present (mem ?s1 (slot pd j)) \<longrightarrow>
        table_of (mem ?s1 (slot pd i)) = table_of (mem ?s1 (slot pd j)) \<longrightarrow> i = j"
      using Cons.prems(6) dir by simp
    from Cons.IH [OF de(2) pd1 d1 l1 tab inj] obtain s' fl' where r:
      "delete_tables pd is ?s1 = Inr s'" "pool_inv start s' fl'"
      "in_use start s' fl' = in_use start ?s1 (?t # fl) - tables (mem ?s1) pd (set is)" by blast
    have "tables (mem ?s1) pd (set is) = tables (mem s) pd (set is)"
      by (rule tables_cong) (use dir in blast)
    then have "in_use start s' fl' = in_use start s fl - tables (mem s) pd (set (i # is))"
      unfolding r(3) de(3) using True by (auto simp: tables_insert)
    then show ?thesis unfolding run using r(1,2) by blast
  qed
qed

text \<open>The entries the loop of \<open>delete_pd\<close> goes over.\<close>

definition upper_entries :: "u32 set" where
  "upper_entries = {i. 512 \<le> uint i \<and> uint i < 1024}"

lemma upper_half:
  "distinct (map of_nat [512..<1024] :: u32 list)"
  "set (map of_nat [512..<1024] :: u32 list) = upper_entries"
proof -
  have u: "uint (of_nat n :: u32) = int n" if "n < 1024" for n
    using uint_of_int_u32 [of "int n"] that by simp
  have inj: "inj_on (of_nat :: nat \<Rightarrow> u32) {512..<1024}"
  proof (rule inj_onI)
    fix a b :: nat assume "a \<in> {512..<1024}" "b \<in> {512..<1024}" "(of_nat a :: u32) = of_nat b"
    then have lt: "a < 1024" "b < 1024" and eq: "(of_nat a :: u32) = of_nat b" by simp_all
    have "int a = int b" using u [OF lt(1)] u [OF lt(2)] eq by metis
    then show "a = b" by simp
  qed
  have set: "set [512..<1024] = {512..<1024::nat}" by (rule set_upt)
  show "distinct (map of_nat [512..<1024] :: u32 list)"
    unfolding distinct_map set by (rule conjI [OF distinct_upt inj])
  show "set (map of_nat [512..<1024] :: u32 list) = upper_entries"
    unfolding set_map set
  proof (rule set_eqI)
    fix i :: u32
    show "i \<in> of_nat ` {512..<1024} \<longleftrightarrow> i \<in> upper_entries"
    proof
      assume "i \<in> of_nat ` {512..<1024}"
      then obtain n where n: "i = of_nat n" "512 \<le> n" "n < 1024" by auto
      show "i \<in> upper_entries" unfolding upper_entries_def n(1) using u [OF n(3)] n(2,3) by simp
    next
      assume i: "i \<in> upper_entries"
      have e: "i = of_nat (unat i)" by simp
      have "512 \<le> uint i" "uint i < 1024" using i by (simp_all add: upper_entries_def)
      then have "512 \<le> unat i" "unat i < 1024" using uint_nat [of i] by linarith+
      then have "unat i \<in> {512..<1024}" by simp
      then show "i \<in> of_nat ` {512..<1024}" using e by (rule image_eqI [rotated])
    qed
  qed
qed

lemma delete_pd_spec:
  assumes inv: "pd_inv start s fl pd"
  obtains s' fl' where "delete_pd pd s = Inr s'" "pool_inv start s' fl'"
    "in_use start s' fl' = in_use start s fl - insert pd (tables (mem s) pd upper_entries)"
proof -
  let ?is = "map of_nat [512..<1024] :: u32 list"
  note up = upper_half(2)
  have lt: "i \<in> upper_entries \<Longrightarrow> uint i < 1024" for i by (simp add: upper_entries_def)
  have "\<exists>s' fl'. delete_tables pd ?is s = Inr s' \<and> pool_inv start s' fl' \<and>
    in_use start s' fl' = in_use start s fl - tables (mem s) pd (set ?is)"
  proof (rule delete_tables_spec [OF pd_inv_pool [OF inv] pd_inv_pd(1) [OF inv] upper_half(1)],
      unfold up)
    show "\<forall>i\<in>upper_entries. uint i < 1024" using lt by blast
    show "\<forall>i\<in>upper_entries. present (mem s (slot pd i)) \<longrightarrow>
        table_of (mem s (slot pd i)) \<in> in_use start s fl - {pd}"
      using pd_inv_table [OF inv] lt by blast
    show "\<forall>i\<in>upper_entries. \<forall>j\<in>upper_entries. present (mem s (slot pd i)) \<longrightarrow>
        present (mem s (slot pd j)) \<longrightarrow>
        table_of (mem s (slot pd i)) = table_of (mem s (slot pd j)) \<longrightarrow> i = j"
      using pd_inv_inj [OF inv] lt by blast
  qed
  then obtain s1 fl1 where r: "delete_tables pd ?is s = Inr s1" "pool_inv start s1 fl1"
    "in_use start s1 fl1 = in_use start s fl - tables (mem s) pd upper_entries"
    unfolding up by blast
  have "pd \<notin> tables (mem s) pd upper_entries"
  proof
    assume "pd \<in> tables (mem s) pd upper_entries"
    then obtain i where "i \<in> upper_entries" "present (mem s (slot pd i))" "pd = table_of (mem s (slot pd i))"
      by (auto simp: tables_def)
    then show False using pd_inv_table [OF inv lt] by metis
  qed
  then have pd1: "pd \<in> in_use start s1 fl1" using r(3) pd_inv_pd(1) [OF inv] by blast
  note de = dealloc_frame_spec [OF r(2) pd1]
  have run: "delete_pd pd s =
      Inr (s1\<lparr>mem := (mem s1)(pd := firstFree s1), firstFree := pd\<rparr>)"
    unfolding delete_pd_def r(1) rbind_Inr de(1) ..
  show ?thesis by (rule that [OF run de(2)]) (use r(3) de(3) in auto)
qed

end
