(* ===== verification/Vmm_Correct.thy ===== *)
theory Vmm_Correct
  imports Vmm
begin

text \<open>
  What the operations on page tables do to the translation the hardware performs and to the frame
  pool: \<open>map\<close>, \<open>unmap\<close>, the page-fault handler, the identity map of
  \<open>global_init\<close>, and building and deleting the page directory of a process.
\<close>

section \<open>Pages\<close>

lemma table_of_or_offset: "table_of v OR offset v = v"
  unfolding table_of_def offset_def mask_split by (simp flip: bit.conj_disj_distrib)

lemma table_of_ppn: "table_of v = push_bit 12 (ppn v)"
proof -
  have m: "0xFFF = (mask 12 :: u32)" by (simp add: mask_eq_decr_exp)
  show ?thesis unfolding table_of_def mask_split m ppn_def
    by (rule bit_word_eqI) (auto simp: bit_push_bit_iff bit_drop_bit_eq bit_and_iff bit_not_iff bit_mask_iff)
qed

lemma same_page_or:
  assumes "offset va = 0" "ppn vb = ppn va"
  shows "va OR offset vb = vb"
proof -
  have "va = table_of va" using page_base [OF assms(1)] by (simp add: table_of_def)
  also have "\<dots> = table_of vb" using assms(2) by (simp add: table_of_ppn)
  finally show ?thesis using table_of_or_offset [of vb] by simp
qed

lemma ppn_uint: "uint (ppn v) = uint v div 4096"
  by (simp add: ppn_def unsigned_drop_bit_eq drop_bit_eq_div uint_div)

lemma ppn_framedown: "offset va = 0 \<Longrightarrow> ppn vb = ppn va \<longleftrightarrow> framedown vb = va"
proof -
  assume a: "offset va = 0"
  then obtain k where k: "uint va = 4096 * k" by (auto simp: offset_0_iff)
  have "ppn vb = ppn va \<longleftrightarrow> uint vb div 4096 = k"
    using ppn_uint [of vb] ppn_uint [of va] k uint_eqD by auto
  moreover have "framedown vb = va \<longleftrightarrow> uint vb div 4096 = k"
    using framedown_uint [of vb] k uint_eqD [of "framedown vb" va] by auto
  ultimately show ?thesis by simp
qed

lemma pdi_uint: "uint (pdi_of va) = uint va div 4194304"
  by (simp add: pdi_of_def unsigned_drop_bit_eq drop_bit_eq_div uint_div)

lemma framedown_offset [simp]: "offset (framedown v) = 0"
  unfolding offset_0_iff using framedown_uint by blast

lemma ppn_framedown_same [simp]: "ppn (framedown v) = ppn v"
  using ppn_framedown [of "framedown v" v] by simp

section \<open>Empty and copied directories\<close>

text \<open>A client may rewrite a frame it holds.\<close>

lemma pool_inv_rewrite:
  assumes inv: "pool_inv start s fl" and fr: "f \<in> in_use start s fl"
    and same: "\<And>a. \<not> in_frame f a \<Longrightarrow> m a = mem s a"
  shows "pool_inv start (s\<lparr>mem := m\<rparr>) fl"
proof -
  have "m x = mem s x" if "x \<in> set fl" for x
  proof (rule same)
    have "offset x = 0" "x \<noteq> f" using pool_invD(9) [OF inv that] in_useD(2) [OF fr] that by auto
    then show "\<not> in_frame f x" using in_frame_unique [of f x x] in_useD(1) [OF fr] by auto
  qed
  then have "chain m (firstFree s) fl" using chain_cong [OF pool_invD(5) [OF inv]] by blast
  then show ?thesis using inv by (simp add: pool_inv_def)
qed

lemma copy_words_spec:
  assumes "offset dst = 0" "offset src = 0" "dst \<noteq> src" "n \<le> 1024"
  shows "(\<forall>a. \<not> in_frame dst a \<longrightarrow> copy_words dst src n m a = m a) \<and>
    (\<forall>j. uint j < 1024 \<longrightarrow> copy_words dst src n m (slot dst j) =
       (if uint j < int n then m (slot src j) else m (slot dst j)))"
  using assms(4)
proof (induction n)
  case 0
  then show ?case by (simp add: copy_words_def)
next
  case (Suc n)
  let ?m = "copy_words dst src n m" let ?i = "of_nat n :: u32"
  have ih: "\<And>a. \<not> in_frame dst a \<Longrightarrow> ?m a = m a"
    "\<And>j. uint j < 1024 \<Longrightarrow> ?m (slot dst j) = (if uint j < int n then m (slot src j) else m (slot dst j))"
    using Suc by simp_all
  have i: "uint ?i = int n" "uint ?i < 1024" using uint_of_int_u32 [of "int n"] Suc.prems by simp_all
  have step: "copy_words dst src (Suc n) m = ?m(slot dst ?i := ?m (slot src ?i))"
    by (simp add: copy_words_def)
  have src: "?m (slot src ?i) = m (slot src ?i)"
    using ih(1) in_frame_unique [OF assms(1,2)] slot_in_frame [OF assms(2) i(2)] assms(3) by metis
  show ?case unfolding step
  proof (intro conjI allI impI)
    fix a assume "\<not> in_frame dst a"
    then show "(?m(slot dst ?i := ?m (slot src ?i))) a = m a"
      using ih(1) slot_in_frame [OF assms(1) i(2)] by auto
  next
    fix j :: u32 assume j: "uint j < 1024"
    have "j = ?i \<longleftrightarrow> uint j = int n" using i(1) uint_eqD [of j ?i] by auto
    then show "(?m(slot dst ?i := ?m (slot src ?i))) (slot dst j) =
        (if uint j < int (Suc n) then m (slot src j) else m (slot dst j))"
      using slot_inj [OF assms(1) j i(2)] ih(2) [OF j] src by auto
  qed
qed

text \<open>A fresh frame is an empty directory, a copy of the first entries of a directory shares its
  tables.\<close>

lemma fresh_pd:
  assumes "pool_inv start s fl" "p \<in> in_use start s fl"
    "\<And>a. in_frame p a \<Longrightarrow> mem s a = 0"
  shows "pd_inv start s fl p" "translate (mem s) p vb = None"
    "\<And>i. uint i < 1024 \<Longrightarrow> \<not> present (mem s (slot p i))"
proof -
  show z: "\<not> present (mem s (slot p i))" if "uint i < 1024" for i
    using slot_in_frame [OF in_useD(1) [OF assms(2)] that] assms(3) by simp
  show "pd_inv start s fl p" using assms(1,2) z unfolding pd_inv_def by blast
  show "translate (mem s) p vb = None" using z [OF pdi_less] by (simp add: translate_eq Let_def)
qed

section \<open>The identity map\<close>

text \<open>Mapping a list of pages to themselves.\<close>

fun map_identity :: "u32 \<Rightarrow> u32 list \<Rightarrow> phys \<Rightarrow> phys res" where
  "map_identity pd [] s = Inr s"
| "map_identity pd (va # vas) s = rbind (map_page pd va va s) (map_identity pd vas)"

definition present_pdis :: "phys \<Rightarrow> u32 \<Rightarrow> u32 set" where
  "present_pdis s pd = {i. uint i < 1024 \<and> present (mem s (slot pd i))}"

lemma map_identity_spec:
  assumes "pd_inv start s fl pd" and "\<forall>va\<in>set vas. offset va = 0"
    and "card (pdi_of ` set vas - present_pdis s pd) \<le> free_frames s fl"
  shows "\<exists>s' fl'. map_identity pd vas s = Inr s' \<and> pd_inv start s' fl' pd \<and>
    in_use start s fl \<subseteq> in_use start s' fl' \<and>
    (\<forall>vb. translate (mem s') pd vb =
       (if framedown vb \<in> set vas then Some vb else translate (mem s) pd vb))"
  using assms
proof (induction vas arbitrary: s fl)
  case Nil
  then show ?case by auto
next
  case (Cons va vas)
  let ?D = "present_pdis s pd" let ?i = "pdi_of va"
  have va: "offset va = 0" using Cons.prems(2) by simp
  have fin: "finite (pdi_of ` set vas)" by simp
  have iD: "?i \<in> ?D \<longleftrightarrow> present (mem s (slot pd ?i))" using pdi_less by (simp add: present_pdis_def)
  have pos: "?i \<notin> ?D \<Longrightarrow> 0 < card (pdi_of ` set (va # vas) - ?D)"
    by (subst card_gt_0_iff) auto
  then have room: "present (mem s (slot pd ?i)) \<or> fl \<noteq> [] \<or> p_avail s \<noteq> p_limit s"
    using Cons.prems(3) iD free_frames_some by fastforce
  obtain s1 fl1 t where m: "map_page pd va va s = Inr s1" "pd_inv start s1 fl1 pd"
    "in_use start s1 fl1 = insert t (in_use start s fl)"
    "\<And>vb. translate (mem s1) pd vb =
       (if ppn vb = ppn va then Some (va OR offset vb) else translate (mem s) pd vb)"
    "\<And>j. uint j < 1024 \<Longrightarrow> j \<noteq> ?i \<Longrightarrow> mem s1 (slot pd j) = mem s (slot pd j)"
    "free_frames s1 fl1 + (if present (mem s (slot pd ?i)) then 0 else 1) = free_frames s fl"
    "present (mem s1 (slot pd ?i))"
    by (rule map_page_spec [OF Cons.prems(1) va room]) blast
  have D1: "present_pdis s1 pd = insert ?i ?D"
    unfolding present_pdis_def using m(5,7) pdi_less [of va] by auto metis+
  have sub: "pdi_of ` set vas - insert ?i ?D = (pdi_of ` set (va # vas) - ?D) - {?i}" by auto
  have "card (pdi_of ` set vas - present_pdis s1 pd) \<le> free_frames s1 fl1"
  proof (cases "?i \<in> ?D")
    case True
    then have "pdi_of ` set vas - insert ?i ?D \<subseteq> pdi_of ` set (va # vas) - ?D" by auto
    then have "card (pdi_of ` set vas - insert ?i ?D) \<le> card (pdi_of ` set (va # vas) - ?D)"
      by (intro card_mono) auto
    then show ?thesis using Cons.prems(3) m(6) True iD unfolding D1 by simp
  next
    case False
    have "card ((pdi_of ` set (va # vas) - ?D) - {?i}) = card (pdi_of ` set (va # vas) - ?D) - 1"
      using False by (subst card_Diff_singleton) auto
    then show ?thesis using Cons.prems(3) m(6) False iD pos [OF False] unfolding D1 sub by simp
  qed
  from Cons.IH [OF m(2) _ this] Cons.prems(2) obtain s' fl' where r:
    "map_identity pd vas s1 = Inr s'" "pd_inv start s' fl' pd"
    "in_use start s1 fl1 \<subseteq> in_use start s' fl'"
    "\<forall>vb. translate (mem s') pd vb =
       (if framedown vb \<in> set vas then Some vb else translate (mem s1) pd vb)" by auto
  have "translate (mem s') pd vb =
      (if framedown vb \<in> set (va # vas) then Some vb else translate (mem s) pd vb)" for vb
    using r(4) m(4) ppn_framedown [OF va] same_page_or [OF va] by auto
  then show ?case using m(1,3) r by auto
qed

text \<open>The loop of \<open>global_init\<close> goes over the pages below \<open>memSize\<close>.\<close>

lemma identity_loop_list:
  assumes small: "uint (memSize c) \<le> 0xFFFFF000" and va: "offset va = 0"
  shows "\<exists>vas. identity_loop c sh va s = Some (map_identity sh vas s) \<and>
    (\<forall>x. x \<in> set vas \<longleftrightarrow> offset x = 0 \<and> uint va \<le> uint x \<and> uint x < uint (memSize c))"
  using va
proof (induction "nat (0xFFFFFFFF - uint va)" arbitrary: va s rule: less_induct)
  case less
  show ?case
  proof (cases "va < memSize c")
    case False
    then have "identity_loop c sh va s = Some (map_identity sh [] s)"
      by (subst identity_loop.simps) simp
    then show ?thesis using False by (intro exI [of _ "[]"]) (auto simp: word_less_def)
  next
    case True
    then have lt: "uint va < uint (memSize c)" by (simp add: word_less_def)
    obtain k where k: "uint va = 4096 * k" using less.prems by (auto simp: offset_0_iff)
    have u: "uint (va + 4096) = uint va + 4096"
      using lt small by (subst uint_add_lem [THEN iffD1]) simp_all
    have o4: "offset (va + 4096) = 0"
      unfolding offset_0_iff by (rule exI [of _ "k + 1"]) (simp add: u k)
    have nxt: "offset x = 0 \<Longrightarrow> uint va \<le> uint x \<longleftrightarrow> x = va \<or> uint (va + 4096) \<le> uint x" for x
    proof -
      assume "offset x = 0"
      then obtain l where "uint x = 4096 * l" by (auto simp: offset_0_iff)
      moreover have "4096 * k \<le> 4096 * l \<longleftrightarrow> 4096 * l = 4096 * k \<or> 4096 * k + 4096 \<le> 4096 * l"
        by (cases k l rule: linorder_cases) auto
      ultimately show ?thesis using k u uint_eqD [of x va] by auto
    qed
    have dec: "nat (0xFFFFFFFF - uint (va + 4096)) < nat (0xFFFFFFFF - uint va)"
      using u lt small by simp
    show ?thesis
    proof (cases "map_page sh va va s")
      case (Inl e)
      obtain vas where vas: "\<forall>x. x \<in> set vas \<longleftrightarrow>
          offset x = 0 \<and> uint (va + 4096) \<le> uint x \<and> uint x < uint (memSize c)"
        using less.hyps [OF dec o4] by blast
      have "identity_loop c sh va s = Some (map_identity sh (va # vas) s)"
        using True Inl by (subst identity_loop.simps) simp
      moreover have "x \<in> set (va # vas) \<longleftrightarrow> offset x = 0 \<and> uint va \<le> uint x \<and> uint x < uint (memSize c)" for x
        using vas nxt [of x] less.prems lt by auto
      ultimately show ?thesis by blast
    next
      case (Inr s1)
      obtain vas where vas: "identity_loop c sh (va + 4096) s1 = Some (map_identity sh vas s1)"
        "\<forall>x. x \<in> set vas \<longleftrightarrow> offset x = 0 \<and> uint (va + 4096) \<le> uint x \<and> uint x < uint (memSize c)"
        using less.hyps [OF dec o4] by blast
      have "identity_loop c sh va s = Some (map_identity sh (va # vas) s)"
        using True Inr vas(1) by (subst identity_loop.simps) simp
      moreover have "x \<in> set (va # vas) \<longleftrightarrow> offset x = 0 \<and> uint va \<le> uint x \<and> uint x < uint (memSize c)" for x
        using vas(2) nxt [of x] less.prems lt by auto
      ultimately show ?thesis by blast
    qed
  qed
qed

lemma few_tables:
  assumes "\<forall>x\<in>A. uint (pdi_of x) < int k"
  shows "card (pdi_of ` A) \<le> k"
proof -
  have "pdi_of ` A \<subseteq> (\<lambda>n. of_nat n) ` {..<k}"
  proof
    fix i assume "i \<in> pdi_of ` A"
    then have "uint i < int k" using assms by auto
    then have "unat i < k" using uint_nat [of i] by linarith
    moreover have "i = of_nat (unat i)" by simp
    ultimately show "i \<in> of_nat ` {..<k}" by (intro image_eqI) auto
  qed
  then have "card (pdi_of ` A) \<le> card ((\<lambda>n. of_nat n :: u32) ` {..<k})" by (intro card_mono) auto
  also have "\<dots> \<le> card {..<k}" by (rule card_image_le) simp
  finally show ?thesis by simp
qed

lemma global_init_spec:
  assumes inv: "pool_inv start s fl" and small: "uint (memSize c) \<le> 0xFFFFF000"
    and room: "1 + nat ((uint (memSize c) + 4194303) div 4194304) \<le> free_frames s fl"
  obtains sh s' fl' where "global_init c s = Some (Inr (sh, s'))" "pd_inv start s' fl' sh"
    "\<And>vb. translate (mem s') sh vb =
       (if 4096 \<le> uint vb \<and> uint (framedown vb) < uint (memSize c) then Some vb else None)"
proof -
  have some: "fl \<noteq> [] \<or> p_avail s \<noteq> p_limit s" by (rule free_frames_some) (use room in simp)
  obtain sh s1 where al: "alloc_frame s = Inr (sh, s1)" "pool_inv start s1 (tl fl)"
    "in_use start s1 (tl fl) = insert sh (in_use start s fl)"
    "mem s1 = (\<lambda>a. if in_frame sh a then 0 else mem s a)"
    "free_frames s1 (tl fl) + 1 = free_frames s fl"
    by (rule alloc_frame_spec [OF inv some])
  have sh: "sh \<in> in_use start s1 (tl fl)" using al(3) by simp
  have z: "in_frame sh a \<Longrightarrow> mem s1 a = 0" for a by (simp add: al(4))
  note pd = fresh_pd [OF al(2) sh z]
  have o: "offset 4096 = 0" by (simp add: offset_def)
  obtain vas where vas: "identity_loop c sh 4096 s1 = Some (map_identity sh vas s1)"
    "\<And>x. x \<in> set vas \<longleftrightarrow> offset x = 0 \<and> uint (4096 :: u32) \<le> uint x \<and> uint x < uint (memSize c)"
    using identity_loop_list [OF small o] by blast
  have "card (pdi_of ` set vas) \<le> nat ((uint (memSize c) + 4194303) div 4194304)"
  proof (rule few_tables, rule ballI)
    fix x assume "x \<in> set vas"
    then have x: "uint x < uint (memSize c)" using vas(2) by blast
    have "uint x div 4194304 + 1 = (uint x + 4194304) div 4194304" by simp
    also have "\<dots> \<le> (uint (memSize c) + 4194303) div 4194304"
      by (rule zdiv_mono1) (use x in simp_all)
    finally show "uint (pdi_of x) < int (nat ((uint (memSize c) + 4194303) div 4194304))"
      using uint_nonnegative [of "memSize c"] by (simp add: pdi_uint pos_imp_zdiv_nonneg_iff)
  qed
  moreover have "card (pdi_of ` set vas - present_pdis s1 sh) \<le> card (pdi_of ` set vas)"
    by (rule card_mono) auto
  ultimately have card: "card (pdi_of ` set vas - present_pdis s1 sh) \<le> free_frames s1 (tl fl)"
    using room al(5) by linarith
  have off: "\<forall>va\<in>set vas. offset va = 0" using vas(2) by blast
  obtain s' fl' where r: "map_identity sh vas s1 = Inr s'" "pd_inv start s' fl' sh"
    "\<forall>vb. translate (mem s') sh vb =
       (if framedown vb \<in> set vas then Some vb else translate (mem s1) sh vb)"
    using map_identity_spec [OF pd(1) off card] by blast
  have run: "global_init c s = Some (Inr (sh, s'))"
    using al(1) vas(1) r(1) by (simp add: global_init_def)
  have low: "4096 \<le> uint (framedown vb) \<longleftrightarrow> 4096 \<le> uint vb" for vb
    unfolding framedown_uint by auto
  show ?thesis
    by (rule that [OF run r(2)]) (use r(3) vas(2) pd(2) low in auto)
qed

section \<open>The page directory of a process\<close>

lemma make_pd_spec:
  assumes inv: "pd_inv start s fl sh" and room: "3 \<le> free_frames s fl"
    and io: "offset (ioAPIC c) = 0" "int (shared_words c) \<le> uint (pdi_of (ioAPIC c))"
    and lo: "offset (localAPIC c) = 0" "int (shared_words c) \<le> uint (pdi_of (localAPIC c))"
  obtains pd s' fl' where "make_pd c sh s = Inr (pd, s')" "pd_inv start s' fl' pd"
    "pd \<notin> in_use start s fl" "in_use start s fl \<subseteq> in_use start s' fl'"
    "\<And>vb. translate (mem s') pd vb =
       (if ppn vb = ppn (localAPIC c) \<or> ppn vb = ppn (ioAPIC c) then Some vb
        else if uint (pdi_of vb) < int (shared_words c) then translate (mem s) sh vb else None)"
proof -
  let ?n = "shared_words c"
  note pool = pd_inv_pool [OF inv] and shu = pd_inv_pd [OF inv]
  have some: "fl \<noteq> [] \<or> p_avail s \<noteq> p_limit s" by (rule free_frames_some) (use room in simp)
  obtain pd s1 where al: "alloc_frame s = Inr (pd, s1)" "pool_inv start s1 (tl fl)"
    "pd \<notin> in_use start s fl" "in_use start s1 (tl fl) = insert pd (in_use start s fl)"
    "mem s1 = (\<lambda>a. if in_frame pd a then 0 else mem s a)" "offset pd = 0"
    "free_frames s1 (tl fl) + 1 = free_frames s fl"
    by (rule alloc_frame_spec [OF pool some])
  have ne: "pd \<noteq> sh" using al(3) shu(1) by blast
  have n: "?n \<le> 1024" using io(2) pdi_less [of "ioAPIC c"] by linarith
  let ?m = "copy_words pd sh ?n (mem s1)"
  let ?s2 = "s1\<lparr>mem := ?m\<rparr>"
  note cp = copy_words_spec [OF al(6) shu(2) ne n, of "mem s1"]
  have pdu: "pd \<in> in_use start s1 (tl fl)" using al(4) by simp
  have old: "?m (slot u j) = mem s (slot u j)" if "u \<in> in_use start s fl" "uint j < 1024" for u j
  proof -
    have "\<not> in_frame pd (slot u j)"
      using in_frame_unique [OF al(6) in_useD(1) [OF that(1)]] slot_in_frame [OF in_useD(1) [OF that(1)] that(2)]
        al(3) that(1) by metis
    then show ?thesis using cp al(5) by simp
  qed
  have dir: "?m (slot pd j) = (if uint j < int ?n then mem s (slot sh j) else 0)" if "uint j < 1024" for j
  proof -
    have "\<not> in_frame pd (slot sh j)"
      using in_frame_unique [OF al(6) shu(2)] slot_in_frame [OF shu(2) that] ne by metis
    moreover have "in_frame pd (slot pd j)" by (rule slot_in_frame [OF al(6) that])
    ultimately show ?thesis using cp that al(5) by simp
  qed
  have inv2: "pd_inv start ?s2 (tl fl) pd"
    unfolding pd_inv_def in_use_mem al(4)
  proof (intro conjI allI impI)
    show "pool_inv start ?s2 (tl fl)" by (rule pool_inv_rewrite [OF al(2) pdu]) (use cp in blast)
    show "pd \<in> insert pd (in_use start s fl)" by simp
    fix i assume i: "uint i < 1024" and pi: "present (mem ?s2 (slot pd i))"
    have i': "uint i < int ?n" "mem ?s2 (slot pd i) = mem s (slot sh i)" "present (mem s (slot sh i))"
      using pi dir [OF i] by (auto split: if_splits)
    then show "table_of (mem ?s2 (slot pd i)) \<in> insert pd (in_use start s fl) - {pd}"
      using pd_inv_table [OF inv i i'(3)] al(3) by auto
    fix j assume j: "uint j < 1024" and pj: "present (mem ?s2 (slot pd j))"
      and eq: "table_of (mem ?s2 (slot pd i)) = table_of (mem ?s2 (slot pd j))"
    have j': "mem ?s2 (slot pd j) = mem s (slot sh j)" "present (mem s (slot sh j))"
      using pj dir [OF j] by (auto split: if_splits)
    show "i = j" using pd_inv_inj [OF inv i j i'(3) j'(2)] eq i'(2) j'(1) by simp
  qed
  have tr2: "translate (mem ?s2) pd vb =
      (if uint (pdi_of vb) < int ?n then translate (mem s) sh vb else None)" for vb
  proof (cases "present (mem s (slot sh (pdi_of vb)))")
    case True
    then show ?thesis
      using dir [OF pdi_less] old [OF conjunct1 [OF pd_inv_table [OF inv pdi_less True]] pti_less]
      unfolding translate_eq Let_def by simp
  next
    case False
    then show ?thesis using dir [OF pdi_less] unfolding translate_eq Let_def by simp
  qed
  have f2: "free_frames ?s2 (tl fl) = free_frames s fl - 1" using al(7) by simp
  have r2: "present (mem ?s2 (slot pd (pdi_of (ioAPIC c)))) \<or> tl fl \<noteq> [] \<or> p_avail ?s2 \<noteq> p_limit ?s2"
    using free_frames_some [of ?s2 "tl fl"] f2 room by simp
  obtain s3 fl3 t3 where m3: "map_page pd (ioAPIC c) (ioAPIC c) ?s2 = Inr s3" "pd_inv start s3 fl3 pd"
    "in_use start s3 fl3 = insert t3 (in_use start ?s2 (tl fl))"
    "\<And>vb. translate (mem s3) pd vb =
       (if ppn vb = ppn (ioAPIC c) then Some (ioAPIC c OR offset vb) else translate (mem ?s2) pd vb)"
    "free_frames s3 fl3 + (if present (mem ?s2 (slot pd (pdi_of (ioAPIC c)))) then 0 else 1) =
      free_frames ?s2 (tl fl)"
    by (rule map_page_spec [OF inv2 io(1) r2]) blast
  have "0 < free_frames s3 fl3" using m3(5) f2 room by (simp split: if_splits)
  then have r3: "present (mem s3 (slot pd (pdi_of (localAPIC c)))) \<or> fl3 \<noteq> [] \<or> p_avail s3 \<noteq> p_limit s3"
    using free_frames_some by blast
  obtain s4 fl4 t4 where m4: "map_page pd (localAPIC c) (localAPIC c) s3 = Inr s4" "pd_inv start s4 fl4 pd"
    "in_use start s4 fl4 = insert t4 (in_use start s3 fl3)"
    "\<And>vb. translate (mem s4) pd vb =
       (if ppn vb = ppn (localAPIC c) then Some (localAPIC c OR offset vb) else translate (mem s3) pd vb)"
    by (rule map_page_spec [OF m3(2) lo(1) r3]) blast
  have run: "make_pd c sh s = Inr (pd, s4)" using al(1) m3(1) m4(1) by (simp add: make_pd_def)
  have use: "in_use start s fl \<subseteq> in_use start s4 fl4" using al(4) m3(3) m4(3) by auto
  show ?thesis
  proof (rule that [OF run m4(2) al(3) use])
    fix vb
    show "translate (mem s4) pd vb =
       (if ppn vb = ppn (localAPIC c) \<or> ppn vb = ppn (ioAPIC c) then Some vb
        else if uint (pdi_of vb) < int (shared_words c) then translate (mem s) sh vb else None)"
      using m4(4) m3(4) tr2 same_page_or [OF io(1)] same_page_or [OF lo(1)] by simp
  qed
qed

lemma pageFault_spec:
  assumes inv: "pd_inv start s fl pd" and room: "2 \<le> free_frames s fl" and high: "0x80000000 \<le> uint fa"
  obtains s' fl' p where "vmm_pageFault pd pd pd fa s = Inr s'" "pd_inv start s' fl' pd"
    "p \<notin> in_use start s fl" "p \<in> in_use start s' fl'" "in_use start s fl \<subseteq> in_use start s' fl'"
    "offset p = 0" "\<And>a. in_frame p a \<Longrightarrow> mem s' a = 0"
    "\<And>vb. translate (mem s') pd vb =
       (if ppn vb = ppn fa then Some (p OR offset vb) else translate (mem s) pd vb)"
proof -
  have some: "fl \<noteq> [] \<or> p_avail s \<noteq> p_limit s" by (rule free_frames_some) (use room in simp)
  obtain p s1 where al: "alloc_frame s = Inr (p, s1)" "pd_inv start s1 (tl fl) pd"
    "p \<notin> in_use start s fl" "in_use start s1 (tl fl) = insert p (in_use start s fl)" "offset p = 0"
    "mem s1 = (\<lambda>a. if in_frame p a then 0 else mem s a)"
    "\<And>vb. translate (mem s1) pd vb = translate (mem s) pd vb"
    "\<And>j. uint j < 1024 \<Longrightarrow> mem s1 (slot pd j) = mem s (slot pd j)"
    "free_frames s1 (tl fl) + 1 = free_frames s fl"
    by (rule pd_inv_alloc [OF inv some]) blast
  let ?va = "framedown fa"
  have r: "present (mem s1 (slot pd (pdi_of ?va))) \<or> tl fl \<noteq> [] \<or> p_avail s1 \<noteq> p_limit s1"
    using free_frames_some [of s1 "tl fl"] al(9) room by simp
  obtain s2 fl2 t where m: "map_page pd ?va p s1 = Inr s2" "pd_inv start s2 fl2 pd"
    "in_use start s2 fl2 = insert t (in_use start s1 (tl fl))"
    "\<And>vb. translate (mem s2) pd vb =
       (if ppn vb = ppn ?va then Some (p OR offset vb) else translate (mem s1) pd vb)"
    "\<And>a. \<not> in_frame pd a \<Longrightarrow> \<not> in_frame t a \<Longrightarrow> mem s2 a = mem s1 a"
    "t = table_of (mem s2 (slot pd (pdi_of ?va)))"
    "present (mem s1 (slot pd (pdi_of ?va))) \<Longrightarrow> t \<in> in_use start s1 (tl fl) \<and> fl2 = tl fl"
    "present (mem s2 (slot pd (pdi_of ?va)))"
    by (rule map_page_spec [OF al(2,5) r]) blast
  have "0x80000000 \<le> uint ?va"
    using zdiv_mono1 [OF high, of 4096] by (simp add: framedown_uint)
  then have run: "vmm_pageFault pd pd pd fa s = Inr s2"
    using al(1) m(1) by (simp add: vmm_pageFault_def word_le_def Let_def)
  have tp: "t \<noteq> p"
  proof
    assume eq: "t = p"
    show False
    proof (cases "present (mem s1 (slot pd (pdi_of ?va)))")
      case True
      then have pr: "present (mem s (slot pd (pdi_of ?va)))" using al(8) [OF pdi_less] by simp
      have "with_table pd ?va s1 = Inr (mem s1 (slot pd (pdi_of ?va)), s1)"
        using True by (simp add: with_table_def present_def)
      then have "mem s2 (slot pd (pdi_of ?va)) = mem s1 (slot pd (pdi_of ?va))"
        using m(1) slot_ne [OF pd_inv_pd(2) [OF inv] table_of_offset _ pdi_less pti_less]
          pd_inv_table [OF al(2) pdi_less True] by (auto simp: map_page_eq)
      then have "t = table_of (mem s (slot pd (pdi_of ?va)))" using m(6) al(8) [OF pdi_less] by simp
      then show False using pd_inv_table [OF inv pdi_less pr] eq al(3) by simp
    next
      case False
      obtain e s3 fl3 where w: "with_table pd ?va s1 = Inr (e, s3)" "table_of e \<notin> in_use start s1 (tl fl)"
        "mem s3 (slot pd (pdi_of ?va)) = e" "table_of e \<noteq> pd"
        using with_table_spec [OF al(2) r] False by metis
      have "mem s2 (slot pd (pdi_of ?va)) = e"
        using m(1) w slot_ne [OF pd_inv_pd(2) [OF inv] table_of_offset _ pdi_less pti_less]
        by (auto simp: map_page_eq)
      then show False using m(6) w(2) eq al(4) by simp
    qed
  qed
  show ?thesis
  proof (rule that [OF run m(2) al(3) _ _ al(5)])
    show "p \<in> in_use start s2 fl2" "in_use start s fl \<subseteq> in_use start s2 fl2" using m(3) al(4) by auto
  next
    fix a assume a: "in_frame p a"
    have "pd \<noteq> p" using pd_inv_pd(1) [OF inv] al(3) by blast
    then have "\<not> in_frame pd a" using in_frame_unique [OF pd_inv_pd(2) [OF inv] al(5)] a by blast
    moreover have "\<not> in_frame t a"
      using in_frame_unique [OF _ al(5) _ a, of t] tp m(6) by auto
    ultimately show "mem s2 a = 0" using m(5) a al(6) by simp
  next
    fix vb
    show "translate (mem s2) pd vb =
       (if ppn vb = ppn fa then Some (p OR offset vb) else translate (mem s) pd vb)"
      using m(4) al(7) by simp
  qed
qed

section \<open>Two small address spaces\<close>

text \<open>\<open>empty_space\<close>: the directory at 0x600000, nothing mapped, four frames left.
  \<open>page_space\<close>: the page 0x80000000 mapped to the frame 0x602000 through the table
  0x601000.\<close>

definition empty_space :: phys where
  "empty_space = \<lparr>mem = (\<lambda>a. if in_frame 0x600000 a then 0 else 0xAA), firstFree = 0,
     p_avail = 0x601000, p_limit = 0x605000\<rparr>"

definition page_space :: phys where
  "page_space = \<lparr>mem = (\<lambda>a. if a = slot 0x600000 512 then 0x601007
       else if a = slot 0x601000 0 then 0x602007 else 0),
     firstFree = 0, p_avail = 0x603000, p_limit = 0x605000\<rparr>"

lemma empty_space_inv: "pd_inv 0x600000 empty_space [] 0x600000" "free_frames empty_space [] = 4"
proof -
  have "pool_inv 0x600000 empty_space []"
    by (simp add: pool_inv_def empty_space_def offset_def)
  then show "pd_inv 0x600000 empty_space [] 0x600000"
    by (rule fresh_pd) (simp_all add: in_use_def empty_space_def offset_def)
  show "free_frames empty_space [] = 4" by (simp add: free_frames_def empty_space_def)
qed

lemma page_space_dir:
  assumes "uint i < 1024"
  shows "mem page_space (slot 0x600000 i) = (if i = 512 then 0x601007 else 0)"
proof -
  have o: "offset 0x600000 = 0" "offset 0x601000 = 0" by (simp_all add: offset_def)
  have "slot 0x600000 i \<noteq> slot 0x601000 0" by (rule slot_ne [OF o]) (use assms in simp_all)
  moreover have "slot 0x600000 i = slot 0x600000 512 \<longleftrightarrow> i = 512"
    by (rule slot_inj [OF o(1) assms]) simp
  ultimately show ?thesis by (simp add: page_space_def)
qed

lemma page_space_inv: "pd_inv 0x600000 page_space [] 0x600000"
proof -
  have "pool_inv 0x600000 page_space []"
    by (simp add: pool_inv_def page_space_def offset_def)
  moreover have "0x600000 \<in> in_use 0x600000 page_space []" "0x601000 \<in> in_use 0x600000 page_space []"
    by (simp_all add: in_use_def page_space_def offset_def)
  moreover have "table_of 0x601007 = 0x601000" by (simp add: table_of_def)
  ultimately show ?thesis
    unfolding pd_inv_def by (auto simp: page_space_dir split: if_splits)
qed

lemma page_space_leaf:
  "0x602000 \<in> in_use 0x600000 page_space []"
  "translate (mem page_space) 0x600000 0x80000000 = Some 0x602000"
proof -
  show "0x602000 \<in> in_use 0x600000 page_space []"
    by (simp add: in_use_def page_space_def offset_def)
  have i: "pdi_of 0x80000000 = 512" "pti_of 0x80000000 = 0" by (simp_all add: pdi_of_def pti_of_def)
  have t: "table_of 0x601007 = 0x601000" "present 0x601007" "table_of 0x602007 = 0x602000"
    "present 0x602007" "offset 0x80000000 = 0"
    by (simp_all add: table_of_def present_def offset_def)
  have "mem page_space (slot 0x601000 0) = 0x602007"
    by (simp add: page_space_def slot_def)
  then show "translate (mem page_space) 0x600000 0x80000000 = Some 0x602000"
    by (simp add: translate_eq i page_space_dir t Let_def)
qed

section \<open>Properties\<close>

text \<open>
  \<open>map(pd,va,pa)\<close> for a frame-aligned \<open>pa\<close>, with a frame left when a table is
  missing: afterwards every address of the page of \<open>va\<close> translates to the same offset of
  \<open>pa\<close>, every other address translates as before, at most one frame (the table \<open>t\<close>) has come
  into use, and nothing but the directory and that table was written.
\<close>

theorem map_translates:
  assumes "pd_inv start s fl pd" and "offset pa = 0" and "0 < free_frames s fl"
  shows "\<exists>s' fl' t. map_page pd va pa s = Inr s' \<and> pd_inv start s' fl' pd \<and>
    in_use start s' fl' = insert t (in_use start s fl) \<and>
    (\<forall>vb. translate (mem s') pd vb =
       (if ppn vb = ppn va then Some (pa OR offset vb) else translate (mem s) pd vb)) \<and>
    (\<forall>a. mem s' a = mem s a \<or> in_frame pd a \<or> in_frame t a)"
proof -
  have room: "present (mem s (slot pd (pdi_of va))) \<or> fl \<noteq> [] \<or> p_avail s \<noteq> p_limit s"
    using free_frames_some [OF assms(3)] by simp
  obtain s' fl' t where "map_page pd va pa s = Inr s'" "pd_inv start s' fl' pd"
    "in_use start s' fl' = insert t (in_use start s fl)"
    "\<And>vb. translate (mem s') pd vb =
       (if ppn vb = ppn va then Some (pa OR offset vb) else translate (mem s) pd vb)"
    "\<And>a. \<not> in_frame pd a \<Longrightarrow> \<not> in_frame t a \<Longrightarrow> mem s' a = mem s a"
    by (rule map_page_spec [OF assms(1,2) room]) blast
  then show ?thesis by blast
qed

lemma map_translates_witness:
  "\<exists>s' fl' t. map_page 0x600000 0x80003000 0x700000 empty_space = Inr s' \<and>
    pd_inv 0x600000 s' fl' 0x600000 \<and>
    in_use 0x600000 s' fl' = insert t (in_use 0x600000 empty_space []) \<and>
    (\<forall>vb. translate (mem s') 0x600000 vb = (if ppn vb = ppn 0x80003000 then Some (0x700000 OR offset vb)
       else translate (mem empty_space) 0x600000 vb)) \<and>
    (\<forall>a. mem s' a = mem empty_space a \<or> in_frame 0x600000 a \<or> in_frame t a)"
  by (rule map_translates [OF empty_space_inv(1)]) (simp_all add: offset_def empty_space_inv(2))

text \<open>
  \<open>unmap(pd,va)\<close>.  When a frame of the process that is neither the directory nor one of its tables is mapped there, that
  frame goes back to the pool, the page does not translate any more, and every other address
  translates as before.
\<close>

theorem unmap_removes:
  assumes inv: "pd_inv start s fl pd" and tr: "translate (mem s) pd va = Some pa"
    and p: "p = framedown pa" and own: "p \<in> in_use start s fl" "p \<notin> insert pd (tables (mem s) pd {i. uint i < 1024})"
  shows "\<exists>s'. unmap_page pd va s = Inr s' \<and> pd_inv start s' (p # fl) pd \<and>
    in_use start s' (p # fl) = in_use start s fl - {p} \<and>
    (\<forall>vb. translate (mem s') pd vb = (if ppn vb = ppn va then None else translate (mem s) pd vb))"
proof -
  let ?pte = "mem s (slot (table_of (mem s (slot pd (pdi_of va)))) (pti_of va))"
  have "pa = table_of ?pte OR offset va"
    using tr by (auto simp: translate_eq Let_def split: if_splits)
  then have "table_of pa = table_of ?pte"
    unfolding table_of_def offset_def mask_split by (simp add: bit.conj_disj_distrib2 and.assoc)
  moreover have "table_of pa = framedown pa"
    using ppn_framedown [OF table_of_offset, of pa pa] table_of_ppn [of pa] table_of_ppn [of "table_of pa"]
      page_base [OF table_of_offset, of pa] same_page_or [OF table_of_offset, of pa pa]
    by (metis framedown_offset page_base ppn_framedown_same table_of_def table_of_ppn)
  ultimately have p': "p = table_of ?pte" using p by simp
  have leaf: "\<And>i. uint i < 1024 \<Longrightarrow> present (mem s (slot pd i)) \<Longrightarrow> table_of (mem s (slot pd i)) \<noteq> p"
    using own(2) by (auto simp: tables_def)
  have "p \<noteq> pd" using own(2) by simp
  then obtain s' where "unmap_page pd va s = Inr s'" "pd_inv start s' (p # fl) pd"
    "in_use start s' (p # fl) = in_use start s fl - {p}"
    "\<And>vb. translate (mem s') pd vb = (if ppn vb = ppn va then None else translate (mem s) pd vb)"
    using unmap_page_spec [OF inv tr p' own(1) _ leaf] by blast
  then show ?thesis by blast
qed

lemma unmap_removes_witness:
  "\<exists>s'. unmap_page 0x600000 0x80000000 page_space = Inr s' \<and> pd_inv 0x600000 s' [0x602000] 0x600000 \<and>
    in_use 0x600000 s' [0x602000] = in_use 0x600000 page_space [] - {0x602000} \<and>
    (\<forall>vb. translate (mem s') 0x600000 vb =
       (if ppn vb = ppn 0x80000000 then None else translate (mem page_space) 0x600000 vb))"
proof (rule unmap_removes [OF page_space_inv page_space_leaf(2) _ page_space_leaf(1)])
  show "0x602000 = framedown 0x602000" by (simp add: framedown_def)
  have "table_of 0x601007 = 0x601000" by (simp add: table_of_def)
  then show "0x602000 \<notin> insert 0x600000 (tables (mem page_space) 0x600000 {i. uint i < 1024})"
    by (auto simp: tables_def page_space_dir split: if_splits)
qed

text \<open>
  C8.  A page fault at an address of the user half, in the thread whose directory is loaded and
  with two frames left: the handler maps a fresh frame filled with zeros there, changes the
  translation of no other page, and frees nothing.
\<close>

theorem pageFault_maps_zero_page:
  assumes "pd_inv start s fl pd" and "2 \<le> free_frames s fl" and "0x80000000 \<le> uint fa"
  shows "\<exists>s' fl' p. vmm_pageFault pd pd pd fa s = Inr s' \<and> pd_inv start s' fl' pd \<and>
    p \<notin> in_use start s fl \<and> in_use start s fl \<subseteq> in_use start s' fl' \<and>
    (\<forall>a. in_frame p a \<longrightarrow> mem s' a = 0) \<and>
    (\<forall>vb. translate (mem s') pd vb =
       (if ppn vb = ppn fa then Some (p OR offset vb) else translate (mem s) pd vb))"
proof -
  obtain s' fl' p where "vmm_pageFault pd pd pd fa s = Inr s'" "pd_inv start s' fl' pd"
    "p \<notin> in_use start s fl" "in_use start s fl \<subseteq> in_use start s' fl'"
    "\<And>a. in_frame p a \<Longrightarrow> mem s' a = 0"
    "\<And>vb. translate (mem s') pd vb =
       (if ppn vb = ppn fa then Some (p OR offset vb) else translate (mem s) pd vb)"
    by (rule pageFault_spec [OF assms]) blast
  then show ?thesis by blast
qed

lemma pageFault_maps_zero_page_witness:
  "\<exists>s' fl' p. vmm_pageFault 0x600000 0x600000 0x600000 0x80001234 empty_space = Inr s' \<and>
    pd_inv 0x600000 s' fl' 0x600000 \<and>
    p \<notin> in_use 0x600000 empty_space [] \<and> in_use 0x600000 empty_space [] \<subseteq> in_use 0x600000 s' fl' \<and>
    (\<forall>a. in_frame p a \<longrightarrow> mem s' a = 0) \<and>
    (\<forall>vb. translate (mem s') 0x600000 vb = (if ppn vb = ppn 0x80001234 then Some (p OR offset vb)
       else translate (mem empty_space) 0x600000 vb))"
  by (rule pageFault_maps_zero_page [OF empty_space_inv(1)]) (simp_all add: empty_space_inv(2))

text \<open>
  \<open>global_init\<close> with enough frames for the directory and one table per 4 MB: it
  returns, and the directory it leaves in \<open>shared\<close> maps every address from 4096 up to the end
  of the last page that starts below \<open>memSize\<close> to itself and nothing else; in particular the
  null page faults.
\<close>

theorem global_init_identity:
  assumes "pool_inv start s fl" and "uint (memSize c) \<le> 0xFFFFF000"
    and "1 + nat ((uint (memSize c) + 4194303) div 4194304) \<le> free_frames s fl"
  shows "\<exists>sh s' fl'. global_init c s = Some (Inr (sh, s')) \<and> pd_inv start s' fl' sh \<and>
    (\<forall>vb. translate (mem s') sh vb =
       (if 4096 \<le> uint vb \<and> uint (framedown vb) < uint (memSize c) then Some vb else None))"
proof -
  obtain sh s' fl' where "global_init c s = Some (Inr (sh, s'))" "pd_inv start s' fl' sh"
    "\<And>vb. translate (mem s') sh vb =
       (if 4096 \<le> uint vb \<and> uint (framedown vb) < uint (memSize c) then Some vb else None)"
    by (rule global_init_spec [OF assms]) blast
  then show ?thesis by blast
qed

lemma global_init_identity_witness:
  "\<exists>sh s' fl'. global_init (config_boot\<lparr>memSize := 0x800000\<rparr>) demo_pool = Some (Inr (sh, s')) \<and>
    pd_inv 0x600000 s' fl' sh \<and>
    (\<forall>vb. translate (mem s') sh vb =
       (if 4096 \<le> uint vb \<and> uint (framedown vb) < uint (memSize (config_boot\<lparr>memSize := 0x800000\<rparr>))
        then Some vb else None))"
  by (rule global_init_identity [OF demo_pool_inv(1)])
     (simp_all add: free_frames_def demo_pool_def phys_boot_def)

text \<open>
  \<open>make_pd\<close> with three frames left, the interrupt controllers above the shared part:
  the new directory, in a fresh frame, maps the pages of the two interrupt controllers to
  themselves, translates the shared part as the shared directory does and nothing else.
\<close>

theorem make_pd_shares_kernel:
  assumes "pd_inv start s fl sh" and "3 \<le> free_frames s fl"
    and "offset (ioAPIC c) = 0" and "int (shared_words c) \<le> uint (pdi_of (ioAPIC c))"
    and "offset (localAPIC c) = 0" and "int (shared_words c) \<le> uint (pdi_of (localAPIC c))"
  shows "\<exists>pd s' fl'. make_pd c sh s = Inr (pd, s') \<and> pd_inv start s' fl' pd \<and>
    pd \<notin> in_use start s fl \<and> in_use start s fl \<subseteq> in_use start s' fl' \<and>
    (\<forall>vb. translate (mem s') pd vb =
       (if ppn vb = ppn (localAPIC c) \<or> ppn vb = ppn (ioAPIC c) then Some vb
        else if uint (pdi_of vb) < int (shared_words c) then translate (mem s) sh vb else None))"
proof -
  obtain pd s' fl' where "make_pd c sh s = Inr (pd, s')" "pd_inv start s' fl' pd"
    "pd \<notin> in_use start s fl" "in_use start s fl \<subseteq> in_use start s' fl'"
    "\<And>vb. translate (mem s') pd vb =
       (if ppn vb = ppn (localAPIC c) \<or> ppn vb = ppn (ioAPIC c) then Some vb
        else if uint (pdi_of vb) < int (shared_words c) then translate (mem s) sh vb else None)"
    by (rule make_pd_spec [OF assms]) blast
  then show ?thesis by blast
qed

definition demo_config :: config where
  "demo_config = config_boot\<lparr>memSize := 0x8000000, ioAPIC := 0xFEC00000, localAPIC := 0xFEE00000\<rparr>"

lemma make_pd_shares_kernel_witness:
  "\<exists>pd s' fl'. make_pd demo_config 0x600000 empty_space = Inr (pd, s') \<and> pd_inv 0x600000 s' fl' pd \<and>
    pd \<notin> in_use 0x600000 empty_space [] \<and>
    in_use 0x600000 empty_space [] \<subseteq> in_use 0x600000 s' fl' \<and>
    (\<forall>vb. translate (mem s') pd vb =
       (if ppn vb = ppn (localAPIC demo_config) \<or> ppn vb = ppn (ioAPIC demo_config) then Some vb
        else if uint (pdi_of vb) < int (shared_words demo_config)
        then translate (mem empty_space) 0x600000 vb else None))"
  by (rule make_pd_shares_kernel [OF empty_space_inv(1)])
     (simp_all add: empty_space_inv(2) demo_config_def offset_def shared_words_def pdi_of_def)

text \<open>
  \<open>delete_pd\<close> gives back the directory and the tables of its upper half, and nothing
  else: every frame that is mapped in the user half and is not itself such a table stays in use for
  ever.
\<close>

theorem delete_pd_leaks_pages:
  assumes "pd_inv start s fl pd"
  shows "\<exists>s' fl'. delete_pd pd s = Inr s' \<and> pool_inv start s' fl' \<and>
    in_use start s' fl' = in_use start s fl - insert pd (tables (mem s) pd upper_entries)"
proof -
  obtain s' fl' where "delete_pd pd s = Inr s'" "pool_inv start s' fl'"
    "in_use start s' fl' = in_use start s fl - insert pd (tables (mem s) pd upper_entries)"
    by (rule delete_pd_spec [OF assms])
  then show ?thesis by blast
qed

lemma delete_pd_leaks_pages_witness:
  "\<exists>s' fl'. delete_pd 0x600000 page_space = Inr s' \<and> pool_inv 0x600000 s' fl' \<and>
    0x602000 \<in> in_use 0x600000 s' fl' \<and>
    translate (mem page_space) 0x600000 0x80000000 = Some 0x602000"
proof -
  have "table_of 0x601007 = 0x601000" by (simp add: table_of_def)
  then have "0x602000 \<notin> tables (mem page_space) 0x600000 upper_entries"
    by (auto simp: tables_def upper_entries_def page_space_dir split: if_splits)
  then have "0x602000 \<in> in_use 0x600000 page_space [] -
      insert 0x600000 (tables (mem page_space) 0x600000 upper_entries)"
    using page_space_leaf(1) by simp
  then show ?thesis using delete_pd_leaks_pages [OF page_space_inv] page_space_leaf(2) by metis
qed

end
