(* ===== verification/Lib_K.thy ===== *)
theory Lib_K
  imports Prelude
begin

text \<open>
  The string helpers of \<open>kernel/libk.cc\<close> and \<open>kernel/libk.h\<close>.  A C string is byte memory
  from its first character on, indexed by offset; \<open>cstr\<close> is the memory that holds a list of
  bytes followed by zeros.  A string without an end makes the loops run on for ever, so they are
  partial functions.
\<close>

type_synonym cmem = "nat \<Rightarrow> u8"

definition cstr :: "u8 list \<Rightarrow> cmem" where
  "cstr bs = (\<lambda>i. if i < length bs then bs ! i else 0)"

partial_function (option) strlen_from :: "cmem \<Rightarrow> nat \<Rightarrow> nat option" where
  "strlen_from str n = (if str n \<noteq> 0 then strlen_from str (n + 1) else Some n)"

declare strlen_from.simps [code]

definition k_strlen :: "cmem \<Rightarrow> nat option" where
  "k_strlen str = strlen_from str 0"

definition k_isdigit :: "int \<Rightarrow> bool" where
  "k_isdigit c = (c \<ge> 48 \<and> c \<le> 57)"

partial_function (option) streq_from :: "cmem \<Rightarrow> cmem \<Rightarrow> nat \<Rightarrow> bool option" where
  "streq_from a b i =
     (let x = a i; y = b i in
      if x \<noteq> y then Some False
      else if x = 0 then Some True
      else streq_from a b (i + 1))"

declare streq_from.simps [code]

definition k_streq :: "cmem \<Rightarrow> cmem \<Rightarrow> bool option" where
  "k_streq a b = streq_from a b 0"

definition k_min :: "u32 \<Rightarrow> u32 \<Rightarrow> u32" where
  "k_min a b = (if a < b then a else b)"

lemma k_min_uint: "uint (k_min a b) = min (uint a) (uint b)"
  by (simp add: k_min_def word_less_def)

text \<open>The characters of a string are those before its first zero.\<close>

definition chars :: "u8 list \<Rightarrow> u8 list" where
  "chars bs = takeWhile (\<lambda>c. c \<noteq> 0) bs"

lemma cstr_Cons [simp]: "cstr (c # bs) 0 = c" "cstr (c # bs) (Suc i) = cstr bs i"
  by (simp_all add: cstr_def)

lemma cstr_Nil [simp]: "cstr [] i = 0"
  by (simp add: cstr_def)

lemma strlen_from_shift:
  "(\<And>i. str (n + i) = cstr bs i) \<Longrightarrow> strlen_from str n = Some (n + length (chars bs))"
proof (induction bs arbitrary: n)
  case Nil
  then have "str n = 0" using Nil [of 0] by simp
  then show ?case by (subst strlen_from.simps) (simp add: chars_def)
next
  case (Cons c bs)
  have c: "str n = c" using Cons.prems [of 0] by simp
  show ?case
  proof (cases "c = 0")
    case True
    then show ?thesis using c by (subst strlen_from.simps) (simp add: chars_def)
  next
    case False
    have "strlen_from str (Suc n) = Some (Suc n + length (chars bs))"
      by (rule Cons.IH) (use Cons.prems [of "Suc i" for i] in simp)
    then show ?thesis using c False by (subst strlen_from.simps) (simp add: chars_def)
  qed
qed

lemma k_strlen_cstr: "k_strlen (cstr bs) = Some (length (chars bs))"
  unfolding k_strlen_def using strlen_from_shift [of "cstr bs" 0 bs] by simp

lemma streq_from_shift:
  "(\<And>i. a (n + i) = cstr as i) \<Longrightarrow> (\<And>i. b (n + i) = cstr bs i) \<Longrightarrow>
   streq_from a b n = Some (chars as = chars bs)"
proof (induction as arbitrary: n bs)
  case Nil
  then have a: "a n = 0" using Nil(1) [of 0] by simp
  show ?case
  proof (cases bs)
    case Nil
    then have "b n = 0" using Nil.prems(2) [of 0] by simp
    then show ?thesis using a Nil by (subst streq_from.simps) (simp add: chars_def)
  next
    case (Cons d ds)
    then have "b n = d" using Nil.prems(2) [of 0] by simp
    then show ?thesis using a Cons by (subst streq_from.simps) (simp add: chars_def)
  qed
next
  case (Cons c as)
  have a: "a n = c" using Cons.prems(1) [of 0] by simp
  show ?case
  proof (cases bs)
    case Nil
    then have "b n = 0" using Cons.prems(2) [of 0] by simp
    then show ?thesis using a Nil by (subst streq_from.simps) (simp add: chars_def)
  next
    case (Cons d ds)
    then have b: "b n = d" using Cons.prems(2) [of 0] by simp
    have "streq_from a b (Suc n) = Some (chars as = chars ds)"
    proof (rule Cons.IH)
      show "a (Suc n + i) = cstr as i" for i using Cons.prems(1) [of "Suc i"] by simp
      show "b (Suc n + i) = cstr ds i" for i using Cons.prems(2) [of "Suc i"] Cons by simp
    qed
    then show ?thesis using a b Cons by (subst streq_from.simps) (simp add: chars_def)
  qed
qed

text \<open>
  \<open>streq\<close> of two terminated strings returns, and says whether they have the same
  characters before their ends; whatever follows the first zero does not matter.
\<close>

theorem streq_correct: "k_streq (cstr as) (cstr bs) = Some (chars as = chars bs)"
  unfolding k_streq_def using streq_from_shift [of "cstr as" 0 as "cstr bs" bs] by simp

end
