(* ===== verification/Block_IO.thy ===== *)
theory Block_IO
  imports Lib_K
begin

text \<open>
  Byte access on top of blocks, \<open>kernel/block_io.h\<close> and \<open>kernel/block_io.cc\<close>.  A
  device is its block size, its size in bytes and its \<open>read_block\<close>; what an operation puts into
  the caller's buffer is returned as a list of bytes.  Counts are the code's \<open>int64_t\<close> values;
  offsets and sizes stay 32 bit words, so that \<open>sz - offset\<close> and \<open>offset + n\<close> wrap as
  they do in the code.

  The interface \<open>block_device\<close> is what the comment of the class promises its subclasses' callers;
  the disk and the files of the file system are instances.
\<close>

section \<open>Operations\<close>

type_synonym reader = "u32 \<Rightarrow> u8 list res option"

definition size_in_blocks :: "u32 \<Rightarrow> u32 \<Rightarrow> u32" where
  "size_in_blocks block_size size_bytes = (size_bytes + block_size - 1) div block_size"

definition bread :: "u32 \<Rightarrow> u32 \<Rightarrow> reader \<Rightarrow> u32 \<Rightarrow> u32 \<Rightarrow> (int \<times> u8 list) res option" where
  "bread block_size sz read_block offset desired_n =
     (if sz < offset then Some (Inr (-1, []))
      else if offset = sz then Some (Inr (0, []))
      else if block_size = 0 then Some (Inl DivByZero)
      else
        let n = k_min desired_n (sz - offset);
            block_number = offset div block_size;
            offset_in_block = offset mod block_size;
            actual_n = k_min (block_size - offset_in_block) n
        in obind (Some (assert_that (actual_n \<le> n))) (\<lambda>_.
           obind (Some (assert_that (offset + actual_n \<le> sz))) (\<lambda>_.
           if actual_n = block_size then
             obind (Some (assert_that (offset_in_block = 0))) (\<lambda>_.
             obind (read_block block_number) (\<lambda>buffer. Some (Inr (uint actual_n, buffer))))
           else
             obind (Some (assert_that (offset_in_block + actual_n \<le> block_size))) (\<lambda>_.
             obind (read_block block_number) (\<lambda>temp.
               Some (Inr (uint actual_n, take (unat actual_n) (drop (unat offset_in_block) temp))))))))"

text \<open>The loop of \<open>read_all\<close>: \<open>tot\<close> and \<open>buf\<close> are the count and the bytes so
  far.\<close>

partial_function (option) bread_loop ::
    "u32 \<Rightarrow> u32 \<Rightarrow> reader \<Rightarrow> u32 \<Rightarrow> u32 \<Rightarrow> int \<Rightarrow> u8 list \<Rightarrow> (int \<times> u8 list) res option" where
  "bread_loop block_size sz read_block offset n tot buf =
     (if 0 < n then
        (case bread block_size sz read_block offset n of
           None \<Rightarrow> None
         | Some (Inl e) \<Rightarrow> Some (Inl e)
         | Some (Inr (cnt, bytes)) \<Rightarrow>
             if cnt < 0 then Some (Inr (cnt, buf))
             else if cnt = 0 then Some (Inr (tot, buf))
             else bread_loop block_size sz read_block (offset + of_int cnt) (n - of_int cnt)
                    (tot + cnt) (buf @ bytes))
      else Some (Inr (tot, buf)))"

declare bread_loop.simps [code]

definition bread_all :: "u32 \<Rightarrow> u32 \<Rightarrow> reader \<Rightarrow> u32 \<Rightarrow> u32 \<Rightarrow> (int \<times> u8 list) res option" where
  "bread_all block_size sz read_block offset n = bread_loop block_size sz read_block offset n 0 []"

text \<open>The template \<open>read(offset, thing)\<close>: all bytes of the thing or a failed assertion.\<close>

definition bread_thing :: "u32 \<Rightarrow> u32 \<Rightarrow> reader \<Rightarrow> u32 \<Rightarrow> nat \<Rightarrow> u8 list res option" where
  "bread_thing block_size sz read_block offset sizeof_T =
     obind (bread_all block_size sz read_block offset (of_nat sizeof_T)) (\<lambda>(cnt, bytes).
     obind (Some (assert_that (cnt = int sizeof_T))) (\<lambda>_. Some (Inr bytes)))"

section \<open>The interface of a block device\<close>

text \<open>\<open>content i\<close> is byte \<open>i\<close> of the device; \<open>readable\<close> tells the blocks whose
  \<open>read_block\<close> works.\<close>

locale block_device =
  fixes block_size :: u32 and sz :: u32 and read_block :: reader
    and content :: "nat \<Rightarrow> u8" and readable :: "nat \<Rightarrow> bool"
  assumes block_size_pos: "readable (unat bn) \<Longrightarrow> 0 < uint block_size"
    and read_block_ok: "readable (unat bn) \<Longrightarrow> \<exists>bs. read_block bn = Some (Inr bs) \<and>
      bs = map (\<lambda>i. content (unat bn * unat block_size + i)) [0..<unat block_size]"
begin

text \<open>One call of \<open>read\<close>: what is left of the block, the request or the device, whichever is
  least.\<close>

lemma bread_step:
  assumes off: "uint offset < uint sz" and n: "0 < uint n"
    and rd: "readable (unat offset div unat block_size)"
  shows "\<exists>k. 0 < k \<and> k \<le> unat n \<and> k \<le> unat sz - unat offset \<and>
    k = min (unat block_size - unat offset mod unat block_size) (min (unat n) (unat sz - unat offset)) \<and>
    bread block_size sz read_block offset n =
      Some (Inr (int k, map content [unat offset..<unat offset + k]))"
proof -
  let ?bs = "unat block_size" and ?o = "unat offset"
  have rd': "readable (unat (offset div block_size))" using rd by (simp add: unat_div)
  have bs0: "0 < ?bs" using block_size_pos [OF rd'] by (simp only: uint_unat)
  have osz: "?o < unat sz" using off by (simp only: uint_unat)
  have n0: "0 < unat n" using n by (simp only: uint_unat)
  define r where "r = ?o mod ?bs"
  have r: "r < ?bs" using bs0 by (simp add: r_def)
  have oib: "unat (offset mod block_size) = r" by (simp add: unat_mod r_def)
  have bn: "unat (offset div block_size) = ?o div ?bs" by (simp add: unat_div)
  have sub1: "unat (sz - offset) = unat sz - ?o"
    using osz by (subst unat_sub) (simp_all add: word_le_nat_alt)
  have sub2: "unat (block_size - offset mod block_size) = ?bs - r"
    using r oib by (subst unat_sub) (simp_all add: word_le_nat_alt)
  define m where "m = k_min n (sz - offset)"
  have m: "unat m = min (unat n) (unat sz - ?o)"
    by (simp add: m_def k_min_def word_less_nat_alt sub1 min_def)
  define a where "a = k_min (block_size - offset mod block_size) m"
  have a: "unat a = min (?bs - r) (unat m)"
    by (simp add: a_def k_min_def word_less_nat_alt sub2 min_def)
  have a0: "0 < unat a" using a m r osz n0 by simp
  have am: "a \<le> m" by (simp add: word_le_nat_alt a)
  have "?o + unat a \<le> unat sz" using a m osz by linarith
  moreover have "unat sz < 2 ^ 32" using unat_u32_less [of sz] by simp
  ultimately have sum: "unat (offset + a) = ?o + unat a" by (subst unat_add_lem [THEN iffD1]) simp_all
  then have as: "offset + a \<le> sz" using \<open>?o + unat a \<le> unat sz\<close> by (simp add: word_le_nat_alt)
  have "r + unat a \<le> ?bs" using a r by simp
  moreover have "?bs < 2 ^ 32" using unat_u32_less [of block_size] by simp
  ultimately have sum2: "unat (offset mod block_size + a) = r + unat a"
    using oib by (subst unat_add_lem [THEN iffD1]) simp_all
  then have ab: "offset mod block_size + a \<le> block_size"
    using \<open>r + unat a \<le> ?bs\<close> by (simp add: word_le_nat_alt)
  obtain bytes where rb: "read_block (offset div block_size) = Some (Inr bytes)"
    "bytes = map (\<lambda>i. content (?o div ?bs * ?bs + i)) [0..<?bs]"
    using read_block_ok [of "offset div block_size"] rd by (auto simp: bn)
  have ne: "\<not> sz < offset" "offset \<noteq> sz" using osz by (auto simp: word_less_nat_alt)
  have bsn: "block_size \<noteq> 0" using bs0 by auto
  have base: "?o div ?bs * ?bs + r = ?o" by (simp add: r_def)
  have part: "take (unat a) (drop r bytes) = map content [?o..<?o + unat a]"
  proof (rule nth_equalityI)
    show len: "length (take (unat a) (drop r bytes)) = length (map content [?o..<?o + unat a])"
      using rb(2) \<open>r + unat a \<le> ?bs\<close> by simp
    fix i assume "i < length (take (unat a) (drop r bytes))"
    then have i: "i < unat a" "r + i < ?bs" using rb(2) \<open>r + unat a \<le> ?bs\<close> by auto
    then have "take (unat a) (drop r bytes) ! i = content (?o div ?bs * ?bs + (r + i))"
      using rb(2) by simp
    also have "\<dots> = content (?o + i)" using base by (simp add: add.assoc [symmetric])
    finally show "take (unat a) (drop r bytes) ! i = map content [?o..<?o + unat a] ! i"
      using i by simp
  qed
  have "bread block_size sz read_block offset n =
      Some (Inr (int (unat a), map content [?o..<?o + unat a]))"
  proof (cases "a = block_size")
    case True
    then have "unat a = ?bs" by simp
    then have r0: "r = 0" using a r by simp
    then have "offset mod block_size = 0" using oib by (simp add: unat_eq_zero)
    moreover have "bytes = map content [?o..<?o + unat a]"
      using part r0 \<open>unat a = ?bs\<close> rb(2) by simp
    ultimately show ?thesis
      using ne bsn am as rb(1) True unfolding bread_def Let_def m_def [symmetric] a_def [symmetric]
      by simp
  next
    case False
    then show ?thesis
      using ne bsn am as ab rb(1) part oib
      unfolding bread_def Let_def m_def [symmetric] a_def [symmetric] by simp
  qed
  moreover have "unat a = min (?bs - ?o mod ?bs) (min (unat n) (unat sz - ?o))"
    using a m by (simp add: r_def)
  moreover have "unat a \<le> unat n" "unat a \<le> unat sz - ?o" using a m by linarith+
  ultimately show ?thesis using a0 by blast
qed

lemma bread_loop_exact:
  assumes "uint offset \<le> uint sz"
    and "\<And>i. unat offset \<le> i \<Longrightarrow> i < unat offset + min (unat n) (unat sz - unat offset) \<Longrightarrow>
      readable (i div unat block_size)"
  shows "bread_loop block_size sz read_block offset n tot buf =
    Some (Inr (tot + int (min (unat n) (unat sz - unat offset)),
      buf @ map content [unat offset..<unat offset + min (unat n) (unat sz - unat offset)]))"
  using assms
proof (induction "unat n" arbitrary: n offset tot buf rule: less_induct)
  case less
  have osz: "unat offset \<le> unat sz" using less.prems(1) by (simp only: uint_unat)
  show ?case
  proof (cases "n = 0 \<or> offset = sz")
    case True
    then show ?thesis
      by (subst bread_loop.simps) (auto simp: bread_def word_gt_0)
  next
    case False
    have n0: "0 < unat n" using False by (simp add: unat_gt_0)
    have "unat offset \<noteq> unat sz" using False unat_eqD [of offset sz] by blast
    then have lt: "unat offset < unat sz" using osz by simp
    have rd: "readable (unat offset div unat block_size)"
      by (rule less.prems(2)) (use n0 lt in auto)
    obtain k where k: "0 < k" "k \<le> unat n" "k \<le> unat sz - unat offset"
      "bread block_size sz read_block offset n =
        Some (Inr (int k, map content [unat offset..<unat offset + k]))"
      using bread_step [of offset n] lt n0 rd unfolding uint_unat by auto
    have kw: "unat (of_nat k :: u32) = k"
      using k(2) unat_u32_less [of n] by (intro unat_of_nat_u32) simp
    have szb: "unat sz < 2 ^ 32" using unat_u32_less [of sz] by simp
    have o': "unat (offset + of_nat k) = unat offset + k"
      using k(3) lt szb kw by (subst unat_add_lem [THEN iffD1]) simp_all
    have n': "unat (n - of_nat k) = unat n - k"
      using k(2) kw by (subst unat_sub) (simp_all add: word_le_nat_alt)
    have le': "uint (offset + of_nat k) \<le> uint sz" unfolding uint_unat o' using k(3) lt by simp
    have min': "min (unat n - k) (unat sz - (unat offset + k)) = min (unat n) (unat sz - unat offset) - k"
      using k by simp
    have km: "k \<le> min (unat n) (unat sz - unat offset)" using k(2,3) by simp
    have rd': "\<And>i. unat offset + k \<le> i \<Longrightarrow>
        i < unat offset + k + (min (unat n) (unat sz - unat offset) - k) \<Longrightarrow> readable (i div unat block_size)"
      using km by (intro less.prems(2)) auto
    have lt': "unat (n - of_nat k) < unat n" using n' k(1) n0 by simp
    have "bread_loop block_size sz read_block offset n tot buf =
        bread_loop block_size sz read_block (offset + of_nat k) (n - of_nat k) (tot + int k)
          (buf @ map content [unat offset..<unat offset + k])"
      using False k(1,4) by (subst bread_loop.simps) (simp add: word_gt_0)
    also have "\<dots> = Some (Inr (tot + int k + int (min (unat n) (unat sz - unat offset) - k),
        (buf @ map content [unat offset..<unat offset + k]) @
        map content [unat offset + k..<unat offset + k + (min (unat n) (unat sz - unat offset) - k)]))"
      using less.hyps [OF lt' le', unfolded n' o' min', OF rd'] .
    also have "\<dots> = Some (Inr (tot + int (min (unat n) (unat sz - unat offset)),
      buf @ map content [unat offset..<unat offset + min (unat n) (unat sz - unat offset)]))"
    proof -
      have "[unat offset..<unat offset + k] @
          [unat offset + k..<unat offset + k + (min (unat n) (unat sz - unat offset) - k)] =
          [unat offset..<unat offset + min (unat n) (unat sz - unat offset)]"
        using upt_add_eq_append [of "unat offset" "unat offset + k"
            "min (unat n) (unat sz - unat offset) - k"] km by simp
      then show ?thesis using km by (simp flip: map_append)
    qed
    finally show ?thesis .
  qed
qed

lemma bread_all_exact:
  assumes "uint offset \<le> uint sz"
    and "\<And>i. unat offset \<le> i \<Longrightarrow> i < unat offset + min (unat n) (unat sz - unat offset) \<Longrightarrow>
      readable (i div unat block_size)"
  shows "bread_all block_size sz read_block offset n =
    Some (Inr (int (min (unat n) (unat sz - unat offset)),
      map content [unat offset..<unat offset + min (unat n) (unat sz - unat offset)]))"
  unfolding bread_all_def using bread_loop_exact [OF assms, where tot = 0 and buf = "[]"] by simp

lemma bread_all_beyond:
  assumes "uint sz < uint offset" "0 < uint n"
  shows "bread_all block_size sz read_block offset n = Some (Inr (-1, []))"
  using assms unfolding bread_all_def
  by (subst bread_loop.simps) (simp add: bread_def word_less_def)

lemma bread_thing_exact:
  assumes "unat offset + k \<le> unat sz"
    and "\<And>i. unat offset \<le> i \<Longrightarrow> i < unat offset + k \<Longrightarrow> readable (i div unat block_size)"
  shows "bread_thing block_size sz read_block offset k =
    Some (Inr (map content [unat offset..<unat offset + k]))"
proof -
  have k: "unat (of_nat k :: u32) = k"
    using assms(1) unat_u32_less [of sz] by (intro unat_of_nat_u32) simp
  have m: "min k (unat sz - unat offset) = k" using assms(1) by simp
  have "uint offset \<le> uint sz" using assms(1) unfolding uint_unat by simp
  from bread_all_exact [OF this, of "of_nat k"] show ?thesis
    using assms(2) unfolding k m by (simp add: bread_thing_def)
qed

end

end
