(* ===== verification/Ide.thy ===== *)
theory Ide
  imports Block_IO Bytes
begin

text \<open>
  The disk driver of \<open>kernel/ide.h\<close> and \<open>kernel/ide.cc\<close>: programmed I/O on the
  registers of an IDE controller.  The controller is not code of the kernel: the port instructions
  (\<open>kernel/machine.S\<close>) are a parameter, a \<open>bus\<close> of functions on an unknown state \<open>'w\<close>
  of the hardware, and \<open>ata_contract\<close> is what the ATA standard says of a drive that answers
  a read command.  The polling loops may run for ever, so they are partial functions.
\<close>

section \<open>Ports and status\<close>

record 'w bus =
  p_inb :: "int \<Rightarrow> 'w \<Rightarrow> u8 \<times> 'w"
  p_inl :: "int \<Rightarrow> 'w \<Rightarrow> u32 \<times> 'w"
  p_outb :: "int \<Rightarrow> u32 \<Rightarrow> 'w \<Rightarrow> 'w"

definition controller :: "u32 \<Rightarrow> nat" where
  "controller drive = unat (drop_bit 1 drive AND 1)"

definition channel :: "u32 \<Rightarrow> u32" where
  "channel drive = drive AND 1"

definition ide_ports :: "int list" where
  "ide_ports = [0x1f0, 0x170]"

definition port :: "u32 \<Rightarrow> int" where
  "port drive = ide_ports ! controller drive"

definition getStatus :: "'w bus \<Rightarrow> u32 \<Rightarrow> 'w \<Rightarrow> u8 \<times> 'w" where
  "getStatus b drive w = p_inb b (port drive + 7) w"

definition ERR :: u8 where "ERR = 0x01"
definition DRQ :: u8 where "DRQ = 0x08"
definition DF :: u8 where "DF = 0x20"
definition DRDY :: u8 where "DRDY = 0x40"
definition BSY :: u8 where "BSY = 0x80"

partial_function (option) wait_not_busy :: "'w bus \<Rightarrow> u32 \<Rightarrow> 'w \<Rightarrow> 'w option" where
  "wait_not_busy b drive w =
     (case getStatus b drive w of (st, w1) \<Rightarrow>
        if st AND BSY \<noteq> 0 then wait_not_busy b drive w1 else Some w1)"

declare wait_not_busy.simps [code]

definition waitForDrive :: "'w bus \<Rightarrow> u32 \<Rightarrow> 'w \<Rightarrow> 'w res option" where
  "waitForDrive b drive w =
     (case getStatus b drive w of (status, w1) \<Rightarrow>
        if status AND (ERR OR DF) \<noteq> 0 then Some (Inl Panic)
        else if status AND DRDY = 0 then Some (Inl Panic)
        else map_option Inr (wait_not_busy b drive w1))"

partial_function (option) wait_data :: "'w bus \<Rightarrow> u32 \<Rightarrow> 'w \<Rightarrow> 'w option" where
  "wait_data b drive w =
     (case getStatus b drive w of (st, w1) \<Rightarrow>
        if st AND DRQ = 0 then wait_data b drive w1 else Some w1)"

declare wait_data.simps [code]

section \<open>Reading a block\<close>

definition sector_size :: u32 where
  "sector_size = 512"

text \<open>The loop that fills the buffer, as many words as the block has.\<close>

primrec read_words :: "'w bus \<Rightarrow> int \<Rightarrow> nat \<Rightarrow> 'w \<Rightarrow> u32 list \<times> 'w" where
  "read_words b base 0 w = ([], w)"
| "read_words b base (Suc n) w =
     (case p_inl b base w of (x, w1) \<Rightarrow>
      case read_words b base n w1 of (xs, w2) \<Rightarrow> (x # xs, w2))"

definition send_read :: "'w bus \<Rightarrow> int \<Rightarrow> u32 \<Rightarrow> u32 \<Rightarrow> 'w \<Rightarrow> 'w" where
  "send_read b base ch sector w =
     (let w1 = p_outb b (base + 2) 1 w;
          w2 = p_outb b (base + 3) (drop_bit 0 sector) w1;
          w3 = p_outb b (base + 4) (drop_bit 8 sector) w2;
          w4 = p_outb b (base + 5) (drop_bit 16 sector) w3;
          w5 = p_outb b (base + 6) (0xE0 OR push_bit 4 ch OR (drop_bit 24 sector AND 0xf)) w4
      in p_outb b (base + 7) 0x20 w5)"

definition ide_read_block :: "'w bus \<Rightarrow> u32 \<Rightarrow> u32 \<Rightarrow> 'w \<Rightarrow> (u8 list \<times> 'w) res option" where
  "ide_read_block b drive sector w =
     (let base = port drive; ch = channel drive in
      obind (waitForDrive b drive w) (\<lambda>w1.
      obind (waitForDrive b drive (send_read b base ch sector w1)) (\<lambda>w2.
      Option.bind (wait_data b drive w2) (\<lambda>w3.
      case read_words b base (unat (sector_size div 4)) w3 of (ws, w4) \<Rightarrow>
        Some (Inr (concat (map put32 ws), w4))))))"

text \<open>The size the driver claims for every disk.\<close>

definition ide_size_in_bytes :: u32 where
  "ide_size_in_bytes = NOT 0"

section \<open>The drive\<close>

text \<open>The sector the four address registers select.\<close>

definition lba28 :: "u32 \<Rightarrow> u32 \<Rightarrow> u32 \<Rightarrow> u32 \<Rightarrow> u32" where
  "lba28 r3 r4 r5 r6 =
     ((r3 AND 0xFF) OR push_bit 8 (r4 AND 0xFF) OR push_bit 16 (r5 AND 0xFF) OR
      push_bit 24 (r6 AND 0xF))"

lemma lba28_sector:
  "lba28 (drop_bit 0 s) (drop_bit 8 s) (drop_bit 16 s) (0xE0 OR push_bit 4 c OR (drop_bit 24 s AND 0xf)) =
   s AND 0x0FFFFFFF"
proof (rule bit_word_eqI)
  fix n assume "n < LENGTH(32)"
  have m: "0xFF = (mask 8 :: u32)" "0xF = (mask 4 :: u32)" "0x0FFFFFFF = (mask 28 :: u32)"
    by (simp_all add: mask_eq_decr_exp)
  have "push_bit 4 c AND mask 4 = 0"
    by (rule bit_word_eqI) (auto simp: bit_and_iff bit_push_bit_iff bit_mask_iff)
  then have h: "(0xE0 OR push_bit 4 c OR (drop_bit 24 s AND mask 4)) AND mask 4 = drop_bit 24 s AND mask 4"
    by (simp add: bit.conj_disj_distrib2 and.assoc mask_eq_decr_exp)
  have "n < 8 \<or> (8 \<le> n \<and> n < 16) \<or> (16 \<le> n \<and> n < 24) \<or> (24 \<le> n \<and> n < 28) \<or> (28 \<le> n \<and> n < 32)"
    using \<open>n < LENGTH(32)\<close> by auto
  then show "bit (lba28 (drop_bit 0 s) (drop_bit 8 s) (drop_bit 16 s)
      (0xE0 OR push_bit 4 c OR (drop_bit 24 s AND 0xf))) n = bit (s AND 0x0FFFFFFF) n"
    unfolding lba28_def m h
    by (elim disjE) (auto simp: bit_or_iff bit_and_iff bit_push_bit_iff bit_drop_bit_eq bit_mask_iff)
qed

text \<open>
  The contract of a drive: \<open>idle\<close> before and after a command, \<open>pend n ws\<close> while the
  words \<open>ws\<close> wait to be fetched and the drive will report busy \<open>n\<close> more times.  While BSY is
  set the other bits of the status are anything, as the standard has it; once it is clear there is no error,
  the drive is ready and, after a command, has data.  The 400 ns a drive has before it must set BSY are
  taken to have passed when the status is first read.
\<close>

definition ata_contract ::
    "'w bus \<Rightarrow> u32 \<Rightarrow> (u32 \<Rightarrow> u32 list) \<Rightarrow> ('w \<Rightarrow> bool) \<Rightarrow> (nat \<Rightarrow> u32 list \<Rightarrow> 'w \<Rightarrow> bool) \<Rightarrow> bool" where
  "ata_contract b drive disk idle pend \<longleftrightarrow>
     (\<forall>w. idle w \<longrightarrow> (case getStatus b drive w of (st, w') \<Rightarrow>
        st AND (ERR OR DF) = 0 \<and> st AND DRDY \<noteq> 0 \<and> st AND BSY = 0 \<and> idle w')) \<and>
     (\<forall>w r3 r4 r5 r6. idle w \<longrightarrow> r6 AND 0xF0 = 0xE0 OR push_bit 4 (channel drive) \<longrightarrow>
        (\<exists>n. pend n (disk (lba28 r3 r4 r5 r6))
          (p_outb b (port drive + 7) 0x20 (p_outb b (port drive + 6) r6 (p_outb b (port drive + 5) r5
            (p_outb b (port drive + 4) r4 (p_outb b (port drive + 3) r3
              (p_outb b (port drive + 2) 1 w)))))))) \<and>
     (\<forall>n ws w. pend n ws w \<longrightarrow> (case getStatus b drive w of (st, w') \<Rightarrow>
        if 0 < n then st AND BSY \<noteq> 0 \<and> pend (n - 1) ws w'
        else st AND BSY = 0 \<and> st AND (ERR OR DF) = 0 \<and> st AND DRDY \<noteq> 0 \<and> st AND DRQ \<noteq> 0 \<and>
          pend 0 ws w')) \<and>
     (\<forall>x ws w. pend 0 (x # ws) w \<longrightarrow> (case p_inl b (port drive) w of (y, w') \<Rightarrow>
        y = x \<and> (if ws = [] then idle w' else pend 0 ws w')))"

lemma ata_contractD:
  assumes "ata_contract b drive disk idle pend"
  shows "\<And>w st w'. idle w \<Longrightarrow> getStatus b drive w = (st, w') \<Longrightarrow>
      st AND (ERR OR DF) = 0 \<and> st AND DRDY \<noteq> 0 \<and> st AND BSY = 0 \<and> idle w'"
    and "\<And>w r3 r4 r5 r6. idle w \<Longrightarrow> r6 AND 0xF0 = 0xE0 OR push_bit 4 (channel drive) \<Longrightarrow>
      \<exists>n. pend n (disk (lba28 r3 r4 r5 r6))
          (p_outb b (port drive + 7) 0x20 (p_outb b (port drive + 6) r6 (p_outb b (port drive + 5) r5
            (p_outb b (port drive + 4) r4 (p_outb b (port drive + 3) r3
              (p_outb b (port drive + 2) 1 w))))))"
    and "\<And>n ws w st w'. pend n ws w \<Longrightarrow> getStatus b drive w = (st, w') \<Longrightarrow>
      if 0 < n then st AND BSY \<noteq> 0 \<and> pend (n - 1) ws w'
      else st AND BSY = 0 \<and> st AND (ERR OR DF) = 0 \<and> st AND DRDY \<noteq> 0 \<and> st AND DRQ \<noteq> 0 \<and>
        pend 0 ws w'"
    and "\<And>x ws w y w'. pend 0 (x # ws) w \<Longrightarrow> p_inl b (port drive) w = (y, w') \<Longrightarrow>
      y = x \<and> (if ws = [] then idle w' else pend 0 ws w')"
proof -
  note c = assms [unfolded ata_contract_def]
  note c1 = conjunct1 [OF c] and c2 = conjunct1 [OF conjunct2 [OF c]]
    and c3 = conjunct1 [OF conjunct2 [OF conjunct2 [OF c]]]
    and c4 = conjunct2 [OF conjunct2 [OF conjunct2 [OF c]]]
  show "st AND (ERR OR DF) = 0 \<and> st AND DRDY \<noteq> 0 \<and> st AND BSY = 0 \<and> idle w'"
    if "idle w" "getStatus b drive w = (st, w')" for w st w'
    using c1 [rule_format, OF that(1)] that(2) by simp
  show "\<exists>n. pend n (disk (lba28 r3 r4 r5 r6))
      (p_outb b (port drive + 7) 0x20 (p_outb b (port drive + 6) r6 (p_outb b (port drive + 5) r5
        (p_outb b (port drive + 4) r4 (p_outb b (port drive + 3) r3
          (p_outb b (port drive + 2) 1 w))))))"
    if "idle w" "r6 AND 0xF0 = 0xE0 OR push_bit 4 (channel drive)" for w r3 r4 r5 r6
    by (rule c2 [rule_format, OF that])
  show "if 0 < n then st AND BSY \<noteq> 0 \<and> pend (n - 1) ws w'
      else st AND BSY = 0 \<and> st AND (ERR OR DF) = 0 \<and> st AND DRDY \<noteq> 0 \<and> st AND DRQ \<noteq> 0 \<and>
        pend 0 ws w'"
    if "pend n ws w" "getStatus b drive w = (st, w')" for n ws w st w'
    using c3 [THEN spec, THEN spec, THEN spec, THEN mp, OF that(1)] unfolding that(2) prod.case .
  show "y = x \<and> (if ws = [] then idle w' else pend 0 ws w')"
    if "pend 0 (x # ws) w" "p_inl b (port drive) w = (y, w')" for x ws w y w'
    using c4 [rule_format, OF that(1)] that(2) by simp
qed

lemma wait_not_busy_pend:
  assumes c: "ata_contract b drive disk idle pend"
  shows "pend n ws w \<Longrightarrow> \<exists>w'. wait_not_busy b drive w = Some w' \<and> pend 0 ws w'"
proof (induction n arbitrary: w)
  case 0
  obtain st w' where g: "getStatus b drive w = (st, w')" by fastforce
  have "st AND BSY = 0" "pend 0 ws w'" using ata_contractD(3) [OF c 0 g] by auto
  then show ?case using g by (subst wait_not_busy.simps) simp
next
  case (Suc n)
  obtain st w1 where g: "getStatus b drive w = (st, w1)" by fastforce
  have s: "st AND BSY \<noteq> 0" "pend n ws w1" using ata_contractD(3) [OF c Suc.prems g] by auto
  obtain w' where "wait_not_busy b drive w1 = Some w'" "pend 0 ws w'" using Suc.IH [OF s(2)] by blast
  then show ?case using g s(1) by (subst wait_not_busy.simps) simp
qed

lemma waitForDrive_idle:
  assumes c: "ata_contract b drive disk idle pend" and i: "idle w"
  shows "\<exists>w'. waitForDrive b drive w = Some (Inr w') \<and> idle w'"
proof -
  obtain st w1 where g: "getStatus b drive w = (st, w1)" by fastforce
  note s = ata_contractD(1) [OF c i g]
  obtain st2 w2 where g2: "getStatus b drive w1 = (st2, w2)" by fastforce
  have "wait_not_busy b drive w1 = Some w2" "idle w2"
    using ata_contractD(1) [OF c _ g2] s g2 by (subst wait_not_busy.simps, simp_all)
  then show ?thesis using g s by (simp add: waitForDrive_def)
qed

text \<open>After a command the driver panics if the first status lacks DRDY or shows ERR or DF, which only a
  busy drive gives; else it waits for the data.\<close>

lemma waitForDrive_pend:
  assumes c: "ata_contract b drive disk idle pend" and p: "pend n ws w" and g: "getStatus b drive w = (st, w1)"
  shows "if st AND (ERR OR DF) \<noteq> 0 \<or> st AND DRDY = 0
    then st AND BSY \<noteq> 0 \<and> waitForDrive b drive w = Some (Inl Panic)
    else \<exists>w'. waitForDrive b drive w = Some (Inr w') \<and> pend 0 ws w'"
proof (cases "st AND (ERR OR DF) \<noteq> 0 \<or> st AND DRDY = 0")
  case True
  then have "n \<noteq> 0" using ata_contractD(3) [OF c p g] by (cases n) auto
  then show ?thesis using ata_contractD(3) [OF c p g] True g by (auto simp: waitForDrive_def)
next
  case False
  have "pend (n - 1) ws w1" using ata_contractD(3) [OF c p g] by (cases n) auto
  then obtain w2 where "wait_not_busy b drive w1 = Some w2" "pend 0 ws w2"
    using wait_not_busy_pend [OF c] by blast
  then show ?thesis using g False by (simp add: waitForDrive_def)
qed

lemma wait_data_pend:
  assumes c: "ata_contract b drive disk idle pend" and p: "pend 0 ws w"
  shows "\<exists>w'. wait_data b drive w = Some w' \<and> pend 0 ws w'"
proof -
  obtain st w1 where g: "getStatus b drive w = (st, w1)" by fastforce
  have "st AND DRQ \<noteq> 0" "pend 0 ws w1" using ata_contractD(3) [OF c p g] by auto
  then show ?thesis using g by (subst wait_data.simps) simp
qed

lemma read_words_pend:
  assumes c: "ata_contract b drive disk idle pend"
  shows "pend 0 ws w \<Longrightarrow> ws \<noteq> [] \<Longrightarrow>
    \<exists>w'. read_words b (port drive) (length ws) w = (ws, w') \<and> idle w'"
proof (induction ws arbitrary: w)
  case Nil
  then show ?case by simp
next
  case (Cons x ws)
  obtain y w1 where r: "p_inl b (port drive) w = (y, w1)" by fastforce
  note s = ata_contractD(4) [OF c Cons.prems(1) r]
  show ?case
  proof (cases "ws = []")
    case True
    then show ?thesis using r s by simp
  next
    case False
    obtain w' where "read_words b (port drive) (length ws) w1 = (ws, w')" "idle w'"
      using Cons.IH [of w1] s False by auto
    then show ?thesis using r s by simp
  qed
qed

lemma channel_cases: "channel d = 0 \<or> channel d = 1"
  by (simp add: channel_def and_one_eq mod_2_eq_odd)

lemma device_register:
  "(0xE0 OR push_bit 4 (channel d) OR (x AND 0xf)) AND 0xF0 = 0xE0 OR push_bit 4 (channel d)"
  using channel_cases [of d] by (elim disjE) (simp_all add: bit.conj_disj_distrib2 and.assoc)

section \<open>A concrete drive\<close>

text \<open>A drive that is busy for two status reads after a command, with the status \<open>busy\<close>; it shows that
  the contract can be met.\<close>

record ata =
  a_regs :: "int \<Rightarrow> u32"
  a_busy :: nat
  a_data :: "u32 list"

definition ata_bus :: "u8 \<Rightarrow> (u32 \<Rightarrow> u32 list) \<Rightarrow> ata bus" where
  "ata_bus busy disk =
     \<lparr>p_inb = (\<lambda>p w. if 0 < a_busy w then (busy, w\<lparr>a_busy := a_busy w - 1\<rparr>)
                     else (if a_data w = [] then 0x40 else 0x48, w)),
      p_inl = (\<lambda>p w. (hd (a_data w), w\<lparr>a_data := tl (a_data w)\<rparr>)),
      p_outb = (\<lambda>p v w. if p = 0x1f7 \<and> v = 0x20
         then w\<lparr>a_busy := 2, a_data :=
                disk (lba28 (a_regs w 0x1f3) (a_regs w 0x1f4) (a_regs w 0x1f5) (a_regs w 0x1f6))\<rparr>
         else w\<lparr>a_regs := (a_regs w)(p := v)\<rparr>)\<rparr>"

definition ata_idle :: "ata \<Rightarrow> bool" where
  "ata_idle w \<longleftrightarrow> a_busy w = 0 \<and> a_data w = []"

definition ata_pend :: "nat \<Rightarrow> u32 list \<Rightarrow> ata \<Rightarrow> bool" where
  "ata_pend n ws w \<longleftrightarrow> a_busy w = n \<and> a_data w = ws \<and> ws \<noteq> []"

lemma port_0: "port 0 = 0x1f0" "channel 0 = 0"
  by (simp_all add: port_def ide_ports_def controller_def channel_def)

lemma ata_bus_contract:
  assumes "\<And>s. disk s \<noteq> []" and "busy AND BSY \<noteq> 0"
  shows "ata_contract (ata_bus busy disk) 0 disk ata_idle ata_pend"
  unfolding ata_contract_def
proof (intro conjI)
  note defs = getStatus_def ata_bus_def ata_idle_def ata_pend_def port_0 ERR_def DF_def DRDY_def
    BSY_def DRQ_def
  show "\<forall>w. ata_idle w \<longrightarrow> (case getStatus (ata_bus busy disk) 0 w of (st, w') \<Rightarrow>
      st AND (ERR OR DF) = 0 \<and> st AND DRDY \<noteq> 0 \<and> st AND BSY = 0 \<and> ata_idle w')"
    by (auto simp: defs)
  show "\<forall>n ws w. ata_pend n ws w \<longrightarrow> (case getStatus (ata_bus busy disk) 0 w of (st, w') \<Rightarrow>
      if 0 < n then st AND BSY \<noteq> 0 \<and> ata_pend (n - 1) ws w'
      else st AND BSY = 0 \<and> st AND (ERR OR DF) = 0 \<and> st AND DRDY \<noteq> 0 \<and> st AND DRQ \<noteq> 0 \<and>
        ata_pend 0 ws w')"
    using assms(2) by (auto simp: defs)
  show "\<forall>x ws w. ata_pend 0 (x # ws) w \<longrightarrow> (case p_inl (ata_bus busy disk) (port 0) w of (y, w') \<Rightarrow>
      y = x \<and> (if ws = [] then ata_idle w' else ata_pend 0 ws w'))"
    by (auto simp: defs)
  show "\<forall>w r3 r4 r5 r6. ata_idle w \<longrightarrow> r6 AND 0xF0 = 0xE0 OR push_bit 4 (channel 0) \<longrightarrow>
      (\<exists>n. ata_pend n (disk (lba28 r3 r4 r5 r6))
        (p_outb (ata_bus busy disk) (port 0 + 7) 0x20 (p_outb (ata_bus busy disk) (port 0 + 6) r6
          (p_outb (ata_bus busy disk) (port 0 + 5) r5 (p_outb (ata_bus busy disk) (port 0 + 4) r4
            (p_outb (ata_bus busy disk) (port 0 + 3) r3 (p_outb (ata_bus busy disk) (port 0 + 2) 1 w)))))))"
    using assms(1) by (auto simp: ata_bus_def ata_pend_def port_0)
qed

text \<open>Its status after the command.\<close>

lemma ata_bus_first_status:
  "waitForDrive (ata_bus busy disk) 0 \<lparr>a_regs = r, a_busy = 0, a_data = []\<rparr> =
     Some (Inr \<lparr>a_regs = r, a_busy = 0, a_data = []\<rparr>)"
  "fst (getStatus (ata_bus busy disk) 0 (send_read (ata_bus busy disk) (port 0) (channel 0) sector w)) = busy"
proof -
  note defs = getStatus_def ata_bus_def port_0 ERR_def DF_def DRDY_def BSY_def
  show "waitForDrive (ata_bus busy disk) 0 \<lparr>a_regs = r, a_busy = 0, a_data = []\<rparr> =
     Some (Inr \<lparr>a_regs = r, a_busy = 0, a_data = []\<rparr>)"
    unfolding waitForDrive_def by (subst wait_not_busy.simps) (simp add: defs)
  show "fst (getStatus (ata_bus busy disk) 0 (send_read (ata_bus busy disk) (port 0) (channel 0) sector w)) = busy"
    by (simp add: send_read_def Let_def defs)
qed

section \<open>The disk as a block device\<close>

text \<open>Once the driver is known to deliver sectors, a disk is its bytes: \<open>d i\<close> is byte
  \<open>i\<close>.\<close>

definition disk_reader :: "(nat \<Rightarrow> u8) \<Rightarrow> reader" where
  "disk_reader d sector = Some (Inr (map (\<lambda>i. d (unat sector * 512 + i)) [0..<512]))"

interpretation disk: block_device sector_size ide_size_in_bytes "disk_reader d" d "\<lambda>_. True" for d
  by unfold_locales (simp_all add: disk_reader_def sector_size_def)

definition ide_read_all :: "(nat \<Rightarrow> u8) \<Rightarrow> u32 \<Rightarrow> u32 \<Rightarrow> (int \<times> u8 list) res option" where
  "ide_read_all d offset n = bread_all sector_size ide_size_in_bytes (disk_reader d) offset n"

definition ide_read_thing :: "(nat \<Rightarrow> u8) \<Rightarrow> u32 \<Rightarrow> nat \<Rightarrow> u8 list res option" where
  "ide_read_thing d offset n = bread_thing sector_size ide_size_in_bytes (disk_reader d) offset n"

lemma ide_size: "unat ide_size_in_bytes = 4294967295"
  by (simp add: ide_size_in_bytes_def unsigned_minus_1_eq_mask mask_eq_exp_minus_1)

lemma ide_read_thing_exact:
  "unat offset + n \<le> 4294967295 \<Longrightarrow>
   ide_read_thing d offset n = Some (Inr (map d [unat offset..<unat offset + n]))"
  unfolding ide_read_thing_def by (rule disk.bread_thing_exact) (simp_all add: ide_size)

section \<open>Properties\<close>

text \<open>
  C15.  On a drive that keeps the ATA contract, \<open>read_block\<close> returns: the polling loops end.  If
  the first status after the command shows DRDY and neither ERR nor DF, the buffer holds the bytes of the
  sector the lowest 28 bits of the number name, each word least significant byte first, and the drive is
  idle again.  If not, the driver panics; the drive was then only busy, for the bits mean nothing while
  BSY is set, but the driver looks at them first.
\<close>

theorem read_block_delivers_sector:
  assumes "ata_contract b drive disk idle pend" and "idle w"
    and "length (disk (sector AND 0x0FFFFFFF)) = 128"
  shows "\<exists>w1 st w2. waitForDrive b drive w = Some (Inr w1) \<and> idle w1 \<and>
    getStatus b drive (send_read b (port drive) (channel drive) sector w1) = (st, w2) \<and>
    (if st AND (ERR OR DF) \<noteq> 0 \<or> st AND DRDY = 0
     then st AND BSY \<noteq> 0 \<and> ide_read_block b drive sector w = Some (Inl Panic)
     else \<exists>w'. ide_read_block b drive sector w =
       Some (Inr (concat (map put32 (disk (sector AND 0x0FFFFFFF))), w')) \<and> idle w')"
proof -
  let ?ws = "disk (sector AND 0x0FFFFFFF)"
  obtain w1 where w1: "waitForDrive b drive w = Some (Inr w1)" "idle w1"
    using waitForDrive_idle [OF assms(1,2)] by blast
  let ?sent = "send_read b (port drive) (channel drive) sector w1"
  have "\<exists>n. pend n ?ws ?sent"
    using ata_contractD(2) [OF assms(1) w1(2) device_register [of drive "drop_bit 24 sector"],
        of "drop_bit 0 sector" "drop_bit 8 sector" "drop_bit 16 sector"]
    unfolding lba28_sector send_read_def Let_def by (simp add: or.assoc)
  then obtain n where n: "pend n ?ws ?sent" ..
  obtain st w2 where g: "getStatus b drive ?sent = (st, w2)" by fastforce
  note r = ide_read_block_def Let_def w1(1)
  show ?thesis
  proof (cases "st AND (ERR OR DF) \<noteq> 0 \<or> st AND DRDY = 0")
    case True
    then show ?thesis using waitForDrive_pend [OF assms(1) n g] w1 g by (auto simp: r)
  next
    case False
    then obtain w2' where w2: "waitForDrive b drive ?sent = Some (Inr w2')" "pend 0 ?ws w2'"
      using waitForDrive_pend [OF assms(1) n g] by auto
    obtain w3 where w3: "wait_data b drive w2' = Some w3" "pend 0 ?ws w3"
      using wait_data_pend [OF assms(1) w2(2)] by blast
    have "?ws \<noteq> []" using assms(3) by auto
    then obtain w4 where w4: "read_words b (port drive) 128 w3 = (?ws, w4)" "idle w4"
      using read_words_pend [OF assms(1) w3(2)] assms(3) by auto
    have "unat (sector_size div 4) = 128" by (simp add: sector_size_def)
    then have "ide_read_block b drive sector w = Some (Inr (concat (map put32 ?ws), w4))"
      using w2(1) w3(1) w4 by (simp add: r)
    then show ?thesis using False w1 g w4(2) by auto
  qed
qed

text \<open>A drive that keeps DRDY set while it is busy is read; one that does not brings the kernel down.\<close>

lemma read_block_delivers_sector_witness:
  "(\<exists>w'. ide_read_block (ata_bus 0xC0 (\<lambda>s. replicate 128 s)) 0 0xF0000005 \<lparr>a_regs = (\<lambda>_. 0), a_busy = 0, a_data = []\<rparr> =
      Some (Inr (concat (map put32 (replicate 128 (0xF0000005 AND 0x0FFFFFFF))), w')) \<and> ata_idle w') \<and>
   ide_read_block (ata_bus 0x80 (\<lambda>s. replicate 128 s)) 0 0xF0000005 \<lparr>a_regs = (\<lambda>_. 0), a_busy = 0, a_data = []\<rparr> =
      Some (Inl Panic)"
proof -
  have c: "ata_contract (ata_bus busy (\<lambda>s. replicate 128 s)) 0 (\<lambda>s. replicate 128 s) ata_idle ata_pend"
    if "busy AND BSY \<noteq> 0" for busy
    by (rule ata_bus_contract) (use that in simp_all)
  have i: "ata_idle \<lparr>a_regs = (\<lambda>_. 0), a_busy = 0, a_data = []\<rparr>" by (simp add: ata_idle_def)
  have n: "length (replicate 128 (0xF0000005 AND 0x0FFFFFFF :: u32)) = 128" by simp
  have b: "0xC0 AND BSY \<noteq> 0" "0x80 AND BSY \<noteq> 0" by (simp_all add: BSY_def)
  have f: "busy = st" if "getStatus (ata_bus busy disk) 0 (send_read (ata_bus busy disk) (port 0) (channel 0)
      sector w) = (st, w2)" for busy disk sector w st w2
    using ata_bus_first_status(2) [of busy disk sector w] that by simp
  note t = read_block_delivers_sector [OF c i n]
  have s: "\<not> (0xC0 AND (ERR OR DF) \<noteq> 0 \<or> 0xC0 AND DRDY = 0)" "0x80 AND (ERR OR DF) \<noteq> 0 \<or> 0x80 AND DRDY = 0"
    by (simp_all add: ERR_def DF_def DRDY_def)
  show ?thesis using t [OF b(1)] t [OF b(2)] s by (auto dest!: f)
qed

text \<open>
  \<open>read_all\<close> on the disk returns, and delivers exactly the bytes from the offset on: as
  many as were asked for and the claimed size of the disk leaves; the blocks they lie in do not
  show.
\<close>

theorem disk_read_all_exact:
  "ide_read_all d offset n =
    (let k = min (unat n) (0xFFFFFFFF - unat offset) in
     Some (Inr (int k, map d [unat offset..<unat offset + k])))"
proof -
  have "uint offset \<le> uint ide_size_in_bytes"
    unfolding uint_unat ide_size using unat_u32_less [of offset] by simp
  from disk.bread_all_exact [OF this, of n d] show ?thesis
    by (simp add: ide_read_all_def ide_size Let_def)
qed

end
