(* ===== verification/Ext2.thy ===== *)
theory Ext2
  imports Ide
begin

text \<open>
  The ext2 file system of \<open>kernel/ext2.h\<close> and \<open>kernel/ext2.cc\<close>, read-only.  The disk
  is its bytes \<open>d\<close>, read with the driver's \<open>read_all\<close>; on-disk structures are lists of
  bytes whose fields are read at the offsets the C structures have.  An i-node is its number, the
  block size and its 128 bytes; its own \<open>read_block\<close> makes it a block device again.

  The call-back of \<open>entries\<close> is the list of the pairs it is called with.  A shift by 32 or more
  (undefined in C++) is modelled as the processor's, modulo 32.
\<close>

section \<open>On-disk structures\<close>

definition sizeof_SuperBlock :: nat where "sizeof_SuperBlock = 140"
definition sizeof_BlockGroup :: u32 where "sizeof_BlockGroup = 32"
definition sizeof_NodeData :: nat where "sizeof_NodeData = 128"

definition sb_inodes_count :: "u8 list \<Rightarrow> u32" where "sb_inodes_count sb = bytes32 sb 0"
definition sb_blocks_count :: "u8 list \<Rightarrow> u32" where "sb_blocks_count sb = bytes32 sb 4"
definition sb_log_block_size :: "u8 list \<Rightarrow> u32" where "sb_log_block_size sb = bytes32 sb 24"
definition sb_blocks_per_group :: "u8 list \<Rightarrow> u32" where "sb_blocks_per_group sb = bytes32 sb 32"
definition sb_inodes_per_group :: "u8 list \<Rightarrow> u32" where "sb_inodes_per_group sb = bytes32 sb 40"
definition sb_inode_size :: "u8 list \<Rightarrow> u16" where "sb_inode_size sb = bytes16 sb 88"

definition bg_inode_table :: "u8 list \<Rightarrow> nat \<Rightarrow> u32" where
  "bg_inode_table tab i = bytes32 tab (32 * i + 8)"

definition nd_mode :: "u8 list \<Rightarrow> u16" where "nd_mode nd = bytes16 nd 0"
definition nd_size_low :: "u8 list \<Rightarrow> u32" where "nd_size_low nd = bytes32 nd 4"
definition nd_n_links :: "u8 list \<Rightarrow> u16" where "nd_n_links nd = bytes16 nd 26"
definition nd_n_sectors :: "u8 list \<Rightarrow> u32" where "nd_n_sectors nd = bytes32 nd 28"
definition nd_direct :: "u8 list \<Rightarrow> nat \<Rightarrow> u32" where "nd_direct nd i = bytes32 nd (40 + 4 * i)"
definition nd_indirect_1 :: "u8 list \<Rightarrow> u32" where "nd_indirect_1 nd = bytes32 nd 88"

definition get_type :: "u8 list \<Rightarrow> u16" where "get_type nd = drop_bit 12 (nd_mode nd)"
definition is_dir :: "u8 list \<Rightarrow> bool" where "is_dir nd = (get_type nd = 4)"
definition is_file :: "u8 list \<Rightarrow> bool" where "is_file nd = (get_type nd = 8)"
definition is_symlink :: "u8 list \<Rightarrow> bool" where "is_symlink nd = (get_type nd = 0xa)"

section \<open>The file system\<close>

record node =
  number :: u32
  nblock_size :: u32
  ndata :: "u8 list"

record ext2 =
  blockSize :: u32
  numberOfNodes :: u32
  numberOfBlocks :: u32
  iNodeSize :: u32
  nGroups :: u32
  iNodeTables :: "u32 list"
  iNodesPerGroup :: u32

definition get_node :: "(nat \<Rightarrow> u8) \<Rightarrow> ext2 \<Rightarrow> u32 \<Rightarrow> node res option" where
  "get_node d e n =
     obind (Some (assert_that (0 < n))) (\<lambda>_.
     obind (Some (assert_that (n \<le> numberOfNodes e))) (\<lambda>_.
     let index = n - 1 in
     if iNodesPerGroup e = 0 then Some (Inl DivByZero)
     else
       let groupIndex = index div iNodesPerGroup e in
       obind (Some (assert_that (groupIndex < nGroups e))) (\<lambda>_.
       let indexInGroup = index mod iNodesPerGroup e;
           iTableBase = iNodeTables e ! unat groupIndex in
       obind (Some (assert_that (iTableBase \<le> numberOfBlocks e))) (\<lambda>_.
       let nodeOffset = iTableBase * blockSize e + indexInGroup * iNodeSize e in
       obind (ide_read_thing d nodeOffset sizeof_NodeData) (\<lambda>bytes.
       Some (Inr \<lparr>number = n, nblock_size = blockSize e, ndata = bytes\<rparr>))))))"

text \<open>The constructor.  A group table of \<open>2 ^ 27\<close> entries or more does not fit the address
  space: its allocation fails.\<close>

definition ext2_mount :: "(nat \<Rightarrow> u8) \<Rightarrow> (ext2 \<times> node) res option" where
  "ext2_mount d =
     obind (ide_read_thing d 1024 sizeof_SuperBlock) (\<lambda>sb.
     let bsize = push_bit (unat (sb_log_block_size sb + 10) mod 32) 1;
         bpg = sb_blocks_per_group sb in
     if bpg = 0 then Some (Inl DivByZero)
     else
       let groups = (sb_blocks_count sb + bpg - 1) div bpg in
       obind (Some (assert_that (sb_blocks_count sb \<le> groups * bpg))) (\<lambda>_.
       let superBlockNumber = 1024 div bsize;
           groupTableNumber = superBlockNumber + 1;
           groupTableSize = sizeof_BlockGroup * groups in
       obind (Some (assert_that (groups < 0x8000000))) (\<lambda>_.
       obind (ide_read_all d (groupTableNumber * bsize) groupTableSize) (\<lambda>(cnt, groupTable).
       obind (Some (assert_that (cnt = uint groupTableSize))) (\<lambda>_.
       let e = \<lparr>blockSize = bsize, numberOfNodes = sb_inodes_count sb,
                numberOfBlocks = sb_blocks_count sb, iNodeSize = ucast (sb_inode_size sb),
                nGroups = groups, iNodeTables = map (bg_inode_table groupTable) [0..<unat groups],
                iNodesPerGroup = sb_inodes_per_group sb\<rparr> in
       obind (get_node d e 2) (\<lambda>root. Some (Inr (e, root))))))))"

definition get_block_size :: "ext2 \<Rightarrow> u32" where "get_block_size e = blockSize e"
definition get_inode_size :: "ext2 \<Rightarrow> u32" where "get_inode_size e = iNodeSize e"

section \<open>Nodes\<close>

definition node_size :: "node \<Rightarrow> u32" where
  "node_size nd = nd_size_low (ndata nd)"

definition node_n_links :: "node \<Rightarrow> u32" where
  "node_n_links nd = ucast (nd_n_links (ndata nd))"

text \<open>The number of the disk block that holds block \<open>index\<close> of the node.\<close>

definition node_block_index :: "(nat \<Rightarrow> u8) \<Rightarrow> node \<Rightarrow> u32 \<Rightarrow> u32 res option" where
  "node_block_index d nd index =
     (let bs = nblock_size nd; refs_per_block = bs div 4 in
      if bs div 512 = 0 then Some (Inl DivByZero)
      else obind (Some (assert_that (index < nd_n_sectors (ndata nd) div (bs div 512)))) (\<lambda>_.
        if index < 12 then Some (Inr (nd_direct (ndata nd) (unat index)))
        else if index < 12 + refs_per_block then
          obind (ide_read_thing d (nd_indirect_1 (ndata nd) * bs + (index - 12) * 4) 4) (\<lambda>b.
            Some (Inr (bytes32 b 0)))
        else Some (Inl Panic)))"

definition node_read_block :: "(nat \<Rightarrow> u8) \<Rightarrow> node \<Rightarrow> reader" where
  "node_read_block d nd index =
     obind (node_block_index d nd index) (\<lambda>block_index.
     obind (ide_read_all d (block_index * nblock_size nd) (nblock_size nd)) (\<lambda>(cnt, buffer).
     obind (Some (assert_that (cnt = uint (nblock_size nd)))) (\<lambda>_. Some (Inr buffer))))"

definition node_read_all :: "(nat \<Rightarrow> u8) \<Rightarrow> node \<Rightarrow> u32 \<Rightarrow> u32 \<Rightarrow> (int \<times> u8 list) res option" where
  "node_read_all d nd offset n = bread_all (nblock_size nd) (node_size nd) (node_read_block d nd) offset n"

definition node_read_thing :: "(nat \<Rightarrow> u8) \<Rightarrow> node \<Rightarrow> u32 \<Rightarrow> nat \<Rightarrow> u8 list res option" where
  "node_read_thing d nd offset n =
     bread_thing (nblock_size nd) (node_size nd) (node_read_block d nd) offset n"

definition get_symbol :: "(nat \<Rightarrow> u8) \<Rightarrow> node \<Rightarrow> u8 list res option" where
  "get_symbol d nd =
     obind (Some (assert_that (is_symlink (ndata nd)))) (\<lambda>_.
     let sz = node_size nd in
     if sz \<le> 60 then Some (Inr (take (unat sz) (drop 40 (ndata nd))))
     else obind (node_read_all d nd 0 sz) (\<lambda>(cnt, buffer).
       obind (Some (assert_that (cnt = uint sz))) (\<lambda>_. Some (Inr buffer))))"

section \<open>Directories\<close>

text \<open>The body of the loop of \<open>entries\<close>: the inode, the length of the record and the
  name at \<open>offset\<close>.\<close>

definition dir_entry :: "(nat \<Rightarrow> u8) \<Rightarrow> node \<Rightarrow> u32 \<Rightarrow> (u32 \<times> u16 \<times> u8 list) res option" where
  "dir_entry d nd offset =
     obind (node_read_thing d nd offset 4) (\<lambda>inode.
     obind (node_read_thing d nd (offset + 4) 2) (\<lambda>total_size.
     obind (node_read_thing d nd (offset + 6) 1) (\<lambda>name_length.
     obind (node_read_all d nd (offset + 8) (ucast (hd name_length))) (\<lambda>(cnt, name).
     obind (Some (assert_that (cnt = uint (hd name_length)))) (\<lambda>_.
     Some (Inr (bytes32 inode 0, bytes16 total_size 0, name)))))))"

partial_function (option) dir_loop ::
    "(nat \<Rightarrow> u8) \<Rightarrow> node \<Rightarrow> u32 \<Rightarrow> (u32 \<times> u8 list) list \<Rightarrow> (u32 \<times> u8 list) list res option" where
  "dir_loop d nd offset acc =
     (if offset < node_size nd then
        (case dir_entry d nd offset of
           None \<Rightarrow> None
         | Some (Inl e) \<Rightarrow> Some (Inl e)
         | Some (Inr (inode, total_size, name)) \<Rightarrow>
             dir_loop d nd (offset + ucast total_size) (acc @ [(inode, name)]))
      else Some (Inr acc))"

declare dir_loop.simps [code]

definition dir_entries :: "(nat \<Rightarrow> u8) \<Rightarrow> node \<Rightarrow> (u32 \<times> u8 list) list res option" where
  "dir_entries d nd =
     obind (Some (assert_that (is_dir (ndata nd)))) (\<lambda>_. dir_loop d nd 0 [])"

text \<open>\<open>Node::find\<close>: the last entry with the name wins, 0 when there is none.  The names are
  terminated by the caller, so the comparison returns.\<close>

fun find_in :: "u8 list \<Rightarrow> (u32 \<times> u8 list) list \<Rightarrow> u32 \<Rightarrow> u32 option" where
  "find_in name [] out = Some out"
| "find_in name ((inode, nm) # es) out =
     Option.bind (k_streq (cstr name) (cstr nm)) (\<lambda>same.
       find_in name es (if same then inode else out))"

definition node_find :: "(nat \<Rightarrow> u8) \<Rightarrow> node \<Rightarrow> u8 list \<Rightarrow> u32 res option" where
  "node_find d nd name =
     obind (dir_entries d nd) (\<lambda>es. map_option Inr (find_in name es 0))"

definition entry_count :: "(nat \<Rightarrow> u8) \<Rightarrow> node \<Rightarrow> u32 res option" where
  "entry_count d nd =
     obind (Some (assert_that (is_dir (ndata nd)))) (\<lambda>_.
     obind (dir_entries d nd) (\<lambda>es. Some (Inr (fold (\<lambda>_ c. c + 1) es 0))))"

section \<open>Paths\<close>

text \<open>\<open>'/'\<close>.\<close>

definition slash :: u8 where "slash = 47"

partial_function (option) skip_slashes :: "cmem \<Rightarrow> nat \<Rightarrow> nat option" where
  "skip_slashes path idx = (if path idx = slash then skip_slashes path (idx + 1) else Some idx)"

declare skip_slashes.simps [code]

text \<open>The loop that copies one component to \<open>part\<close>.\<close>

partial_function (option) take_part :: "cmem \<Rightarrow> nat \<Rightarrow> u8 list \<Rightarrow> (nat \<times> u8 list) res option" where
  "take_part path idx part =
     (let c = path idx in
      if c = 0 \<or> c = slash then Some (Inr (idx, part))
      else if \<not> length part < 256 then Some (Inl Panic)
      else take_part path (idx + 1) (part @ [c]))"

declare take_part.simps [code]

partial_function (option) path_loop ::
    "(nat \<Rightarrow> u8) \<Rightarrow> ext2 \<Rightarrow> cmem \<Rightarrow> nat \<Rightarrow> node option \<Rightarrow> node option res option" where
  "path_loop d e path idx current =
     (case skip_slashes path idx of
        None \<Rightarrow> None
      | Some idx1 \<Rightarrow>
         (case current of
            None \<Rightarrow> Some (Inr None)
          | Some nd \<Rightarrow>
             if path idx1 = 0 then Some (Inr (Some nd))
             else (case take_part path idx1 [] of
                 None \<Rightarrow> None
               | Some (Inl f) \<Rightarrow> Some (Inl f)
               | Some (Inr (idx2, part)) \<Rightarrow>
                   (case node_find d nd part of
                      None \<Rightarrow> None
                    | Some (Inl f) \<Rightarrow> Some (Inl f)
                    | Some (Inr num) \<Rightarrow>
                        if num = 0 then Some (Inr None)
                        else (case get_node d e num of
                            None \<Rightarrow> None
                          | Some (Inl f) \<Rightarrow> Some (Inl f)
                          | Some (Inr nd') \<Rightarrow> path_loop d e path idx2 (Some nd'))))))"

definition ext2_find :: "(nat \<Rightarrow> u8) \<Rightarrow> ext2 \<Rightarrow> node option \<Rightarrow> cmem \<Rightarrow> node option res option" where
  "ext2_find d e current path = path_loop d e path 0 current"

end
