(* ===== verification/Ext2_Correct.thy ===== *)
theory Ext2_Correct
  imports Ext2
begin

text \<open>
  What the file system delivers: the bytes of a file through its direct and indirect blocks, the
  entries of a directory, the node a path names and the i-node a number names.
\<close>

section \<open>The bytes of a node\<close>

definition node_blk :: "(nat \<Rightarrow> u8) \<Rightarrow> node \<Rightarrow> nat \<Rightarrow> nat" where
  "node_blk d nd k =
     (if k < 12 then unat (nd_direct (ndata nd) k)
      else let p = unat (nd_indirect_1 (ndata nd)) * unat (nblock_size nd) + (k - 12) * 4
        in unat (bytes32 (map d [p..<p + 4]) 0))"

definition node_content :: "(nat \<Rightarrow> u8) \<Rightarrow> node \<Rightarrow> nat \<Rightarrow> u8" where
  "node_content d nd i =
     d (node_blk d nd (i div unat (nblock_size nd)) * unat (nblock_size nd) + i mod unat (nblock_size nd))"

text \<open>A block of the node that is inside its allocation and whose reference and data are inside
  the disk.\<close>

definition node_block_ok :: "(nat \<Rightarrow> u8) \<Rightarrow> node \<Rightarrow> nat \<Rightarrow> bool" where
  "node_block_ok d nd k \<longleftrightarrow>
     (let bs = unat (nblock_size nd) in
      512 \<le> bs \<and> k < unat (nd_n_sectors (ndata nd)) div (bs div 512) \<and>
      (k < 12 \<or> k < 12 + bs div 4 \<and>
        unat (nd_indirect_1 (ndata nd)) * bs + (k - 12) * 4 + 4 \<le> 0xFFFFFFFF) \<and>
      node_blk d nd k * bs + bs \<le> 0xFFFFFFFF)"

lemma unat_mult_u32: "unat a * unat b < 4294967296 \<Longrightarrow> unat (a * b :: u32) = unat a * unat b"
  by (subst unat_mult_lem [THEN iffD1]) simp_all

lemma unat_add_u32: "unat a + unat b < 4294967296 \<Longrightarrow> unat (a + b :: u32) = unat a + unat b"
  by (subst unat_add_lem [THEN iffD1]) simp_all

lemma node_block_index_ok:
  assumes ok: "node_block_ok d nd (unat k)"
  shows "\<exists>b. node_block_index d nd k = Some (Inr b) \<and> unat b = node_blk d nd (unat k)"
proof -
  let ?bs = "nblock_size nd"
  note o = ok [unfolded node_block_ok_def Let_def]
  have n512: "unat (?bs div 512) = unat ?bs div 512" by (simp add: unat_div)
  have "1 \<le> unat ?bs div 512" using o by (simp add: less_eq_div_iff_mult_less_eq)
  then have nz: "?bs div 512 \<noteq> 0" using n512 by auto
  have lim: "k < nd_n_sectors (ndata nd) div (?bs div 512)"
    using o by (simp add: word_less_nat_alt unat_div)
  show ?thesis
  proof (cases "unat k < 12")
    case True
    then have "k < 12" by (simp add: word_less_nat_alt)
    then show ?thesis using nz lim True by (simp add: node_block_index_def node_blk_def)
  next
    case False
    then have k: "\<not> k < 12" by (simp add: word_less_nat_alt)
    have kb: "unat k < 12 + unat ?bs div 4"
      and far: "unat (nd_indirect_1 (ndata nd)) * unat ?bs + (unat k - 12) * 4 + 4 \<le> 0xFFFFFFFF"
      using o False by auto
    have r: "unat (?bs div 4) = unat ?bs div 4" by (simp add: unat_div)
    have "unat (12 + ?bs div 4) = 12 + unat ?bs div 4"
      using unat_u32_less [of ?bs] by (subst unat_add_u32) (simp_all add: r)
    then have kr: "k < 12 + ?bs div 4" using kb by (simp add: word_less_nat_alt)
    have k12: "unat (k - 12) = unat k - 12" using False by (subst unat_sub) (simp_all add: word_le_nat_alt)
    have m1: "unat ((k - 12) * 4) = (unat k - 12) * 4"
      using far k12 by (subst unat_mult_u32) simp_all
    have m2: "unat (nd_indirect_1 (ndata nd) * ?bs) = unat (nd_indirect_1 (ndata nd)) * unat ?bs"
      using far by (subst unat_mult_u32) simp_all
    have m3: "unat (nd_indirect_1 (ndata nd) * ?bs + (k - 12) * 4) =
        unat (nd_indirect_1 (ndata nd)) * unat ?bs + (unat k - 12) * 4"
      using far m1 m2 by (subst unat_add_u32) simp_all
    have rd: "ide_read_thing d (nd_indirect_1 (ndata nd) * ?bs + (k - 12) * 4) 4 =
        Some (Inr (map d [unat (nd_indirect_1 (ndata nd)) * unat ?bs + (unat k - 12) * 4..<
          unat (nd_indirect_1 (ndata nd)) * unat ?bs + (unat k - 12) * 4 + 4]))"
      using ide_read_thing_exact [of "nd_indirect_1 (ndata nd) * ?bs + (k - 12) * 4" 4 d] far
      unfolding m3 by simp
    show ?thesis
      unfolding node_block_index_def node_blk_def Let_def rd using nz lim k kr False by simp
  qed
qed

lemma node_read_block_ok:
  assumes ok: "node_block_ok d nd (unat k)"
  shows "node_read_block d nd k =
    Some (Inr (map (\<lambda>i. node_content d nd (unat k * unat (nblock_size nd) + i)) [0..<unat (nblock_size nd)]))"
proof -
  let ?bs = "nblock_size nd" let ?b = "node_blk d nd (unat k)"
  note o = ok [unfolded node_block_ok_def Let_def]
  obtain b where b: "node_block_index d nd k = Some (Inr b)" "unat b = ?b"
    using node_block_index_ok [OF ok] by blast
  have off: "unat (b * ?bs) = ?b * unat ?bs" using o b(2) by (subst unat_mult_u32) simp_all
  have o4: "?b * unat ?bs + unat ?bs \<le> 0xFFFFFFFF" using o by blast
  then have "min (unat ?bs) (0xFFFFFFFF - ?b * unat ?bs) = unat ?bs" by linarith
  then have rd: "ide_read_all d (b * ?bs) ?bs =
      Some (Inr (int (unat ?bs), map d [?b * unat ?bs..<?b * unat ?bs + unat ?bs]))"
    using disk.bread_all_exact [of "b * ?bs" ?bs d] o unfolding ide_read_all_def uint_unat ide_size off
    by simp
  have "map d [?b * unat ?bs..<?b * unat ?bs + unat ?bs] =
      map (\<lambda>i. node_content d nd (unat k * unat ?bs + i)) [0..<unat ?bs]"
    by (rule nth_equalityI) (auto simp: node_content_def)
  then show ?thesis using b(1) rd by (simp add: node_read_block_def)
qed

interpretation fnode: block_device "nblock_size nd" "node_size nd" "node_read_block d nd"
  "node_content d nd" "node_block_ok d nd" for d nd
proof
  fix bn :: u32 assume ok: "node_block_ok d nd (unat bn)"
  then show "0 < uint (nblock_size nd)" by (auto simp: node_block_ok_def Let_def uint_unat)
  show "\<exists>bs. node_read_block d nd bn = Some (Inr bs) \<and>
      bs = map (\<lambda>i. node_content d nd (unat bn * unat (nblock_size nd) + i)) [0..<unat (nblock_size nd)]"
    using node_read_block_ok [OF ok] by blast
qed

text \<open>A node all of whose bytes are readable.\<close>

definition node_ok :: "(nat \<Rightarrow> u8) \<Rightarrow> node \<Rightarrow> bool" where
  "node_ok d nd \<longleftrightarrow> (\<forall>i < unat (node_size nd). node_block_ok d nd (i div unat (nblock_size nd)))"

definition node_bytes :: "(nat \<Rightarrow> u8) \<Rightarrow> node \<Rightarrow> u8 list" where
  "node_bytes d nd = map (node_content d nd) [0..<unat (node_size nd)]"

lemma length_node_bytes [simp]: "length (node_bytes d nd) = unat (node_size nd)"
  by (simp add: node_bytes_def)

lemma node_bytes_part:
  "a + k \<le> unat (node_size nd) \<Longrightarrow> map (node_content d nd) [a..<a + k] = take k (drop a (node_bytes d nd))"
  by (rule nth_equalityI) (auto simp: node_bytes_def)

lemma node_read_thing_bytes:
  assumes "node_ok d nd" "unat off + k \<le> unat (node_size nd)"
  shows "node_read_thing d nd off k = Some (Inr (take k (drop (unat off) (node_bytes d nd))))"
  unfolding node_read_thing_def node_bytes_part [OF assms(2), symmetric]
  by (rule fnode.bread_thing_exact [OF assms(2)]) (use assms in \<open>auto simp: node_ok_def\<close>)

lemma node_read_all_bytes:
  assumes "node_ok d nd" "unat off \<le> unat (node_size nd)"
  shows "node_read_all d nd off n =
    (let k = min (unat n) (unat (node_size nd) - unat off) in
     Some (Inr (int k, take k (drop (unat off) (node_bytes d nd)))))"
proof -
  let ?k = "min (unat n) (unat (node_size nd) - unat off)"
  have k: "unat off + ?k \<le> unat (node_size nd)" using assms(2) by linarith
  have le: "uint off \<le> uint (node_size nd)" using assms(2) by (simp only: uint_unat)
  have rd: "node_block_ok d nd (i div unat (nblock_size nd))"
    if "unat off \<le> i" "i < unat off + ?k" for i
    using assms(1) that k unfolding node_ok_def by (meson less_le_trans)
  show ?thesis
    unfolding node_read_all_def Let_def node_bytes_part [OF k, symmetric]
    by (rule fnode.bread_all_exact [OF le]) (rule rd)
qed

section \<open>Directories\<close>

text \<open>An entry as it lies on the disk: number, length of the record, length of the name, file
  type, name and padding.\<close>

definition dir_enc :: "u32 \<times> u8 \<times> u8 list \<times> u8 list \<Rightarrow> u8 list" where
  "dir_enc = (\<lambda>(ino, ft, nm, pad).
     put32 ino @ put16 (of_nat (8 + length nm + length pad)) @ [of_nat (length nm), ft] @ nm @ pad)"

definition dir_wf :: "u32 \<times> u8 \<times> u8 list \<times> u8 list \<Rightarrow> bool" where
  "dir_wf = (\<lambda>(ino, ft, nm, pad). length nm < 256 \<and> 8 + length nm + length pad < 65536)"

definition dir_item :: "u32 \<times> u8 \<times> u8 list \<times> u8 list \<Rightarrow> u32 \<times> u8 list" where
  "dir_item = (\<lambda>(ino, ft, nm, pad). (ino, nm))"

lemma length_dir_enc: "length (dir_enc (ino, ft, nm, pad)) = 8 + length nm + length pad"
  by (simp add: dir_enc_def)

lemma unat_u8: "n < 256 \<Longrightarrow> unat (of_nat n :: u8) = n"
  by (simp add: unsigned_of_nat take_bit_nat_eq_self)

lemma unat_u16: "n < 65536 \<Longrightarrow> unat (of_nat n :: u16) = n"
  by (simp add: unsigned_of_nat take_bit_nat_eq_self)

lemma unat_ucast_8: "unat (ucast (x :: u8) :: u32) = unat x"
  by (simp add: unsigned_ucast_eq take_bit_nat_eq_self unsigned_less [THEN less_le_trans])

lemma unat_ucast_16: "unat (ucast (x :: u16) :: u32) = unat x"
  by (simp add: unsigned_ucast_eq take_bit_nat_eq_self unsigned_less [THEN less_le_trans])

lemma dir_entry_at:
  assumes ok: "node_ok d nd" and bytes: "node_bytes d nd = pre @ dir_enc (ino, ft, nm, pad) @ post"
    and off: "unat off = length pre" and wf: "dir_wf (ino, ft, nm, pad)"
  shows "dir_entry d nd off = Some (Inr (ino, of_nat (8 + length nm + length pad), nm))"
proof -
  let ?l = "8 + length nm + length pad"
  have sz: "unat (node_size nd) = length pre + ?l + length post"
    using arg_cong [OF bytes, of length] by (simp add: length_dir_enc)
  have lim: "unat (node_size nd) < 4294967296" by (rule unat_u32_less)
  have w: "length nm < 256" "?l < 65536" using wf by (auto simp: dir_wf_def)
  have o4: "unat (off + 4) = length pre + 4" "unat (off + 6) = length pre + 6"
    "unat (off + 8) = length pre + 8"
    using off sz lim by (subst unat_add_u32, simp_all)+
  have d: "drop (length pre) (node_bytes d nd) = dir_enc (ino, ft, nm, pad) @ post"
    by (simp add: bytes)
  then have dk: "drop (length pre + k) (node_bytes d nd) = drop k (dir_enc (ino, ft, nm, pad) @ post)" for k
    by (metis add.commute drop_drop)
  have enc: "dir_enc (ino, ft, nm, pad) @ post =
      put32 ino @ put16 (of_nat ?l) @ [of_nat (length nm), ft] @ nm @ pad @ post"
    by (simp add: dir_enc_def)
  have r1: "node_read_thing d nd off 4 = Some (Inr (put32 ino))"
    using node_read_thing_bytes [OF ok, of off 4] off sz by (simp add: d enc)
  have r2: "node_read_thing d nd (off + 4) 2 = Some (Inr (put16 (of_nat ?l)))"
    using node_read_thing_bytes [OF ok, of "off + 4" 2] o4 sz by (simp add: dk enc)
  have r3: "node_read_thing d nd (off + 6) 1 = Some (Inr [of_nat (length nm)])"
    using node_read_thing_bytes [OF ok, of "off + 6" 1] o4 sz by (simp add: dk enc)
  have n8: "unat (of_nat (length nm) :: u8) = length nm" by (rule unat_u8 [OF w(1)])
  have r4: "node_read_all d nd (off + 8) (ucast (of_nat (length nm) :: u8)) =
      Some (Inr (int (length nm), nm))"
    using node_read_all_bytes [OF ok, of "off + 8" "ucast (of_nat (length nm) :: u8)"] o4 sz
    by (simp add: dk enc Let_def unat_ucast_8 n8 min_def)
  have b: "bytes32 (put32 ino) 0 = ino" "bytes16 (put16 (of_nat ?l)) 0 = of_nat ?l"
    using bytes32_put [of "[]" 0 ino "[]"] bytes16_put [of "[]" 0 "of_nat ?l" "[]"] by simp_all
  have u: "uint (of_nat (length nm) :: u8) = int (length nm)" by (simp only: uint_unat n8)
  show ?thesis unfolding dir_entry_def r1 r2 r3 obind_simps list.sel r4 prod.case u b
    by simp
qed

lemma dir_loop_entries:
  assumes "node_ok d nd" "node_bytes d nd = pre @ concat (map dir_enc es)"
    "unat off = length pre" "\<forall>x\<in>set es. dir_wf x"
  shows "dir_loop d nd off acc = Some (Inr (acc @ map dir_item es))"
  using assms(2-4)
proof (induction es arbitrary: pre off acc)
  case Nil
  have "unat (node_size nd) = length pre" using arg_cong [OF Nil(1), of length] by simp
  then have "\<not> off < node_size nd" using Nil(2) by (simp add: word_less_nat_alt)
  then show ?case by (subst dir_loop.simps) simp
next
  case (Cons x es)
  obtain ino ft nm pad where x: "x = (ino, ft, nm, pad)" by (cases x) auto
  let ?l = "8 + length nm + length pad"
  have wf: "dir_wf (ino, ft, nm, pad)" using Cons.prems(3) x by simp
  have bytes: "node_bytes d nd = pre @ dir_enc (ino, ft, nm, pad) @ concat (map dir_enc es)"
    using Cons.prems(1) x by simp
  have sz: "unat (node_size nd) = length pre + ?l + length (concat (map dir_enc es))"
    using arg_cong [OF bytes, of length] by (simp add: length_dir_enc)
  have lt: "off < node_size nd" using Cons.prems(2) sz by (simp add: word_less_nat_alt)
  note e = dir_entry_at [OF assms(1) bytes Cons.prems(2) wf]
  have l: "unat (ucast (of_nat ?l :: u16) :: u32) = ?l"
    unfolding unat_ucast_16 by (rule unat_u16) (use wf in \<open>simp add: dir_wf_def\<close>)
  have "unat off + unat (ucast (of_nat ?l :: u16) :: u32) = length pre + ?l"
    unfolding l Cons.prems(2) ..
  moreover have "length pre + ?l < 4294967296" using sz unat_u32_less [of "node_size nd"] by linarith
  ultimately have off': "unat (off + ucast (of_nat ?l :: u16)) = length (pre @ dir_enc (ino, ft, nm, pad))"
    using unat_add_u32 [of off "ucast (of_nat ?l :: u16)"] by (simp only: length_append length_dir_enc)
  have "dir_loop d nd (off + ucast (of_nat ?l :: u16)) (acc @ [(ino, nm)]) =
      Some (Inr ((acc @ [(ino, nm)]) @ map dir_item es))"
    by (rule Cons.IH [OF _ off']) (use bytes Cons.prems(3) in simp_all)
  then show ?case using lt e by (subst dir_loop.simps) (simp add: x dir_item_def)
qed

lemma find_in_last:
  "find_in name es out = Some (last (out # map fst (filter (\<lambda>(i, nm). chars nm = chars name) es)))"
proof (induction es arbitrary: out)
  case Nil
  then show ?case by simp
next
  case (Cons x es)
  obtain i nm where x: "x = (i, nm)" by (cases x)
  have s: "k_streq (cstr name) (cstr nm) = Some (chars name = chars nm)"
    unfolding k_streq_def using streq_from_shift [of "cstr name" 0 name "cstr nm" nm] by simp
  show ?case using Cons [of i] Cons [of out] by (auto simp: x s)
qed

lemma dir_entries_bytes:
  assumes "is_dir (ndata nd)" "node_ok d nd" "node_bytes d nd = concat (map dir_enc es)"
    "\<forall>x\<in>set es. dir_wf x"
  shows "dir_entries d nd = Some (Inr (map dir_item es))"
  unfolding dir_entries_def using assms(1) dir_loop_entries [OF assms(2), of "[]" es 0 "[]"] assms(3,4)
  by simp

lemma node_find_bytes:
  assumes "is_dir (ndata nd)" "node_ok d nd" "node_bytes d nd = concat (map dir_enc es)"
    "\<forall>x\<in>set es. dir_wf x"
  shows "node_find d nd name =
    Some (Inr (last (0 # map fst (filter (\<lambda>(i, nm). chars nm = chars name) (map dir_item es)))))"
  unfolding node_find_def dir_entries_bytes [OF assms] obind_simps find_in_last by simp

section \<open>Paths\<close>

text \<open>The components of a path and the walk along them.\<close>

function components :: "u8 list \<Rightarrow> u8 list list" where
  "components [] = []"
| "components (c # cs) =
     (if c = slash then components cs
      else takeWhile (\<lambda>x. x \<noteq> slash) (c # cs) # components (dropWhile (\<lambda>x. x \<noteq> slash) (c # cs)))"
  by pat_completeness auto
termination
proof (relation "measure length")
  fix c :: u8 and cs :: "u8 list"
  assume "c \<noteq> slash"
  then have "dropWhile (\<lambda>x. x \<noteq> slash) (c # cs) = dropWhile (\<lambda>x. x \<noteq> slash) cs" by simp
  moreover have "length (dropWhile (\<lambda>x. x \<noteq> slash) cs) \<le> length cs" by (rule length_dropWhile_le)
  ultimately show "(dropWhile (\<lambda>x. x \<noteq> slash) (c # cs), c # cs) \<in> measure length" by simp
qed simp_all

primrec walk :: "(nat \<Rightarrow> u8) \<Rightarrow> ext2 \<Rightarrow> node \<Rightarrow> u8 list list \<Rightarrow> node option res option" where
  "walk d e nd [] = Some (Inr (Some nd))"
| "walk d e nd (p # ps) =
     (if 256 < length p then Some (Inl Panic)
      else obind (node_find d nd p) (\<lambda>n.
        if n = 0 then Some (Inr None)
        else obind (get_node d e n) (\<lambda>nd'. walk d e nd' ps)))"

text \<open>The rest of a terminated path from an index on.\<close>

definition at_path :: "cmem \<Rightarrow> nat \<Rightarrow> u8 list \<Rightarrow> bool" where
  "at_path path i cs \<longleftrightarrow> (\<forall>k \<le> length cs. path (i + k) = cstr cs k) \<and> 0 \<notin> set cs"

lemma at_path_cstr: "0 \<notin> set cs \<Longrightarrow> at_path (cstr cs) 0 cs"
  by (simp add: at_path_def)

lemma at_path_Nil: "at_path path i [] \<Longrightarrow> path i = 0"
  by (auto simp: at_path_def)

lemma at_path_Cons:
  assumes "at_path path i (c # cs)"
  shows "path i = c \<and> c \<noteq> 0 \<and> at_path path (Suc i) cs"
proof -
  have a: "path (i + k) = cstr (c # cs) k" if "k \<le> Suc (length cs)" for k
    using assms that by (simp add: at_path_def)
  have "path i = c" using a [of 0] by simp
  moreover have "path (Suc i + k) = cstr cs k" if "k \<le> length cs" for k using a [of "Suc k"] that by simp
  ultimately show ?thesis using assms by (simp add: at_path_def)
qed

lemma skip_slashes_at:
  "at_path path i cs \<Longrightarrow>
   \<exists>j. skip_slashes path i = Some j \<and> at_path path j (dropWhile (\<lambda>c. c = slash) cs)"
proof (induction cs arbitrary: i)
  case Nil
  then have "path i = 0" by (rule at_path_Nil)
  then show ?case using Nil by (subst skip_slashes.simps) (simp add: slash_def)
next
  case (Cons c cs)
  note c = at_path_Cons [OF Cons.prems]
  show ?case
  proof (cases "c = slash")
    case True
    obtain j where "skip_slashes path (Suc i) = Some j" "at_path path j (dropWhile (\<lambda>c. c = slash) cs)"
      using Cons.IH c by blast
    then show ?thesis using True c by (subst skip_slashes.simps) simp
  next
    case False
    then show ?thesis using c Cons.prems by (subst skip_slashes.simps) simp
  qed
qed

lemma take_part_at:
  "at_path path i cs \<Longrightarrow>
   (let p = acc @ takeWhile (\<lambda>x. x \<noteq> slash) cs in
    if length p \<le> 256 \<or> length acc = length p
    then \<exists>j. take_part path i acc = Some (Inr (j, p)) \<and> at_path path j (dropWhile (\<lambda>x. x \<noteq> slash) cs)
    else take_part path i acc = Some (Inl Panic))"
proof (induction cs arbitrary: i acc)
  case Nil
  then have "path i = 0" by (rule at_path_Nil)
  then show ?case using Nil by (subst take_part.simps) simp
next
  case (Cons c cs)
  note c = at_path_Cons [OF Cons.prems]
  show ?case
  proof (cases "c = slash")
    case True
    then show ?thesis using c Cons.prems by (subst take_part.simps) simp
  next
    case ns: False
    show ?thesis
    proof (cases "length acc < 256")
      case False
      then have "take_part path i acc = Some (Inl Panic)"
        using ns c by (subst take_part.simps) simp
      then show ?thesis using ns False by simp
    next
      case True
      then have "take_part path i acc = take_part path (Suc i) (acc @ [c])"
        using ns c by (subst take_part.simps) simp
      then show ?thesis using Cons.IH [of "Suc i" "acc @ [c]"] c ns True
        by (auto simp: Let_def split: if_splits)
    qed
  qed
qed

lemma components_skip: "components (dropWhile (\<lambda>c. c = slash) cs) = components cs"
  by (induction cs) auto

lemma path_loop_walk:
  "at_path path i cs \<Longrightarrow> path_loop d e path i (Some nd) = walk d e nd (components cs)"
proof (induction "length cs" arbitrary: cs i nd rule: less_induct)
  case less
  obtain j where j: "skip_slashes path i = Some j" "at_path path j (dropWhile (\<lambda>c. c = slash) cs)"
    using skip_slashes_at [OF less.prems] by blast
  define ds where "ds = dropWhile (\<lambda>c. c = slash) cs"
  have cds: "components cs = components ds" by (simp add: ds_def components_skip)
  show ?case
  proof (cases ds)
    case Nil
    then have "path j = 0" using at_path_Nil [of path j] j(2) [folded ds_def] by simp
    then show ?thesis using j(1) Nil cds by (subst path_loop.simps) simp
  next
    case (Cons c rest)
    have c: "path j = c" "c \<noteq> 0" using at_path_Cons [of path j c rest] j(2) Cons by (simp_all add: ds_def)
    have "dropWhile (\<lambda>c. c = slash) cs \<noteq> []" using Cons by (simp only: ds_def) simp
    from hd_dropWhile [OF this] have ns: "c \<noteq> slash" using Cons unfolding ds_def by simp
    let ?p = "takeWhile (\<lambda>x. x \<noteq> slash) ds" let ?r = "dropWhile (\<lambda>x. x \<noteq> slash) ds"
    have comp: "components cs = ?p # components ?r" using cds Cons ns by simp
    have short: "length ?r < length cs"
    proof -
      have "?r = dropWhile (\<lambda>x. x \<noteq> slash) rest" using Cons ns by simp
      then have "length ?r \<le> length rest" by (simp add: length_dropWhile_le)
      also have "length rest < length ds" using Cons by simp
      also have "length ds \<le> length cs" unfolding ds_def by (rule length_dropWhile_le)
      finally show ?thesis .
    qed
    have pne: "0 < length ?p" using Cons ns by simp
    have tp: "if length ?p \<le> 256
      then \<exists>k. take_part path j [] = Some (Inr (k, ?p)) \<and> at_path path k ?r
      else take_part path j [] = Some (Inl Panic)"
      using take_part_at [OF j(2), of "[]"] pne by (simp add: ds_def Let_def split: if_splits)
    show ?thesis
    proof (cases "length ?p \<le> 256")
      case False
      then show ?thesis using tp j(1) c comp by (subst path_loop.simps) simp
    next
      case True
      then obtain k where k: "take_part path j [] = Some (Inr (k, ?p))" "at_path path k ?r"
        using tp by auto
      have next1: "path_loop d e path k (Some nd') = walk d e nd' (components ?r)" for nd'
        by (rule less.hyps [OF short k(2)])
      show ?thesis using True j(1) c k(1) comp next1
        by (subst path_loop.simps)
           (auto simp: obind_def bind_eq_Some_conv split: option.splits sum.splits)
    qed
  qed
qed

section \<open>Finding an i-node\<close>

text \<open>Tables inside the disk and their i-nodes within the first 4 GB.\<close>

definition fs_ok :: "ext2 \<Rightarrow> bool" where
  "fs_ok e \<longleftrightarrow> 0 < unat (iNodesPerGroup e) \<and> length (iNodeTables e) = unat (nGroups e) \<and>
     (\<forall>t\<in>set (iNodeTables e). t \<le> numberOfBlocks e \<and>
        unat t * unat (blockSize e) + unat (iNodesPerGroup e) * unat (iNodeSize e) + 128 \<le> 0xFFFFFFFF)"

definition node_position :: "ext2 \<Rightarrow> u32 \<Rightarrow> nat" where
  "node_position e n =
     (let i = unat n - 1; ipg = unat (iNodesPerGroup e) in
      unat (iNodeTables e ! (i div ipg)) * unat (blockSize e) + (i mod ipg) * unat (iNodeSize e))"

lemma get_node_spec:
  assumes ok: "fs_ok e"
  shows "get_node d e n =
    (if n = 0 \<or> numberOfNodes e < n \<or> unat (nGroups e) \<le> (unat n - 1) div unat (iNodesPerGroup e)
     then Some (Inl Panic)
     else Some (Inr \<lparr>number = n, nblock_size = blockSize e,
       ndata = map d [node_position e n..<node_position e n + 128]\<rparr>))"
proof (cases "n = 0 \<or> numberOfNodes e < n")
  case True
  show ?thesis
  proof (cases "n = 0")
    case True
    then show ?thesis by (simp add: get_node_def)
  next
    case nz: False
    then have lt: "numberOfNodes e < n" using True by simp
    then have "\<not> n \<le> numberOfNodes e" by (simp only: not_le)
    then show ?thesis using nz lt by (simp add: get_node_def word_gt_0)
  qed
next
  case False
  let ?ipg = "iNodesPerGroup e" let ?i = "unat n - 1" let ?g = "?i div unat ?ipg" let ?k = "?i mod unat ?ipg"
  have n: "0 < n" "n \<le> numberOfNodes e" using False unfolding word_gt_0 de_Morgan_disj not_less by blast+
  then have "1 \<le> unat n" by (simp add: word_less_nat_alt)
  then have i: "unat (n - 1) = ?i" by (subst unat_sub) (simp_all add: word_le_nat_alt)
  have ipg: "?ipg \<noteq> 0" using ok by (auto simp: fs_ok_def)
  have g: "unat ((n - 1) div ?ipg) = ?g" by (simp add: unat_div i)
  have k: "unat ((n - 1) mod ?ipg) = ?k" by (simp add: unat_mod i)
  show ?thesis
  proof (cases "unat (nGroups e) \<le> ?g")
    case True
    then have "\<not> (n - 1) div ?ipg < nGroups e" by (simp add: word_less_nat_alt g)
    then show ?thesis using n ipg True False by (simp add: get_node_def)
  next
    case gl: False
    then have glt: "(n - 1) div ?ipg < nGroups e" by (simp add: word_less_nat_alt g)
    let ?t = "iNodeTables e ! ?g"
    have tin: "?t \<in> set (iNodeTables e)" using gl ok by (intro nth_mem) (simp add: fs_ok_def)
    have t: "?t \<le> numberOfBlocks e"
      "unat ?t * unat (blockSize e) + unat ?ipg * unat (iNodeSize e) + 128 \<le> 0xFFFFFFFF"
      using ok tin by (auto simp: fs_ok_def)
    have "?k \<le> unat ?ipg" using ok by (simp add: fs_ok_def less_imp_le)
    then have kk: "?k * unat (iNodeSize e) \<le> unat ?ipg * unat (iNodeSize e)" by (rule mult_le_mono1)
    have b: "unat ?t * unat (blockSize e) < 4294967296" "?k * unat (iNodeSize e) < 4294967296"
      "unat ?t * unat (blockSize e) + ?k * unat (iNodeSize e) + 128 \<le> 4294967295"
      using t(2) kk by linarith+
    have m1: "unat (?t * blockSize e) = unat ?t * unat (blockSize e)" by (rule unat_mult_u32 [OF b(1)])
    have m2: "unat ((n - 1) mod ?ipg * iNodeSize e) = ?k * unat (iNodeSize e)"
      using unat_mult_u32 [of "(n - 1) mod ?ipg" "iNodeSize e"] b(2) unfolding k .
    have "unat (?t * blockSize e) + unat ((n - 1) mod ?ipg * iNodeSize e) < 4294967296"
      unfolding m1 m2 using b(3) by linarith
    from unat_add_u32 [OF this]
    have off: "unat (?t * blockSize e + (n - 1) mod ?ipg * iNodeSize e) = node_position e n"
      unfolding m1 m2 by (simp add: node_position_def Let_def)
    have "node_position e n + 128 \<le> 4294967295" using b(3) by (simp add: node_position_def Let_def)
    then have rd: "ide_read_thing d (?t * blockSize e + (n - 1) mod ?ipg * iNodeSize e) 128 =
        Some (Inr (map d [node_position e n..<node_position e n + 128]))"
      using ide_read_thing_exact [of "?t * blockSize e + (n - 1) mod ?ipg * iNodeSize e" 128 d]
      unfolding off by simp
    show ?thesis
      using n ipg glt t(1) False gl rd
      by (simp add: get_node_def Let_def g sizeof_NodeData_def)
  qed
qed

section \<open>A small disk\<close>

text \<open>Blocks of 1 kB, i-nodes of 128 bytes in block 5; the root directory (i-node 2, data in block
  10) holds \<open>.\<close> and \<open>f\<close>; the file \<open>f\<close> (i-node 3, data in block 11) says
  \<open>hello\<close>.\<close>

definition demo_disk :: "nat \<Rightarrow> u8" where
  "demo_disk = (\<lambda>_. 0)
     (1024 := 16, 1028 := 64, 1057 := 0x20, 1064 := 16, 1112 := 128, 2056 := 5,
      5249 := 0x40, 5252 := 24, 5276 := 2, 5288 := 10,
      5377 := 0x80, 5380 := 5, 5404 := 2, 5416 := 11,
      10240 := 2, 10244 := 12, 10246 := 1, 10247 := 2, 10248 := 46,
      10252 := 3, 10256 := 12, 10258 := 1, 10259 := 1, 10260 := 102,
      11264 := 104, 11265 := 101, 11266 := 108, 11267 := 108, 11268 := 111)"

definition demo_fs :: ext2 where
  "demo_fs = \<lparr>blockSize = 1024, numberOfNodes = 16, numberOfBlocks = 64, iNodeSize = 128, nGroups = 1,
     iNodeTables = [5], iNodesPerGroup = 16\<rparr>"

definition demo_root :: node where
  "demo_root = \<lparr>number = 2, nblock_size = 1024, ndata = map demo_disk [5248..<5248 + 128]\<rparr>"

definition demo_file :: node where
  "demo_file = \<lparr>number = 3, nblock_size = 1024, ndata = map demo_disk [5376..<5376 + 128]\<rparr>"

lemma demo_fs_ok: "fs_ok demo_fs"
  by (simp add: fs_ok_def demo_fs_def)

lemmas node_fields = node_size_def nd_size_low_def nd_n_sectors_def nd_direct_def nd_indirect_1_def
  is_dir_def get_type_def nd_mode_def bytes32_def bytes16_def u32_le_def u16_le_def

lemma demo_field: "k < 128 \<Longrightarrow> map demo_disk [a..<a + 128] ! k = demo_disk (a + k)"
  by simp

lemma demo_root_facts:
  "is_dir (ndata demo_root)" "unat (node_size demo_root) = 24" "nd_n_sectors (ndata demo_root) = 2"
  "nd_direct (ndata demo_root) 0 = 10" "nblock_size demo_root = 1024"
  unfolding demo_root_def node.simps node_fields
  by (simp_all add: demo_field del: upt_rec_numeral) (simp_all add: demo_disk_def)

lemma demo_file_facts:
  "unat (node_size demo_file) = 5" "nd_n_sectors (ndata demo_file) = 2"
  "nd_direct (ndata demo_file) 0 = 11" "nblock_size demo_file = 1024"
  unfolding demo_file_def node.simps node_fields
  by (simp_all add: demo_field del: upt_rec_numeral) (simp_all add: demo_disk_def)

lemma demo_node_ok: "node_ok demo_disk demo_root" "node_ok demo_disk demo_file"
  by (auto simp: node_ok_def node_block_ok_def node_blk_def demo_root_facts demo_file_facts Let_def)

lemma demo_content:
  "i < 1024 \<Longrightarrow> node_content demo_disk demo_root i = demo_disk (10240 + i)"
  "i < 1024 \<Longrightarrow> node_content demo_disk demo_file i = demo_disk (11264 + i)"
  by (simp_all add: node_content_def node_blk_def demo_root_facts demo_file_facts)

lemma demo_file_bytes: "node_bytes demo_disk demo_file = [104, 101, 108, 108, 111]"
proof -
  have "[0..<5] = [0, 1, 2, 3, 4 :: nat]" by (simp add: upt_conv_Cons)
  then show ?thesis
    by (simp add: node_bytes_def demo_content demo_file_facts) (simp add: demo_disk_def)
qed

definition demo_entries :: "(u32 \<times> u8 \<times> u8 list \<times> u8 list) list" where
  "demo_entries = [(2, 2, [46], [0, 0, 0]), (3, 1, [102], [0, 0, 0])]"

lemma demo_root_bytes: "node_bytes demo_disk demo_root = concat (map dir_enc demo_entries)"
proof -
  have "[0..<24] = [0, 1, 2, 3, 4, 5, 6, 7, 8, 9, 10, 11, 12, 13, 14, 15, 16, 17, 18, 19, 20, 21, 22, 23 :: nat]"
    by (simp add: upt_conv_Cons)
  then have "node_bytes demo_disk demo_root =
      [2, 0, 0, 0, 12, 0, 1, 2, 46, 0, 0, 0, 3, 0, 0, 0, 12, 0, 1, 1, 102, 0, 0, 0]"
    by (simp add: node_bytes_def demo_content demo_root_facts) (simp add: demo_disk_def)
  then show ?thesis
    by (simp add: demo_entries_def dir_enc_def put32_def put16_def)
qed

lemma demo_entries_wf: "\<forall>x\<in>set demo_entries. dir_wf x"
  by (simp add: demo_entries_def dir_wf_def)

lemma demo_find:
  "node_find demo_disk demo_root [46] = Some (Inr 2)" "node_find demo_disk demo_root [102] = Some (Inr 3)"
  unfolding node_find_bytes [OF demo_root_facts(1) demo_node_ok(1) demo_root_bytes demo_entries_wf]
  by (simp_all add: demo_entries_def dir_item_def chars_def)

lemma demo_get:
  "get_node demo_disk demo_fs 2 = Some (Inr demo_root)" "get_node demo_disk demo_fs 3 = Some (Inr demo_file)"
  unfolding get_node_spec [OF demo_fs_ok]
  by (simp_all add: demo_fs_def demo_root_def demo_file_def node_position_def Let_def del: upt_rec_numeral)

section \<open>Mounting\<close>

lemma unat_shift_1: "n < 32 \<Longrightarrow> unat (push_bit n 1 :: u32) = 2 ^ n"
proof -
  assume n: "n < 32"
  then have "(2 :: nat) ^ n < 2 ^ 32" by (intro power_strict_increasing) simp_all
  moreover have "unat (push_bit n 1 :: u32) = take_bit 32 (push_bit n 1)"
    by (subst unsigned_push_bit_eq) simp_all
  ultimately show ?thesis by (simp only: push_bit_eq_mult take_bit_nat_eq_self mult_1)
qed

lemma of_nat_unat_eq: "unat w = n \<Longrightarrow> w = of_nat n"
  by (erule subst) simp

section \<open>Properties\<close>

text \<open>
  C5.  Reading a file returns its bytes.  For a node whose blocks lie on the disk (direct and through
  the first indirect block), \<open>read_all(offset, n)\<close> with an offset not past the size returns exactly
  the bytes of the file from the offset on, and their number, which is less than \<open>n\<close> only at the end
  of the file.
\<close>

theorem file_read_exact:
  assumes "node_ok d nd" and "unat offset \<le> unat (node_size nd)"
  shows "node_read_all d nd offset n =
    (let k = min (unat n) (unat (node_size nd) - unat offset) in
     Some (Inr (int k, take k (drop (unat offset) (node_bytes d nd)))))"
  using assms by (rule node_read_all_bytes)

lemma file_read_exact_witness: "node_read_all demo_disk demo_file 1 100 = Some (Inr (4, [101, 108, 108, 111]))"
  using file_read_exact [OF demo_node_ok(2), of 1 100] by (simp add: demo_file_facts demo_file_bytes)

text \<open>
  C29.  Reading a directory inverts its on-disk encoding.  When the bytes of a directory are the
  encodings of a list of records (any names of at most 255 bytes, any padding), \<open>entries\<close>
  calls back with exactly these records' i-node numbers and names, in order.
\<close>

theorem directory_roundtrip:
  assumes "is_dir (ndata nd)" "node_ok d nd" "node_bytes d nd = concat (map dir_enc es)"
    and "\<forall>x\<in>set es. dir_wf x"
  shows "dir_entries d nd = Some (Inr (map dir_item es))"
  using assms by (rule dir_entries_bytes)

lemma directory_roundtrip_witness: "dir_entries demo_disk demo_root = Some (Inr [(2, [46]), (3, [102])])"
  using directory_roundtrip [OF demo_root_facts(1) demo_node_ok(1) demo_root_bytes demo_entries_wf]
  by (simp add: demo_entries_def dir_item_def)

text \<open>
  \<open>Node::find\<close> returns the i-node number of the last record of the directory whose name is
  the one looked for, and 0 when no record has it.
\<close>

theorem node_find_last:
  assumes "is_dir (ndata nd)" "node_ok d nd" "node_bytes d nd = concat (map dir_enc es)"
    and "\<forall>x\<in>set es. dir_wf x"
  shows "node_find d nd name =
    Some (Inr (last (0 # map fst (filter (\<lambda>(i, nm). chars nm = chars name) (map dir_item es)))))"
  using assms by (rule node_find_bytes)

lemma node_find_last_witness:
  "node_find demo_disk demo_root [102] = Some (Inr 3) \<and> node_find demo_disk demo_root [103] = Some (Inr 0)"
  using node_find_last [OF demo_root_facts(1) demo_node_ok(1) demo_root_bytes demo_entries_wf, of "[102]"]
    node_find_last [OF demo_root_facts(1) demo_node_ok(1) demo_root_bytes demo_entries_wf, of "[103]"]
  by (simp add: demo_entries_def dir_item_def chars_def)

text \<open>
  C1.  Path lookup is a walk along the components.  For every terminated path, the character loop of
  \<open>Ext2::find\<close> does what a walk along the list of its non-empty components does: leading, doubled
  and trailing slashes do not matter, a component that is not found gives no node, and one of more
  than 256 bytes panics.
\<close>

theorem path_lookup_walks:
  assumes "0 \<notin> set cs" and "\<forall>k < length cs. path k = cs ! k" and "path (length cs) = 0"
  shows "ext2_find d e (Some nd) path = walk d e nd (components cs)"
proof -
  have "at_path path 0 cs" using assms by (auto simp: at_path_def cstr_def)
  then show ?thesis unfolding ext2_find_def by (rule path_loop_walk)
qed

lemma path_lookup_walks_witness:
  "ext2_find demo_disk demo_fs (Some demo_root) (cstr [47, 46, 47, 47, 102, 47]) = Some (Inr (Some demo_file))"
  using path_lookup_walks [of "[47, 46, 47, 47, 102, 47]" "cstr [47, 46, 47, 47, 102, 47]" demo_disk demo_fs demo_root]
  by (simp add: slash_def demo_find demo_get cstr_def nth_Cons')

text \<open>
  Finding an i-node.  Under a mounted system whose i-node tables lie on the disk,
  \<open>get_node n\<close> panics exactly for 0, a number above the node count or one beyond the last group,
  and otherwise returns the 128 bytes at the n-th slot of its group's table.
\<close>

theorem get_node_reads_slot:
  assumes "fs_ok e"
  shows "get_node d e n =
    (if n = 0 \<or> numberOfNodes e < n \<or> unat (nGroups e) \<le> (unat n - 1) div unat (iNodesPerGroup e)
     then Some (Inl Panic)
     else Some (Inr \<lparr>number = n, nblock_size = blockSize e,
       ndata = map d [node_position e n..<node_position e n + 128]\<rparr>))"
  using assms by (rule get_node_spec)

lemma get_node_reads_slot_witness:
  "get_node demo_disk demo_fs 3 = Some (Inr demo_file) \<and> get_node demo_disk demo_fs 17 = Some (Inl Panic)"
  using get_node_reads_slot [OF demo_fs_ok, of demo_disk 3] get_node_reads_slot [OF demo_fs_ok, of demo_disk 17]
  by (simp add: demo_fs_def demo_file_def node_position_def Let_def del: upt_rec_numeral)

text \<open>
  Mounting.  For a super block whose block size is at most \<open>2 ^ 30\<close>, with at least one block
  per group and a group table inside the disk, the constructor computes the block size, the group
  count rounded up and the i-node tables from the group table in the block behind the super block,
  without any wrap of its 32-bit arithmetic, and then reads i-node 2 as the root.
\<close>

theorem mount_reads_geometry:
  fixes d :: "nat \<Rightarrow> u8"
  defines "sb \<equiv> map d [1024..<1024 + 140]"
  defines "k \<equiv> unat (sb_log_block_size sb)" and "bpg \<equiv> unat (sb_blocks_per_group sb)"
    and "nb \<equiv> unat (sb_blocks_count sb)"
  defines "bs \<equiv> 1024 * 2 ^ k" and "g \<equiv> (nb + bpg - 1) div bpg"
  defines "t \<equiv> (1024 div bs + 1) * bs"
  assumes k: "k \<le> 20" and bpg: "0 < bpg" and wrap: "nb + bpg \<le> 2 ^ 32" and g: "g < 2 ^ 27"
    and fits: "t + 32 * g \<le> 0xFFFFFFFF"
  shows "ext2_mount d =
    (let e = \<lparr>blockSize = of_nat bs, numberOfNodes = sb_inodes_count sb,
          numberOfBlocks = sb_blocks_count sb, iNodeSize = ucast (sb_inode_size sb), nGroups = of_nat g,
          iNodeTables = map (bg_inode_table (map d [t..<t + 32 * g])) [0..<g],
          iNodesPerGroup = sb_inodes_per_group sb\<rparr>
     in obind (get_node d e 2) (\<lambda>root. Some (Inr (e, root))))"
proof -
  let ?bpg = "sb_blocks_per_group sb" let ?nb = "sb_blocks_count sb"
  let ?bsw = "push_bit (unat (sb_log_block_size sb + 10) mod 32) 1 :: u32"
  let ?gw = "(?nb + ?bpg - 1) div ?bpg"
  have rd: "ide_read_thing d 1024 sizeof_SuperBlock = Some (Inr sb)"
    using ide_read_thing_exact [of 1024 140 d] by (simp add: sizeof_SuperBlock_def sb_def)
  have "unat (sb_log_block_size sb + 10) = k + 10"
    using k by (subst unat_add_u32) (simp_all add: k_def)
  then have "unat ?bsw = 2 ^ (k + 10)" using k by (simp only: unat_shift_1) (simp add: unat_shift_1)
  then have "unat ?bsw = bs" by (simp add: bs_def power_add)
  then obtain bw where w: "?bsw = bw" and bsw: "unat bw = bs" by blast
  have bsw': "bw = of_nat bs" using bsw by (rule of_nat_unat_eq)
  have bpgw: "?bpg \<noteq> 0" using bpg by (auto simp: bpg_def)
  have "unat (?nb + ?bpg - 1) = nb + bpg - 1"
  proof -
    have e: "?nb + ?bpg - 1 = ?nb + (?bpg - 1)" by simp
    have "unat (?bpg - 1) = bpg - 1"
      using bpg by (subst unat_sub) (simp_all add: bpg_def word_le_nat_alt)
    then show ?thesis unfolding e using bpg wrap
      by (subst unat_add_u32) (simp_all add: nb_def)
  qed
  then have gw: "unat ?gw = g" by (simp add: unat_div g_def bpg_def)
  then have gw': "?gw = of_nat g" by (rule of_nat_unat_eq)
  have gb: "nb \<le> g * bpg"
  proof -
    have "(nb + bpg - 1) mod bpg < bpg" using bpg by simp
    moreover have "g * bpg + (nb + bpg - 1) mod bpg = nb + bpg - 1" by (simp add: g_def)
    ultimately show ?thesis by linarith
  qed
  have gm: "g * bpg \<le> nb + bpg - 1" by (simp add: g_def)
  have "unat (?gw * ?bpg) = g * bpg"
    using gm wrap bpg by (subst unat_mult_u32) (simp_all add: gw bpg_def [symmetric])
  then have a1: "?nb \<le> ?gw * ?bpg" using gb by (simp add: word_le_nat_alt nb_def)
  have a2: "?gw < 0x8000000" using g by (simp add: word_less_nat_alt gw)
  have sz: "unat (sizeof_BlockGroup * ?gw) = 32 * g"
    using g by (subst unat_mult_u32) (simp_all add: sizeof_BlockGroup_def gw)
  have tb: "unat ((1024 div bw + 1) * bw) = t"
  proof -
    have "unat (1024 div bw :: u32) = 1024 div bs" by (simp add: unat_div bsw)
    moreover have "1024 div bs < 4294967295" by (rule le_less_trans [OF div_le_dividend]) simp
    ultimately have "unat (1024 div bw + 1 :: u32) = 1024 div bs + 1"
      by (subst unat_add_u32) simp_all
    then show ?thesis using fits by (subst unat_mult_u32) (simp_all add: bsw t_def)
  qed
  have tab: "ide_read_all d ((1024 div bw + 1) * bw) (sizeof_BlockGroup * ?gw) =
      Some (Inr (int (32 * g), map d [t..<t + 32 * g]))"
  proof -
    have m: "min (32 * g) (0xFFFFFFFF - t) = 32 * g" using fits by linarith
    have "uint ((1024 div bw + 1) * bw) \<le> uint ide_size_in_bytes"
      unfolding uint_unat ide_size tb using fits by linarith
    from disk.bread_all_exact [OF this, of "sizeof_BlockGroup * ?gw" d]
    show ?thesis unfolding ide_read_all_def ide_size tb sz m by simp
  qed
  have cnt: "uint (sizeof_BlockGroup * ?gw) = int (32 * g)" by (simp only: uint_unat sz)
  show ?thesis
    unfolding ext2_mount_def rd obind_simps Let_def w tab prod.case cnt
    using bpgw a1 a2 gw gw' bsw' by simp
qed

lemma demo_super_fields:
  "sb_log_block_size (map demo_disk [1024..<1024 + 140]) = 0"
  "sb_blocks_per_group (map demo_disk [1024..<1024 + 140]) = 8192"
  "sb_blocks_count (map demo_disk [1024..<1024 + 140]) = 64"
  "sb_inodes_count (map demo_disk [1024..<1024 + 140]) = 16"
  "sb_inodes_per_group (map demo_disk [1024..<1024 + 140]) = 16"
  "sb_inode_size (map demo_disk [1024..<1024 + 140]) = 128"
  "bg_inode_table (map demo_disk [2048..<2048 + 32]) 0 = 5"
  unfolding sb_log_block_size_def sb_blocks_per_group_def sb_blocks_count_def sb_inodes_count_def
    sb_inodes_per_group_def sb_inode_size_def bg_inode_table_def bytes32_def bytes16_def u32_le_def u16_le_def
  by (simp_all add: demo_disk_def del: upt_rec_numeral)

lemma mount_reads_geometry_witness: "ext2_mount demo_disk = Some (Inr (demo_fs, demo_root))"
  using mount_reads_geometry [of demo_disk] demo_super_fields
  by (simp add: demo_fs_def [symmetric] demo_get Let_def del: upt_rec_numeral)

end
