(* ===== verification/Snprintf.thy ===== *)
theory Snprintf
  imports Lib_K Bytes
begin

text \<open>
  Formatted output, \<open>kernel/snprintf.cc\<close>.  \<open>long\<close>, \<open>int\<close>, \<open>unsigned\<close> and pointers are 32 bits wide;
  signed numbers are integers, with the wrap \<open>s32\<close> of the processor where they can overflow, unsigned
  ones words.  The arguments are the words on the stack, lowest first: a \<open>double\<close> takes two and a
  \<open>long double\<close> three of them, and reading past the last one is \<open>OutOfRange\<close>.  The stream is the list
  of the characters put into it.  Strings are read from (and \<open>%n\<close> writes to) the byte memory; the
  format itself lies where \<open>%n\<close> does not write.  Long double arithmetic is done by the floating-point
  unit, a parameter.
\<close>

section \<open>Characters and flags\<close>

text \<open>Blank, \<open>0\<close>, \<open>-\<close>, \<open>+\<close> and \<open>.\<close>.\<close>

definition c_space :: u8 where "c_space = 32"
definition c_zero :: u8 where "c_zero = 48"
definition c_minus :: u8 where "c_minus = 45"
definition c_plus :: u8 where "c_plus = 43"
definition c_dot :: u8 where "c_dot = 46"

datatype dp_state = DP_S_DEFAULT | DP_S_FLAGS | DP_S_MIN | DP_S_DOT | DP_S_MAX | DP_S_MOD
  | DP_S_CONV | DP_S_DONE

definition DP_F_MINUS :: u32 where "DP_F_MINUS = push_bit 0 1"
definition DP_F_PLUS :: u32 where "DP_F_PLUS = push_bit 1 1"
definition DP_F_SPACE :: u32 where "DP_F_SPACE = push_bit 2 1"
definition DP_F_NUM :: u32 where "DP_F_NUM = push_bit 3 1"
definition DP_F_ZERO :: u32 where "DP_F_ZERO = push_bit 4 1"
definition DP_F_UP :: u32 where "DP_F_UP = push_bit 5 1"
definition DP_F_UNSIGNED :: u32 where "DP_F_UNSIGNED = push_bit 6 1"

definition DP_C_SHORT :: nat where "DP_C_SHORT = 1"
definition DP_C_LONG :: nat where "DP_C_LONG = 2"
definition DP_C_LDOUBLE :: nat where "DP_C_LDOUBLE = 3"

definition char_to_int :: "u8 \<Rightarrow> int" where "char_to_int p = sint p - 48"
definition MAX_c :: "int \<Rightarrow> int \<Rightarrow> int" where "MAX_c p q = (if p \<ge> q then p else q)"

section \<open>The stream\<close>

record out_st =
  o_chars :: "u8 list"
  currlen :: int
  o_mem :: byte_mem

definition dopr_outch :: "out_st \<Rightarrow> u8 \<Rightarrow> out_st" where
  "dopr_outch st c = st\<lparr>currlen := s32 (currlen st + 1), o_chars := o_chars st @ [c]\<rparr>"

text \<open>A loop that puts the same character while a counter is positive.\<close>

function put_n :: "int \<Rightarrow> u8 \<Rightarrow> out_st \<Rightarrow> out_st" where
  "put_n k c st = (if k > 0 then put_n (k - 1) c (dopr_outch st c) else st)"
  by pat_completeness auto
termination by (relation "measure (\<lambda>(k, _, _). nat k)") auto

declare put_n.simps [simp del]

section \<open>Strings\<close>

definition null_text :: "u8 list" where
  "null_text = [60, 78, 85, 76, 76, 62]"

text \<open>The three loops of \<open>fmtstr\<close>; each ends at the end of its padding or when \<open>max\<close>
  characters are out.\<close>

function pad_right :: "int \<Rightarrow> int \<Rightarrow> int \<Rightarrow> out_st \<Rightarrow> int \<times> int \<times> out_st" where
  "pad_right padlen cnt mx st =
     (if padlen > 0 \<and> cnt < mx then pad_right (padlen - 1) (cnt + 1) mx (dopr_outch st c_space)
      else (padlen, cnt, st))"
  by pat_completeness auto
termination by (relation "measure (\<lambda>(p, _, _, _). nat p)") auto

function put_str :: "cmem \<Rightarrow> nat \<Rightarrow> int \<Rightarrow> int \<Rightarrow> out_st \<Rightarrow> int \<times> out_st" where
  "put_str value i cnt mx st =
     (if value i \<noteq> 0 \<and> cnt < mx then put_str value (i + 1) (cnt + 1) mx (dopr_outch st (value i))
      else (cnt, st))"
  by pat_completeness auto
termination by (relation "measure (\<lambda>(_, _, c, m, _). nat (m - c))") auto

function pad_left :: "int \<Rightarrow> int \<Rightarrow> int \<Rightarrow> out_st \<Rightarrow> out_st" where
  "pad_left padlen cnt mx st =
     (if padlen < 0 \<and> cnt < mx then pad_left (padlen + 1) (cnt + 1) mx (dopr_outch st c_space)
      else st)"
  by pat_completeness auto
termination by (relation "measure (\<lambda>(p, _, _, _). nat (- p))") auto

declare pad_right.simps [simp del] put_str.simps [simp del] pad_left.simps [simp del]

definition fmtstr :: "out_st \<Rightarrow> u32 \<Rightarrow> u32 \<Rightarrow> int \<Rightarrow> int \<Rightarrow> out_st res option" where
  "fmtstr st value flags mn mx =
     (let str = (if value = 0 then cstr null_text else (\<lambda>i. o_mem st (value + of_nat i))) in
      Option.bind (strlen_from str 0) (\<lambda>n.
        let strln = s32 (int n);
            padlen = s32 (mn - strln);
            padlen = (if padlen < 0 then 0 else padlen);
            padlen = (if flags AND DP_F_MINUS \<noteq> 0 then - padlen else padlen);
            (padlen, cnt, st) = pad_right padlen 0 mx st;
            (cnt, st) = put_str str 0 cnt mx st
        in Some (Inr (pad_left padlen cnt mx st))))"

section \<open>Integers\<close>

definition digit_chars :: "bool \<Rightarrow> u8 list" where
  "digit_chars caps =
     [48, 49, 50, 51, 52, 53, 54, 55, 56, 57] @
     (if caps then [65, 66, 67, 68, 69, 70] else [97, 98, 99, 100, 101, 102])"

text \<open>\<open>convert[0 .. place]\<close>, least significant digit first.\<close>

function convert_loop :: "bool \<Rightarrow> u32 \<Rightarrow> u32 \<Rightarrow> u8 list \<Rightarrow> u8 list" where
  "convert_loop caps base uvalue convert =
     (let convert' = convert @ [digit_chars caps ! unat (uvalue mod base)];
          uvalue' = uvalue div base
      in if uvalue' \<noteq> 0 \<and> length convert' < 20 then convert_loop caps base uvalue' convert'
         else convert')"
  by pat_completeness auto
termination by (relation "measure (\<lambda>(_, _, _, c). 20 - length c)") auto

declare convert_loop.simps [simp del]

text \<open>The terminator at \<open>convert[place]\<close> overwrites a 20th digit.\<close>

definition cut_20 :: "u8 list \<Rightarrow> u8 list" where
  "cut_20 convert = (if length convert = 20 then take 19 convert else convert)"

primrec put_digits :: "u8 list \<Rightarrow> nat \<Rightarrow> out_st \<Rightarrow> out_st" where
  "put_digits convert 0 st = st"
| "put_digits convert (Suc place) st = put_digits convert place (dopr_outch st (convert ! place))"

definition fmtint :: "out_st \<Rightarrow> u32 \<Rightarrow> u32 \<Rightarrow> int \<Rightarrow> int \<Rightarrow> u32 \<Rightarrow> out_st" where
  "fmtint st value base mn mx flags =
     (let mx = (if mx < 0 then 0 else mx);
          (signvalue, uvalue) =
            (if flags AND DP_F_UNSIGNED = 0 then
               (if sint value < 0 then (c_minus, - value)
                else if flags AND DP_F_PLUS \<noteq> 0 then (c_plus, value)
                else if flags AND DP_F_SPACE \<noteq> 0 then (c_space, value)
                else (0, value))
             else (0, value));
          caps = (flags AND DP_F_UP \<noteq> 0);
          convert = cut_20 (convert_loop caps base uvalue []);
          place = int (length convert);
          zpadlen = s32 (mx - place);
          spadlen = s32 (mn - MAX_c mx place - (if signvalue \<noteq> 0 then 1 else 0));
          zpadlen = (if zpadlen < 0 then 0 else zpadlen);
          spadlen = (if spadlen < 0 then 0 else spadlen);
          (zpadlen, spadlen) =
            (if flags AND DP_F_ZERO \<noteq> 0 then (MAX_c zpadlen spadlen, 0) else (zpadlen, spadlen));
          spadlen = (if flags AND DP_F_MINUS \<noteq> 0 then - spadlen else spadlen);
          st = put_n spadlen c_space st;
          st = (if signvalue \<noteq> 0 then dopr_outch st signvalue else st);
          st = put_n zpadlen c_zero st;
          st = put_digits convert (length convert) st
      in put_n (- spadlen) c_space st)"

section \<open>Floating point\<close>

record 'r fpu =
  f_double :: "u32 \<Rightarrow> u32 \<Rightarrow> 'r"
  f_ldouble :: "u32 \<Rightarrow> u32 \<Rightarrow> u32 \<Rightarrow> 'r"
  f_int :: "int \<Rightarrow> 'r"
  f_half :: 'r
  f_neg :: "'r \<Rightarrow> 'r"
  f_mul :: "'r \<Rightarrow> 'r \<Rightarrow> 'r"
  f_sub :: "'r \<Rightarrow> 'r \<Rightarrow> 'r"
  f_less :: "'r \<Rightarrow> 'r \<Rightarrow> bool"
  f_ge :: "'r \<Rightarrow> 'r \<Rightarrow> bool"
  f_long :: "'r \<Rightarrow> int"

definition abs_val :: "'r fpu \<Rightarrow> 'r \<Rightarrow> 'r" where
  "abs_val F v = (if f_less F v (f_int F 0) then f_neg F v else v)"

text \<open>\<open>pow10\<close> is only called with an exponent from 0 to 9.\<close>

primrec pow10_loop :: "'r fpu \<Rightarrow> nat \<Rightarrow> 'r \<Rightarrow> 'r" where
  "pow10_loop F 0 result = result"
| "pow10_loop F (Suc exp) result = pow10_loop F exp (f_mul F result (f_int F 10))"

definition pow10 :: "'r fpu \<Rightarrow> int \<Rightarrow> 'r" where
  "pow10 F exp = pow10_loop F (nat exp) (f_int F 1)"

definition xround :: "'r fpu \<Rightarrow> 'r \<Rightarrow> int" where
  "xround F v =
     (let intpart = f_long F v; v = f_sub F v (f_int F intpart)
      in if f_ge F v (f_half F) then s32 (intpart + 1) else intpart)"

text \<open>The digits of a \<open>long\<close>; C's remainder of a negative number is negative, and is then an index
  before the digits.\<close>

function fp_convert :: "int \<Rightarrow> u8 list \<Rightarrow> u8 list res" where
  "fp_convert part convert =
     (if part < 0 \<and> part mod 10 \<noteq> 0 then Inl OutOfRange
      else let convert' = convert @ [digit_chars False ! nat (part mod 10)];
               part' = (if part < 0 then - ((- part) div 10) else part div 10)
        in if part' \<noteq> 0 \<and> length convert' < 20 then fp_convert part' convert'
           else Inr (cut_20 convert'))"
  by pat_completeness auto
termination by (relation "measure (\<lambda>(_, c). 20 - length c)") auto

declare fp_convert.simps [simp del]

definition fmtfp :: "'r fpu \<Rightarrow> out_st \<Rightarrow> 'r \<Rightarrow> int \<Rightarrow> int \<Rightarrow> u32 \<Rightarrow> out_st res" where
  "fmtfp F st fvalue mn mx flags =
     (let mx = (if mx < 0 then 6 else mx);
          ufvalue = abs_val F fvalue;
          signvalue =
            (if f_less F fvalue (f_int F 0) then c_minus
             else if flags AND DP_F_PLUS \<noteq> 0 then c_plus
             else if flags AND DP_F_SPACE \<noteq> 0 then c_space else 0);
          intpart = f_long F ufvalue;
          mx = (if mx > 9 then 9 else mx);
          fracpart = xround F (f_mul F (pow10 F mx) (f_sub F ufvalue (f_int F intpart)));
          (intpart, fracpart) =
            (if f_ge F (f_int F fracpart) (pow10 F mx)
             then (s32 (intpart + 1), f_long F (f_sub F (f_int F fracpart) (pow10 F mx)))
             else (intpart, fracpart))
      in rbind (fp_convert intpart []) (\<lambda>iconvert.
         rbind (fp_convert fracpart []) (\<lambda>fconvert.
         let iplace = int (length iconvert);
             fplace = int (length fconvert);
             padlen = s32 (mn - iplace - mx - 1 - (if signvalue \<noteq> 0 then 1 else 0));
             zpadlen = mx - fplace;
             zpadlen = (if zpadlen < 0 then 0 else zpadlen);
             padlen = (if padlen < 0 then 0 else padlen);
             padlen = (if flags AND DP_F_MINUS \<noteq> 0 then - padlen else padlen);
             (st, signvalue, padlen) =
               (if flags AND DP_F_ZERO \<noteq> 0 \<and> padlen > 0 then
                  (let (st, padlen, signvalue) =
                         (if signvalue \<noteq> 0 then (dopr_outch st signvalue, padlen - 1, 0)
                          else (st, padlen, signvalue))
                   in (put_n padlen c_zero st, signvalue, 0))
                else (st, signvalue, padlen));
             st = put_n padlen c_space st;
             padlen = (if padlen > 0 then 0 else padlen);
             st = (if signvalue \<noteq> 0 then dopr_outch st signvalue else st);
             st = put_digits iconvert (length iconvert) st;
             st = (if mx > 0 then put_digits fconvert (length fconvert) (dopr_outch st c_dot) else st);
             st = put_n zpadlen c_zero st
         in Inr (put_n (- padlen) c_space st))))"

section \<open>The format\<close>

record dopr_st =
  ch :: u8
  fpos :: nat
  dstate :: dp_state
  dmin :: int
  dmax :: int
  dflags :: u32
  dcflags :: nat
  va :: "u32 list"
  ost :: out_st

text \<open>\<open>ch = *format++\<close>.\<close>

definition next_ch :: "cmem \<Rightarrow> dopr_st \<Rightarrow> dopr_st" where
  "next_ch fmt d = d\<lparr>ch := fmt (fpos d), fpos := fpos d + 1\<rparr>"

text \<open>\<open>va_arg\<close> of a word-sized type.\<close>

definition va_word :: "dopr_st \<Rightarrow> (u32 \<times> dopr_st) res" where
  "va_word d = (case va d of [] \<Rightarrow> Inl OutOfRange | w # ws \<Rightarrow> Inr (w, d\<lparr>va := ws\<rparr>))"

definition va_real :: "'r fpu \<Rightarrow> dopr_st \<Rightarrow> ('r \<times> dopr_st) res" where
  "va_real F d =
     rbind (va_word d) (\<lambda>(a, d).
     rbind (va_word d) (\<lambda>(b, d).
       if dcflags d = DP_C_LDOUBLE
       then rbind (va_word d) (\<lambda>(c, d). Inr (f_ldouble F a b c, d))
       else Inr (f_double F a b, d)))"

definition dp_default :: "cmem \<Rightarrow> dopr_st \<Rightarrow> dopr_st" where
  "dp_default fmt d =
     next_ch fmt (if ch d = 37 then d\<lparr>dstate := DP_S_FLAGS\<rparr> else d\<lparr>ost := dopr_outch (ost d) (ch d)\<rparr>)"

definition dp_flags :: "cmem \<Rightarrow> dopr_st \<Rightarrow> dopr_st" where
  "dp_flags fmt d =
     (if ch d = c_minus then next_ch fmt (d\<lparr>dflags := dflags d OR DP_F_MINUS\<rparr>)
      else if ch d = c_plus then next_ch fmt (d\<lparr>dflags := dflags d OR DP_F_PLUS\<rparr>)
      else if ch d = c_space then next_ch fmt (d\<lparr>dflags := dflags d OR DP_F_SPACE\<rparr>)
      else if ch d = 35 then next_ch fmt (d\<lparr>dflags := dflags d OR DP_F_NUM\<rparr>)
      else if ch d = c_zero then next_ch fmt (d\<lparr>dflags := dflags d OR DP_F_ZERO\<rparr>)
      else d\<lparr>dstate := DP_S_MIN\<rparr>)"

definition dp_min :: "cmem \<Rightarrow> dopr_st \<Rightarrow> dopr_st res" where
  "dp_min fmt d =
     (if k_isdigit (sint (ch d)) then
        Inr (next_ch fmt (d\<lparr>dmin := s32 (10 * dmin d + char_to_int (ch d))\<rparr>))
      else if ch d = 42 then
        rbind (va_word d) (\<lambda>(w, d). Inr ((next_ch fmt (d\<lparr>dmin := sint w\<rparr>))\<lparr>dstate := DP_S_DOT\<rparr>))
      else Inr (d\<lparr>dstate := DP_S_DOT\<rparr>))"

definition dp_dot :: "cmem \<Rightarrow> dopr_st \<Rightarrow> dopr_st" where
  "dp_dot fmt d =
     (if ch d = c_dot then next_ch fmt (d\<lparr>dstate := DP_S_MAX\<rparr>) else d\<lparr>dstate := DP_S_MOD\<rparr>)"

definition dp_max :: "cmem \<Rightarrow> dopr_st \<Rightarrow> dopr_st res" where
  "dp_max fmt d =
     (if k_isdigit (sint (ch d)) then
        (let mx = (if dmax d < 0 then 0 else dmax d)
         in Inr (next_ch fmt (d\<lparr>dmax := s32 (10 * mx + char_to_int (ch d))\<rparr>)))
      else if ch d = 42 then
        rbind (va_word d) (\<lambda>(w, d). Inr ((next_ch fmt (d\<lparr>dmax := sint w\<rparr>))\<lparr>dstate := DP_S_MOD\<rparr>))
      else Inr (d\<lparr>dstate := DP_S_MOD\<rparr>))"

definition dp_mod :: "cmem \<Rightarrow> dopr_st \<Rightarrow> dopr_st" where
  "dp_mod fmt d =
     (let d = (if ch d = 104 then next_ch fmt (d\<lparr>dcflags := DP_C_SHORT\<rparr>)
               else if ch d = 108 then next_ch fmt (d\<lparr>dcflags := DP_C_LONG\<rparr>)
               else if ch d = 76 then next_ch fmt (d\<lparr>dcflags := DP_C_LDOUBLE\<rparr>)
               else d)
      in d\<lparr>dstate := DP_S_CONV\<rparr>)"

text \<open>The switch of the conversion state.\<close>

definition conv_int :: "dopr_st \<Rightarrow> u32 \<Rightarrow> u32 \<Rightarrow> dopr_st res" where
  "conv_int d base extra =
     (let d = d\<lparr>dflags := dflags d OR extra\<rparr> in
      rbind (va_word d) (\<lambda>(value, d).
        Inr (d\<lparr>ost := fmtint (ost d) value base (dmin d) (dmax d) (dflags d)\<rparr>)))"

definition store_n :: "byte_mem \<Rightarrow> nat \<Rightarrow> u32 \<Rightarrow> int \<Rightarrow> byte_mem" where
  "store_n m cflags p v =
     (let bs = put32 (of_int v) in
      if cflags = DP_C_SHORT then m(p := bs ! 0, p + 1 := bs ! 1)
      else m(p := bs ! 0, p + 1 := bs ! 1, p + 2 := bs ! 2, p + 3 := bs ! 3))"

definition conv_switch :: "'r fpu \<Rightarrow> int \<Rightarrow> cmem \<Rightarrow> dopr_st \<Rightarrow> dopr_st res option" where
  "conv_switch F maxlen fmt d =
     (if ch d = 100 \<or> ch d = 105 then Some (conv_int d 10 0)
      else if ch d = 111 then Some (conv_int d 8 DP_F_UNSIGNED)
      else if ch d = 117 then Some (conv_int d 10 DP_F_UNSIGNED)
      else if ch d = 88 then Some (conv_int d 16 (DP_F_UP OR DP_F_UNSIGNED))
      else if ch d = 120 then Some (conv_int d 16 DP_F_UNSIGNED)
      else if ch d = 102 then
        Some (rbind (va_real F d) (\<lambda>(fvalue, d).
              rbind (fmtfp F (ost d) fvalue (dmin d) (dmax d) (dflags d)) (\<lambda>st. Inr (d\<lparr>ost := st\<rparr>))))
      else if ch d = 69 \<or> ch d = 71 then
        Some (rbind (va_real F (d\<lparr>dflags := dflags d OR DP_F_UP\<rparr>)) (\<lambda>(fvalue, d). Inr d))
      else if ch d = 101 \<or> ch d = 103 then
        Some (rbind (va_real F d) (\<lambda>(fvalue, d). Inr d))
      else if ch d = 99 then
        Some (rbind (va_word d) (\<lambda>(w, d). Inr (d\<lparr>ost := dopr_outch (ost d) (ucast w)\<rparr>)))
      else if ch d = 115 then
        obind (Some (va_word d)) (\<lambda>(strvalue, d).
          let d = (if dmax d < 0 then d\<lparr>dmax := maxlen\<rparr> else d) in
          obind (fmtstr (ost d) strvalue (dflags d) (dmin d) (dmax d)) (\<lambda>st. Some (Inr (d\<lparr>ost := st\<rparr>))))
      else if ch d = 112 then Some (conv_int d 16 0)
      else if ch d = 110 then
        Some (rbind (va_word d) (\<lambda>(num, d).
          if num = 0 then Inl NullDeref
          else Inr (d\<lparr>ost := (ost d)\<lparr>o_mem := store_n (o_mem (ost d)) (dcflags d) num (currlen (ost d))\<rparr>\<rparr>)))
      else if ch d = 37 then Some (Inr (d\<lparr>ost := dopr_outch (ost d) (ch d)\<rparr>))
      else if ch d = 119 then Some (Inr (next_ch fmt d))
      else Some (Inr d))"

definition dp_conv :: "'r fpu \<Rightarrow> int \<Rightarrow> cmem \<Rightarrow> dopr_st \<Rightarrow> dopr_st res option" where
  "dp_conv F maxlen fmt d =
     obind (conv_switch F maxlen fmt d) (\<lambda>d.
       Some (Inr ((next_ch fmt d)\<lparr>dstate := DP_S_DEFAULT, dflags := 0, dcflags := 0, dmin := 0,
                    dmax := -1\<rparr>)))"

definition dopr_step :: "'r fpu \<Rightarrow> int \<Rightarrow> cmem \<Rightarrow> dopr_st \<Rightarrow> dopr_st res option" where
  "dopr_step F maxlen fmt d =
     (case dstate d of
        DP_S_DEFAULT \<Rightarrow> Some (Inr (dp_default fmt d))
      | DP_S_FLAGS \<Rightarrow> Some (Inr (dp_flags fmt d))
      | DP_S_MIN \<Rightarrow> Some (dp_min fmt d)
      | DP_S_DOT \<Rightarrow> Some (Inr (dp_dot fmt d))
      | DP_S_MAX \<Rightarrow> Some (dp_max fmt d)
      | DP_S_MOD \<Rightarrow> Some (Inr (dp_mod fmt d))
      | DP_S_CONV \<Rightarrow> dp_conv F maxlen fmt d
      | DP_S_DONE \<Rightarrow> Some (Inr d))"

partial_function (option) dopr_loop ::
    "'r fpu \<Rightarrow> int \<Rightarrow> cmem \<Rightarrow> dopr_st \<Rightarrow> dopr_st res option" where
  "dopr_loop F maxlen fmt d =
     (if dstate d = DP_S_DONE then Some (Inr d)
      else (case dopr_step F maxlen fmt
                   (if ch d = 0 \<or> currlen (ost d) \<ge> maxlen then d\<lparr>dstate := DP_S_DONE\<rparr> else d) of
              None \<Rightarrow> None
            | Some (Inl e) \<Rightarrow> Some (Inl e)
            | Some (Inr d') \<Rightarrow> dopr_loop F maxlen fmt d'))"

declare dopr_loop.simps [code]

definition dopr :: "'r fpu \<Rightarrow> (u8 list \<times> byte_mem) \<Rightarrow> int \<Rightarrow> cmem \<Rightarrow> u32 list \<Rightarrow> (u8 list \<times> byte_mem) res option" where
  "dopr F sink maxlen fmt args =
     obind (dopr_loop F maxlen fmt
       (next_ch fmt \<lparr>ch = 0, fpos = 0, dstate = DP_S_DEFAULT, dmin = 0, dmax = -1, dflags = 0,
          dcflags = 0, va = args, ost = \<lparr>o_chars = fst sink, currlen = 0, o_mem = snd sink\<rparr>\<rparr>))
     (\<lambda>d. Some (Inr (o_chars (ost d), o_mem (ost d))))"

definition k_vsnprintf :: "'r fpu \<Rightarrow> (u8 list \<times> byte_mem) \<Rightarrow> int \<Rightarrow> cmem \<Rightarrow> u32 list \<Rightarrow> (u8 list \<times> byte_mem) res option" where
  "k_vsnprintf F buffer maxlen fmt args = dopr F buffer maxlen fmt args"

definition k_snprintf :: "'r fpu \<Rightarrow> (u8 list \<times> byte_mem) \<Rightarrow> int \<Rightarrow> cmem \<Rightarrow> u32 list \<Rightarrow> (u8 list \<times> byte_mem) res option" where
  "k_snprintf F buffer maxlen fmt args = k_vsnprintf F buffer maxlen fmt args"

end
