(* ===== verification/Snprintf_Correct.thy ===== *)
theory Snprintf_Correct
  imports Snprintf
begin

text \<open>
  What the formatter prints: the text of a string and of a number, and the state machine of
  \<open>dopr\<close> as the interpreter of a grammar of directives.
\<close>

section \<open>Putting characters\<close>

definition emit :: "out_st \<Rightarrow> u8 list \<Rightarrow> out_st" where
  "emit st cs = foldl dopr_outch st cs"

lemma emit_simps [simp]:
  "emit st [] = st" "emit st (c # cs) = emit (dopr_outch st c) cs" "emit (emit st cs) ds = emit st (cs @ ds)"
  by (simp_all add: emit_def)

lemma outch_emit [simp]: "dopr_outch (emit st cs) c = emit st (cs @ [c])"
  by (simp add: emit_def)

lemma o_chars_emit [simp]: "o_chars (emit st cs) = o_chars st @ cs"
  by (induction cs arbitrary: st) (simp_all add: dopr_outch_def)

lemma o_mem_emit [simp]: "o_mem (emit st cs) = o_mem st"
  by (induction cs arbitrary: st) (simp_all add: dopr_outch_def)

lemma put_n_emit: "put_n k c st = emit st (replicate (nat k) c)"
proof (induction k c st rule: put_n.induct)
  case (1 k c st)
  show ?case
  proof (cases "k > 0")
    case True
    then have "nat k = Suc (nat (k - 1))" by simp
    then show ?thesis using 1 True by (subst put_n.simps) simp
  qed (subst put_n.simps, simp)
qed

lemma put_digits_emit: "n \<le> length cs \<Longrightarrow> put_digits cs n st = emit st (rev (take n cs))"
  by (induction n arbitrary: st) (simp_all add: take_Suc_conv_app_nth)

section \<open>Strings\<close>

lemma pad_right_emit:
  "pad_right p c m st =
    (let k = min (nat p) (nat (m - c)) in (p - int k, c + int k, emit st (replicate k c_space)))"
proof (induction p c m st rule: pad_right.induct)
  case (1 p c m st)
  show ?case
  proof (cases "p > 0 \<and> c < m")
    case True
    then have "min (nat p) (nat (m - c)) = Suc (min (nat (p - 1)) (nat (m - (c + 1))))" by linarith
    then show ?thesis using 1 True by (subst pad_right.simps) (simp add: Let_def)
  next
    case False
    then have "min (nat p) (nat (m - c)) = 0" by linarith
    then show ?thesis using False by (subst pad_right.simps) (auto simp: Let_def)
  qed
qed

lemma pad_left_emit:
  "pad_left p c m st = emit st (replicate (min (nat (- p)) (nat (m - c))) c_space)"
proof (induction p c m st rule: pad_left.induct)
  case (1 p c m st)
  show ?case
  proof (cases "p < 0 \<and> c < m")
    case True
    then have "min (nat (- p)) (nat (m - c)) = Suc (min (nat (- (p + 1))) (nat (m - (c + 1))))" by linarith
    then show ?thesis using 1 True by (subst pad_left.simps) simp
  next
    case False
    then have "min (nat (- p)) (nat (m - c)) = 0" by linarith
    then show ?thesis using False by (subst pad_left.simps) auto
  qed
qed

lemma put_str_emit:
  "(\<And>k. value (i + k) = cstr cs k) \<Longrightarrow> 0 \<notin> set cs \<Longrightarrow>
   put_str value i c m st =
    (let k = min (length cs) (nat (m - c)) in (c + int k, emit st (take k cs)))"
proof (induction cs arbitrary: i c st)
  case Nil
  then have "value i = 0" using Nil(1) [of 0] by simp
  then show ?case by (subst put_str.simps) simp
next
  case (Cons x cs)
  have x: "value i = x" "x \<noteq> 0" using Cons.prems(1) [of 0] Cons.prems(2) by auto
  have r: "value (Suc i + k) = cstr cs k" for k using Cons.prems(1) [of "Suc k"] by simp
  show ?case
  proof (cases "c < m")
    case True
    then have "min (length (x # cs)) (nat (m - c)) = Suc (min (length cs) (nat (m - (c + 1))))" by simp
    then show ?thesis using Cons.IH [OF r] Cons.prems(2) x True
      by (subst put_str.simps) (simp add: Let_def)
  next
    case False
    then show ?thesis by (subst put_str.simps) simp
  qed
qed

lemma take_min_length: "take (min (length xs) n) xs = take n xs"
  by (simp add: min_def)

text \<open>The string a pointer names.\<close>

definition string_at :: "byte_mem \<Rightarrow> u32 \<Rightarrow> u8 list \<Rightarrow> bool" where
  "string_at m p cs \<longleftrightarrow>
     (if p = 0 then cs = null_text else \<forall>k. m (p + of_nat k) = cstr cs k) \<and> 0 \<notin> set cs"

lemma chars_id: "0 \<notin> set cs \<Longrightarrow> chars cs = cs"
  unfolding chars_def by (rule takeWhile_eq_all_conv [THEN iffD2]) metis

definition str_text :: "u8 list \<Rightarrow> u32 \<Rightarrow> int \<Rightarrow> int \<Rightarrow> u8 list" where
  "str_text cs flags mn mx =
     (let pad = replicate (nat mn - length cs) c_space in
      take (nat mx) (if flags AND DP_F_MINUS \<noteq> 0 then cs @ pad else pad @ cs))"

lemma fmtstr_emit:
  assumes s: "string_at (o_mem st) value cs" and len: "length cs < 2 ^ 31"
    and mn: "0 \<le> mn" "mn < 2 ^ 31"
  shows "fmtstr st value flags mn mx = Some (Inr (emit st (str_text cs flags mn mx)))"
proof -
  let ?str = "if value = 0 then cstr null_text else (\<lambda>i. o_mem st (value + of_nat i))"
  have str: "?str (0 + i) = cstr cs i" for i using s by (auto simp: string_at_def)
  have nz: "0 \<notin> set cs" using s by (auto simp: string_at_def split: if_splits)
  have n: "strlen_from ?str 0 = Some (length cs)"
    using strlen_from_shift [of ?str 0 cs] str chars_id [OF nz] by simp
  have w: "s32 (int (length cs)) = int (length cs)" "s32 (mn - int (length cs)) = mn - int (length cs)"
    using len mn by (auto intro!: s32_id)
  define p where "p = nat mn - length cs"
  define q where "q = (if flags AND DP_F_MINUS \<noteq> 0 then - int p else int p)"
  define k1 where "k1 = min (nat q) (nat mx)"
  define k2 where "k2 = min (length cs) (nat (mx - int k1))"
  define k3 where "k3 = min (nat (- (q - int k1))) (nat (mx - (int k1 + int k2)))"
  have p: "(if mn - int (length cs) < 0 then 0 else mn - int (length cs)) = int p"
    unfolding p_def using mn by (simp add: of_nat_diff)
  have r: "pad_right q 0 mx st = (q - int k1, int k1, emit st (replicate k1 c_space))"
    unfolding pad_right_emit Let_def k1_def by simp
  have s: "put_str ?str 0 (int k1) mx t = (int k1 + int k2, emit t (take k2 cs))" for t
    using put_str_emit [OF str nz, of "int k1" mx t] by (simp add: Let_def k2_def)
  have "fmtstr st value flags mn mx =
      Some (Inr (emit st (replicate k1 c_space @ take k2 cs @ replicate k3 c_space)))"
    unfolding fmtstr_def Let_def n bind.simps w p q_def [symmetric] r prod.case s pad_left_emit
      k3_def [symmetric] emit_simps append_assoc ..
  also have "replicate k1 c_space @ take k2 cs @ replicate k3 c_space = str_text cs flags mn mx"
  proof (cases "flags AND DP_F_MINUS \<noteq> 0")
    case True
    then have q: "q = - int p" by (simp add: q_def)
    have k1: "k1 = 0" by (simp add: k1_def q)
    have k2: "k2 = min (length cs) (nat mx)" by (simp add: k2_def k1)
    have "nat (mx - int k2) = nat mx - length cs" by (cases "length cs \<le> nat mx") (simp_all add: k2 nat_diff_distrib')
    then have "k3 = min (nat mx - length cs) p" by (simp add: k3_def k1 q min.commute)
    with k1 k2 show ?thesis using True by (simp add: str_text_def p_def take_min_length)
  next
    case False
    then have "q = int p" by (simp add: q_def)
    then have k1: "k1 = min (nat mx) p" by (simp add: k1_def min.commute)
    have "nat (mx - int k1) = nat mx - p" by (cases "p \<le> nat mx") (simp_all add: k1 nat_diff_distrib')
    then have k2: "k2 = min (length cs) (nat mx - p)" by (simp add: k2_def)
    have "k3 = 0"
    proof (cases "p \<le> nat mx")
      case True
      then show ?thesis using \<open>q = int p\<close> by (simp add: k3_def k1)
    next
      case False
      then show ?thesis by (simp add: k3_def k1)
    qed
    with k1 k2 show ?thesis using False by (simp add: str_text_def p_def take_min_length)
  qed
  finally show ?thesis .
qed

section \<open>Numbers\<close>

text \<open>The digits of a number, least significant first.\<close>

function lsd :: "bool \<Rightarrow> nat \<Rightarrow> nat \<Rightarrow> u8 list" where
  "lsd caps b n =
     (digit_chars caps ! (n mod b)) # (if b \<le> 1 \<or> n div b = 0 then [] else lsd caps b (n div b))"
  by pat_completeness auto
termination
proof (relation "measure (\<lambda>(_, _, n). n)")
  fix b n :: nat
  assume a: "\<not> (b \<le> 1 \<or> n div b = 0)"
  then have "0 < n" by (cases n) auto
  then show "((caps, b, n div b), (caps, b, n)) \<in> measure (\<lambda>(_, _, n). n)" for caps using a by simp
qed simp

declare lsd.simps [simp del]

lemma lsd_length: "1 < b \<Longrightarrow> n < b ^ Suc k \<Longrightarrow> length (lsd caps b n) \<le> Suc k"
proof (induction k arbitrary: n)
  case 0
  then show ?case by (subst lsd.simps) simp
next
  case (Suc k)
  then have "n div b < b ^ Suc k" by (simp add: less_mult_imp_div_less mult.commute)
  then show ?case using Suc by (subst lsd.simps) simp
qed

lemma convert_loop_lsd:
  "1 < unat base \<Longrightarrow> length acc + length (lsd caps (unat base) (unat u)) < 20 \<Longrightarrow>
   convert_loop caps base u acc = acc @ lsd caps (unat base) (unat u)"
proof (induction "unat u" arbitrary: u acc rule: less_induct)
  case less
  let ?b = "unat base"
  have d: "unat (u div base) = unat u div ?b" "unat (u mod base) = unat u mod ?b"
    by (simp_all add: unat_div unat_mod)
  show ?case
  proof (cases "u div base = 0")
    case True
    then have "unat u div ?b = 0" using d(1) by simp
    then show ?thesis using True by (subst convert_loop.simps, subst lsd.simps) (simp add: d)
  next
    case False
    then have nz: "unat u div ?b \<noteq> 0" using d(1) by (metis unat_eq_zero)
    then have "0 < unat u" by (cases "unat u") auto
    then have smaller: "unat (u div base) < unat u" using less.prems(1) d by simp
    have l: "lsd caps ?b (unat u) =
        digit_chars caps ! (unat u mod ?b) # lsd caps ?b (unat (u div base))"
      using nz less.prems(1) d by (subst lsd.simps) simp
    have len: "length acc + 1 + length (lsd caps ?b (unat (u div base))) < 20"
      using less.prems(2) unfolding l by simp
    then have "length acc + 1 < 20" by linarith
    then show ?thesis
      using less.hyps [OF smaller less.prems(1), of "acc @ [digit_chars caps ! (unat u mod ?b)]"] len l False
      by (subst convert_loop.simps) (simp add: d)
  qed
qed

lemma convert_digits:
  assumes "unat base \<in> {8, 10, 16}"
  shows "cut_20 (convert_loop caps base u []) = lsd caps (unat base) (unat u)"
    "length (lsd caps (unat base) (unat u)) \<le> 11"
proof -
  have "unat u < 8 ^ Suc 10" using unat_u32_less [of u] by simp
  also have "(8 :: nat) ^ Suc 10 \<le> unat base ^ Suc 10" using assms by (intro power_mono) auto
  finally show l: "length (lsd caps (unat base) (unat u)) \<le> 11"
    using lsd_length [of "unat base" "unat u" 10 caps] assms by auto
  then show "cut_20 (convert_loop caps base u []) = lsd caps (unat base) (unat u)"
    using convert_loop_lsd [of base "[]" caps u] assms by (auto simp: cut_20_def)
qed

text \<open>What \<open>fmtint\<close> prints: blanks, the sign, zeros, the digits, blanks.\<close>

definition int_sign :: "u32 \<Rightarrow> u32 \<Rightarrow> u8 list" where
  "int_sign value flags =
     (if flags AND DP_F_UNSIGNED \<noteq> 0 then []
      else if sint value < 0 then [c_minus]
      else if flags AND DP_F_PLUS \<noteq> 0 then [c_plus]
      else if flags AND DP_F_SPACE \<noteq> 0 then [c_space] else [])"

definition int_magnitude :: "u32 \<Rightarrow> u32 \<Rightarrow> nat" where
  "int_magnitude value flags =
     (if flags AND DP_F_UNSIGNED \<noteq> 0 then unat value else nat \<bar>sint value\<bar>)"

definition int_text :: "u32 \<Rightarrow> u32 \<Rightarrow> int \<Rightarrow> int \<Rightarrow> u32 \<Rightarrow> u8 list" where
  "int_text value base mn mx flags =
     (let ds = rev (lsd (flags AND DP_F_UP \<noteq> 0) (unat base) (int_magnitude value flags));
          sg = int_sign value flags;
          blanks = nat mn - max (nat mx) (length ds) - length sg;
          zeros = nat mx - length ds
      in if flags AND DP_F_ZERO \<noteq> 0 then sg @ replicate (max zeros blanks) c_zero @ ds
         else if flags AND DP_F_MINUS \<noteq> 0 then sg @ replicate zeros c_zero @ ds @ replicate blanks c_space
         else replicate blanks c_space @ sg @ replicate zeros c_zero @ ds)"

lemma uint_sint_u32:
  "sint (v :: u32) < 0 \<Longrightarrow> uint (- v) = - sint v" "\<not> sint (v :: u32) < 0 \<Longrightarrow> uint v = sint v"
proof -
  have b: "- (2 ^ 31) \<le> sint v" "sint v < 2 ^ 31"
    using sint_greater_eq [of v] sint_less [of v] by simp_all
  show "sint v < 0 \<Longrightarrow> uint (- v) = - sint v"
    using uint_of_int_u32 [of "- sint v"] b by simp
  show "\<not> sint v < 0 \<Longrightarrow> uint v = sint v"
    using uint_of_int_u32 [of "sint v"] b by simp
qed

lemma unat_magnitude:
  "flags AND DP_F_UNSIGNED = 0 \<Longrightarrow> sint v < 0 \<Longrightarrow> unat (- v) = int_magnitude v flags"
  "\<not> (flags AND DP_F_UNSIGNED = 0 \<and> sint v < 0) \<Longrightarrow> unat v = int_magnitude v flags"
  using uint_sint_u32 [of v] by (auto simp: int_magnitude_def simp flip: nat_uint_eq)

text \<open>The two numbers of the padding, as the code computes them.\<close>

lemma pad_widths:
  assumes "0 \<le> mn" "mn < 2 ^ 31" "mx < 2 ^ 31" "n \<le> (11 :: nat)" "g \<le> (1 :: nat)"
  shows "(if s32 ((if mx < 0 then 0 else mx) - int n) < 0 then 0 else s32 ((if mx < 0 then 0 else mx) - int n)) =
      int (nat mx - n)"
    "(if s32 (mn - MAX_c (if mx < 0 then 0 else mx) (int n) - int g) < 0 then 0
      else s32 (mn - MAX_c (if mx < 0 then 0 else mx) (int n) - int g)) = int (nat mn - max (nat mx) n - g)"
proof -
  let ?m = "if mx < 0 then 0 else mx"
  have m: "?m = int (nat mx)" by simp
  have "s32 (?m - int n) = ?m - int n" by (rule s32_id) (use assms in auto)
  then show "(if s32 (?m - int n) < 0 then 0 else s32 (?m - int n)) = int (nat mx - n)"
    unfolding m by (simp add: of_nat_diff) linarith
  have M: "MAX_c ?m (int n) = int (max (nat mx) n)" unfolding m by (simp add: MAX_c_def)
  have "max (nat mx) n < 2 ^ 31" using assms by simp
  then have "s32 (mn - int (max (nat mx) n) - int g) = mn - int (max (nat mx) n) - int g"
    by (intro s32_id) (use assms in auto)
  then show "(if s32 (mn - MAX_c ?m (int n) - int g) < 0 then 0
      else s32 (mn - MAX_c ?m (int n) - int g)) = int (nat mn - max (nat mx) n - g)"
    unfolding M using assms(1) by (simp add: of_nat_diff)
qed

lemma fmtint_emit:
  assumes base: "unat base \<in> {8, 10, 16}" and mn: "0 \<le> mn" "mn < 2 ^ 31" and mx: "mx < 2 ^ 31"
  shows "fmtint st value base mn mx flags = emit st (int_text value base mn mx flags)"
proof -
  define sv where "sv = (if flags AND DP_F_UNSIGNED = 0 then
               (if sint value < 0 then (c_minus, - value)
                else if flags AND DP_F_PLUS \<noteq> 0 then (c_plus, value)
                else if flags AND DP_F_SPACE \<noteq> 0 then (c_space, value)
                else (0, value))
             else (0, value))"
  obtain sg u where su: "sv = (sg, u)" by (cases sv)
  have mag: "unat u = int_magnitude value flags"
    using su unat_magnitude [of flags "value"] unfolding sv_def by (auto split: if_splits)
  have sign: "int_sign value flags = (if sg \<noteq> 0 then [sg] else [])"
    using su unfolding sv_def int_sign_def
    by (auto simp: c_minus_def c_plus_def c_space_def split: if_splits)
  define n where "n = length (lsd (flags AND DP_F_UP \<noteq> 0) (unat base) (unat u))"
  define g where "g = (if sg \<noteq> 0 then 1 else 0 :: nat)"
  have g: "(if sg \<noteq> 0 then 1 else 0) = int g" "g \<le> 1" "length (int_sign value flags) = g"
    by (simp_all add: g_def sign)
  have conv: "cut_20 (convert_loop (flags AND DP_F_UP \<noteq> 0) base u []) =
      lsd (flags AND DP_F_UP \<noteq> 0) (unat base) (unat u)" "n \<le> 11"
    using convert_digits [OF base] by (simp_all add: n_def)
  note pads = pad_widths [OF mn mx conv(2) g(2)]
  have mm: "MAX_c (int a) (int b) = int (max a b)" for a b by (simp add: MAX_c_def)
  show ?thesis
    unfolding fmtint_def sv_def [symmetric] su prod.case conv Let_def pads [unfolded n_def] g(1)
    by (cases "flags AND DP_F_ZERO = 0"; cases "flags AND DP_F_MINUS = 0"; cases "sg = 0")
       (simp_all add: put_n_emit put_digits_emit n_def mm int_text_def Let_def g(3) sign g_def max.commute
         flip: mag)
qed

text \<open>A reader of numbers, as \<open>strtol\<close>: blanks, a sign, digits.\<close>

definition digit_val :: "u8 \<Rightarrow> int" where
  "digit_val c = (if c \<le> 57 then uint c - 48 else if c \<le> 70 then uint c - 55 else uint c - 87)"

definition is_digit_char :: "u8 \<Rightarrow> bool" where
  "is_digit_char c \<longleftrightarrow> c \<in> set (digit_chars True) \<union> set (digit_chars False)"

definition read_digits :: "nat \<Rightarrow> u8 list \<Rightarrow> int" where
  "read_digits b cs = foldl (\<lambda>a c. a * int b + digit_val c) 0 (takeWhile is_digit_char cs)"

definition read_num :: "nat \<Rightarrow> u8 list \<Rightarrow> int" where
  "read_num b cs =
     (case dropWhile (\<lambda>c. c = c_space) cs of
        [] \<Rightarrow> 0
      | c # rest \<Rightarrow>
          if c = c_minus then - read_digits b rest
          else if c = c_plus then read_digits b rest
          else read_digits b (c # rest))"

lemma digit_chars_val:
  assumes "k < 16"
  shows "digit_val (digit_chars caps ! k) = int k" "is_digit_char (digit_chars caps ! k)"
proof -
  have "list_all (\<lambda>k. digit_val (digit_chars True ! k) = int k \<and> is_digit_char (digit_chars True ! k)) [0..<16]"
    "list_all (\<lambda>k. digit_val (digit_chars False ! k) = int k \<and> is_digit_char (digit_chars False ! k)) [0..<16]"
    by code_simp+
  then show "digit_val (digit_chars caps ! k) = int k" "is_digit_char (digit_chars caps ! k)"
    using assms by (cases caps; simp add: list_all_iff)+
qed

lemma lsd_digits: "1 < b \<Longrightarrow> b \<le> 16 \<Longrightarrow> \<forall>c\<in>set (lsd caps b n). is_digit_char c"
proof (induction n rule: less_induct)
  case (less n)
  have "n mod b < b" using less.prems by simp
  then have "n mod b < 16" using less.prems by linarith
  then have d: "is_digit_char (digit_chars caps ! (n mod b))" by (rule digit_chars_val)
  show ?case
  proof (cases "n div b = 0")
    case True
    then show ?thesis using d by (subst lsd.simps) simp
  next
    case False
    then have "n div b < n" using less.prems by (cases n) auto
    then show ?thesis using less d by (subst lsd.simps) simp
  qed
qed

lemma lsd_value: "1 < b \<Longrightarrow> b \<le> 16 \<Longrightarrow> foldr (\<lambda>c a. a * int b + digit_val c) (lsd caps b n) 0 = int n"
proof (induction n rule: less_induct)
  case (less n)
  have "n mod b < b" using less.prems by simp
  then have "n mod b < 16" using less.prems by linarith
  then have d: "digit_val (digit_chars caps ! (n mod b)) = int (n mod b)" by (rule digit_chars_val)
  show ?case
  proof (cases "n div b = 0")
    case True
    then have "n mod b = n" using div_mult_mod_eq [of n b] by simp
    then show ?thesis using d True by (subst lsd.simps) simp
  next
    case False
    then have lt: "n div b < n" using less.prems by (cases n) auto
    have "int (n div b) * int b + int (n mod b) = int n"
      by (metis div_mult_mod_eq of_nat_add of_nat_mult)
    then show ?thesis using less.IH [OF lt less.prems] d False less.prems by (subst lsd.simps) simp
  qed
qed

lemma read_digits_text:
  assumes "1 < b" "b \<le> 16" "rest = [] \<or> hd rest = c_space"
  shows "read_digits b (replicate z c_zero @ rev (lsd caps b n) @ rest) = int n"
proof -
  have "\<not> is_digit_char c_space"
    by (simp add: is_digit_char_def digit_chars_def c_space_def)
  then have stop: "takeWhile is_digit_char rest = []" using assms(3) by (cases rest) auto
  have zero: "is_digit_char c_zero" "digit_val c_zero = 0"
    by (simp_all add: is_digit_char_def digit_chars_def c_zero_def digit_val_def)
  have z: "foldl (\<lambda>a c. a * int b + digit_val c) 0 (replicate z c_zero @ ds) =
      foldl (\<lambda>a c. a * int b + digit_val c) 0 ds" for z ds
    by (induction z) (simp_all add: zero)
  have tw: "takeWhile is_digit_char (replicate z c_zero @ rev (lsd caps b n) @ rest) =
      replicate z c_zero @ rev (lsd caps b n)"
    using lsd_digits [OF assms(1,2)] zero(1) stop
    by (subst append_assoc [symmetric], subst takeWhile_append2) auto
  show ?thesis
    unfolding read_digits_def tw z unfolding foldl_conv_foldr rev_rev_ident
    by (rule lsd_value [OF assms(1,2)])
qed

lemma read_num_layout:
  assumes "1 < b" "b \<le> 16" "rest = [] \<or> hd rest = c_space"
    and sg: "sg \<in> {[], [c_space], [c_minus], [c_plus]}"
  shows "read_num b (replicate k c_space @ sg @ replicate z c_zero @ rev (lsd caps b n) @ rest) =
    (if sg = [c_minus] then - int n else int n)"
proof -
  let ?num = "replicate z c_zero @ rev (lsd caps b n) @ rest"
  have "lsd caps b n \<noteq> []" by (subst lsd.simps) simp
  then have ne: "replicate z c_zero @ rev (lsd caps b n) \<noteq> []" by simp
  then have "hd ?num \<in> set (replicate z c_zero @ rev (lsd caps b n))"
    by (metis append_assoc hd_append2 hd_in_set)
  moreover have "is_digit_char c_zero" by (simp add: is_digit_char_def digit_chars_def c_zero_def)
  ultimately have "is_digit_char (hd ?num)" using lsd_digits [OF assms(1,2)] by auto
  then have c: "hd ?num \<noteq> c_space" "hd ?num \<noteq> c_minus" "hd ?num \<noteq> c_plus"
    by (auto simp: is_digit_char_def digit_chars_def c_space_def c_minus_def c_plus_def)
  obtain x xs where num: "?num = x # xs" using ne by (cases ?num) auto
  have x: "x \<noteq> c_space" "x \<noteq> c_minus" "x \<noteq> c_plus" using c unfolding num by simp_all
  have blanks: "dropWhile (\<lambda>c. c = c_space) (replicate k c_space @ ys) = dropWhile (\<lambda>c. c = c_space) ys" for ys
    by (induction k) simp_all
  have r: "read_digits b (x # xs) = int n"
    unfolding num [symmetric] by (rule read_digits_text [OF assms(1-3)])
  show ?thesis using sg x unfolding read_num_def blanks num
    by (auto simp: r c_space_def c_minus_def c_plus_def)
qed

lemma int_text_read:
  assumes base: "unat base \<in> {8, 10, 16}"
  shows "read_num (unat base) (int_text value base mn mx flags) =
    (if flags AND DP_F_UNSIGNED \<noteq> 0 then uint value else sint value)"
proof -
  let ?sg = "int_sign value flags"
  have b: "1 < unat base" "unat base \<le> 16" using base by auto
  have sg: "?sg \<in> {[], [c_space], [c_minus], [c_plus]}" by (simp add: int_sign_def)
  have neg: "(if ?sg = [c_minus] then - int (int_magnitude value flags) else int (int_magnitude value flags)) =
      (if flags AND DP_F_UNSIGNED \<noteq> 0 then uint value else sint value)"
    by (auto simp: int_sign_def int_magnitude_def c_minus_def c_plus_def c_space_def)
  have "\<exists>k z j. int_text value base mn mx flags = replicate k c_space @ ?sg @ replicate z c_zero @
      rev (lsd (flags AND DP_F_UP \<noteq> 0) (unat base) (int_magnitude value flags)) @ replicate j c_space"
    (is "\<exists>k z j. ?text = ?form k z j")
  proof -
    let ?l = "length (lsd (flags AND DP_F_UP \<noteq> 0) (unat base) (int_magnitude value flags))"
    let ?b = "nat mn - max (nat mx) ?l - length ?sg" let ?z = "nat mx - ?l"
    have "?text \<in> {?form 0 (max ?z ?b) 0, ?form 0 ?z ?b, ?form ?b ?z 0}"
      by (simp add: int_text_def Let_def)
    then show ?thesis by blast
  qed
  then obtain k z j where t: "int_text value base mn mx flags = replicate k c_space @ ?sg @ replicate z c_zero @
      rev (lsd (flags AND DP_F_UP \<noteq> 0) (unat base) (int_magnitude value flags)) @ replicate j c_space"
    by blast
  have "replicate j c_space = [] \<or> hd (replicate j c_space) = c_space" by (cases j) simp_all
  then show ?thesis unfolding t read_num_layout [OF b _ sg] neg by (simp add: read_num_layout [OF b _ sg] neg)
qed

lemma int_text_width:
  assumes "flags AND DP_F_ZERO = 0 \<or> mx \<le> 0"
  shows "nat mn \<le> length (int_text value base mn mx flags)"
proof -
  have a: "n \<le> g + (l + (m - l + (n - (g + max m l))))" for n m l g :: nat
  proof -
    have "max m l = m - l + l" by (simp add: max_def)
    then show ?thesis by simp
  qed
  have b: "n \<le> g + (l + (n - (g + l)))" for n l g :: nat by linarith
  show ?thesis using assms
  proof
    assume "flags AND DP_F_ZERO = 0"
    then show ?thesis by (simp add: int_text_def Let_def add_ac a)
  next
    assume "mx \<le> 0"
    then show ?thesis using b a [of _ _ _ 0] by (simp add: int_text_def Let_def add_ac)
  qed
qed

end
