(* ===== verification/Snprintf_Grammar.thy ===== *)
theory Snprintf_Grammar
  imports Snprintf_Correct "HOL-Library.Sublist"
begin

text \<open>
  The state machine of \<open>dopr\<close> against a grammar of formats: text, and directives of flags, width,
  precision, length and conversion, read off the list of the characters.
\<close>

section \<open>The grammar\<close>

fun flag_bit :: "u8 \<Rightarrow> u32" where
  "flag_bit c =
     (if c = c_minus then DP_F_MINUS else if c = c_plus then DP_F_PLUS else if c = c_space then DP_F_SPACE
      else if c = 35 then DP_F_NUM else if c = c_zero then DP_F_ZERO else 0)"

definition is_flag :: "u8 \<Rightarrow> bool" where
  "is_flag c \<longleftrightarrow> c \<in> {c_minus, c_plus, c_space, 35, c_zero}"

primrec g_flags :: "u8 list \<Rightarrow> u32 \<Rightarrow> u32 \<times> u8 list" where
  "g_flags [] fl = (fl, [])"
| "g_flags (c # cs) fl = (if is_flag c then g_flags cs (fl OR flag_bit c) else (fl, c # cs))"

text \<open>A number, the digits of which may be followed by a star that takes it from the arguments.\<close>

definition max_step :: "int \<Rightarrow> u8 \<Rightarrow> int" where
  "max_step n c = s32 (10 * (if n < 0 then 0 else n) + char_to_int c)"

primrec g_num :: "u8 list \<Rightarrow> int \<Rightarrow> int \<times> u8 list" where
  "g_num [] n = (n, [])"
| "g_num (c # cs) n =
     (if k_isdigit (sint c) then g_num cs (max_step n c)
      else (n, c # cs))"

primrec g_num_min :: "u8 list \<Rightarrow> int \<Rightarrow> int \<times> u8 list" where
  "g_num_min [] n = (n, [])"
| "g_num_min (c # cs) n =
     (if k_isdigit (sint c) then g_num_min cs (s32 (10 * n + char_to_int c)) else (n, c # cs))"

fun g_star :: "int \<times> u8 list \<Rightarrow> u32 list \<Rightarrow> (int \<times> u8 list \<times> u32 list) res" where
  "g_star (n, c # cs) args =
     (if c = 42 then (case args of [] \<Rightarrow> Inl OutOfRange | w # ws \<Rightarrow> Inr (sint w, cs, ws))
      else Inr (n, c # cs, args))"
| "g_star (n, []) args = Inr (n, [], args)"

fun g_max :: "u8 list \<Rightarrow> u32 list \<Rightarrow> (int \<times> u8 list \<times> u32 list) res" where
  "g_max (c # cs) args = (if c = c_dot then g_star (g_num cs (- 1)) args else Inr (- 1, c # cs, args))"
| "g_max [] args = Inr (- 1, [], args)"

fun g_mod :: "u8 list \<Rightarrow> nat \<times> u8 list" where
  "g_mod (c # cs) =
     (if c = 104 then (DP_C_SHORT, cs) else if c = 108 then (DP_C_LONG, cs)
      else if c = 76 then (DP_C_LDOUBLE, cs) else (0, c # cs))"
| "g_mod [] = (0, [])"

record spec =
  g_fl :: u32
  g_mn :: int
  g_mx :: int
  g_cf :: nat

definition directive :: "u8 list \<Rightarrow> u32 list \<Rightarrow> (spec \<times> u8 list \<times> u32 list) res" where
  "directive cs args =
     (let (fl, cs) = g_flags cs 0 in
      rbind (g_star (g_num_min cs 0) args) (\<lambda>(mn, cs, args).
      rbind (g_max cs args) (\<lambda>(mx, cs, args).
      let (cf, cs) = g_mod cs in Inr (\<lparr>g_fl = fl, g_mn = mn, g_mx = mx, g_cf = cf\<rparr>, cs, args))))"

text \<open>One conversion.\<close>

definition g_conv ::
    "'r fpu \<Rightarrow> int \<Rightarrow> u8 \<Rightarrow> spec \<Rightarrow> u32 list \<Rightarrow> out_st \<Rightarrow> (out_st \<times> u32 list) res option" where
  "g_conv F maxlen c sp args st =
     obind (conv_switch F maxlen (\<lambda>_. 0)
       \<lparr>ch = c, fpos = 0, dstate = DP_S_CONV, dmin = g_mn sp, dmax = g_mx sp, dflags = g_fl sp,
        dcflags = g_cf sp, va = args, ost = st\<rparr>)
     (\<lambda>d. Some (Inr (ost d, va d)))"

lemma g_flags_suffix: "suffix (snd (g_flags cs fl)) cs"
  by (induction cs arbitrary: fl) (auto intro: suffix_ConsI)

lemma g_num_suffix: "suffix (snd (g_num cs n)) cs"
  by (induction cs arbitrary: n) (auto intro: suffix_ConsI)

lemma g_num_min_suffix: "suffix (snd (g_num_min cs n)) cs"
  by (induction cs arbitrary: n) (auto intro: suffix_ConsI)

lemma g_star_suffix: "g_star p args = Inr (n, cs, args') \<Longrightarrow> suffix cs (snd p)"
  by (cases "(p, args)" rule: g_star.cases) (auto split: if_splits list.splits intro: suffix_ConsI)

lemma g_max_suffix: "g_max cs args = Inr (n, cs', args') \<Longrightarrow> suffix cs' cs"
  using g_num_suffix [of "tl cs" "- 1"]
  by (cases "(cs, args)" rule: g_max.cases)
     (auto split: if_splits dest!: g_star_suffix intro: suffix_ConsI suffix_order.trans)

lemma g_mod_suffix: "suffix (snd (g_mod cs)) cs"
  by (cases cs rule: g_mod.cases) (auto intro: suffix_ConsI)

lemma directive_suffix:
  assumes "directive cs args = Inr (sp, cs', args')"
  shows "suffix cs' cs"
proof -
  let ?c1 = "snd (g_flags cs 0)"
  obtain mn c2 a2 mx c3 where s: "g_star (g_num_min ?c1 0) args = Inr (mn, c2, a2)"
    "g_max c2 a2 = Inr (mx, c3, args')" "cs' = snd (g_mod c3)"
    using assms by (auto simp: directive_def rbind_eq_Inr_iff case_prod_beta Let_def)
  have "suffix cs' c2" using g_mod_suffix [of c3] g_max_suffix [OF s(2)] s(3) by (auto intro: suffix_order.trans)
  moreover have "suffix c2 cs"
    using g_star_suffix [OF s(1)] g_num_min_suffix [of ?c1 0] g_flags_suffix [of cs 0]
    by (auto intro: suffix_order.trans)
  ultimately show ?thesis by (rule suffix_order.trans)
qed

function g_run :: "'r fpu \<Rightarrow> int \<Rightarrow> u8 list \<Rightarrow> u32 list \<Rightarrow> out_st \<Rightarrow> out_st res option" where
  "g_run F maxlen cs args st =
     (case cs of
        [] \<Rightarrow> Some (Inr st)
      | c # cs1 \<Rightarrow>
          if currlen st \<ge> maxlen then Some (Inr st)
          else if c \<noteq> 37 then g_run F maxlen cs1 args (dopr_outch st c)
          else (case directive cs1 args of
              Inl e \<Rightarrow> Some (Inl e)
            | Inr (sp, [], args1) \<Rightarrow> Some (Inr st)
            | Inr (sp, k # cs2, args1) \<Rightarrow>
                obind (g_conv F maxlen k sp args1 st) (\<lambda>(st, args2).
                  g_run F maxlen (if k = 119 then tl cs2 else cs2) args2 st)))"
  by pat_completeness auto
termination
  by (relation "measure (\<lambda>(_, _, cs, _). length cs)") (auto dest!: directive_suffix suffix_length_le)

declare g_run.simps [simp del]

section \<open>The state machine\<close>

text \<open>The characters that are left: the current one and those behind the format pointer.\<close>

definition rem :: "cmem \<Rightarrow> dopr_st \<Rightarrow> u8 list \<Rightarrow> bool" where
  "rem fmt d cs \<longleftrightarrow> ch d = cstr cs 0 \<and> (\<forall>k. fmt (fpos d + k) = cstr cs (Suc k))"

lemma cstr_tl: "cstr (tl cs) k = cstr cs (Suc k)"
  by (cases cs) simp_all

lemma rem_next: "rem fmt d cs \<Longrightarrow> rem fmt (next_ch fmt d) (tl cs)"
  unfolding rem_def next_ch_def by (simp add: cstr_tl) (metis add.right_neutral add_Suc_right)

lemma rem_update [simp]:
  "rem fmt (d\<lparr>dstate := s\<rparr>) = rem fmt d" "rem fmt (d\<lparr>dflags := fl\<rparr>) = rem fmt d"
  "rem fmt (d\<lparr>dmin := n\<rparr>) = rem fmt d" "rem fmt (d\<lparr>dmax := n\<rparr>) = rem fmt d"
  "rem fmt (d\<lparr>dcflags := k\<rparr>) = rem fmt d" "rem fmt (d\<lparr>va := ws\<rparr>) = rem fmt d"
  "rem fmt (d\<lparr>ost := st\<rparr>) = rem fmt d"
  by (simp_all add: rem_def fun_eq_iff)

lemma update_same [simp]:
  "ch d = c \<Longrightarrow> d\<lparr>ch := c\<rparr> = d" "dmax d = n \<Longrightarrow> d\<lparr>dmax := n\<rparr> = d"
  "dcflags d = k \<Longrightarrow> d\<lparr>dcflags := k\<rparr> = d"
  by (cases d, simp)+

lemma rem_Nil: "rem fmt d [] \<Longrightarrow> ch d = 0"
  by (simp add: rem_def)

lemma rem_Cons: "rem fmt d (c # cs) \<Longrightarrow> ch d = c"
  by (simp add: rem_def)

lemma loop_stop: "ch d = 0 \<or> maxlen \<le> currlen (ost d) \<Longrightarrow> dopr_loop F maxlen fmt d = Some (Inr (d\<lparr>dstate := DP_S_DONE\<rparr>))"
  by (cases "dstate d = DP_S_DONE")
     (subst dopr_loop.simps; force simp: dopr_step_def dopr_loop.simps)+

lemma loop_step:
  "ch d \<noteq> 0 \<Longrightarrow> currlen (ost d) < maxlen \<Longrightarrow> dstate d \<noteq> DP_S_DONE \<Longrightarrow>
   dopr_loop F maxlen fmt d = obind (dopr_step F maxlen fmt d) (dopr_loop F maxlen fmt)"
  by (subst dopr_loop.simps) (simp add: obind_def Option.bind_def split: option.split sum.split)

text \<open>The machine has read \<open>cs\<close> from \<open>d\<close> on and goes on in \<open>d'\<close>.\<close>

definition moves :: "'r fpu \<Rightarrow> int \<Rightarrow> cmem \<Rightarrow> dopr_st \<Rightarrow> dopr_st \<Rightarrow> u8 list \<Rightarrow> bool" where
  "moves F maxlen fmt d d' cs \<longleftrightarrow>
     dopr_loop F maxlen fmt d = dopr_loop F maxlen fmt d' \<and> rem fmt d' cs"

lemma run_flags:
  assumes "rem fmt d cs" "0 \<notin> set cs" "currlen (ost d) < maxlen" "dstate d = DP_S_FLAGS"
  shows "\<exists>c p. moves F maxlen fmt d
    (d\<lparr>ch := c, fpos := p, dflags := fst (g_flags cs (dflags d)), dstate := DP_S_MIN\<rparr>)
    (snd (g_flags cs (dflags d)))"
  using assms
proof (induction cs arbitrary: d)
  case Nil
  then have "ch d = 0" by (simp add: rem_Nil)
  then show ?case using Nil
    by (intro exI [of _ "ch d"] exI [of _ "fpos d"]) (simp add: moves_def loop_stop)
next
  case (Cons c cs)
  have c: "ch d = c" "c \<noteq> 0" using rem_Cons [OF Cons.prems(1)] Cons.prems(2) by auto
  have s: "dopr_loop F maxlen fmt d = dopr_loop F maxlen fmt (dp_flags fmt d)"
    using Cons.prems c by (subst loop_step) (simp_all add: dopr_step_def)
  show ?case
  proof (cases "is_flag c")
    case True
    let ?d = "next_ch fmt (d\<lparr>dflags := dflags d OR flag_bit c\<rparr>)"
    have f: "dp_flags fmt d = ?d" using True c by (auto simp: dp_flags_def is_flag_def c_minus_def c_plus_def c_space_def c_zero_def)
    have "rem fmt ?d cs" using rem_next [of fmt "d\<lparr>dflags := dflags d OR flag_bit c\<rparr>" "c # cs"] Cons.prems(1)
      by simp
    from Cons.IH [OF this] obtain ch' p where "moves F maxlen fmt ?d
        (?d\<lparr>ch := ch', fpos := p, dflags := fst (g_flags cs (dflags ?d)), dstate := DP_S_MIN\<rparr>)
        (snd (g_flags cs (dflags ?d)))"
      using Cons.prems by (auto simp: next_ch_def)
    then show ?thesis using True s f by (intro exI [of _ ch'] exI [of _ p]) (simp add: moves_def next_ch_def)
  next
    case False
    then have "dp_flags fmt d = d\<lparr>dstate := DP_S_MIN\<rparr>" using c by (simp add: dp_flags_def is_flag_def)
    then show ?thesis using False s Cons.prems(1)
      by (intro exI [of _ "ch d"] exI [of _ "fpos d"]) (simp add: moves_def)
  qed
qed

lemma run_min:
  assumes "rem fmt d cs" "0 \<notin> set cs" "currlen (ost d) < maxlen" "dstate d = DP_S_MIN"
  shows "case g_star (g_num_min cs (dmin d)) (va d) of
      Inl e \<Rightarrow> dopr_loop F maxlen fmt d = Some (Inl e)
    | Inr (n, cs', args') \<Rightarrow> \<exists>c p. moves F maxlen fmt d
        (d\<lparr>ch := c, fpos := p, dmin := n, va := args', dstate := DP_S_DOT\<rparr>) cs'"
  using assms
proof (induction cs arbitrary: d)
  case Nil
  then have "ch d = 0" by (simp add: rem_Nil)
  then show ?case using Nil
    by simp (intro exI [of _ "ch d"] exI [of _ "fpos d"], simp add: moves_def loop_stop)
next
  case (Cons c cs)
  have c: "ch d = c" "c \<noteq> 0" using rem_Cons [OF Cons.prems(1)] Cons.prems(2) by auto
  have s: "dopr_loop F maxlen fmt d = obind (Some (dp_min fmt d)) (dopr_loop F maxlen fmt)"
    using Cons.prems c by (subst loop_step) (simp_all add: dopr_step_def)
  show ?case
  proof (cases "k_isdigit (sint c)")
    case True
    let ?d = "next_ch fmt (d\<lparr>dmin := s32 (10 * dmin d + char_to_int c)\<rparr>)"
    have f: "dp_min fmt d = Inr ?d" using True c by (simp add: dp_min_def)
    have "rem fmt ?d cs" using rem_next [of fmt "d\<lparr>dmin := s32 (10 * dmin d + char_to_int c)\<rparr>" "c # cs"] Cons.prems(1)
      by simp
    from Cons.IH [OF this] Cons.prems
    show ?thesis using True s f by (simp add: moves_def next_ch_def split: sum.splits prod.splits)
  next
    case nd: False
    show ?thesis
    proof (cases "c = 42")
      case True
      have n: "rem fmt (next_ch fmt d) cs" using rem_next [OF Cons.prems(1)] by simp
      show ?thesis
      proof (cases "va d")
        case Nil
        then show ?thesis using nd True c s by (simp add: dp_min_def va_word_def)
      next
        case (Cons w ws)
        then have "dp_min fmt d = Inr ((next_ch fmt d)\<lparr>dmin := sint w, va := ws, dstate := DP_S_DOT\<rparr>)"
          using nd True c by (simp add: dp_min_def va_word_def next_ch_def)
        then show ?thesis using nd True s n Cons
          by (simp add: moves_def) (intro exI [of _ "fmt (fpos d)"] exI [of _ "fpos d + 1"], simp add: next_ch_def rem_def)
      qed
    next
      case False
      then have "dp_min fmt d = Inr (d\<lparr>dstate := DP_S_DOT\<rparr>)" using nd c by (simp add: dp_min_def)
      then show ?thesis using nd False s c Cons.prems(1)
        by simp (intro exI [of _ c] exI [of _ "fpos d"], simp add: moves_def)
    qed
  qed
qed

lemma run_max:
  assumes "rem fmt d cs" "0 \<notin> set cs" "currlen (ost d) < maxlen" "dstate d = DP_S_MAX"
  shows "case g_star (g_num cs (dmax d)) (va d) of
      Inl e \<Rightarrow> dopr_loop F maxlen fmt d = Some (Inl e)
    | Inr (n, cs', args') \<Rightarrow> \<exists>c p. moves F maxlen fmt d
        (d\<lparr>ch := c, fpos := p, dmax := n, va := args', dstate := DP_S_MOD\<rparr>) cs'"
  using assms
proof (induction cs arbitrary: d)
  case Nil
  then have "ch d = 0" by (simp add: rem_Nil)
  then show ?case using Nil
    by simp (intro exI [of _ "ch d"] exI [of _ "fpos d"], simp add: moves_def loop_stop)
next
  case (Cons c cs)
  have c: "ch d = c" "c \<noteq> 0" using rem_Cons [OF Cons.prems(1)] Cons.prems(2) by auto
  have s: "dopr_loop F maxlen fmt d = obind (Some (dp_max fmt d)) (dopr_loop F maxlen fmt)"
    using Cons.prems c by (subst loop_step) (simp_all add: dopr_step_def)
  show ?case
  proof (cases "k_isdigit (sint c)")
    case True
    let ?d = "next_ch fmt (d\<lparr>dmax := max_step (dmax d) c\<rparr>)"
    have f: "dp_max fmt d = Inr ?d" using True c by (simp add: dp_max_def Let_def max_step_def)
    have "rem fmt ?d cs" using rem_next [of fmt "d\<lparr>dmax := max_step (dmax d) c\<rparr>" "c # cs"] Cons.prems(1)
      by simp
    from Cons.IH [OF this] Cons.prems
    show ?thesis using True s f by (simp add: moves_def next_ch_def split: sum.splits prod.splits)
  next
    case nd: False
    show ?thesis
    proof (cases "c = 42")
      case True
      have n: "rem fmt (next_ch fmt d) cs" using rem_next [OF Cons.prems(1)] by simp
      show ?thesis
      proof (cases "va d")
        case Nil
        then show ?thesis using nd True c s by (simp add: dp_max_def va_word_def)
      next
        case (Cons w ws)
        then have "dp_max fmt d = Inr ((next_ch fmt d)\<lparr>dmax := sint w, va := ws, dstate := DP_S_MOD\<rparr>)"
          using nd True c by (simp add: dp_max_def va_word_def next_ch_def)
        then show ?thesis using nd True s n Cons
          by (simp add: moves_def) (intro exI [of _ "fmt (fpos d)"] exI [of _ "fpos d + 1"], simp add: next_ch_def rem_def)
      qed
    next
      case False
      then have "dp_max fmt d = Inr (d\<lparr>dstate := DP_S_MOD\<rparr>)" using nd c by (simp add: dp_max_def Let_def max_step_def)
      then show ?thesis using nd False s c Cons.prems(1)
        by simp (intro exI [of _ c] exI [of _ "fpos d"], simp add: moves_def)
    qed
  qed
qed

lemma run_dot:
  assumes "rem fmt d cs" "0 \<notin> set cs" "currlen (ost d) < maxlen" "dstate d = DP_S_DOT" "dmax d = - 1"
  shows "case g_max cs (va d) of
      Inl e \<Rightarrow> dopr_loop F maxlen fmt d = Some (Inl e)
    | Inr (n, cs', args') \<Rightarrow> \<exists>c p. moves F maxlen fmt d
        (d\<lparr>ch := c, fpos := p, dmax := n, va := args', dstate := DP_S_MOD\<rparr>) cs'"
proof (cases cs)
  case Nil
  then have "ch d = 0" using assms by (simp add: rem_Nil)
  then show ?thesis using assms Nil
    by simp (intro exI [of _ "ch d"] exI [of _ "fpos d"], simp add: moves_def loop_stop)
next
  case (Cons c cs1)
  have c: "ch d = c" "c \<noteq> 0" using rem_Cons assms(1,2) Cons by auto
  have s: "dopr_loop F maxlen fmt d = dopr_loop F maxlen fmt (dp_dot fmt d)"
    using assms c by (subst loop_step) (simp_all add: dopr_step_def)
  show ?thesis
  proof (cases "c = c_dot")
    case True
    let ?d = "next_ch fmt (d\<lparr>dstate := DP_S_MAX\<rparr>)"
    have f: "dp_dot fmt d = ?d" using True c by (simp add: dp_dot_def)
    have "rem fmt ?d cs1" using rem_next [of fmt "d\<lparr>dstate := DP_S_MAX\<rparr>" cs] assms(1) Cons by simp
    from run_max [OF this, of maxlen F] show ?thesis using assms s f True Cons
      by (simp add: moves_def next_ch_def split: sum.splits prod.splits)
  next
    case False
    then have "dp_dot fmt d = d\<lparr>dstate := DP_S_MOD\<rparr>" using c by (simp add: dp_dot_def)
    then show ?thesis using False s c assms Cons
      by simp (intro exI [of _ c] exI [of _ "fpos d"], simp add: moves_def)
  qed
qed

lemma run_mod:
  assumes "rem fmt d cs" "0 \<notin> set cs" "currlen (ost d) < maxlen" "dstate d = DP_S_MOD" "dcflags d = 0"
  shows "\<exists>c p. moves F maxlen fmt d
    (d\<lparr>ch := c, fpos := p, dcflags := fst (g_mod cs), dstate := DP_S_CONV\<rparr>) (snd (g_mod cs))"
proof (cases cs)
  case Nil
  then have "ch d = 0" using assms by (simp add: rem_Nil)
  then show ?thesis using assms Nil
    by simp (intro exI [of _ "ch d"] exI [of _ "fpos d"], simp add: moves_def loop_stop)
next
  case (Cons c cs1)
  have c: "ch d = c" "c \<noteq> 0" using rem_Cons assms(1,2) Cons by auto
  have s: "dopr_loop F maxlen fmt d = dopr_loop F maxlen fmt (dp_mod fmt d)"
    using assms c by (subst loop_step) (simp_all add: dopr_step_def)
  show ?thesis
  proof (cases "c \<in> {104, 108, 76}")
    case True
    then have "dp_mod fmt d = d\<lparr>ch := fmt (fpos d), fpos := fpos d + 1, dcflags := fst (g_mod cs), dstate := DP_S_CONV\<rparr>"
      using c Cons by (auto simp: dp_mod_def next_ch_def)
    moreover have "rem fmt (d\<lparr>ch := fmt (fpos d), fpos := fpos d + 1\<rparr>) (snd (g_mod cs))"
      using rem_next [of fmt d cs] assms(1) True Cons by (auto simp: next_ch_def)
    ultimately show ?thesis using s
      by (intro exI [of _ "fmt (fpos d)"] exI [of _ "fpos d + 1"]) (simp add: moves_def)
  next
    case False
    then have "dp_mod fmt d = d\<lparr>dstate := DP_S_CONV\<rparr>" "g_mod cs = (0, cs)" using c Cons by (auto simp: dp_mod_def)
    then show ?thesis using s c assms
      by simp (intro exI [of _ c] exI [of _ "fpos d"], simp add: moves_def)
  qed
qed

text \<open>The machine after a conversion, and the conversion with the format left out.\<close>

definition fresh :: "dopr_st \<Rightarrow> u32 list \<Rightarrow> out_st \<Rightarrow> dopr_st" where
  "fresh d args st =
     d\<lparr>dstate := DP_S_DEFAULT, dmin := 0, dmax := - 1, dflags := 0, dcflags := 0, va := args, ost := st\<rparr>"

definition spec_of :: "dopr_st \<Rightarrow> spec" where
  "spec_of d = \<lparr>g_fl = dflags d, g_mn = dmin d, g_mx = dmax d, g_cf = dcflags d\<rparr>"

lemma obind_obind [simp]: "obind (obind m f) g = obind m (\<lambda>x. obind (f x) g)"
  by (cases m rule: option.exhaust [case_names None Some]; simp add: obind_def split: sum.split)

lemma obind_Some_rbind [simp]: "obind (Some (rbind m f)) g = obind (Some m) (\<lambda>x. obind (Some (f x)) g)"
  by (cases m) simp_all

lemma obind_case_prod [simp]:
  "obind (case p of (a, b) \<Rightarrow> f a b) g = (case p of (a, b) \<Rightarrow> obind (f a b) g)"
  "obind (Some (case p of (a, b) \<Rightarrow> h a b)) g = (case p of (a, b) \<Rightarrow> obind (Some (h a b)) g)"
  by (simp_all split: prod.split)

lemma dp_conv_g_conv:
  "dp_conv F maxlen fmt d =
     obind (g_conv F maxlen (ch d) (spec_of d) (va d) (ost d)) (\<lambda>(st, args).
       Some (Inr (fresh (next_ch fmt (if ch d = 119 then next_ch fmt d else d)) args st)))"
proof -
  note defs = dp_conv_def g_conv_def conv_switch_def spec_of_def fresh_def next_ch_def va_word_def
    va_real_def conv_int_def
  consider "va d = []" | a where "va d = [a]" | a b where "va d = [a, b]"
    | a b c ws where "va d = a # b # c # ws"
    by (metis list.exhaust)
  then show ?thesis
    by cases (cases d; simp add: defs Let_def; simp add: obind_def split: sum.split option.split)+
qed

text \<open>From the character behind the percent sign to the conversion character.\<close>

definition ready :: "dopr_st \<Rightarrow> bool" where
  "ready d \<longleftrightarrow> dmin d = 0 \<and> dmax d = - 1 \<and> dflags d = 0 \<and> dcflags d = 0"

lemma run_directive:
  assumes "rem fmt d cs" "0 \<notin> set cs" "currlen (ost d) < maxlen" "dstate d = DP_S_FLAGS" "ready d"
  shows "case directive cs (va d) of
      Inl e \<Rightarrow> dopr_loop F maxlen fmt d = Some (Inl e)
    | Inr (sp, cs', args') \<Rightarrow> \<exists>d'. moves F maxlen fmt d d' cs' \<and> dstate d' = DP_S_CONV \<and>
        spec_of d' = sp \<and> va d' = args' \<and> ost d' = ost d"
proof -
  let ?L = "dopr_loop F maxlen fmt"
  note r = assms(5) [unfolded ready_def]
  let ?fl = "fst (g_flags cs 0)" let ?c1 = "snd (g_flags cs 0)"
  obtain k1 p1 where m1: "moves F maxlen fmt d (d\<lparr>ch := k1, fpos := p1, dflags := ?fl, dstate := DP_S_MIN\<rparr>) ?c1"
    using run_flags [OF assms(1-4), where F = F] r by auto
  define d1 where "d1 = d\<lparr>ch := k1, fpos := p1, dflags := ?fl, dstate := DP_S_MIN\<rparr>"
  have l1: "?L d = ?L d1" "rem fmt d1 ?c1" using m1 by (simp_all add: moves_def d1_def)
  have z1: "0 \<notin> set ?c1" using g_flags_suffix [of cs 0] assms(2) by (meson set_mono_suffix subsetD)
  have s1: "currlen (ost d1) < maxlen" "dstate d1 = DP_S_MIN" "dmin d1 = 0" "dmax d1 = - 1" "dcflags d1 = 0"
    "va d1 = va d" "ost d1 = ost d" "dflags d1 = ?fl" using assms r by (simp_all add: d1_def)
  note p2 = run_min [OF l1(2) z1 s1(1,2), where F = F]
  show ?thesis
  proof (cases "g_star (g_num_min ?c1 0) (va d)")
    case (Inl e)
    then show ?thesis using p2 s1 l1 by (simp add: directive_def case_prod_beta Let_def)
  next
    case (Inr q)
    obtain mn c2 a2 where q: "q = (mn, c2, a2)" by (cases q)
    then obtain k2 p2' where m2: "moves F maxlen fmt d1
        (d1\<lparr>ch := k2, fpos := p2', dmin := mn, va := a2, dstate := DP_S_DOT\<rparr>) c2"
      using p2 Inr s1 by auto
    define d2 where "d2 = d1\<lparr>ch := k2, fpos := p2', dmin := mn, va := a2, dstate := DP_S_DOT\<rparr>"
    have l2: "?L d1 = ?L d2" "rem fmt d2 c2" using m2 by (simp_all add: moves_def d2_def)
    have "suffix c2 ?c1" using g_star_suffix [of "g_num_min ?c1 0"] Inr q g_num_min_suffix
      by (meson suffix_order.trans)
    then have z2: "0 \<notin> set c2" using z1 by (meson set_mono_suffix subsetD)
    have s2: "currlen (ost d2) < maxlen" "dstate d2 = DP_S_DOT" "dmin d2 = mn" "dmax d2 = - 1"
      "dcflags d2 = 0" "va d2 = a2" "ost d2 = ost d" "dflags d2 = ?fl" using s1 by (simp_all add: d2_def)
    note p3 = run_dot [OF l2(2) z2 s2(1,2,4), where F = F]
    show ?thesis
    proof (cases "g_max c2 a2")
      case (Inl e)
      then show ?thesis using p3 s2 l2 l1 q Inr by (simp add: directive_def case_prod_beta Let_def)
    next
      case Inr3: (Inr q3)
      obtain mx c3 a3 where q3: "q3 = (mx, c3, a3)" by (cases q3)
      then obtain k3 p3' where m3: "moves F maxlen fmt d2
          (d2\<lparr>ch := k3, fpos := p3', dmax := mx, va := a3, dstate := DP_S_MOD\<rparr>) c3"
        using p3 Inr3 s2 by auto
      define d3 where "d3 = d2\<lparr>ch := k3, fpos := p3', dmax := mx, va := a3, dstate := DP_S_MOD\<rparr>"
      have l3: "?L d2 = ?L d3" "rem fmt d3 c3" using m3 by (simp_all add: moves_def d3_def)
      have "0 \<notin> set c3" using g_max_suffix [of c2 a2] Inr3 q3 z2 by (meson set_mono_suffix subsetD)
      from run_mod [OF l3(2) this, of maxlen F] obtain k4 p4 where m4: "moves F maxlen fmt d3
          (d3\<lparr>ch := k4, fpos := p4, dcflags := fst (g_mod c3), dstate := DP_S_CONV\<rparr>) (snd (g_mod c3))"
        using s2 by (auto simp: d3_def)
      have "directive cs (va d) =
          Inr (\<lparr>g_fl = ?fl, g_mn = mn, g_mx = mx, g_cf = fst (g_mod c3)\<rparr>, snd (g_mod c3), a3)"
        using q Inr Inr3 q3 by (simp add: directive_def case_prod_beta Let_def)
      then show ?thesis using m4 l1 l2 l3 s2
        by (auto simp: moves_def spec_of_def d3_def
            intro!: exI [of _ "d3\<lparr>ch := k4, fpos := p4, dcflags := fst (g_mod c3), dstate := DP_S_CONV\<rparr>"])
    qed
  qed
qed

lemma run_conv:
  assumes "rem fmt d (k # cs)" "k \<noteq> 0" "currlen (ost d) < maxlen" "dstate d = DP_S_CONV"
  shows "dopr_loop F maxlen fmt d =
    obind (g_conv F maxlen k (spec_of d) (va d) (ost d)) (\<lambda>(st, args).
      dopr_loop F maxlen fmt (fresh (next_ch fmt (if k = 119 then next_ch fmt d else d)) args st))"
  using assms rem_Cons [OF assms(1)]
  by (subst loop_step) (simp_all add: dopr_step_def dp_conv_g_conv)

lemma rem_after:
  assumes "rem fmt d (k # cs)"
  shows "rem fmt (next_ch fmt (if k = 119 then next_ch fmt d else d)) (if k = 119 then tl cs else cs)"
  using rem_next [OF assms] rem_next [OF rem_next [OF assms]] by simp

lemma run_percent:
  assumes d: "rem fmt d cs" "0 \<notin> set cs" "currlen (ost d) < maxlen" "dstate d = DP_S_FLAGS" "ready d"
    and IH: "\<And>cs' d'. length cs' \<le> length cs \<Longrightarrow> rem fmt d' cs' \<Longrightarrow> 0 \<notin> set cs' \<Longrightarrow>
      dstate d' = DP_S_DEFAULT \<Longrightarrow> ready d' \<Longrightarrow>
      obind (dopr_loop F maxlen fmt d') (\<lambda>d. Some (Inr (ost d))) = g_run F maxlen cs' (va d') (ost d')"
  shows "obind (dopr_loop F maxlen fmt d) (\<lambda>d. Some (Inr (ost d))) =
    (case directive cs (va d) of
       Inl e \<Rightarrow> Some (Inl e)
     | Inr (sp, [], args1) \<Rightarrow> Some (Inr (ost d))
     | Inr (sp, k # cs2, args1) \<Rightarrow> obind (g_conv F maxlen k sp args1 (ost d)) (\<lambda>(st, args2).
         g_run F maxlen (if k = 119 then tl cs2 else cs2) args2 st))"
proof (cases "directive cs (va d)")
  case (Inl e)
  then show ?thesis using run_directive [OF d, where F = F] by simp
next
  case (Inr q)
  obtain sp cs2 args2 where q: "q = (sp, cs2, args2)" by (cases q)
  then obtain d' where d': "dopr_loop F maxlen fmt d = dopr_loop F maxlen fmt d'" "rem fmt d' cs2"
    "dstate d' = DP_S_CONV" "spec_of d' = sp" "va d' = args2" "ost d' = ost d"
    using run_directive [OF d, where F = F] Inr by (auto simp: moves_def)
  have suf: "suffix cs2 cs" using directive_suffix Inr q by blast
  show ?thesis
  proof (cases cs2)
    case Nil
    then show ?thesis using d' Inr q by (simp add: loop_stop rem_Nil)
  next
    case c2: (Cons k cs3)
    let ?n = "next_ch fmt (if k = 119 then next_ch fmt d' else d')"
    let ?r = "if k = 119 then tl cs3 else cs3"
    have nz: "k \<noteq> 0" "0 \<notin> set ?r"
      using set_mono_suffix [OF suf] c2 d(2) list.set_sel(2) [of cs3] by (auto, metis list.sel(2) subsetD)
    have short: "length ?r \<le> length cs" using suffix_length_le [OF suf] c2 by auto
    have "rem fmt (fresh ?n a t) ?r" for a t
      using rem_after [of fmt d' k cs3] d'(2) c2 by (simp add: fresh_def)
    from IH [OF short this nz(2)] have "obind (dopr_loop F maxlen fmt (fresh ?n a t))
        (\<lambda>d. Some (Inr (ost d))) = g_run F maxlen ?r a t" for a t
      by (simp add: fresh_def ready_def)
    then show ?thesis using d d' Inr q c2 nz(1) by (cases "k = 119") (simp_all add: run_conv)
  qed
qed

lemma run_equiv:
  assumes "rem fmt d cs" "0 \<notin> set cs" "dstate d = DP_S_DEFAULT" "ready d"
  shows "obind (dopr_loop F maxlen fmt d) (\<lambda>d. Some (Inr (ost d))) = g_run F maxlen cs (va d) (ost d)"
  using assms
proof (induction "length cs" arbitrary: cs d rule: less_induct)
  case less
  note IH = less.hyps and p = less.prems
  show ?case
  proof (cases "cs = [] \<or> maxlen \<le> currlen (ost d)")
    case True
    then show ?thesis using p(1) by (subst g_run.simps) (auto simp: loop_stop rem_Nil split: list.split)
  next
    case False
    then obtain c cs1 where Cons: "cs = c # cs1" and live: "currlen (ost d) < maxlen" by (cases cs) auto
    have c: "ch d = c" "c \<noteq> 0" "0 \<notin> set cs1" using rem_Cons p(1,2) Cons by auto
    have nx: "rem fmt (next_ch fmt d) cs1" using rem_next [OF p(1)] Cons by simp
    have s: "dopr_loop F maxlen fmt d = dopr_loop F maxlen fmt (dp_default fmt d)"
      using live c p(3) by (subst loop_step) (simp_all add: dopr_step_def)
    show ?thesis
    proof (cases "c = 37")
      case False
      let ?d = "next_ch fmt (d\<lparr>ost := dopr_outch (ost d) c\<rparr>)"
      have d: "dp_default fmt d = ?d" using c False by (simp add: dp_default_def)
      have r: "rem fmt ?d cs1" using nx by (simp add: rem_def next_ch_def)
      have "dstate ?d = DP_S_DEFAULT" "ready ?d" using p(3,4) by (simp_all add: next_ch_def ready_def)
      from IH [OF _ r c(3) this] show ?thesis using Cons False live d s
        by (subst g_run.simps) (simp add: next_ch_def)
    next
      case pct: True
      let ?d = "next_ch fmt (d\<lparr>dstate := DP_S_FLAGS\<rparr>)"
      have d: "dp_default fmt d = ?d" using c pct by (simp add: dp_default_def)
      have o: "rem fmt ?d cs1" "ost ?d = ost d" "va ?d = va d" "dstate ?d = DP_S_FLAGS" "ready ?d"
        using nx p(4) by (simp_all add: next_ch_def ready_def rem_def)
      have "currlen (ost ?d) < maxlen" using live o(2) by simp
      note pc = run_percent [OF o(1) c(3) this o(4,5), where F = F, unfolded o(2,3)]
      show ?thesis unfolding s d
        by (subst pc, rule IH, use Cons in simp, assumption+, subst g_run.simps [of F maxlen cs "va d" "ost d"])
           (use Cons pct live in simp)
    qed
  qed
qed

text \<open>The formatter as the grammar has it.\<close>

definition printed :: "'r fpu \<Rightarrow> (u8 list \<times> byte_mem) \<Rightarrow> int \<Rightarrow> u8 list \<Rightarrow> u32 list \<Rightarrow> (u8 list \<times> byte_mem) res option" where
  "printed F sink maxlen cs args =
     obind (g_run F maxlen cs args \<lparr>o_chars = fst sink, currlen = 0, o_mem = snd sink\<rparr>)
       (\<lambda>st. Some (Inr (o_chars st, o_mem st)))"

lemma dopr_printed:
  assumes "0 \<notin> set cs"
  shows "dopr F sink maxlen (cstr cs) args = printed F sink maxlen cs args"
proof -
  let ?i = "next_ch (cstr cs) \<lparr>ch = 0, fpos = 0, dstate = DP_S_DEFAULT, dmin = 0, dmax = -1, dflags = 0,
          dcflags = 0, va = args, ost = \<lparr>o_chars = fst sink, currlen = 0, o_mem = snd sink\<rparr>\<rparr>"
  have "rem (cstr cs) ?i cs" "dstate ?i = DP_S_DEFAULT" "ready ?i"
    by (simp_all add: rem_def next_ch_def ready_def)
  from run_equiv [OF this(1) assms this(2,3), of F maxlen]
  have e: "obind (dopr_loop F maxlen (cstr cs) ?i) (\<lambda>d. Some (Inr (ost d))) =
      g_run F maxlen cs args \<lparr>o_chars = fst sink, currlen = 0, o_mem = snd sink\<rparr>"
    by (simp add: next_ch_def)
  show ?thesis unfolding dopr_def printed_def e [symmetric] by simp
qed

end
