(* ===== verification/Snprintf_Props.thy ===== *)
theory Snprintf_Props
  imports Snprintf_Grammar Complex_Main
begin

text \<open>
  Properties of the formatter, with an exact floating-point unit to evaluate it on.
\<close>

section \<open>An exact unit\<close>

text \<open>Rational arithmetic on the IEEE double and the 80-bit extended format.\<close>

definition scale2 :: "int \<Rightarrow> int \<Rightarrow> rat" where
  "scale2 m e = (if e \<ge> 0 then of_int m * 2 ^ nat e else of_int m / 2 ^ nat (- e))"

definition ieee_double :: "u32 \<Rightarrow> u32 \<Rightarrow> rat" where
  "ieee_double lo hi =
     (let m = uint (hi AND 0xFFFFF) * 2 ^ 32 + uint lo; e = uint (drop_bit 20 hi AND 0x7FF);
          x = (if e = 0 then scale2 m (- 1074) else scale2 (2 ^ 52 + m) (e - 1075))
      in if bit hi 31 then - x else x)"

definition x87_extended :: "u32 \<Rightarrow> u32 \<Rightarrow> u32 \<Rightarrow> rat" where
  "x87_extended lo hi ex =
     (let x = scale2 (uint hi * 2 ^ 32 + uint lo) (uint (ex AND 0x7FFF) - 16446)
      in if bit ex 15 then - x else x)"

definition exact_fpu :: "rat fpu" where
  "exact_fpu =
     \<lparr>f_double = ieee_double, f_ldouble = x87_extended, f_int = of_int, f_half = 1 / 2,
      f_neg = uminus, f_mul = (*), f_sub = (-), f_less = (<), f_ge = (\<ge>),
      f_long = (\<lambda>x. if x < 0 then - floor (- x) else floor x)\<rparr>"

definition no_mem :: byte_mem where "no_mem = (\<lambda>_. 0)"

definition empty_out :: out_st where
  "empty_out = \<lparr>o_chars = [], currlen = 0, o_mem = no_mem\<rparr>"

section \<open>Properties\<close>

text \<open>
  C30.  The formatter is the interpreter of a grammar.  For every terminated format, the state machine
  of \<open>dopr\<close> does what reading the format as text and directives (flags, width, precision, length,
  conversion) does: text is put until \<open>maxlen\<close> characters are out, a directive that the format ends in
  prints nothing, a missing argument is read past the end, and the character behind \<open>%w\<close> is
  skipped.  In particular it returns whenever the strings it prints end.
\<close>

theorem format_grammar:
  assumes "0 \<notin> set cs"
  shows "k_snprintf F sink maxlen (cstr cs) args = printed F sink maxlen cs args"
  unfolding k_snprintf_def k_vsnprintf_def by (rule dopr_printed [OF assms])

lemma format_grammar_witness:
  "k_snprintf exact_fpu ([], no_mem) 100 (cstr [97, 61, 37, 52, 100, 59, 37, 37]) [- 42] =
     Some (Inr ([97, 61, 32, 45, 52, 50, 59, 37], no_mem))"
proof -
  have i: "fmtint \<lparr>o_chars = [97, 61], currlen = 2, o_mem = no_mem\<rparr> (- 42) 10 4 (- 1) 0 =
      \<lparr>o_chars = [97, 61, 32, 45, 52, 50], currlen = 6, o_mem = no_mem\<rparr>"
  proof (subst fmtint_emit)
    have l: "lsd False 10 42 = [50, 52]" by code_simp
    show "emit \<lparr>o_chars = [97, 61], currlen = 2, o_mem = no_mem\<rparr> (int_text (- 42) 10 4 (- 1) 0) =
        \<lparr>o_chars = [97, 61, 32, 45, 52, 50], currlen = 6, o_mem = no_mem\<rparr>"
      by (simp add: int_text_def int_sign_def int_magnitude_def l c_minus_def c_space_def emit_def
          dopr_outch_def s32_def)
  qed simp_all
  have c: "0 \<notin> set [97, 61, 37, 52, 100, 59, 37, 37 :: u8]" by simp
  show ?thesis unfolding format_grammar [OF c] printed_def
    by (simp add: g_run.simps directive_def is_flag_def c_minus_def c_plus_def c_space_def c_zero_def c_dot_def
       k_isdigit_def s32_def char_to_int_def g_conv_def conv_switch_def conv_int_def va_word_def dopr_outch_def Let_def i)
qed

text \<open>
  C31.  Printing an integer and reading it back.  For every value, sign, width, precision and
  combination of flags in octal, decimal or hexadecimal, what \<open>fmtint\<close> appends to the stream reads back
  as the value (as an unsigned number when asked for), and it is at least as wide as the minimum width
  unless zero padding comes with a precision.
\<close>

theorem fmtint_reads_back:
  assumes "unat base \<in> {8, 10, 16}" and "0 \<le> mn" "mn < 2 ^ 31" "mx < 2 ^ 31"
  shows "\<exists>text. o_chars (fmtint st v base mn mx flags) = o_chars st @ text \<and>
    o_mem (fmtint st v base mn mx flags) = o_mem st \<and>
    read_num (unat base) text = (if flags AND DP_F_UNSIGNED \<noteq> 0 then uint v else sint v) \<and>
    (flags AND DP_F_ZERO = 0 \<or> mx \<le> 0 \<longrightarrow> nat mn \<le> length text)"
  unfolding fmtint_emit [OF assms] using int_text_read [OF assms(1)] int_text_width
  by (intro exI [of _ "int_text v base mn mx flags"]) simp

lemma fmtint_reads_back_witness:
  "\<exists>text. o_chars (fmtint empty_out (- 42) 10 6 (- 1) DP_F_ZERO) = o_chars empty_out @ text \<and>
    read_num 10 text = - 42 \<and> 6 \<le> length text"
  using fmtint_reads_back [of 10 6 "- 1" empty_out "- 42" DP_F_ZERO]
  by (auto simp: DP_F_ZERO_def DP_F_UNSIGNED_def)

text \<open>
  A string is padded with blanks to the minimum width, on the left or with a minus on the right,
  and what this gives is cut to the precision; a null pointer prints as \<open><NULL>\<close>.
\<close>

theorem fmtstr_layout:
  assumes "string_at (o_mem st) p cs" "length cs < 2 ^ 31" "0 \<le> mn" "mn < 2 ^ 31"
  shows "\<exists>st'. fmtstr st p flags mn mx = Some (Inr st') \<and> o_mem st' = o_mem st \<and>
    o_chars st' = o_chars st @
      (let pad = replicate (nat mn - length cs) c_space in
       take (nat mx) (if flags AND DP_F_MINUS \<noteq> 0 then cs @ pad else pad @ cs))"
  unfolding fmtstr_emit [OF assms] by (simp add: str_text_def Let_def)

lemma fmtstr_layout_witness:
  "\<exists>st'. fmtstr empty_out 0 0 8 100 = Some (Inr st') \<and> o_chars st' = [32, 32, 60, 78, 85, 76, 76, 62]"
proof -
  have s: "string_at (o_mem empty_out) 0 null_text" by (simp add: string_at_def null_text_def)
  have "replicate 2 c_space = [32, 32]" by (simp add: numeral_2_eq_2 c_space_def)
  then show ?thesis using fmtstr_layout [OF s, of 8 0 100] by (auto simp: null_text_def empty_out_def)
qed

section \<open>The limit\<close>

lemma printed_nothing: "maxlen \<le> 0 \<Longrightarrow> printed F sink maxlen cs args = Some (Inr sink)"
  by (simp add: printed_def g_run.simps split: list.split)

lemma printed_text:
  assumes "37 \<notin> set cs" "length cs < 2 ^ 31"
  shows "printed F sink maxlen cs args = Some (Inr (fst sink @ take (nat maxlen) cs, snd sink))"
proof -
  have "g_run F maxlen cs args st = Some (Inr (emit st (take (nat (maxlen - currlen st)) cs)))"
    if "37 \<notin> set cs" "0 \<le> currlen st" "currlen st + int (length cs) < 2 ^ 31" for st cs
    using that
  proof (induction cs arbitrary: st)
    case Nil
    then show ?case by (simp add: g_run.simps emit_def)
  next
    case (Cons c cs)
    have n: "currlen (dopr_outch st c) = currlen st + 1"
      using Cons.prems by (simp add: dopr_outch_def s32_id)
    show ?case
    proof (cases "maxlen \<le> currlen st")
      case True
      then show ?thesis by (simp add: g_run.simps emit_def)
    next
      case False
      have "g_run F maxlen cs args (dopr_outch st c) =
          Some (Inr (emit (dopr_outch st c) (take (nat (maxlen - (currlen st + 1))) cs)))"
        using Cons.IH [of "dopr_outch st c"] Cons.prems n by simp
      moreover have "nat (maxlen - currlen st) = Suc (nat (maxlen - (currlen st + 1)))"
        using False by simp
      ultimately show ?thesis using False Cons.prems by (subst g_run.simps) (simp add: emit_def)
    qed
  qed
  from this [of cs "\<lparr>o_chars = fst sink, currlen = 0, o_mem = snd sink\<rparr>"] assms
  show ?thesis by (simp add: printed_def)
qed

lemmas star_simps = printed_def g_run.simps directive_def is_flag_def c_minus_def c_plus_def c_space_def
  c_zero_def c_dot_def k_isdigit_def g_conv_def conv_switch_def conv_int_def va_word_def Let_def

text \<open>A number with its width among the arguments: one of four texts.\<close>

lemma printed_star_int:
  assumes "0 < maxlen" "0 \<le> sint w"
  shows "c = 100 \<or> c = 105 \<Longrightarrow> printed F sink maxlen [37, 42, c] [w, v] =
      Some (Inr (fst sink @ int_text v 10 (sint w) (- 1) 0, snd sink))"
    and "c = 111 \<Longrightarrow> printed F sink maxlen [37, 42, c] [w, v] =
      Some (Inr (fst sink @ int_text v 8 (sint w) (- 1) DP_F_UNSIGNED, snd sink))"
    and "c = 117 \<Longrightarrow> printed F sink maxlen [37, 42, c] [w, v] =
      Some (Inr (fst sink @ int_text v 10 (sint w) (- 1) DP_F_UNSIGNED, snd sink))"
    and "c = 120 \<Longrightarrow> printed F sink maxlen [37, 42, c] [w, v] =
      Some (Inr (fst sink @ int_text v 16 (sint w) (- 1) DP_F_UNSIGNED, snd sink))"
    and "c = 88 \<Longrightarrow> printed F sink maxlen [37, 42, c] [w, v] =
      Some (Inr (fst sink @ int_text v 16 (sint w) (- 1) (DP_F_UP OR DP_F_UNSIGNED), snd sink))"
    and "c = 112 \<Longrightarrow> printed F sink maxlen [37, 42, c] [w, v] =
      Some (Inr (fst sink @ int_text v 16 (sint w) (- 1) 0, snd sink))"
proof -
  let ?st = "\<lparr>o_chars = fst sink, currlen = 0, o_mem = snd sink\<rparr>"
  have "sint w < 2 ^ 31" using sint_less [of w] by simp
  then have e: "fmtint ?st v base (sint w) (- 1) flags = emit ?st (int_text v base (sint w) (- 1) flags)"
    if "unat base \<in> {8, 10, 16}" for base flags
    using fmtint_emit [OF that assms(2)] by simp
  have e8: "fmtint ?st v 8 (sint w) (- 1) flags = emit ?st (int_text v 8 (sint w) (- 1) flags)"
    and e10: "fmtint ?st v 10 (sint w) (- 1) flags = emit ?st (int_text v 10 (sint w) (- 1) flags)"
    and e16: "fmtint ?st v 16 (sint w) (- 1) flags = emit ?st (int_text v 16 (sint w) (- 1) flags)" for flags
    by (simp_all add: e)
  have "\<not> maxlen \<le> 0" using assms(1) by simp
  note run = this star_simps e8 e10 e16
  show "c = 100 \<or> c = 105 \<Longrightarrow> printed F sink maxlen [37, 42, c] [w, v] =
      Some (Inr (fst sink @ int_text v 10 (sint w) (- 1) 0, snd sink))" by (auto simp: run)
  show "c = 111 \<Longrightarrow> printed F sink maxlen [37, 42, c] [w, v] =
      Some (Inr (fst sink @ int_text v 8 (sint w) (- 1) DP_F_UNSIGNED, snd sink))" by (simp add: run)
  show "c = 117 \<Longrightarrow> printed F sink maxlen [37, 42, c] [w, v] =
      Some (Inr (fst sink @ int_text v 10 (sint w) (- 1) DP_F_UNSIGNED, snd sink))" by (simp add: run)
  show "c = 120 \<Longrightarrow> printed F sink maxlen [37, 42, c] [w, v] =
      Some (Inr (fst sink @ int_text v 16 (sint w) (- 1) DP_F_UNSIGNED, snd sink))" by (simp add: run)
  show "c = 88 \<Longrightarrow> printed F sink maxlen [37, 42, c] [w, v] =
      Some (Inr (fst sink @ int_text v 16 (sint w) (- 1) (DP_F_UP OR DP_F_UNSIGNED), snd sink))" by (simp add: run)
  show "c = 112 \<Longrightarrow> printed F sink maxlen [37, 42, c] [w, v] =
      Some (Inr (fst sink @ int_text v 16 (sint w) (- 1) 0, snd sink))" by (simp add: run)
qed

lemma star_int_width:
  assumes "0 \<le> sint w" "c \<in> {100, 105, 111, 117, 120, 88, 112}"
  shows "\<exists>out. nat (sint w) \<le> length out \<and>
    (\<forall>maxlen > 0. printed F sink maxlen [37, 42, c] [w, v] = Some (Inr (fst sink @ out, snd sink)))"
proof -
  have z: "DP_F_UNSIGNED AND DP_F_ZERO = 0" "(DP_F_UP OR DP_F_UNSIGNED) AND DP_F_ZERO = 0" "0 AND DP_F_ZERO = 0"
    by (simp_all add: DP_F_UNSIGNED_def DP_F_ZERO_def DP_F_UP_def)
  note i = printed_star_int [OF _ assms(1)] and t = int_text_width [OF disjI1]
  consider "c = 100 \<or> c = 105" | "c = 111" | "c = 117" | "c = 120" | "c = 88" | "c = 112" using assms(2) by auto
  then show ?thesis
  proof cases
    case 1 then show ?thesis using i(1) t [OF z(3)] by blast
  next
    case 2 then show ?thesis using i(2) t [OF z(1)] by blast
  next
    case 3 then show ?thesis using i(3) t [OF z(1)] by blast
  next
    case 4 then show ?thesis using i(4) t [OF z(1)] by blast
  next
    case 5 then show ?thesis using i(5) t [OF z(2)] by blast
  next
    case 6 then show ?thesis using i(6) t [OF z(3)] by blast
  qed
qed

lemma printed_star_str:
  assumes "0 < maxlen" "0 \<le> sint w" "string_at (snd sink) p s" "length s < 2 ^ 31"
  shows "printed F sink maxlen [37, 42, 115] [w, p] =
    Some (Inr (fst sink @ take (nat maxlen) (replicate (nat (sint w) - length s) 32 @ s), snd sink))"
proof -
  let ?st = "\<lparr>o_chars = fst sink, currlen = 0, o_mem = snd sink\<rparr>"
  have "sint w < 2 ^ 31" using sint_less [of w] by simp
  then have e: "fmtstr ?st p 0 (sint w) maxlen = Some (Inr (emit ?st (str_text s 0 (sint w) maxlen)))"
    using fmtstr_emit [of ?st p s "sint w" 0 maxlen] assms by simp
  have "\<not> maxlen \<le> 0" using assms(1) by simp
  then show ?thesis by (simp add: star_simps e str_text_def)
qed

text \<open>
  C39.  What \<open>maxlen\<close> bounds.  A limit of 0 or less prints nothing.  Text is cut to the limit, and so is
  \<open>%*s\<close>, which takes it as its precision.  But the integer conversions with a width, \<open>%*d\<close> and the
  others, print the same at every limit that is not 0 or less: the whole field, which is at least as
  long as the width argument says.
\<close>

theorem limit_of_output:
  assumes "0 \<le> sint w" and "string_at (snd sink) p s" and "length s < 2 ^ 31"
    and "0 \<notin> set cs" and "37 \<notin> set text" "0 \<notin> set text" "length text < 2 ^ 31"
    and "c \<in> {100, 105, 111, 117, 120, 88, 112}"
  shows "(maxlen \<le> 0 \<longrightarrow> k_snprintf F sink maxlen (cstr cs) args = Some (Inr sink)) \<and>
    k_snprintf F sink maxlen (cstr text) args = Some (Inr (fst sink @ take (nat maxlen) text, snd sink)) \<and>
    k_snprintf F sink maxlen (cstr [37, 42, 115]) [w, p] =
      Some (Inr (fst sink @ take (nat maxlen) (replicate (nat (sint w) - length s) 32 @ s), snd sink)) \<and>
    (\<exists>out. nat (sint w) \<le> length out \<and> (\<forall>limit > 0.
      k_snprintf F sink limit (cstr [37, 42, c]) [w, v] = Some (Inr (fst sink @ out, snd sink))))"
proof (intro conjI)
  note p = k_snprintf_def k_vsnprintf_def
  have nz: "0 \<notin> set [37, 42, 115 :: u8]" "0 \<notin> set [37, 42, c]" using assms(8) by auto
  show "maxlen \<le> 0 \<longrightarrow> k_snprintf F sink maxlen (cstr cs) args = Some (Inr sink)"
    unfolding p dopr_printed [OF assms(4)] using printed_nothing by blast
  show "k_snprintf F sink maxlen (cstr text) args = Some (Inr (fst sink @ take (nat maxlen) text, snd sink))"
    unfolding p dopr_printed [OF assms(6)] by (rule printed_text [OF assms(5,7)])
  show "k_snprintf F sink maxlen (cstr [37, 42, 115]) [w, p] =
      Some (Inr (fst sink @ take (nat maxlen) (replicate (nat (sint w) - length s) 32 @ s), snd sink))"
    unfolding p dopr_printed [OF nz(1)]
    by (cases "0 < maxlen") (simp_all add: printed_star_str [OF _ assms(1-3)] printed_nothing)
  show "\<exists>out. nat (sint w) \<le> length out \<and> (\<forall>limit > 0.
      k_snprintf F sink limit (cstr [37, 42, c]) [w, v] = Some (Inr (fst sink @ out, snd sink)))"
    unfolding p dopr_printed [OF nz(2)] by (rule star_int_width [OF assms(1,8)])
qed

lemma limit_of_output_witness:
  "(\<exists>out. 40 \<le> length out \<and>
      k_snprintf exact_fpu ([], no_mem) 5 (cstr [37, 42, 100]) [40, 7] = Some (Inr (out, no_mem))) \<and>
   k_snprintf exact_fpu ([], no_mem) 3 (cstr [37, 42, 115]) [8, 0] = Some (Inr ([32, 32, 60], no_mem)) \<and>
   k_snprintf exact_fpu ([], no_mem) 2 (cstr [97, 98, 99]) [] = Some (Inr ([97, 98], no_mem)) \<and>
   k_snprintf exact_fpu ([], no_mem) 0 (cstr [37, 42, 100]) [40, 7] = Some (Inr ([], no_mem))"
proof -
  have s: "string_at (snd ([] :: u8 list, no_mem)) 0 null_text" by (simp add: string_at_def null_text_def)
  have n: "length null_text < 2 ^ 31" "0 \<notin> set [37, 42, 100 :: u8]" "37 \<notin> set [97, 98, 99 :: u8]"
    "0 \<notin> set [97, 98, 99 :: u8]" "length [97, 98, 99 :: u8] < 2 ^ 31"
    "(100 :: u8) \<in> {100, 105, 111, 117, 120, 88, 112}" by (simp_all add: null_text_def)
  have w: "0 \<le> sint (40 :: u32)" "0 \<le> sint (8 :: u32)" by simp_all
  have r: "replicate 2 32 = [32, 32 :: u8]" by (simp add: numeral_2_eq_2)
  show ?thesis
    using limit_of_output [OF w(1) s n, of 5 exact_fpu "[]" 7]
      limit_of_output [OF w(2) s n, of 3 exact_fpu "[]" 7]
      limit_of_output [OF w(1) s n, of 2 exact_fpu "[]" 7]
      limit_of_output [OF w(1) s n, of 0 exact_fpu "[40, 7]" 7] r
    by (auto simp: null_text_def)
qed

text \<open>
  The fraction of a floating-point number loses its leading zeros: the padding is put behind its
  digits, not before them.  With exact arithmetic and two places, 1.05 and 1.5 both print as 1.50.
\<close>

theorem fmtfp_misplaces_zeros:
  "map_sum id o_chars (fmtfp exact_fpu empty_out (21 / 20) 0 2 0) = Inr [49, 46, 53, 48] \<and>
   map_sum id o_chars (fmtfp exact_fpu empty_out (3 / 2) 0 2 0) = Inr [49, 46, 53, 48]"
proof -
  have c: "fp_convert 1 [] = Inr [49]" "fp_convert 5 [] = Inr [53]" "fp_convert 50 [] = Inr [48, 53]"
    by code_simp+
  have p: "pow10 exact_fpu 2 = 100" by (simp add: pow10_def numeral_2_eq_2 exact_fpu_def)
  have f: "f_less exact_fpu = (<)" "f_int exact_fpu = of_int" "f_ge exact_fpu = (\<ge>)"
    "f_mul exact_fpu = (*)" "f_sub exact_fpu = (-)" "f_half exact_fpu = 1 / 2"
    "f_long exact_fpu (21 / 20) = 1" "f_long exact_fpu (3 / 2) = 1" "f_long exact_fpu 5 = 5"
    "f_long exact_fpu 50 = 50"
    by (simp_all add: exact_fpu_def floor_eq_iff)
  show ?thesis unfolding fmtfp_def Let_def
    by (simp add: abs_val_def p f c xround_def s32_def c_dot_def c_zero_def empty_out_def put_n_emit
        dopr_outch_def put_digits_emit)
qed

end
