(* ===== verification/User_Printf.thy ===== *)
theory User_Printf
  imports Snprintf
begin

text \<open>
  The user-level \<open>printf\<close>, \<open>test.dir/sbin/printf.c\<close> with \<open>putchar\<close> of \<open>test.dir/sbin/libc.c\<close>.  The
  formatter is the kernel's, adapted: each character goes out at once through the system call
  \<open>write\<close>, and the call is made between a \<open>down\<close> and an \<open>up\<close> of a semaphore.  The system calls
  are a parameter, acting on a world of their own; \<open>down\<close> may never return.  Characters, flags, states
  and 32-bit arithmetic are those of the kernel's formatter.
\<close>

section \<open>System calls\<close>

record 'w usys =
  s_write :: "int \<Rightarrow> u8 list \<Rightarrow> 'w \<Rightarrow> int \<times> 'w"
  s_sem :: "u32 \<Rightarrow> 'w \<Rightarrow> int \<times> 'w"
  s_up :: "int \<Rightarrow> 'w \<Rightarrow> int \<times> 'w"
  s_down :: "int \<Rightarrow> 'w \<Rightarrow> (int \<times> 'w) option"

definition u_putchar :: "'w usys \<Rightarrow> int \<Rightarrow> 'w \<Rightarrow> int \<times> 'w" where
  "u_putchar sys c w = s_write sys 1 [of_int c] w"

section \<open>The stream\<close>

record 'w u_out_st =
  u_world :: 'w
  u_len :: int
  u_mem :: byte_mem

definition u_dopr_outch :: "'w usys \<Rightarrow> 'w u_out_st \<Rightarrow> u8 \<Rightarrow> 'w u_out_st" where
  "u_dopr_outch sys st c =
     st\<lparr>u_len := s32 (u_len st + 1), u_world := snd (u_putchar sys (sint c) (u_world st))\<rparr>"

text \<open>A loop that puts the same character while a counter is positive.\<close>

function u_put_n :: "'w usys \<Rightarrow> int \<Rightarrow> u8 \<Rightarrow> 'w u_out_st \<Rightarrow> 'w u_out_st" where
  "u_put_n sys k c st = (if k > 0 then u_put_n sys (k - 1) c (u_dopr_outch sys st c) else st)"
  by pat_completeness auto
termination by (relation "measure (\<lambda>(_, k, _, _). nat k)") auto

declare u_put_n.simps [simp del]

section \<open>Strings\<close>

definition u_null_text :: "u8 list" where
  "u_null_text = [60, 78, 85, 76, 76, 62]"

text \<open>The three loops of \<open>fmtstr\<close>; each ends at the end of its padding or when \<open>max\<close>
  characters are out.\<close>

function u_pad_right :: "'w usys \<Rightarrow> int \<Rightarrow> int \<Rightarrow> int \<Rightarrow> 'w u_out_st \<Rightarrow> int \<times> int \<times> 'w u_out_st" where
  "u_pad_right sys padlen cnt mx st =
     (if padlen > 0 \<and> cnt < mx then u_pad_right sys (padlen - 1) (cnt + 1) mx (u_dopr_outch sys st c_space)
      else (padlen, cnt, st))"
  by pat_completeness auto
termination by (relation "measure (\<lambda>(_, p, _, _, _). nat p)") auto

function u_put_str :: "'w usys \<Rightarrow> cmem \<Rightarrow> nat \<Rightarrow> int \<Rightarrow> int \<Rightarrow> 'w u_out_st \<Rightarrow> int \<times> 'w u_out_st" where
  "u_put_str sys value i cnt mx st =
     (if value i \<noteq> 0 \<and> cnt < mx then u_put_str sys value (i + 1) (cnt + 1) mx (u_dopr_outch sys st (value i))
      else (cnt, st))"
  by pat_completeness auto
termination by (relation "measure (\<lambda>(_, _, _, c, m, _). nat (m - c))") auto

function u_pad_left :: "'w usys \<Rightarrow> int \<Rightarrow> int \<Rightarrow> int \<Rightarrow> 'w u_out_st \<Rightarrow> 'w u_out_st" where
  "u_pad_left sys padlen cnt mx st =
     (if padlen < 0 \<and> cnt < mx then u_pad_left sys (padlen + 1) (cnt + 1) mx (u_dopr_outch sys st c_space)
      else st)"
  by pat_completeness auto
termination by (relation "measure (\<lambda>(_, p, _, _, _). nat (- p))") auto

declare u_pad_right.simps [simp del] u_put_str.simps [simp del] u_pad_left.simps [simp del]

definition u_fmtstr :: "'w usys \<Rightarrow> 'w u_out_st \<Rightarrow> u32 \<Rightarrow> u32 \<Rightarrow> int \<Rightarrow> int \<Rightarrow> 'w u_out_st res option" where
  "u_fmtstr sys st value flags mn mx =
     (let str = (if value = 0 then cstr u_null_text else (\<lambda>i. u_mem st (value + of_nat i))) in
      Option.bind (strlen_from str 0) (\<lambda>n.
        let strln = s32 (int n);
            padlen = s32 (mn - strln);
            padlen = (if padlen < 0 then 0 else padlen);
            padlen = (if flags AND DP_F_MINUS \<noteq> 0 then - padlen else padlen);
            (padlen, cnt, st) = u_pad_right sys padlen 0 mx st;
            (cnt, st) = u_put_str sys str 0 cnt mx st
        in Some (Inr (u_pad_left sys padlen cnt mx st))))"

section \<open>Integers\<close>

definition u_digit_chars :: "bool \<Rightarrow> u8 list" where
  "u_digit_chars caps =
     [48, 49, 50, 51, 52, 53, 54, 55, 56, 57] @
     (if caps then [65, 66, 67, 68, 69, 70] else [97, 98, 99, 100, 101, 102])"

text \<open>\<open>convert[0 .. place]\<close>, least significant digit first.\<close>

function u_convert_loop :: "bool \<Rightarrow> u32 \<Rightarrow> u32 \<Rightarrow> u8 list \<Rightarrow> u8 list" where
  "u_convert_loop caps base uvalue convert =
     (let convert' = convert @ [u_digit_chars caps ! unat (uvalue mod base)];
          uvalue' = uvalue div base
      in if uvalue' \<noteq> 0 \<and> length convert' < 20 then u_convert_loop caps base uvalue' convert'
         else convert')"
  by pat_completeness auto
termination by (relation "measure (\<lambda>(_, _, _, c). 20 - length c)") auto

declare u_convert_loop.simps [simp del]

text \<open>The terminator at \<open>convert[place]\<close> overwrites a 20th digit.\<close>

definition u_cut_20 :: "u8 list \<Rightarrow> u8 list" where
  "u_cut_20 convert = (if length convert = 20 then take 19 convert else convert)"

primrec u_put_digits :: "'w usys \<Rightarrow> u8 list \<Rightarrow> nat \<Rightarrow> 'w u_out_st \<Rightarrow> 'w u_out_st" where
  "u_put_digits sys convert 0 st = st"
| "u_put_digits sys convert (Suc place) st = u_put_digits sys convert place (u_dopr_outch sys st (convert ! place))"

definition u_fmtint :: "'w usys \<Rightarrow> 'w u_out_st \<Rightarrow> u32 \<Rightarrow> u32 \<Rightarrow> int \<Rightarrow> int \<Rightarrow> u32 \<Rightarrow> 'w u_out_st" where
  "u_fmtint sys st value base mn mx flags =
     (let mx = (if mx < 0 then 0 else mx);
          (signvalue, uvalue) =
            (if flags AND DP_F_UNSIGNED = 0 then
               (if sint value < 0 then (c_minus, - value)
                else if flags AND DP_F_PLUS \<noteq> 0 then (c_plus, value)
                else if flags AND DP_F_SPACE \<noteq> 0 then (c_space, value)
                else (0, value))
             else (0, value));
          caps = (flags AND DP_F_UP \<noteq> 0);
          convert = u_cut_20 (u_convert_loop caps base uvalue []);
          place = int (length convert);
          zpadlen = s32 (mx - place);
          spadlen = s32 (mn - MAX_c mx place - (if signvalue \<noteq> 0 then 1 else 0));
          zpadlen = (if zpadlen < 0 then 0 else zpadlen);
          spadlen = (if spadlen < 0 then 0 else spadlen);
          (zpadlen, spadlen) =
            (if flags AND DP_F_ZERO \<noteq> 0 then (MAX_c zpadlen spadlen, 0) else (zpadlen, spadlen));
          spadlen = (if flags AND DP_F_MINUS \<noteq> 0 then - spadlen else spadlen);
          st = u_put_n sys spadlen c_space st;
          st = (if signvalue \<noteq> 0 then u_dopr_outch sys st signvalue else st);
          st = u_put_n sys zpadlen c_zero st;
          st = u_put_digits sys convert (length convert) st
      in u_put_n sys (- spadlen) c_space st)"

section \<open>Floating point\<close>

definition u_abs_val :: "'r fpu \<Rightarrow> 'r \<Rightarrow> 'r" where
  "u_abs_val F v = (if f_less F v (f_int F 0) then f_neg F v else v)"

text \<open>\<open>pow10\<close> is only called with an exponent from 0 to 9.\<close>

primrec u_pow10_loop :: "'r fpu \<Rightarrow> nat \<Rightarrow> 'r \<Rightarrow> 'r" where
  "u_pow10_loop F 0 result = result"
| "u_pow10_loop F (Suc exp) result = u_pow10_loop F exp (f_mul F result (f_int F 10))"

definition u_pow10 :: "'r fpu \<Rightarrow> int \<Rightarrow> 'r" where
  "u_pow10 F exp = u_pow10_loop F (nat exp) (f_int F 1)"

definition u_xround :: "'r fpu \<Rightarrow> 'r \<Rightarrow> int" where
  "u_xround F v =
     (let intpart = f_long F v; v = f_sub F v (f_int F intpart)
      in if f_ge F v (f_half F) then s32 (intpart + 1) else intpart)"

text \<open>The digits of a \<open>long\<close>; C's remainder of a negative number is negative, and is then an index
  before the digits.\<close>

function u_fp_convert :: "int \<Rightarrow> u8 list \<Rightarrow> u8 list res" where
  "u_fp_convert part convert =
     (if part < 0 \<and> part mod 10 \<noteq> 0 then Inl OutOfRange
      else let convert' = convert @ [u_digit_chars False ! nat (part mod 10)];
               part' = (if part < 0 then - ((- part) div 10) else part div 10)
        in if part' \<noteq> 0 \<and> length convert' < 20 then u_fp_convert part' convert'
           else Inr (u_cut_20 convert'))"
  by pat_completeness auto
termination by (relation "measure (\<lambda>(_, c). 20 - length c)") auto

declare u_fp_convert.simps [simp del]

definition u_fmtfp :: "'w usys \<Rightarrow> 'r fpu \<Rightarrow> 'w u_out_st \<Rightarrow> 'r \<Rightarrow> int \<Rightarrow> int \<Rightarrow> u32 \<Rightarrow> 'w u_out_st res" where
  "u_fmtfp sys F st fvalue mn mx flags =
     (let mx = (if mx < 0 then 6 else mx);
          ufvalue = u_abs_val F fvalue;
          signvalue =
            (if f_less F fvalue (f_int F 0) then c_minus
             else if flags AND DP_F_PLUS \<noteq> 0 then c_plus
             else if flags AND DP_F_SPACE \<noteq> 0 then c_space else 0);
          intpart = f_long F ufvalue;
          mx = (if mx > 9 then 9 else mx);
          fracpart = u_xround F (f_mul F (u_pow10 F mx) (f_sub F ufvalue (f_int F intpart)));
          (intpart, fracpart) =
            (if f_ge F (f_int F fracpart) (u_pow10 F mx)
             then (s32 (intpart + 1), f_long F (f_sub F (f_int F fracpart) (u_pow10 F mx)))
             else (intpart, fracpart))
      in rbind (u_fp_convert intpart []) (\<lambda>iconvert.
         rbind (u_fp_convert fracpart []) (\<lambda>fconvert.
         let iplace = int (length iconvert);
             fplace = int (length fconvert);
             padlen = s32 (mn - iplace - mx - 1 - (if signvalue \<noteq> 0 then 1 else 0));
             zpadlen = mx - fplace;
             zpadlen = (if zpadlen < 0 then 0 else zpadlen);
             padlen = (if padlen < 0 then 0 else padlen);
             padlen = (if flags AND DP_F_MINUS \<noteq> 0 then - padlen else padlen);
             (st, signvalue, padlen) =
               (if flags AND DP_F_ZERO \<noteq> 0 \<and> padlen > 0 then
                  (let (st, padlen, signvalue) =
                         (if signvalue \<noteq> 0 then (u_dopr_outch sys st signvalue, padlen - 1, 0)
                          else (st, padlen, signvalue))
                   in (u_put_n sys padlen c_zero st, signvalue, 0))
                else (st, signvalue, padlen));
             st = u_put_n sys padlen c_space st;
             padlen = (if padlen > 0 then 0 else padlen);
             st = (if signvalue \<noteq> 0 then u_dopr_outch sys st signvalue else st);
             st = u_put_digits sys iconvert (length iconvert) st;
             st = (if mx > 0 then u_put_digits sys fconvert (length fconvert) (u_dopr_outch sys st c_dot) else st);
             st = u_put_n sys zpadlen c_zero st
         in Inr (u_put_n sys (- padlen) c_space st))))"

section \<open>The format\<close>

record 'w u_dopr_st =
  u_ch :: u8
  u_pos :: nat
  u_state :: dp_state
  u_min :: int
  u_max :: int
  u_flags :: u32
  u_cflags :: nat
  u_va :: "u32 list"
  u_out :: "'w u_out_st"

text \<open>\<open>ch = *format++\<close>.\<close>

definition u_next_ch :: "cmem \<Rightarrow> 'w u_dopr_st \<Rightarrow> 'w u_dopr_st" where
  "u_next_ch fmt d = d\<lparr>u_ch := fmt (u_pos d), u_pos := u_pos d + 1\<rparr>"

text \<open>\<open>va_arg\<close> of a word-sized type.\<close>

definition u_va_word :: "'w u_dopr_st \<Rightarrow> (u32 \<times> 'w u_dopr_st) res" where
  "u_va_word d = (case u_va d of [] \<Rightarrow> Inl OutOfRange | w # ws \<Rightarrow> Inr (w, d\<lparr>u_va := ws\<rparr>))"

definition u_va_real :: "'r fpu \<Rightarrow> 'w u_dopr_st \<Rightarrow> ('r \<times> 'w u_dopr_st) res" where
  "u_va_real F d =
     rbind (u_va_word d) (\<lambda>(a, d).
     rbind (u_va_word d) (\<lambda>(b, d).
       if u_cflags d = DP_C_LDOUBLE
       then rbind (u_va_word d) (\<lambda>(c, d). Inr (f_ldouble F a b c, d))
       else Inr (f_double F a b, d)))"

definition u_dp_default :: "'w usys \<Rightarrow> cmem \<Rightarrow> 'w u_dopr_st \<Rightarrow> 'w u_dopr_st" where
  "u_dp_default sys fmt d =
     u_next_ch fmt (if u_ch d = 37 then d\<lparr>u_state := DP_S_FLAGS\<rparr> else d\<lparr>u_out := u_dopr_outch sys (u_out d) (u_ch d)\<rparr>)"

definition u_dp_flags :: "cmem \<Rightarrow> 'w u_dopr_st \<Rightarrow> 'w u_dopr_st" where
  "u_dp_flags fmt d =
     (if u_ch d = c_minus then u_next_ch fmt (d\<lparr>u_flags := u_flags d OR DP_F_MINUS\<rparr>)
      else if u_ch d = c_plus then u_next_ch fmt (d\<lparr>u_flags := u_flags d OR DP_F_PLUS\<rparr>)
      else if u_ch d = c_space then u_next_ch fmt (d\<lparr>u_flags := u_flags d OR DP_F_SPACE\<rparr>)
      else if u_ch d = 35 then u_next_ch fmt (d\<lparr>u_flags := u_flags d OR DP_F_NUM\<rparr>)
      else if u_ch d = c_zero then u_next_ch fmt (d\<lparr>u_flags := u_flags d OR DP_F_ZERO\<rparr>)
      else d\<lparr>u_state := DP_S_MIN\<rparr>)"

definition u_dp_min :: "cmem \<Rightarrow> 'w u_dopr_st \<Rightarrow> 'w u_dopr_st res" where
  "u_dp_min fmt d =
     (if k_isdigit (sint (u_ch d)) then
        Inr (u_next_ch fmt (d\<lparr>u_min := s32 (10 * u_min d + char_to_int (u_ch d))\<rparr>))
      else if u_ch d = 42 then
        rbind (u_va_word d) (\<lambda>(w, d). Inr ((u_next_ch fmt (d\<lparr>u_min := sint w\<rparr>))\<lparr>u_state := DP_S_DOT\<rparr>))
      else Inr (d\<lparr>u_state := DP_S_DOT\<rparr>))"

definition u_dp_dot :: "cmem \<Rightarrow> 'w u_dopr_st \<Rightarrow> 'w u_dopr_st" where
  "u_dp_dot fmt d =
     (if u_ch d = c_dot then u_next_ch fmt (d\<lparr>u_state := DP_S_MAX\<rparr>) else d\<lparr>u_state := DP_S_MOD\<rparr>)"

definition u_dp_max :: "cmem \<Rightarrow> 'w u_dopr_st \<Rightarrow> 'w u_dopr_st res" where
  "u_dp_max fmt d =
     (if k_isdigit (sint (u_ch d)) then
        (let mx = (if u_max d < 0 then 0 else u_max d)
         in Inr (u_next_ch fmt (d\<lparr>u_max := s32 (10 * mx + char_to_int (u_ch d))\<rparr>)))
      else if u_ch d = 42 then
        rbind (u_va_word d) (\<lambda>(w, d). Inr ((u_next_ch fmt (d\<lparr>u_max := sint w\<rparr>))\<lparr>u_state := DP_S_MOD\<rparr>))
      else Inr (d\<lparr>u_state := DP_S_MOD\<rparr>))"

definition u_dp_mod :: "cmem \<Rightarrow> 'w u_dopr_st \<Rightarrow> 'w u_dopr_st" where
  "u_dp_mod fmt d =
     (let d = (if u_ch d = 104 then u_next_ch fmt (d\<lparr>u_cflags := DP_C_SHORT\<rparr>)
               else if u_ch d = 108 then u_next_ch fmt (d\<lparr>u_cflags := DP_C_LONG\<rparr>)
               else if u_ch d = 76 then u_next_ch fmt (d\<lparr>u_cflags := DP_C_LDOUBLE\<rparr>)
               else d)
      in d\<lparr>u_state := DP_S_CONV\<rparr>)"

text \<open>The switch of the conversion state.\<close>

definition u_conv_int :: "'w usys \<Rightarrow> 'w u_dopr_st \<Rightarrow> u32 \<Rightarrow> u32 \<Rightarrow> 'w u_dopr_st res" where
  "u_conv_int sys d base extra =
     (let d = d\<lparr>u_flags := u_flags d OR extra\<rparr> in
      rbind (u_va_word d) (\<lambda>(value, d).
        Inr (d\<lparr>u_out := u_fmtint sys (u_out d) value base (u_min d) (u_max d) (u_flags d)\<rparr>)))"

definition u_store_n :: "byte_mem \<Rightarrow> nat \<Rightarrow> u32 \<Rightarrow> int \<Rightarrow> byte_mem" where
  "u_store_n m cflags p v =
     (let bs = put32 (of_int v) in
      if cflags = DP_C_SHORT then m(p := bs ! 0, p + 1 := bs ! 1)
      else m(p := bs ! 0, p + 1 := bs ! 1, p + 2 := bs ! 2, p + 3 := bs ! 3))"

definition u_conv_switch :: "'w usys \<Rightarrow> 'r fpu \<Rightarrow> int \<Rightarrow> cmem \<Rightarrow> 'w u_dopr_st \<Rightarrow> 'w u_dopr_st res option" where
  "u_conv_switch sys F maxlen fmt d =
     (if u_ch d = 100 \<or> u_ch d = 105 then Some (u_conv_int sys d 10 0)
      else if u_ch d = 111 then Some (u_conv_int sys d 8 DP_F_UNSIGNED)
      else if u_ch d = 117 then Some (u_conv_int sys d 10 DP_F_UNSIGNED)
      else if u_ch d = 88 then Some (u_conv_int sys d 16 (DP_F_UP OR DP_F_UNSIGNED))
      else if u_ch d = 120 then Some (u_conv_int sys d 16 DP_F_UNSIGNED)
      else if u_ch d = 102 then
        Some (rbind (u_va_real F d) (\<lambda>(fvalue, d).
              rbind (u_fmtfp sys F (u_out d) fvalue (u_min d) (u_max d) (u_flags d)) (\<lambda>st. Inr (d\<lparr>u_out := st\<rparr>))))
      else if u_ch d = 69 \<or> u_ch d = 71 then
        Some (rbind (u_va_real F (d\<lparr>u_flags := u_flags d OR DP_F_UP\<rparr>)) (\<lambda>(fvalue, d). Inr d))
      else if u_ch d = 101 \<or> u_ch d = 103 then
        Some (rbind (u_va_real F d) (\<lambda>(fvalue, d). Inr d))
      else if u_ch d = 99 then
        Some (rbind (u_va_word d) (\<lambda>(w, d). Inr (d\<lparr>u_out := u_dopr_outch sys (u_out d) (ucast w)\<rparr>)))
      else if u_ch d = 115 then
        obind (Some (u_va_word d)) (\<lambda>(strvalue, d).
          let d = (if u_max d < 0 then d\<lparr>u_max := maxlen\<rparr> else d) in
          obind (u_fmtstr sys (u_out d) strvalue (u_flags d) (u_min d) (u_max d)) (\<lambda>st. Some (Inr (d\<lparr>u_out := st\<rparr>))))
      else if u_ch d = 112 then Some (u_conv_int sys d 16 0)
      else if u_ch d = 110 then
        Some (rbind (u_va_word d) (\<lambda>(num, d).
          if num = 0 then Inl NullDeref
          else Inr (d\<lparr>u_out := (u_out d)\<lparr>u_mem := u_store_n (u_mem (u_out d)) (u_cflags d) num (u_len (u_out d))\<rparr>\<rparr>)))
      else if u_ch d = 37 then Some (Inr (d\<lparr>u_out := u_dopr_outch sys (u_out d) (u_ch d)\<rparr>))
      else if u_ch d = 119 then Some (Inr (u_next_ch fmt d))
      else Some (Inr d))"

definition u_dp_conv :: "'w usys \<Rightarrow> 'r fpu \<Rightarrow> int \<Rightarrow> cmem \<Rightarrow> 'w u_dopr_st \<Rightarrow> 'w u_dopr_st res option" where
  "u_dp_conv sys F maxlen fmt d =
     obind (u_conv_switch sys F maxlen fmt d) (\<lambda>d.
       Some (Inr ((u_next_ch fmt d)\<lparr>u_state := DP_S_DEFAULT, u_flags := 0, u_cflags := 0, u_min := 0,
                    u_max := -1\<rparr>)))"

definition u_dopr_step :: "'w usys \<Rightarrow> 'r fpu \<Rightarrow> int \<Rightarrow> cmem \<Rightarrow> 'w u_dopr_st \<Rightarrow> 'w u_dopr_st res option" where
  "u_dopr_step sys F maxlen fmt d =
     (case u_state d of
        DP_S_DEFAULT \<Rightarrow> Some (Inr (u_dp_default sys fmt d))
      | DP_S_FLAGS \<Rightarrow> Some (Inr (u_dp_flags fmt d))
      | DP_S_MIN \<Rightarrow> Some (u_dp_min fmt d)
      | DP_S_DOT \<Rightarrow> Some (Inr (u_dp_dot fmt d))
      | DP_S_MAX \<Rightarrow> Some (u_dp_max fmt d)
      | DP_S_MOD \<Rightarrow> Some (Inr (u_dp_mod fmt d))
      | DP_S_CONV \<Rightarrow> u_dp_conv sys F maxlen fmt d
      | DP_S_DONE \<Rightarrow> Some (Inr d))"

partial_function (option) u_dopr_loop ::
    "'w usys \<Rightarrow> 'r fpu \<Rightarrow> int \<Rightarrow> cmem \<Rightarrow> 'w u_dopr_st \<Rightarrow> 'w u_dopr_st res option" where
  "u_dopr_loop sys F maxlen fmt d =
     (if u_state d = DP_S_DONE then Some (Inr d)
      else (case u_dopr_step sys F maxlen fmt
                   (if u_ch d = 0 \<or> u_len (u_out d) \<ge> maxlen then d\<lparr>u_state := DP_S_DONE\<rparr> else d) of
              None \<Rightarrow> None
            | Some (Inl e) \<Rightarrow> Some (Inl e)
            | Some (Inr d') \<Rightarrow> u_dopr_loop sys F maxlen fmt d'))"

declare u_dopr_loop.simps [code]

definition u_dopr ::
    "'w usys \<Rightarrow> 'r fpu \<Rightarrow> 'w \<Rightarrow> byte_mem \<Rightarrow> int \<Rightarrow> cmem \<Rightarrow> u32 list \<Rightarrow> ('w \<times> byte_mem) res option" where
  "u_dopr sys F w m maxlen fmt args =
     obind (u_dopr_loop sys F maxlen fmt
       (u_next_ch fmt \<lparr>u_ch = 0, u_pos = 0, u_state = DP_S_DEFAULT, u_min = 0, u_max = -1, u_flags = 0,
          u_cflags = 0, u_va = args, u_out = \<lparr>u_world = w, u_len = 0, u_mem = m\<rparr>\<rparr>))
     (\<lambda>d. Some (Inr (u_world (u_out d), u_mem (u_out d))))"

definition u_vprintf ::
    "'w usys \<Rightarrow> 'r fpu \<Rightarrow> int \<Rightarrow> cmem \<Rightarrow> u32 list \<Rightarrow> 'w \<Rightarrow> byte_mem \<Rightarrow> (int \<times> 'w \<times> byte_mem) res option" where
  "u_vprintf sys F printf_sem fmt args w m =
     Option.bind (s_down sys printf_sem w) (\<lambda>(_, w).
     obind (u_dopr sys F w m 1000 fmt args) (\<lambda>(w, m).
       Some (Inr (1, snd (s_up sys printf_sem w), m))))"

definition u_printf ::
    "'w usys \<Rightarrow> 'r fpu \<Rightarrow> int \<Rightarrow> cmem \<Rightarrow> u32 list \<Rightarrow> 'w \<Rightarrow> byte_mem \<Rightarrow> (int \<times> 'w \<times> byte_mem) res option" where
  "u_printf sys F printf_sem fmt args w m = u_vprintf sys F printf_sem fmt args w m"

definition u_printf_init :: "'w usys \<Rightarrow> 'w \<Rightarrow> int \<times> 'w" where
  "u_printf_init sys w = s_sem sys 1 w"

end
