(* ===== verification/User_Printf_Correct.thy ===== *)
theory User_Printf_Correct
  imports User_Printf Snprintf_Props
begin

text \<open>
  The user-level \<open>printf\<close> simulates the kernel's formatter: what it writes, character by character, is
  what the formatter would have put into a stream.
\<close>

section \<open>The simulation\<close>

definition write_all :: "'w usys \<Rightarrow> u8 list \<Rightarrow> 'w \<Rightarrow> 'w" where
  "write_all sys cs w = foldl (\<lambda>w c. snd (s_write sys 1 [c] w)) w cs"

definition usim :: "'w usys \<Rightarrow> 'w \<Rightarrow> out_st \<Rightarrow> 'w u_out_st" where
  "usim sys w st = \<lparr>u_world = write_all sys (o_chars st) w, u_len = currlen st, u_mem = o_mem st\<rparr>"

definition dsim :: "'w usys \<Rightarrow> 'w \<Rightarrow> dopr_st \<Rightarrow> 'w u_dopr_st" where
  "dsim sys w d =
     \<lparr>u_ch = ch d, u_pos = fpos d, u_state = dstate d, u_min = dmin d, u_max = dmax d, u_flags = dflags d,
      u_cflags = dcflags d, u_va = va d, u_out = usim sys w (ost d)\<rparr>"

lemma usim_fields [simp]: "u_len (usim sys w st) = currlen st" "u_mem (usim sys w st) = o_mem st"
  "(usim sys w st)\<lparr>u_mem := m\<rparr> = usim sys w (st\<lparr>o_mem := m\<rparr>)"
  by (simp_all add: usim_def)

named_theorems sim \<open>the user-level operations on simulated states\<close>

lemma outch_sim [sim]: "u_dopr_outch sys (usim sys w st) c = usim sys w (dopr_outch st c)"
  by (simp add: u_dopr_outch_def usim_def dopr_outch_def u_putchar_def write_all_def)

lemma put_n_sim [sim]: "u_put_n sys k c (usim sys w st) = usim sys w (put_n k c st)"
proof (induction k c st rule: put_n.induct)
  case (1 k c st)
  then show ?case by (subst u_put_n.simps, subst put_n.simps) (simp add: sim)
qed

lemma put_digits_sim [sim]: "u_put_digits sys cs n (usim sys w st) = usim sys w (put_digits cs n st)"
  by (induction n arbitrary: st) (simp_all add: sim)

lemma pad_right_sim [sim]:
  "u_pad_right sys p c m (usim sys w st) = (case pad_right p c m st of (a, b, t) \<Rightarrow> (a, b, usim sys w t))"
proof (induction p c m st rule: pad_right.induct)
  case (1 p c m st)
  then show ?case by (subst u_pad_right.simps, subst pad_right.simps) (simp add: sim)
qed

lemma put_str_sim [sim]:
  "u_put_str sys v i c m (usim sys w st) = (case put_str v i c m st of (a, t) \<Rightarrow> (a, usim sys w t))"
proof (induction v i c m st rule: put_str.induct)
  case (1 v i c m st)
  then show ?case by (subst u_put_str.simps, subst put_str.simps) (simp add: sim)
qed

lemma pad_left_sim [sim]: "u_pad_left sys p c m (usim sys w st) = usim sys w (pad_left p c m st)"
proof (induction p c m st rule: pad_left.induct)
  case (1 p c m st)
  then show ?case by (subst u_pad_left.simps, subst pad_left.simps) (simp add: sim)
qed

section \<open>The parts without output\<close>

lemma digit_chars_same [sim]: "u_digit_chars = digit_chars"
  by (simp add: fun_eq_iff u_digit_chars_def digit_chars_def)

lemma cut_20_same [sim]: "u_cut_20 = cut_20"
  by (simp add: fun_eq_iff u_cut_20_def cut_20_def)

lemma null_text_same [sim]: "u_null_text = null_text"
  by (simp add: u_null_text_def null_text_def)

lemma convert_loop_same [sim]: "u_convert_loop = convert_loop"
proof (intro ext)
  show "u_convert_loop caps b u cs = convert_loop caps b u cs" for caps b u cs
  proof (induction caps b u cs rule: convert_loop.induct)
    case (1 caps b u cs)
    then show ?case by (subst u_convert_loop.simps, subst convert_loop.simps) (simp add: sim Let_def)
  qed
qed

lemma fp_convert_same [sim]: "u_fp_convert = fp_convert"
proof (intro ext)
  show "u_fp_convert p cs = fp_convert p cs" for p cs
  proof (induction p cs rule: fp_convert.induct)
    case (1 p cs)
    then show ?case by (subst u_fp_convert.simps, subst fp_convert.simps) (cases "p < 0"; simp add: sim Let_def)
  qed
qed

lemma pow10_loop_same: "u_pow10_loop F n r = pow10_loop F n r"
  by (induction n arbitrary: r) simp_all

lemma fp_same [sim]: "u_pow10 = pow10" "u_abs_val = abs_val" "u_xround = xround"
  by (simp_all add: fun_eq_iff u_pow10_def pow10_def pow10_loop_same u_abs_val_def abs_val_def u_xround_def
      xround_def)

lemma store_n_same [sim]: "u_store_n = store_n"
  by (simp add: fun_eq_iff u_store_n_def store_n_def)

section \<open>The fields\<close>

lemma fmtstr_sim [sim]:
  "u_fmtstr sys (usim sys w st) v fl mn mx = map_option (map_sum id (usim sys w)) (fmtstr st v fl mn mx)"
  unfolding u_fmtstr_def fmtstr_def Let_def
  by (simp add: sim case_prod_beta' split: bind_splits)

lemma fmtint_sim [sim]:
  "u_fmtint sys (usim sys w st) v b mn mx fl = usim sys w (fmtint st v b mn mx fl)"
  unfolding u_fmtint_def fmtint_def Let_def
  by (simp add: sim case_prod_beta' if_distrib [of "usim sys w"] flip: if_distrib [of "usim sys w"])

lemma map_rbind:
  fixes m :: "'a res" and g :: "'b \<Rightarrow> 'c"
  shows "map_sum id g (rbind m h) = rbind m (\<lambda>x. map_sum id g (h x))"
  by (cases m) simp_all

lemma map_obind:
  fixes m :: "'a res option" and g :: "'b \<Rightarrow> 'c"
  shows "map_option (map_sum id g) (obind m h) = obind m (\<lambda>x. map_option (map_sum id g) (h x))"
  by (cases m rule: option.exhaust [case_names None Some]; simp add: obind_def split: sum.split)

lemma bind_mapped:
  fixes m :: "'a res" and mo :: "'a res option" and g :: "'a \<Rightarrow> 'b"
  shows "rbind (map_sum id g m) f = rbind m (\<lambda>x. f (g x))"
    "obind (map_option (map_sum id g) mo) fo = obind mo (\<lambda>x. fo (g x))"
    "obind (Some (map_sum id g m)) fo = obind (Some m) (\<lambda>x. fo (g x))"
proof -
  show "rbind (map_sum id g m) f = rbind m (\<lambda>x. f (g x))"
    "obind (Some (map_sum id g m)) fo = obind (Some m) (\<lambda>x. fo (g x))"
    by (cases m; simp)+
  show "obind (map_option (map_sum id g) mo) fo = obind mo (\<lambda>x. fo (g x))"
    by (cases mo) (simp_all add: obind_def split: sum.split)
qed

lemmas map_res_binds = map_rbind map_obind bind_mapped

lemma usim_if: "(if b then usim sys w x else usim sys w y) = usim sys w (if b then x else y)"
  by simp

lemma fmtfp_sim [sim]:
  "u_fmtfp sys F (usim sys w st) v mn mx fl = map_sum id (usim sys w) (fmtfp F st v mn mx fl)"
  unfolding u_fmtfp_def fmtfp_def
  by (simp only: Let_def case_prod_beta' sim map_res_binds if_distrib [of fst] if_distrib [of snd] fst_conv
      snd_conv usim_if map_sum.simps id_apply)

lemma dsim_if: "(if b then dsim sys w x else dsim sys w y) = dsim sys w (if b then x else y)"
  by simp

section \<open>The state machine\<close>

lemma dsim_fields [simp]:
  "u_ch (dsim sys w d) = ch d" "u_pos (dsim sys w d) = fpos d" "u_state (dsim sys w d) = dstate d"
  "u_min (dsim sys w d) = dmin d" "u_max (dsim sys w d) = dmax d" "u_flags (dsim sys w d) = dflags d"
  "u_cflags (dsim sys w d) = dcflags d" "u_va (dsim sys w d) = va d" "u_out (dsim sys w d) = usim sys w (ost d)"
  by (simp_all add: dsim_def)

lemma dsim_updates [simp]:
  "(dsim sys w d)\<lparr>u_ch := c\<rparr> = dsim sys w (d\<lparr>ch := c\<rparr>)" "(dsim sys w d)\<lparr>u_pos := i\<rparr> = dsim sys w (d\<lparr>fpos := i\<rparr>)"
  "(dsim sys w d)\<lparr>u_state := s\<rparr> = dsim sys w (d\<lparr>dstate := s\<rparr>)"
  "(dsim sys w d)\<lparr>u_min := n\<rparr> = dsim sys w (d\<lparr>dmin := n\<rparr>)" "(dsim sys w d)\<lparr>u_max := n\<rparr> = dsim sys w (d\<lparr>dmax := n\<rparr>)"
  "(dsim sys w d)\<lparr>u_flags := fl\<rparr> = dsim sys w (d\<lparr>dflags := fl\<rparr>)"
  "(dsim sys w d)\<lparr>u_cflags := k\<rparr> = dsim sys w (d\<lparr>dcflags := k\<rparr>)"
  "(dsim sys w d)\<lparr>u_va := ws\<rparr> = dsim sys w (d\<lparr>va := ws\<rparr>)"
  "(dsim sys w d)\<lparr>u_out := usim sys w st\<rparr> = dsim sys w (d\<lparr>ost := st\<rparr>)"
  by (simp_all add: dsim_def)

lemma next_ch_sim [sim]: "u_next_ch fmt (dsim sys w d) = dsim sys w (next_ch fmt d)"
  by (simp add: u_next_ch_def next_ch_def)

lemma va_word_sim [sim]: "u_va_word (dsim sys w d) = map_sum id (map_prod id (dsim sys w)) (va_word d)"
  by (simp add: u_va_word_def va_word_def split: list.split)

lemma va_real_sim [sim]: "u_va_real F (dsim sys w d) = map_sum id (map_prod id (dsim sys w)) (va_real F d)"
  by (auto simp: u_va_real_def va_real_def sim rbind_def split: sum.split prod.split)

lemma parts_sim [sim]:
  "u_dp_default sys fmt (dsim sys w d) = dsim sys w (dp_default fmt d)"
  "u_dp_flags fmt (dsim sys w d) = dsim sys w (dp_flags fmt d)"
  "u_dp_dot fmt (dsim sys w d) = dsim sys w (dp_dot fmt d)"
  "u_dp_mod fmt (dsim sys w d) = dsim sys w (dp_mod fmt d)"
  by (simp_all add: sim u_dp_default_def dp_default_def u_dp_flags_def dp_flags_def u_dp_dot_def dp_dot_def
      u_dp_mod_def dp_mod_def Let_def)

lemma num_sim [sim]:
  "u_dp_min fmt (dsim sys w d) = map_sum id (dsim sys w) (dp_min fmt d)"
  "u_dp_max fmt (dsim sys w d) = map_sum id (dsim sys w) (dp_max fmt d)"
  by (auto simp: sim u_dp_min_def dp_min_def u_dp_max_def dp_max_def Let_def rbind_def split: sum.split prod.split)

lemma conv_int_sim [sim]:
  "u_conv_int sys (dsim sys w d) b x = map_sum id (dsim sys w) (conv_int d b x)"
  by (auto simp: sim u_conv_int_def conv_int_def Let_def rbind_def split: sum.split prod.split)

lemma conv_switch_sim [sim]:
  "u_conv_switch sys F maxlen fmt (dsim sys w d) =
    map_option (map_sum id (dsim sys w)) (conv_switch F maxlen fmt d)"
  unfolding u_conv_switch_def conv_switch_def
  by (simp add: sim map_res_binds case_prod_beta' Let_def dsim_if if_distrib [of "map_sum id (dsim sys w)"] cong: if_cong)

lemma step_sim [sim]:
  "u_dopr_step sys F maxlen fmt (dsim sys w d) = map_option (map_sum id (dsim sys w)) (dopr_step F maxlen fmt d)"
  by (cases "dstate d")
     (simp_all add: u_dopr_step_def dopr_step_def sim u_dp_conv_def dp_conv_def map_res_binds)

text \<open>Both loops return together.\<close>

lemma loop_stopped:
  "(if ch d = 0 \<or> maxlen \<le> currlen (ost d) then (dsim sys w d)\<lparr>u_state := DP_S_DONE\<rparr> else dsim sys w d) =
   dsim sys w (if ch d = 0 \<or> maxlen \<le> currlen (ost d) then d\<lparr>dstate := DP_S_DONE\<rparr> else d)"
  by simp

lemma loop_sim_returns:
  assumes "dopr_loop F maxlen fmt d = Some r"
  shows "u_dopr_loop sys F maxlen fmt (dsim sys w d) = Some (map_sum id (dsim sys w) r)"
proof (rule dopr_loop.raw_induct [where P = "\<lambda>F maxlen fmt d r.
    u_dopr_loop sys F maxlen fmt (dsim sys w d) = Some (map_sum id (dsim sys w) r)", OF _ assms])
  fix loop :: "'a fpu \<Rightarrow> int \<Rightarrow> cmem \<Rightarrow> dopr_st \<Rightarrow> dopr_st res option" and F :: "'a fpu" and maxlen fmt d r
  assume IH: "\<And>F maxlen fmt d r. loop F maxlen fmt d = Some r \<Longrightarrow>
      u_dopr_loop sys F maxlen fmt (dsim sys w d) = Some (map_sum id (dsim sys w) r)"
    and r: "(if dstate d = DP_S_DONE then Some (Inr d)
      else (case dopr_step F maxlen fmt
                   (if ch d = 0 \<or> currlen (ost d) \<ge> maxlen then d\<lparr>dstate := DP_S_DONE\<rparr> else d) of
              None \<Rightarrow> None
            | Some (Inl e) \<Rightarrow> Some (Inl e)
            | Some (Inr d') \<Rightarrow> loop F maxlen fmt d')) = Some r"
  show "u_dopr_loop sys F maxlen fmt (dsim sys w d) = Some (map_sum id (dsim sys w) r)"
    using r IH by (subst u_dopr_loop.simps)
      (auto simp: loop_stopped sim split: if_splits option.splits sum.splits)
qed

lemma loop_sim_only:
  fixes sys :: "'a usys" and F :: "'b fpu"
  assumes "u_dopr_loop sys F maxlen fmt (dsim sys w d) = Some r"
  shows "dopr_loop F maxlen fmt d \<noteq> None"
proof -
  have "\<forall>d. u = dsim sys w d \<longrightarrow> dopr_loop F maxlen fmt d \<noteq> None"
    if run: "u_dopr_loop sys F maxlen fmt u = Some r" for u
  proof (rule u_dopr_loop.raw_induct [where P = "\<lambda>sys F maxlen fmt u r. \<forall>d. u = dsim sys w d \<longrightarrow>
      dopr_loop F maxlen fmt d \<noteq> None", OF _ run], intro allI impI)
    fix loop :: "'a usys \<Rightarrow> 'b fpu \<Rightarrow> int \<Rightarrow> cmem \<Rightarrow> 'a u_dopr_st \<Rightarrow> 'a u_dopr_st res option"
      and sys :: "'a usys" and F :: "'b fpu" and maxlen fmt u r d
    assume IH: "\<And>sys F maxlen fmt u r. loop sys F maxlen fmt u = Some r \<Longrightarrow>
        \<forall>d. u = dsim sys w d \<longrightarrow> dopr_loop F maxlen fmt d \<noteq> None"
      and r: "(if u_state u = DP_S_DONE then Some (Inr u)
        else (case u_dopr_step sys F maxlen fmt
                     (if u_ch u = 0 \<or> u_len (u_out u) \<ge> maxlen then u\<lparr>u_state := DP_S_DONE\<rparr> else u) of
                None \<Rightarrow> None
              | Some (Inl e) \<Rightarrow> Some (Inl e)
              | Some (Inr d') \<Rightarrow> loop sys F maxlen fmt d')) = Some r"
      and u: "u = dsim sys w d"
    show "dopr_loop F maxlen fmt d \<noteq> None"
      using r IH unfolding u by (subst dopr_loop.simps)
        (auto simp: loop_stopped sim split: if_splits option.splits sum.splits)
  qed
  then show ?thesis using assms by blast
qed

lemma loop_sim [sim]:
  "u_dopr_loop sys F maxlen fmt (dsim sys w d) = map_option (map_sum id (dsim sys w)) (dopr_loop F maxlen fmt d)"
proof (cases "dopr_loop F maxlen fmt d")
  case None
  then show ?thesis using loop_sim_only [of sys F maxlen fmt w d]
    by (cases "u_dopr_loop sys F maxlen fmt (dsim sys w d)") auto
next
  case (Some r)
  then show ?thesis by (simp add: loop_sim_returns)
qed

lemma dopr_sim:
  "u_dopr sys F w m maxlen fmt args =
    obind (dopr F ([], m) maxlen fmt args) (\<lambda>(out, m'). Some (Inr (write_all sys out w, m')))"
proof -
  let ?i = "\<lparr>ch = 0, fpos = 0, dstate = DP_S_DEFAULT, dmin = 0, dmax = -1, dflags = 0,
          dcflags = 0, va = args, ost = \<lparr>o_chars = [], currlen = 0, o_mem = m\<rparr>\<rparr>"
  have i: "\<lparr>u_ch = 0, u_pos = 0, u_state = DP_S_DEFAULT, u_min = 0, u_max = -1, u_flags = 0,
          u_cflags = 0, u_va = args, u_out = \<lparr>u_world = w, u_len = 0, u_mem = m\<rparr>\<rparr> = dsim sys w ?i"
    by (simp add: dsim_def usim_def write_all_def)
  have o: "u_world (usim sys w st) = write_all sys (o_chars st) w" for st by (simp add: usim_def)
  show ?thesis unfolding u_dopr_def i dopr_def by (simp add: sim map_res_binds o)
qed

section \<open>Property\<close>

text \<open>
  C36.  A user-level \<open>printf\<close> is one critical section in which exactly the characters the kernel's
  formatter would produce for the same format and arguments with limit 1000 are written to descriptor 1,
  one system call each and in order; it returns 1 when the formatter returns, and never when \<open>down\<close>
  does not return.
\<close>

theorem user_printf_writes:
  "u_printf sys F sem fmt args w m =
    Option.bind (s_down sys sem w) (\<lambda>(_, w1).
      obind (k_snprintf F ([], m) 1000 fmt args) (\<lambda>(out, m').
        Some (Inr (1, snd (s_up sys sem (foldl (\<lambda>w c. snd (s_write sys 1 [c] w)) w1 out)), m'))))"
  unfolding u_printf_def u_vprintf_def dopr_sim k_snprintf_def k_vsnprintf_def
  by (simp add: write_all_def case_prod_beta')

end
