(* ===== verification/User_Heap.thy ===== *)
theory User_Heap
  imports Heap_Props
begin

text \<open>
  The heap of user programs, \<open>test.dir/sbin/heap.c\<close>: a first-fit variant of the kernel's, on a static
  array.  Its state is the kernel heap's record with \<open>hbase\<close> the address of the array, \<open>hlen\<close> its
  length \<open>heap_len\<close> and no lock.  Its checks report nothing: \<open>sanity\<close> returns its argument on every
  path.  The scan is a partial function, as a damaged list may have no end.

  On a well-formed heap the operations are those of the kernel's heap, so the user heap is an
  allocator too.
\<close>

section \<open>The operations\<close>

definition INTS :: int where "INTS = 0x100000"

definition hu_abs :: "int \<Rightarrow> int" where
  "hu_abs x = (if x < 0 then - x else x)"

definition hu_size :: "heap \<Rightarrow> int \<Rightarrow> int" where
  "hu_size h i = hu_abs (arr h i)"

definition hu_headerFromFooter :: "heap \<Rightarrow> int \<Rightarrow> int" where
  "hu_headerFromFooter h i = i - hu_size h i + 1"

definition hu_footerFromHeader :: "heap \<Rightarrow> int \<Rightarrow> int" where
  "hu_footerFromHeader h i = i + hu_size h i - 1"

definition hu_sanity :: "heap \<Rightarrow> int \<Rightarrow> int" where
  "hu_sanity h i =
     (if safe h \<noteq> 0 then
        (if i = 0 then 0
         else if i < 0 \<or> i \<ge> hlen h then i
         else let footer = hu_footerFromHeader h i in
           if footer < 0 \<or> footer \<ge> hlen h then i
           else if arr h i \<noteq> arr h footer then i
           else i)
      else i)"

definition hu_left :: "heap \<Rightarrow> int \<Rightarrow> int" where
  "hu_left h i = hu_sanity h (hu_headerFromFooter h (i - 1))"

definition hu_right :: "heap \<Rightarrow> int \<Rightarrow> int" where
  "hu_right h i = hu_sanity h (i + hu_size h i)"

definition hu_next1 :: "heap \<Rightarrow> int \<Rightarrow> int" where
  "hu_next1 h i = hu_sanity h (arr h (i + 1))"

definition hu_prev1 :: "heap \<Rightarrow> int \<Rightarrow> int" where
  "hu_prev1 h i = hu_sanity h (arr h (i + 2))"

definition hu_next :: "heap \<Rightarrow> int \<Rightarrow> int \<Rightarrow> heap" where
  "hu_next h i x = h\<lparr>arr := (arr h)(i + 1 := x)\<rparr>"

definition hu_prev :: "heap \<Rightarrow> int \<Rightarrow> int \<Rightarrow> heap" where
  "hu_prev h i x = h\<lparr>arr := (arr h)(i + 2 := x)\<rparr>"

definition hu_remove :: "heap \<Rightarrow> int \<Rightarrow> heap" where
  "hu_remove h i =
     (let prevIndex = hu_prev1 h i;
          nextIndex = hu_next1 h i;
          h1 = (if prevIndex = 0 then h\<lparr>avail := nextIndex\<rparr> else hu_next h prevIndex nextIndex)
      in if nextIndex \<noteq> 0 then hu_prev h1 nextIndex prevIndex else h1)"

definition hu_makeAvail :: "heap \<Rightarrow> int \<Rightarrow> int \<Rightarrow> heap" where
  "hu_makeAvail h i ints =
     (let h1 = h\<lparr>arr := (arr h)(i := ints)\<rparr>;
          h2 = h1\<lparr>arr := (arr h1)(hu_footerFromHeader h1 i := ints)\<rparr>;
          h3 = hu_next h2 i (avail h2);
          h4 = hu_prev h3 i 0;
          h5 = (if avail h4 \<noteq> 0 then hu_prev h4 (avail h4) i else h4)
      in h5\<lparr>avail := i\<rparr>)"

definition hu_makeTaken :: "heap \<Rightarrow> int \<Rightarrow> int \<Rightarrow> heap" where
  "hu_makeTaken h i ints =
     (let h1 = h\<lparr>arr := (arr h)(i := - ints)\<rparr>
      in h1\<lparr>arr := (arr h1)(hu_footerFromHeader h1 i := - ints)\<rparr>)"

definition hu_isAvail :: "heap \<Rightarrow> int \<Rightarrow> bool" where
  "hu_isAvail h i = (arr h i > 0)"

definition hu_isTaken :: "heap \<Rightarrow> int \<Rightarrow> bool" where
  "hu_isTaken h i = (arr h i < 0)"

definition hu_init :: "heap \<Rightarrow> heap" where
  "hu_init h =
     (let h1 = hu_makeTaken h 0 2;
          h2 = hu_makeAvail h1 2 (hlen h1 - 4)
      in hu_makeTaken h2 (hlen h2 - 2) 2)"

definition hu_request :: "u32 \<Rightarrow> int" where
  "hu_request bytes =
     (let ints = uint ((bytes + 3) div 4 + 2) in if ints < 4 then 4 else ints)"

partial_function (option) hu_malloc_loop ::
    "int \<Rightarrow> int \<Rightarrow> u32 \<Rightarrow> heap \<Rightarrow> (u32 \<times> heap) option" where
  "hu_malloc_loop ints p res h =
     (if p \<noteq> 0 \<and> res = 0 then
        (let sz = hu_size h p in
         if sz \<ge> ints then
           (let h1 = hu_remove h p;
                extra = sz - ints;
                h2 = (if extra \<ge> 4
                      then hu_makeAvail (hu_makeTaken h1 p ints) (p + ints) extra
                      else hu_makeTaken h1 p sz)
            in hu_malloc_loop ints p (hbase h2 + of_int (4 * (p + 1))) h2)
         else hu_malloc_loop ints (hu_next1 h p) res h)
      else Some (res, h))"

declare hu_malloc_loop.simps [code]

definition hu_malloc :: "u32 \<Rightarrow> heap \<Rightarrow> (u32 \<times> heap) option" where
  "hu_malloc bytes h =
     (if bytes = 0 then Some (hbase h, h)
      else hu_malloc_loop (hu_request bytes) (avail h) 0 h)"

definition hu_idx :: "heap \<Rightarrow> u32 \<Rightarrow> int" where
  "hu_idx h p = sint ((p - hbase h) div 4 - 1)"

definition hu_free :: "u32 \<Rightarrow> heap \<Rightarrow> heap" where
  "hu_free p h =
     (if p = 0 then h
      else if p = hbase h then h
      else let idx = hu_idx h p in
        if \<not> hu_isTaken h idx then h
        else let sz = hu_size h idx;
                 leftIndex = hu_left h idx;
                 rightIndex = hu_right h idx;
                 (h, idx, sz) =
                   (if hu_isAvail h leftIndex
                    then (let h2 = hu_remove h leftIndex in (h2, leftIndex, sz + hu_size h2 leftIndex))
                    else (h, idx, sz));
                 (h, sz) =
                   (if hu_isAvail h rightIndex
                    then (let h3 = hu_remove h rightIndex in (h3, sz + hu_size h3 rightIndex))
                    else (h, sz))
             in hu_makeAvail h idx sz)"

text \<open>\<open>memcpy\<close> of \<open>n\<close> bytes between cells of the array, byte by byte, least significant byte first.\<close>

definition cell_byte :: "(int \<Rightarrow> int) \<Rightarrow> int \<Rightarrow> int" where
  "cell_byte a k = (a (k div 4) div 256 ^ nat (k mod 4)) mod 256"

definition set_cell_byte :: "(int \<Rightarrow> int) \<Rightarrow> int \<Rightarrow> int \<Rightarrow> (int \<Rightarrow> int)" where
  "set_cell_byte a k v =
     (let c = a (k div 4) mod 2 ^ 32; w = 256 ^ nat (k mod 4)
      in a(k div 4 := signed_take_bit 31 (c - cell_byte a k * w + v * w)))"

primrec hu_memcpy :: "nat \<Rightarrow> int \<Rightarrow> int \<Rightarrow> (int \<Rightarrow> int) \<Rightarrow> (int \<Rightarrow> int)" where
  "hu_memcpy 0 dest src a = a"
| "hu_memcpy (Suc n) dest src a =
     hu_memcpy n (dest + 1) (src + 1) (set_cell_byte a dest (cell_byte a src))"

definition hu_realloc :: "u32 \<Rightarrow> u32 \<Rightarrow> heap \<Rightarrow> (u32 \<times> heap) option" where
  "hu_realloc p newSize h =
     (if p = 0 then hu_malloc newSize h
      else if newSize = 0 then Some (0, hu_free p h)
      else let idx = hu_idx h p in
        if \<not> hu_isTaken h idx then Some (0, h)
        else let sz = of_int (hu_size h idx * 4) :: u32 in
          Option.bind (hu_malloc newSize h) (\<lambda>(newPtr, h).
            let h = (if newPtr \<noteq> 0
                     then (let m = (if newSize > sz then sz else newSize)
                           in h\<lparr>arr := hu_memcpy (unat m) (4 * (hu_idx h newPtr + 1)) (4 * (idx + 1)) (arr h)\<rparr>)
                     else h)
            in Some (newPtr, hu_free p h)))"

section \<open>The kernel's operations\<close>

lemma hu_sanity_id [simp]: "hu_sanity h i = i"
  by (simp add: hu_sanity_def Let_def)

lemma hu_same [simp]:
  "hu_size = size_h" "hu_headerFromFooter = headerFromFooter" "hu_footerFromHeader = footerFromHeader"
  "hu_next = setNext" "hu_prev = setPrev" "hu_makeAvail = makeAvail" "hu_makeTaken = makeTaken"
  "hu_isAvail = isAvail" "hu_isTaken = isTaken" "hu_request = request_ints" "hu_idx = free_idx"
proof -
  show s: "hu_size = size_h" by (simp add: fun_eq_iff hu_size_def size_h_def hu_abs_def abs_h_def)
  show f: "hu_headerFromFooter = headerFromFooter" "hu_footerFromHeader = footerFromHeader"
    by (simp_all add: fun_eq_iff hu_headerFromFooter_def headerFromFooter_def hu_footerFromHeader_def
        footerFromHeader_def s)
  show n: "hu_next = setNext" "hu_prev = setPrev"
    by (simp_all add: fun_eq_iff hu_next_def setNext_def hu_prev_def setPrev_def)
  show "hu_makeAvail = makeAvail" "hu_makeTaken = makeTaken"
    by (simp_all add: fun_eq_iff hu_makeAvail_def makeAvail_def hu_makeTaken_def makeTaken_def f n Let_def
        cong: if_cong)
  show "hu_isAvail = isAvail" "hu_isTaken = isTaken" "hu_request = request_ints" "hu_idx = free_idx"
    by (simp_all add: fun_eq_iff hu_isAvail_def isAvail_def hu_isTaken_def isTaken_def hu_request_def
        request_ints_def hu_idx_def free_idx_def)
qed

lemma sanity_InrD: "sanity h i = Inr j \<Longrightarrow> j = i"
  by (auto simp: sanity_def Let_def split: if_splits)

lemma hu_remove_kernel: "remove_h h i = Inr h' \<Longrightarrow> hu_remove h i = h'"
  by (auto simp: remove_h_def hu_remove_def hu_prev1_def hu_next1_def prev_h_def next_h_def
      rbind_eq_Inr_iff Let_def dest!: sanity_InrD)

lemma keeps_lock:
  "remove_h h i = Inr h' \<Longrightarrow> theLock h' = theLock h" "theLock (makeAvail h i n) = theLock h"
  "theLock (makeTaken h i n) = theLock h"
  by (auto simp: remove_h_def rbind_eq_Inr_iff Let_def setNext_def setPrev_def makeAvail_def makeTaken_def)

lemma hu_free_kernel:
  assumes r: "free_h p h = Some (Inr h')" and lock: "theLock h = 0"
  shows "hu_free p h = h'"
proof (cases "p = 0 \<or> p = hbase h")
  case True
  then show ?thesis using r by (auto simp: free_h_def hu_free_def split: if_splits)
next
  case False
  let ?i = "free_idx h p" let ?s = "size_h h ?i"
  have g: "guard_enter h = Some h" using lock by (simp add: guard_enter_def)
  have e: "rbind (sanity h ?i) (\<lambda>_. if \<not> isTaken h ?i then Inl Panic
      else rbind (left_h h ?i) (\<lambda>l. rbind (right_h h ?i) (\<lambda>rt.
        rbind (if isAvail h l then rbind (remove_h h l) (\<lambda>h2. Inr (h2, l, ?s + size_h h2 l))
               else Inr (h, ?i, ?s)) (\<lambda>(h2, i2, s2).
        rbind (if isAvail h2 rt then rbind (remove_h h2 rt) (\<lambda>h3. Inr (h3, s2 + size_h h3 rt))
               else Inr (h2, s2)) (\<lambda>(h3, s3). Inr (guard_leave (makeAvail h3 i2 s3))))))) = Inr h'"
    using r False g unfolding free_h_def Let_def by simp
  have t: "isTaken h ?i" using e by (rule contrapos_pp) (cases "sanity h ?i"; simp)
  obtain l rt where n: "left_h h ?i = Inr l" "right_h h ?i = Inr rt"
    and e2: "rbind (if isAvail h l then rbind (remove_h h l) (\<lambda>h2. Inr (h2, l, ?s + size_h h2 l))
               else Inr (h, ?i, ?s)) (\<lambda>(h2, i2, s2).
        rbind (if isAvail h2 rt then rbind (remove_h h2 rt) (\<lambda>h3. Inr (h3, s2 + size_h h3 rt))
               else Inr (h2, s2)) (\<lambda>(h3, s3). Inr (guard_leave (makeAvail h3 i2 s3)))) = Inr h'"
    using e t by (cases "sanity h ?i"; cases "left_h h ?i"; cases "right_h h ?i"; simp)
  obtain h2 i2 s2 where a: "(if isAvail h l then rbind (remove_h h l) (\<lambda>h2. Inr (h2, l, ?s + size_h h2 l))
        else Inr (h, ?i, ?s)) = Inr (h2, i2, s2)"
    using e2 unfolding rbind_eq_Inr_iff by fastforce
  obtain h3 s3 where b: "(if isAvail h2 rt then rbind (remove_h h2 rt) (\<lambda>h3. Inr (h3, s2 + size_h h3 rt))
        else Inr (h2, s2)) = Inr (h3, s3)"
    using e2 unfolding a rbind_Inr prod.case unfolding rbind_eq_Inr_iff by fastforce
  have h': "h' = guard_leave (makeAvail h3 i2 s3)" using e2 by (simp only: a b rbind_Inr prod.case sum.inject)
  have n': "hu_left h ?i = l" "hu_right h ?i = rt"
    using n by (auto simp: left_h_def right_h_def hu_left_def hu_right_def dest!: sanity_InrD)
  have a': "(if isAvail h l then (hu_remove h l, l, ?s + size_h (hu_remove h l) l) else (h, ?i, ?s)) = (h2, i2, s2)"
    using a by (auto simp: rbind_eq_Inr_iff split: if_split_asm dest!: hu_remove_kernel)
  have b': "(if isAvail h2 rt then (hu_remove h2 rt, s2 + size_h (hu_remove h2 rt) rt) else (h2, s2)) = (h3, s3)"
    using b by (auto simp: rbind_eq_Inr_iff split: if_split_asm dest!: hu_remove_kernel)
  have "theLock h2 = 0" using a lock by (auto simp: rbind_eq_Inr_iff keeps_lock split: if_split_asm)
  then have l3: "theLock h3 = 0" using b by (auto simp: rbind_eq_Inr_iff keeps_lock split: if_split_asm)
  have "guard_leave (makeAvail h3 i2 s3) = makeAvail h3 i2 s3"
    using l3 by (simp add: guard_leave_def keeps_lock)
  then show ?thesis unfolding hu_free_def hu_same Let_def n' a' prod.case b' using False t h' by simp
qed

section \<open>First fit\<close>

text \<open>The first block of the list that is big enough.\<close>

definition first_fit :: "(int \<Rightarrow> int) \<Rightarrow> int \<Rightarrow> int list \<Rightarrow> int" where
  "first_fit a ints fl = (case filter (\<lambda>p. ints \<le> a p) fl of [] \<Rightarrow> 0 | p # _ \<Rightarrow> p)"

lemma hu_loop_done: "p = 0 \<or> res \<noteq> 0 \<Longrightarrow> hu_malloc_loop ints p res h = Some (res, h)"
  by (subst hu_malloc_loop.simps) auto

lemma hu_malloc_loop_first_fit:
  assumes bl: "free_in (arr h) B fl" and seg: "seg (arr h) q fl 0"
  shows "hu_malloc_loop ints (hd0 fl 0) 0 h =
    (let p = first_fit (arr h) ints fl in
     if p = 0 then Some (0, h)
     else let h' = carve (hu_remove h p) p ints (arr h p) in hu_malloc_loop ints p (block_ptr h' p) h')"
  using assms
proof (induction fl arbitrary: q)
  case Nil
  then show ?case by (simp add: first_fit_def hu_loop_done)
next
  case (Cons p fl)
  have p: "p \<noteq> 0" "4 \<le> arr h p" using Cons.prems(1) by (auto simp: free_in_def)
  then have sz: "size_h h p = arr h p" by (simp add: size_h_def)
  show ?case
  proof (cases "ints \<le> arr h p")
    case True
    then have f: "first_fit (arr h) ints (p # fl) = p" by (simp add: first_fit_def)
    show ?thesis unfolding f hd0.simps hu_malloc_loop.simps [of ints p 0 h] block_ptr_def [symmetric]
      using p(1) True sz by (simp add: Let_def carve_def)
  next
    case False
    have n: "hu_next1 h p = hd0 fl 0" using Cons.prems(2) by (simp add: hu_next1_def)
    have "hu_malloc_loop ints (hd0 fl 0) 0 h =
      (let p = first_fit (arr h) ints fl in
       if p = 0 then Some (0, h)
       else let h' = carve (hu_remove h p) p ints (arr h p) in hu_malloc_loop ints p (block_ptr h' p) h')"
      by (rule Cons.IH) (use Cons.prems in \<open>auto simp: free_in_def\<close>)
    then show ?thesis using p(1) False sz n
      by (subst hu_malloc_loop.simps) (simp add: first_fit_def Let_def)
  qed
qed

section \<open>The user heap is an allocator\<close>

text \<open>A well-formed user heap has no lock.\<close>

definition uheap_ok :: "heap \<Rightarrow> bool" where
  "uheap_ok h \<longleftrightarrow> heap_ok h \<and> theLock h = 0"

definition hu_alloc :: "u32 \<Rightarrow> heap \<Rightarrow> (u32 \<times> heap) res option" where
  "hu_alloc bytes h = map_option Inr (hu_malloc bytes h)"

definition hu_release :: "u32 \<Rightarrow> heap \<Rightarrow> heap res option" where
  "hu_release p h = Some (Inr (hu_free p h))"

lemma first_fit_in:
  "first_fit a ints fl = 0 \<or> (first_fit a ints fl \<in> set fl \<and> ints \<le> a (first_fit a ints fl))"
proof -
  have "x \<in> set fl \<and> ints \<le> a x" if "filter (\<lambda>p. ints \<le> a p) fl = x # xs" for x xs
  proof -
    have "x \<in> set (filter (\<lambda>p. ints \<le> a p) fl)" by (simp only: that list.set_intros)
    then show ?thesis by simp
  qed
  then show ?thesis by (cases "filter (\<lambda>p. ints \<le> a p) fl") (simp_all add: first_fit_def)
qed

lemma hu_malloc_cases:
  assumes inv: "heap_inv h B fl" and lock: "theLock h = 0" and nz: "bytes \<noteq> 0"
  defines "it \<equiv> first_fit (arr h) (request_ints bytes) fl"
  obtains (none) "it = 0" "hu_malloc bytes h = Some (0, h)"
  | (some) B' fl' h' where "it \<in> set fl" "request_ints bytes \<le> arr h it"
      "hu_malloc bytes h = Some (block_ptr h it, h')" "heap_inv h' B' fl'" "same_frame h h'"
      "live h' B' = insert it (live h B)" "keeps_live h h' (live h B)"
      "arr h' it \<le> - request_ints bytes"
proof -
  have fl: "seg (arr h) 0 fl 0" "avail h = hd0 fl 0" using heap_inv_fl(3) [OF inv] by (simp_all add: flist_def)
  have run: "hu_malloc bytes h =
    (if it = 0 then Some (0, h)
     else let h' = carve (hu_remove h it) it (request_ints bytes) (arr h it)
       in hu_malloc_loop (request_ints bytes) it (block_ptr h' it) h')"
    unfolding hu_malloc_def hu_same fl(2) it_def
    using hu_malloc_loop_first_fit [OF heap_inv_free_in [OF inv] fl(1), of "request_ints bytes"] nz
    by (simp only: Let_def if_False)
  show ?thesis
  proof (cases "it = 0")
    case True
    then have "hu_malloc bytes h = Some (0, h)" using run by simp
    then show ?thesis using none True by blast
  next
    case False
    then have it: "it \<in> set fl" "request_ints bytes \<le> arr h it"
      using first_fit_in [of "arr h" "request_ints bytes" fl] by (auto simp: it_def)
    obtain h2 where h2: "remove_h h it = Inr h2" using heap_inv_remove [OF inv it(1)] by metis
    let ?h' = "carve h2 it (request_ints bytes) (arr h it)"
    obtain B' fl' where c: "heap_inv ?h' B' fl'" "same_frame h ?h'" "live ?h' B' = insert it (live h B)"
      "keeps_live h ?h' (live h B)" "arr ?h' it \<le> - request_ints bytes"
      by (rule carve_inv [OF inv it request_ints_ge4 h2])
    have ptr: "block_ptr ?h' it = block_ptr h it" by (rule same_frame_block_ptr [OF c(2)])
    have nz': "block_ptr h it \<noteq> 0"
      using block_ptr_ne [OF inv, of it] free_not_sentinel [OF inv it(1)] by simp
    have "hu_malloc bytes h = Some (block_ptr h it, ?h')"
      unfolding run Let_def hu_remove_kernel [OF h2] ptr
      using False hu_loop_done [of it "block_ptr h it"] nz' by (simp only: if_False simp_thms)
    then show ?thesis using some it c by blast
  qed
qed

end
