(* ===== verification/User_Heap_Correct.thy ===== *)
theory User_Heap_Correct
  imports User_Heap Heap_Correct
begin

text \<open>
  Properties of the user heap: it is an allocator like the kernel's, it takes the first block that
  fits, and a \<open>realloc\<close> that finds no memory loses the old block.
\<close>

section \<open>The laws of an allocator\<close>

lemma hu_malloc_law:
  assumes ok: "uheap_ok h" and m: "hu_malloc bytes h = Some (p, h')"
  shows "uheap_ok h' \<and> (not_a_block h p \<longrightarrow> owned_ptrs h' = owned_ptrs h) \<and>
    (\<not> not_a_block h p \<longrightarrow> p \<notin> owned_ptrs h \<and> owned_ptrs h' = insert p (owned_ptrs h))"
proof (cases "bytes = 0")
  case True
  then show ?thesis using m ok by (auto simp: hu_malloc_def not_a_block_def)
next
  case nz: False
  obtain B fl where inv: "heap_inv h B fl" and un: "\<not> held h" and lock: "theLock h = 0"
    using ok by (auto simp: uheap_ok_def heap_ok_def)
  show ?thesis
  proof (rule hu_malloc_cases [OF inv lock nz])
    assume "hu_malloc bytes h = Some (0, h)"
    then show ?thesis using m ok by (simp add: not_a_block_def)
  next
    let ?it = "first_fit (arr h) (request_ints bytes) fl"
    fix C gl h1
    assume it: "?it \<in> set fl" and r: "hu_malloc bytes h = Some (block_ptr h ?it, h1)"
      "heap_inv h1 C gl" "same_frame h h1" "live h1 C = insert ?it (live h B)"
    have eq: "p = block_ptr h ?it" "h' = h1" using m r(1) by auto
    have "uheap_ok h1" using r(2,3) un lock unfolding uheap_ok_def heap_ok_def same_frame_def by auto
    then show ?thesis using owned_take [OF inv it r(2-4)] eq by simp
  qed
qed

lemma hu_remove_lock: "theLock (hu_remove h i) = theLock h"
  by (simp add: hu_remove_def Let_def setNext_def setPrev_def)

lemma hu_free_lock: "theLock (hu_free p h) = theLock h"
  by (simp add: hu_free_def Let_def keeps_lock hu_remove_lock)

lemma hu_free_law:
  assumes ok: "uheap_ok h" and p: "p \<in> owned_ptrs h"
  shows "uheap_ok (hu_free p h) \<and> owned_ptrs (hu_free p h) = owned_ptrs h - {p}"
proof -
  have h: "heap_ok h" "theLock h = 0" using ok by (simp_all add: uheap_ok_def)
  obtain h' where r: "free_h p h = Some (Inr h')" "heap_ok h'" "owned_ptrs h' = owned_ptrs h - {p}"
    using free_ok_law [OF h(1) p] by blast
  have "hu_free p h = h'" by (rule hu_free_kernel [OF r(1) h(2)])
  then show ?thesis using r hu_free_lock [of p h] h(2) by (simp add: uheap_ok_def)
qed

interpretation uheap: allocator hu_alloc hu_release uheap_ok owned_ptrs not_a_block
  by unfold_locales
    (use hu_malloc_law hu_free_law in \<open>auto simp: hu_alloc_def hu_release_def\<close>)

section \<open>The initial heap\<close>

definition hu_boot :: "u32 \<Rightarrow> heap" where
  "hu_boot base = \<lparr>arr = (\<lambda>_. 0), hbase = base, hlen = INTS, safe = 1, avail = 0, theLock = 0, held = False\<rparr>"

lemma hu_init_eq: "hu_init (hu_boot base) = (init_blocks base 0x400000 (heap_boot (\<lambda>_. 0)))\<lparr>safe := 1\<rparr>"
  by (simp add: hu_init_def hu_boot_def init_blocks_def heap_boot_def Let_def makeTaken_def makeAvail_def
      setNext_def setPrev_def footerFromHeader_def size_h_def INTS_def)

lemma heap_inv_safe: "heap_inv (h\<lparr>safe := s\<rparr>) B fl = heap_inv h B fl"
  by (simp add: heap_inv_def flist_def)

lemma hu_init_inv:
  assumes "uint base \<le> 2 ^ 32 - 2 ^ 22"
  shows "heap_inv (hu_init (hu_boot base)) {0, 2, INTS - 2} [2]"
  using init_blocks_inv(1) [of 4194304 base "\<lambda>_. 0"] assms
  by (simp add: hu_init_eq heap_inv_safe INTS_def)

lemma hu_init_fields:
  "theLock (hu_init (hu_boot base)) = 0" "held (hu_init (hu_boot base)) = False"
  "hbase (hu_init (hu_boot base)) = base" "hlen (hu_init (hu_boot base)) = INTS"
  by (simp_all add: hu_init_def hu_boot_def Let_def makeTaken_def makeAvail_def setNext_def setPrev_def)

lemma hu_init_ok: "uint base \<le> 2 ^ 32 - 2 ^ 22 \<Longrightarrow> uheap_ok (hu_init (hu_boot base))"
  unfolding uheap_ok_def heap_ok_def using hu_init_inv [of base] hu_init_fields [of base] by auto

lemma hu_init_arr: "arr (hu_init (hu_boot base)) 2 = INTS - 4"
  using init_blocks_arr [of 4194304 base "\<lambda>_. 0"] by (simp add: hu_init_eq INTS_def)

lemma hu_init_malloc:
  assumes "uint base \<le> 2 ^ 32 - 2 ^ 22"
  shows "\<exists>h'. hu_malloc 9 (hu_init (hu_boot base)) = Some (base + 12, h')"
proof -
  let ?h = "hu_init (hu_boot base)"
  have r: "request_ints 9 = 5" by (simp add: request_ints_def)
  have f: "first_fit (arr ?h) (request_ints 9) [2] = 2" by (simp add: first_fit_def hu_init_arr r INTS_def)
  have "(9 :: u32) \<noteq> 0" by simp
  from hu_malloc_cases [OF hu_init_inv [OF assms] hu_init_fields(1) this, unfolded f]
  obtain h' where "hu_malloc 9 ?h = Some (block_ptr ?h 2, h')" by auto
  then show ?thesis by (simp add: block_ptr_def hu_init_fields)
qed

lemma hu_history:
  assumes "uint base \<le> 2 ^ 32 - 2 ^ 22"
  shows "\<exists>h'. client_run hu_alloc hu_release owned_ptrs not_a_block (hu_init (hu_boot base))
    [Got (base + 12), Gave (base + 12)] h'"
proof -
  let ?h = "hu_init (hu_boot base)"
  note ok = hu_init_ok [OF assms]
  obtain h1 where m: "hu_malloc 9 ?h = Some (base + 12, h1)" using hu_init_malloc [OF assms] by blast
  then have a: "hu_alloc 9 ?h = Some (Inr (base + 12, h1))" by (simp add: hu_alloc_def)
  have "uint base + 12 < 2 ^ 32" using assms by simp
  then have "uint (base + 12) = uint base + 12" by (subst uint_add_lem [THEN iffD1]) simp_all
  moreover have "0 \<le> uint base" by simp
  ultimately have "uint (base + 12) \<noteq> 0" by linarith
  then have "base + 12 \<noteq> 0" "base + 12 \<noteq> base" by auto
  then have n: "\<not> not_a_block ?h (base + 12)" by (simp add: not_a_block_def hu_init_fields)
  have own: "base + 12 \<in> owned_ptrs h1" using uheap.alloc_fresh [OF ok a n] by simp
  obtain h2 where r: "hu_release (base + 12) h1 = Some (Inr h2)"
    using uheap.release_then_free [OF ok a n] by blast
  have "client_step hu_alloc hu_release owned_ptrs not_a_block ?h (Got (base + 12)) h1"
    using a n by (rule client_step.get)
  moreover have "client_step hu_alloc hu_release owned_ptrs not_a_block h1 (Gave (base + 12)) h2"
    using own r by (rule client_step.give)
  ultimately show ?thesis by (blast intro: client_run.intros)
qed

section \<open>Properties\<close>

text \<open>
  C38.  The user heap refines an ownership set, as the kernel's does: along every sequence of calls of a
  program that frees only what it owns, starting on a well-formed heap, the heap stays well-formed and
  no pointer is given out while it is owned.
\<close>

theorem user_heap_history:
  assumes "client_run hu_alloc hu_release owned_ptrs not_a_block h es h'" and "uheap_ok h"
  shows "uheap_ok h' \<and> replay (owned_ptrs h) es = Some (owned_ptrs h')"
  by (rule uheap.run_replay [OF assms])

lemma user_heap_history_witness:
  "\<exists>h'. client_run hu_alloc hu_release owned_ptrs not_a_block (hu_init (hu_boot 0x80000000))
       [Got (0x80000000 + 12), Gave (0x80000000 + 12)] h' \<and>
     uheap_ok h' \<and> replay (owned_ptrs (hu_init (hu_boot 0x80000000)))
       [Got (0x80000000 + 12), Gave (0x80000000 + 12)] = Some (owned_ptrs h')"
proof -
  have b: "uint (0x80000000 :: u32) \<le> 2 ^ 32 - 2 ^ 22" by simp
  show ?thesis using hu_history [OF b] user_heap_history [OF _ hu_init_ok [OF b]] by blast
qed

text \<open>
  \<open>malloc\<close> of the user heap is first fit: it takes the first block of the free list that is big
  enough, which becomes owned and keeps every other owned block's cells; when there is none it returns
  null and changes nothing.  It always returns.
\<close>

theorem user_malloc_first_fit:
  assumes "heap_inv h B fl" "theLock h = 0" "bytes \<noteq> 0"
  shows "if first_fit (arr h) (request_ints bytes) fl = 0 then hu_malloc bytes h = Some (0, h)
    else \<exists>h' B' fl'. hu_malloc bytes h = Some (block_ptr h (first_fit (arr h) (request_ints bytes) fl), h') \<and>
      heap_inv h' B' fl' \<and> same_frame h h' \<and>
      live h' B' = insert (first_fit (arr h) (request_ints bytes) fl) (live h B) \<and>
      keeps_live h h' (live h B)"
proof (rule hu_malloc_cases [OF assms])
  assume it: "first_fit (arr h) (request_ints bytes) fl \<in> set fl"
  then have "first_fit (arr h) (request_ints bytes) fl \<noteq> 0" using free_not_sentinel [OF assms(1) it] by simp
  then show ?thesis if "hu_malloc bytes h = Some (block_ptr h (first_fit (arr h) (request_ints bytes) fl), h')"
    "heap_inv h' B' fl'" "same_frame h h'"
    "live h' B' = insert (first_fit (arr h) (request_ints bytes) fl) (live h B)"
    "keeps_live h h' (live h B)" for B' fl' h' using that by auto
qed auto

lemma user_malloc_first_fit_witness:
  "\<exists>h'. hu_malloc 9 (hu_init (hu_boot 4096)) = Some (block_ptr (hu_init (hu_boot 4096)) 2, h')"
proof -
  have "first_fit (arr (hu_init (hu_boot 4096))) (request_ints 9) [2] = 2"
    by (simp add: first_fit_def hu_init_arr request_ints_def INTS_def)
  then show ?thesis
    using user_malloc_first_fit [OF hu_init_inv [of 4096] hu_init_fields(1), of 9] by auto
qed

text \<open>
  A \<open>realloc\<close> that finds no memory loses the old block: it returns null, and the block it was
  given is freed all the same, so the program owns neither.
\<close>

theorem realloc_failure_frees:
  assumes "uheap_ok h" "p \<in> owned_ptrs h" "newSize \<noteq> 0" "hu_malloc newSize h = Some (0, h)"
  shows "\<exists>h'. hu_realloc p newSize h = Some (0, h') \<and> uheap_ok h' \<and> owned_ptrs h' = owned_ptrs h - {p}"
proof -
  obtain B fl where inv: "heap_inv h B fl" using assms(1) by (auto simp: uheap_ok_def heap_ok_def)
  obtain b where b: "b \<in> user_blocks h B" "p = block_ptr h b" using assms(2) owned_ptrs_eq [OF inv] by auto
  have "isTaken h (free_idx h p)"
    using free_idx_user [OF inv b(1)] b by (simp add: isTaken_def user_blocks_def live_def)
  moreover have "p \<noteq> 0"
    using b block_ptr_ne [OF inv] live_range [OF inv, of b] by (auto simp: user_blocks_def)
  ultimately have "hu_realloc p newSize h = Some (0, hu_free p h)"
    using assms(3,4) by (simp add: hu_realloc_def)
  then show ?thesis using hu_free_law [OF assms(1,2)] by simp
qed

lemma full_user_heap: "uheap_ok full_heap" "4108 \<in> owned_ptrs full_heap" "hu_malloc 8 full_heap = Some (0, full_heap)"
proof -
  show "uheap_ok full_heap" using full_heap_inv by (auto simp: uheap_ok_def heap_ok_def full_heap_def)
  have "2 \<in> user_blocks full_heap {0, 2, 6}" using full_heap_live by (simp add: user_blocks_def)
  then show "4108 \<in> owned_ptrs full_heap"
    unfolding owned_ptrs_eq [OF full_heap_inv(1)] by (rule rev_image_eqI) (simp add: block_ptr_def full_heap_def)
  have "theLock full_heap = 0" "(8 :: u32) \<noteq> 0" by (simp_all add: full_heap_def)
  from hu_malloc_cases [OF full_heap_inv(1) this] show "hu_malloc 8 full_heap = Some (0, full_heap)"
    by (auto simp: first_fit_def)
qed

lemma realloc_failure_frees_witness:
  "\<exists>h'. hu_realloc 4108 8 full_heap = Some (0, h') \<and> uheap_ok h' \<and>
     owned_ptrs h' = owned_ptrs full_heap - {4108}"
  by (rule realloc_failure_frees [OF full_user_heap(1,2) _ full_user_heap(3)]) simp

end
