(* ===== verification/Elf.thy ===== *)
theory Elf
  imports Ext2_Correct
begin

text \<open>
  The program loader of \<open>kernel/elf.cc\<close> and \<open>kernel/elf.h\<close>.  A file is a node (or the
  null pointer), the memory the processor sees is a map from addresses to bytes: pages of private
  space that were not touched yet read as zero (the page-fault handler maps a zero page,
  theory \<open>Vmm\<close>).  The loader writes wherever the file tells it to; the kernel's own objects
  are not part of this memory, so the model says nothing about a file whose segments lie on them.
  The two \<open>new\<close> and array objects are zeroed before \<open>read_all\<close> fills them, so a file that
  is too short leaves zeros.
\<close>

section \<open>The headers\<close>

definition sizeof_ElfHeader :: nat where "sizeof_ElfHeader = 52"
definition sizeof_ProgramHeader :: nat where "sizeof_ProgramHeader = 32"

definition eh_magic :: "u8 list \<Rightarrow> u8 list" where "eh_magic h = take 4 h"
definition eh_entry :: "u8 list \<Rightarrow> u32" where "eh_entry h = bytes32 h 24"
definition eh_phoff :: "u8 list \<Rightarrow> u32" where "eh_phoff h = bytes32 h 28"
definition eh_phnum :: "u8 list \<Rightarrow> u16" where "eh_phnum h = bytes16 h 44"

definition ph_type :: "u8 list \<Rightarrow> u32" where "ph_type p = bytes32 p 0"
definition ph_offset :: "u8 list \<Rightarrow> u32" where "ph_offset p = bytes32 p 4"
definition ph_vaddr :: "u8 list \<Rightarrow> u32" where "ph_vaddr p = bytes32 p 8"
definition ph_filesz :: "u8 list \<Rightarrow> u32" where "ph_filesz p = bytes32 p 16"

section \<open>Loading\<close>

text \<open>\<open>n\<close> zero bytes with \<open>bs\<close> read over their beginning.\<close>

definition zero_padded :: "nat \<Rightarrow> u8 list \<Rightarrow> u8 list" where
  "zero_padded n bs = bs @ replicate (n - length bs) 0"

text \<open>Bytes copied to consecutive addresses (which wrap at the end of the address space).\<close>

definition write_bytes :: "byte_mem \<Rightarrow> u32 \<Rightarrow> u8 list \<Rightarrow> byte_mem" where
  "write_bytes m a bs = (\<lambda>x. let i = unat (x - a) in if i < length bs then bs ! i else m x)"

definition elf_magic :: "u8 list" where "elf_magic = [0x7F, 69, 76, 70]"

fun load_segments :: "(nat \<Rightarrow> u8) \<Rightarrow> node \<Rightarrow> u8 list list \<Rightarrow> byte_mem \<Rightarrow> byte_mem res option" where
  "load_segments d nd [] m = Some (Inr m)"
| "load_segments d nd (p # ps) m =
     (if ph_type p = 1 then
        obind (node_read_all d nd (ph_offset p) (ph_filesz p)) (\<lambda>(_, bs).
          load_segments d nd ps (write_bytes m (ph_vaddr p) bs))
      else load_segments d nd ps m)"

definition ph_table :: "nat \<Rightarrow> u8 list \<Rightarrow> u8 list list" where
  "ph_table n bs = map (\<lambda>i. take sizeof_ProgramHeader (drop (sizeof_ProgramHeader * i) bs)) [0..<n]"

definition elf_load :: "(nat \<Rightarrow> u8) \<Rightarrow> node option \<Rightarrow> byte_mem \<Rightarrow> (u32 \<times> byte_mem) res option" where
  "elf_load d file m =
     (case file of
        None \<Rightarrow> Some (Inl NullDeref)
      | Some nd \<Rightarrow>
         obind (node_read_all d nd 0 52) (\<lambda>(_, hb).
         let h = zero_padded sizeof_ElfHeader hb in
         if eh_magic h \<noteq> elf_magic then Some (Inl Panic)
         else let n = unat (eh_phnum h) in
           obind (node_read_all d nd (eh_phoff h) (32 * ucast (eh_phnum h))) (\<lambda>(_, tb).
           obind (load_segments d nd (ph_table n (zero_padded (32 * n) tb)) m) (\<lambda>m'.
           Some (Inr (eh_entry h, m'))))))"

section \<open>What loading does\<close>

lemma write_bytes_at:
  "k < length bs \<Longrightarrow> length bs \<le> 4294967296 \<Longrightarrow> write_bytes m a bs (a + of_nat k) = bs ! k"
  by (simp add: write_bytes_def Let_def unat_of_nat_u32)

lemma write_bytes_other: "length bs \<le> unat (x - a) \<Longrightarrow> write_bytes m a bs x = m x"
  by (simp add: write_bytes_def)

text \<open>The loadable segments of a file with the bytes \<open>F\<close>, as address and contents.\<close>

definition segment_bytes :: "u8 list \<Rightarrow> u8 list \<Rightarrow> u8 list" where
  "segment_bytes F p = take (unat (ph_filesz p)) (drop (unat (ph_offset p)) F)"

definition segments_of :: "u8 list \<Rightarrow> u8 list list \<Rightarrow> (u32 \<times> u8 list) list" where
  "segments_of F ps = map (\<lambda>p. (ph_vaddr p, segment_bytes F p)) (filter (\<lambda>p. ph_type p = 1) ps)"

definition file_headers :: "u8 list \<Rightarrow> u8 list list" where
  "file_headers F = ph_table (unat (eh_phnum F)) (drop (unat (eh_phoff F)) F)"

lemma load_segments_spec:
  assumes ok: "node_ok d nd"
    and off: "\<forall>p\<in>set ps. ph_type p = 1 \<longrightarrow> unat (ph_offset p) \<le> unat (node_size nd)"
  shows "load_segments d nd ps m =
    Some (Inr (foldl (\<lambda>m (a, bs). write_bytes m a bs) m (segments_of (node_bytes d nd) ps)))"
  using off
proof (induction ps arbitrary: m)
  case Nil
  then show ?case by (simp add: segments_of_def)
next
  case (Cons p ps)
  show ?case
  proof (cases "ph_type p = 1")
    case True
    then have "unat (ph_offset p) \<le> unat (node_size nd)" using Cons.prems by simp
    note r = node_read_all_bytes [OF ok this, of "ph_filesz p", unfolded Let_def]
    have "take (min (unat (ph_filesz p)) (unat (node_size nd) - unat (ph_offset p)))
        (drop (unat (ph_offset p)) (node_bytes d nd)) = segment_bytes (node_bytes d nd) p"
      by (simp add: segment_bytes_def min_def)
    then show ?thesis using True Cons by (simp add: r segments_of_def)
  next
    case False
    then show ?thesis using Cons by (simp add: segments_of_def)
  qed
qed

lemma bytes_take:
  "i + 4 \<le> n \<Longrightarrow> bytes32 (take n bs) i = bytes32 bs i"
  "i + 2 \<le> n \<Longrightarrow> bytes16 (take n bs) i = bytes16 bs i"
  by (simp_all add: bytes32_def bytes16_def)

lemma ph_table_take:
  "32 * n \<le> length bs \<Longrightarrow> ph_table n (take (32 * n) bs) = ph_table n bs"
  unfolding ph_table_def sizeof_ProgramHeader_def
  by (rule map_cong [OF refl]) (auto simp: take_drop min_def)

lemma elf_load_spec:
  assumes ok: "node_ok d nd" and F: "F = node_bytes d nd"
    and h: "52 \<le> length F" "eh_magic F = elf_magic"
    and t: "unat (eh_phoff F) + 32 * unat (eh_phnum F) \<le> length F"
    and off: "\<forall>p\<in>set (file_headers F). ph_type p = 1 \<longrightarrow> unat (ph_offset p) \<le> length F"
  shows "elf_load d (Some nd) m =
    Some (Inr (eh_entry F, foldl (\<lambda>m (a, bs). write_bytes m a bs) m (segments_of F (file_headers F))))"
proof -
  let ?n = "unat (eh_phnum F)"
  have sz: "unat (node_size nd) = length F" by (simp add: F)
  have r1: "node_read_all d nd 0 52 = Some (Inr (52, take 52 F))"
    using node_read_all_bytes [OF ok, of 0 52] h(1) by (simp add: sz F [symmetric] Let_def min_def)
  have p1: "zero_padded sizeof_ElfHeader (take 52 F) = take 52 F"
    using h(1) by (simp add: zero_padded_def sizeof_ElfHeader_def)
  have e: "eh_magic (take 52 F) = eh_magic F" "eh_entry (take 52 F) = eh_entry F"
    "eh_phoff (take 52 F) = eh_phoff F" "eh_phnum (take 52 F) = eh_phnum F"
    by (simp_all add: eh_magic_def eh_entry_def eh_phoff_def eh_phnum_def bytes_take min_def)
  have n16: "?n < 65536" using unsigned_less [of "eh_phnum F"] by simp
  have n: "unat (32 * ucast (eh_phnum F) :: u32) = 32 * ?n"
    using n16 unat_mult_u32 [of 32 "ucast (eh_phnum F)"] unfolding unat_ucast_16 by simp
  have le: "unat (eh_phoff F) \<le> unat (node_size nd)" using t sz by linarith
  have k: "min (32 * ?n) (length F - unat (eh_phoff F)) = 32 * ?n" using t by linarith
  let ?T = "take (32 * ?n) (drop (unat (eh_phoff F)) F)"
  have r2: "node_read_all d nd (eh_phoff F) (32 * ucast (eh_phnum F)) = Some (Inr (int (32 * ?n), ?T))"
    using node_read_all_bytes [OF ok le, of "32 * ucast (eh_phnum F)"]
    unfolding n sz k Let_def F [symmetric] .
  have l: "32 * ?n \<le> length (drop (unat (eh_phoff F)) F)" using t by simp
  have p2: "zero_padded (32 * ?n) ?T = ?T" using l by (simp add: zero_padded_def)
  have tab: "ph_table ?n ?T = file_headers F"
    unfolding file_headers_def by (rule ph_table_take [OF l])
  have ls: "load_segments d nd (file_headers F) m =
      Some (Inr (foldl (\<lambda>m (a, bs). write_bytes m a bs) m (segments_of F (file_headers F))))"
    unfolding F by (rule load_segments_spec [OF ok off [unfolded F length_node_bytes]])
  show ?thesis
    unfolding elf_load_def option.case r1 obind_simps prod.case p1 Let_def e
    using h(2) by (simp add: r2 p2 tab ls del: mult_numeral_1)
qed

text \<open>Segments that do not overlap keep their contents whatever is loaded after them.\<close>

definition seg_range :: "u32 \<times> u8 list \<Rightarrow> u32 set" where
  "seg_range = (\<lambda>(a, bs). {x. unat (x - a) < length bs})"

lemma write_bytes_range: "x \<notin> seg_range (a, bs) \<Longrightarrow> write_bytes m a bs x = m x"
  by (simp add: write_bytes_def seg_range_def)

lemma write_bytes_inside:
  "x \<in> seg_range (a, bs) \<Longrightarrow> write_bytes m a bs x = bs ! unat (x - a)"
  by (simp add: write_bytes_def seg_range_def)

lemma load_outside:
  "\<forall>s\<in>set segs. x \<notin> seg_range s \<Longrightarrow> foldl (\<lambda>m (a, bs). write_bytes m a bs) m segs x = m x"
  by (induction segs arbitrary: m) (auto simp: write_bytes_range split: prod.splits)

lemma load_inside:
  assumes "pairwise (\<lambda>s t. disjnt (seg_range s) (seg_range t)) (set segs)" "distinct segs"
    "(a, bs) \<in> set segs" "x \<in> seg_range (a, bs)"
  shows "foldl (\<lambda>m (a, bs). write_bytes m a bs) m segs x = bs ! unat (x - a)"
  using assms
proof (induction segs arbitrary: m)
  case Nil
  then show ?case by simp
next
  case (Cons s segs)
  obtain b cs where s: "s = (b, cs)" by (cases s)
  show ?case
  proof (cases "s = (a, bs)")
    case True
    have "x \<notin> seg_range t" if "t \<in> set segs" for t
    proof -
      have "s \<noteq> t" using that Cons.prems(2) by auto
      then have "disjnt (seg_range s) (seg_range t)"
        using Cons.prems(1) that unfolding pairwise_def by (meson list.set_intros)
      then show ?thesis using Cons.prems(4) True by (auto simp: disjnt_iff)
    qed
    then show ?thesis using True Cons.prems(4) by (simp add: load_outside write_bytes_inside)
  next
    case False
    then have "(a, bs) \<in> set segs" using Cons.prems(3) by simp
    moreover have "pairwise (\<lambda>s t. disjnt (seg_range s) (seg_range t)) (set segs)"
      using Cons.prems(1) by (rule pairwise_subset) auto
    ultimately show ?thesis using Cons.IH Cons.prems(2,4) by (simp add: s)
  qed
qed

lemma elf_load_segments:
  assumes "node_ok d nd" and "F = node_bytes d nd" and "52 \<le> length F" and "eh_magic F = elf_magic"
    and "unat (eh_phoff F) + 32 * unat (eh_phnum F) \<le> length F"
    and "\<forall>p\<in>set (file_headers F). ph_type p = 1 \<longrightarrow> unat (ph_offset p) \<le> length F"
    and "distinct (segments_of F (file_headers F))"
    and "pairwise (\<lambda>s t. disjnt (seg_range s) (seg_range t)) (set (segments_of F (file_headers F)))"
  shows "\<exists>m'. elf_load d (Some nd) m = Some (Inr (eh_entry F, m')) \<and>
    (\<forall>(a, bs) \<in> set (segments_of F (file_headers F)). \<forall>k < length bs. m' (a + of_nat k) = bs ! k) \<and>
    (\<forall>x. (\<forall>s \<in> set (segments_of F (file_headers F)). x \<notin> seg_range s) \<longrightarrow> m' x = m x)"
proof -
  let ?S = "segments_of F (file_headers F)"
  let ?m = "foldl (\<lambda>m (a, bs). write_bytes m a bs) m ?S"
  have "?m (a + of_nat k) = bs ! k" if "(a, bs) \<in> set ?S" "k < length bs" for a bs k
  proof -
    have "length bs \<le> unat (node_size nd)"
      using that(1) assms(2) by (auto simp: segments_of_def segment_bytes_def)
    then have "unat (of_nat k :: u32) = k"
      using that(2) unat_u32_less [of "node_size nd"] by (simp add: unat_of_nat_u32)
    then have x: "a + of_nat k \<in> seg_range (a, bs)" "unat (a + of_nat k - a) = k"
      using that(2) by (simp_all add: seg_range_def)
    show ?thesis using load_inside [OF assms(8,7) that(1) x(1)] by (simp only: x(2))
  qed
  then show ?thesis
    using elf_load_spec [OF assms(1-6), of m] load_outside [of ?S _ m]
    by (intro exI [of _ ?m]) (auto split: prod.splits)
qed

section \<open>A small program\<close>

text \<open>One file in block 1: the header, a program header for three bytes at offset 84 with room for
  eight in memory at \<open>0x80000000\<close>, and a note that is not loaded.\<close>

definition prog_bytes :: "u8 list" where
  "prog_bytes = [0x7F, 69, 76, 70, 1, 1, 1, 0, 0, 0, 0, 0, 0, 0, 0, 0, 2, 0, 3, 0] @ put32 1 @
     put32 0x80000001 @ put32 52 @ put32 0 @ put32 0 @ put16 52 @ put16 32 @ put16 1 @
     replicate 6 0 @
     put32 1 @ put32 84 @ put32 0x80000000 @ put32 0 @ put32 3 @ put32 8 @ put32 5 @ put32 4096 @
     [0x90, 0xCD, 0x30, 0xFF]"

definition prog_disk :: "nat \<Rightarrow> u8" where
  "prog_disk = (\<lambda>i. if 1024 \<le> i \<and> i < 1112 then prog_bytes ! (i - 1024) else 0)"

definition prog_node :: node where
  "prog_node = \<lparr>number = 7, nblock_size = 1024,
     ndata = replicate 4 0 @ put32 88 @ replicate 20 0 @ put32 2 @ replicate 8 0 @ put32 1 @ replicate 84 0\<rparr>"

lemma length_prog: "length prog_bytes = 88"
  by (simp add: prog_bytes_def)

lemma prog_node_facts:
  "unat (node_size prog_node) = 88" "nd_n_sectors (ndata prog_node) = 2"
  "nd_direct (ndata prog_node) 0 = 1" "nblock_size prog_node = 1024"
  by code_simp+

lemma prog_node_ok: "node_ok prog_disk prog_node"
  by (auto simp: node_ok_def node_block_ok_def node_blk_def prog_node_facts Let_def)

lemma prog_node_bytes: "node_bytes prog_disk prog_node = prog_bytes"
  by (rule nth_equalityI)
     (auto simp: node_bytes_def node_content_def node_blk_def prog_node_facts length_prog prog_disk_def)

lemma prog_fields:
  "eh_magic prog_bytes = elf_magic" "eh_entry prog_bytes = 0x80000001" "eh_phoff prog_bytes = 52"
  "eh_phnum prog_bytes = 1"
  "file_headers prog_bytes = [take 32 (drop 52 prog_bytes)]"
  "ph_type (take 32 (drop 52 prog_bytes)) = 1" "ph_offset (take 32 (drop 52 prog_bytes)) = 84"
  "segments_of prog_bytes (file_headers prog_bytes) = [(0x80000000, [0x90, 0xCD, 0x30])]"
  by code_simp+

section \<open>Property\<close>

text \<open>
  C20.  Loading a program.  For an executable whose bytes are readable, whose header has the magic
  number and whose program headers and loadable segments start inside the file, \<open>ELF::load\<close>
  returns the entry point, puts the bytes of every loadable segment at its virtual address when the
  segments do not overlap, and changes no other byte of memory.  In particular the part of a segment
  between its size in the file and its size in memory is not cleared.
\<close>

theorem elf_load_places_segments:
  assumes "node_ok d nd" and "F = node_bytes d nd" and "52 \<le> length F" and "eh_magic F = elf_magic"
    and "unat (eh_phoff F) + 32 * unat (eh_phnum F) \<le> length F"
    and "\<forall>p\<in>set (file_headers F). ph_type p = 1 \<longrightarrow> unat (ph_offset p) \<le> length F"
    and "distinct (segments_of F (file_headers F))"
    and "pairwise (\<lambda>s t. disjnt (seg_range s) (seg_range t)) (set (segments_of F (file_headers F)))"
  shows "\<exists>m'. elf_load d (Some nd) m = Some (Inr (eh_entry F, m')) \<and>
    (\<forall>(a, bs) \<in> set (segments_of F (file_headers F)). \<forall>k < length bs. m' (a + of_nat k) = bs ! k) \<and>
    (\<forall>x. (\<forall>s \<in> set (segments_of F (file_headers F)). x \<notin> seg_range s) \<longrightarrow> m' x = m x)"
  using assms by (rule elf_load_segments)

lemma elf_load_places_segments_witness:
  "\<exists>m'. elf_load prog_disk (Some prog_node) (\<lambda>_. 7) = Some (Inr (0x80000001, m')) \<and>
     m' 0x80000002 = 0x30 \<and> m' 0x80000003 = 7"
proof -
  have p: "\<forall>p\<in>set (file_headers prog_bytes). ph_type p = 1 \<longrightarrow> unat (ph_offset p) \<le> length prog_bytes"
    unfolding prog_fields(5) by (simp add: prog_fields(7) length_prog)
  have "distinct (segments_of prog_bytes (file_headers prog_bytes))"
    "pairwise (\<lambda>s t. disjnt (seg_range s) (seg_range t)) (set (segments_of prog_bytes (file_headers prog_bytes)))"
    by (simp_all add: prog_fields(8))
  from elf_load_places_segments [OF prog_node_ok prog_node_bytes [symmetric] _ prog_fields(1) _ p this, of "\<lambda>_. 7"]
  obtain m' where m': "elf_load prog_disk (Some prog_node) (\<lambda>_. 7) = Some (Inr (0x80000001, m'))"
    "\<forall>(a, bs) \<in> {(0x80000000, [0x90, 0xCD, 0x30])}. \<forall>k < length bs. m' (a + of_nat k) = bs ! k"
    "\<forall>x. (\<forall>s \<in> {(0x80000000, [0x90, 0xCD, 0x30])}. x \<notin> seg_range s) \<longrightarrow> m' x = 7"
    unfolding prog_fields(8) by (auto simp: prog_fields(2,3,4) length_prog)
  have "m' (0x80000000 + of_nat 2) = [0x90, 0xCD, 0x30] ! 2"
    using m'(2) unfolding ball_simps prod.case by (elim conjE allE [of _ 2]) simp
  moreover have "m' 0x80000003 = 7" by (rule m'(3) [rule_format]) (simp add: seg_range_def)
  ultimately show ?thesis using m'(1) by auto
qed

end
