(* ===== verification/Semaphore.thy ===== *)
theory Semaphore
  imports Queue_Model
begin

text \<open>
  The counting semaphore of \<open>kernel/semaphore.h\<close> and the blocking lock made from it
  (\<open>kernel/blocking_lock.h\<close>).  \<open>down\<close> and \<open>up\<close> run under the semaphore's spin lock with
  interrupts off (a \<open>down\<close> that blocks gives the lock back only after the thread is in the
  queue), so each is one atomic step.  The assertion that the thread that blocks is not an idle thread is
  not modelled: idle threads (\<open>Threads\<close>) never call \<open>down\<close>.  A step that blocks the thread returns \<open>False\<close>; an
  \<open>up\<close> returns the thread it makes ready, if any.  The interface \<open>semaphore_spec\<close> says what a
  semaphore is to its clients: a number of tokens and the threads that wait for one.
\<close>

section \<open>Operations\<close>

record sem =
  s_count :: u64
  s_wait :: queue

definition sem_init :: "u32 \<Rightarrow> sem" where
  "sem_init c = \<lparr>s_count = ucast c, s_wait = queue_init\<rparr>"

definition sem_down :: "ptr \<Rightarrow> sem \<times> next_map \<Rightarrow> (bool \<times> (sem \<times> next_map)) res" where
  "sem_down me = (\<lambda>(s, nx).
     if 0 < s_count s then Inr (True, (s\<lparr>s_count := s_count s - 1\<rparr>, nx))
     else rbind (q_add me (s_wait s, nx)) (\<lambda>(q, nx'). Inr (False, (s\<lparr>s_wait := q\<rparr>, nx'))))"

definition sem_up :: "sem \<times> next_map \<Rightarrow> ptr option \<times> (sem \<times> next_map)" where
  "sem_up = (\<lambda>(s, nx).
     case q_remove (s_wait s, nx) of (nxt, (q, nx')) \<Rightarrow>
       let s1 = s\<lparr>s_wait := q\<rparr> in
       if nxt = 0 then (None, (s1\<lparr>s_count := s_count s1 + 1\<rparr>, nx'))
       else (Some nxt, (s1, nx')))"

definition blocking_lock_init :: sem where
  "blocking_lock_init = sem_init 1"

section \<open>The interface\<close>

locale semaphore_spec =
  fixes down :: "'t \<Rightarrow> 's \<Rightarrow> (bool \<times> 's) res"
    and up :: "'s \<Rightarrow> 't option \<times> 's"
    and holds :: "'s \<Rightarrow> nat \<Rightarrow> 't list \<Rightarrow> bool"
    and thread :: "'t \<Rightarrow> bool"
    and limit :: nat
  assumes down_free: "holds s (Suc n) ws \<Longrightarrow> \<exists>s'. down t s = Inr (True, s') \<and> holds s' n ws"
    and down_wait: "holds s 0 ws \<Longrightarrow> thread t \<Longrightarrow> t \<notin> set ws \<Longrightarrow>
      \<exists>s'. down t s = Inr (False, s') \<and> holds s' 0 (ws @ [t])"
    and up_free: "holds s n [] \<Longrightarrow> Suc n < limit \<Longrightarrow> fst (up s) = None \<and> holds (snd (up s)) (Suc n) []"
    and up_wake: "holds s n (w # ws) \<Longrightarrow> fst (up s) = Some w \<and> holds (snd (up s)) n ws"
begin

text \<open>A history is a list of calls, \<open>Some t\<close> a \<open>down\<close> of the thread \<open>t\<close> and \<open>None\<close> an
  \<open>up\<close>; its result is the list of the threads that got through, in order.\<close>

fun run :: "'t option list \<Rightarrow> 's \<Rightarrow> ('t list \<times> 's) res" where
  "run [] s = Inr ([], s)"
| "run (Some t # h) s = rbind (down t s) (\<lambda>(ok, s1).
     rbind (run h s1) (\<lambda>(ps, s2). Inr ((if ok then [t] else []) @ ps, s2)))"
| "run (None # h) s = (case up s of (w, s1) \<Rightarrow>
     rbind (run h s1) (\<lambda>(ps, s2). Inr ((case w of None \<Rightarrow> [] | Some t \<Rightarrow> [t]) @ ps, s2)))"

text \<open>From \<open>k\<close> tokens so far and the calls \<open>ds\<close> of \<open>down\<close> so far: a thread that waits makes no
  further call.\<close>

fun legal :: "nat \<Rightarrow> 't list \<Rightarrow> 't option list \<Rightarrow> bool" where
  "legal k ds [] = True"
| "legal k ds (Some t # h) = (thread t \<and> t \<notin> set (drop k ds) \<and> legal k (ds @ [t]) h)"
| "legal k ds (None # h) = (Suc k < limit \<and> legal (Suc k) ds h)"

fun downs :: "'t option list \<Rightarrow> 't list" where
  "downs [] = []"
| "downs (Some t # h) = t # downs h"
| "downs (None # h) = downs h"

fun ups :: "'t option list \<Rightarrow> nat" where
  "ups [] = 0"
| "ups (Some t # h) = ups h"
| "ups (None # h) = Suc (ups h)"

lemma run_passes:
  assumes "holds s (k - length ds) (drop k ds)" "legal k ds h"
  shows "\<exists>ps s'. run h s = Inr (ps, s') \<and> take k ds @ ps = take (k + ups h) (ds @ downs h) \<and>
    holds s' (k + ups h - length (ds @ downs h)) (drop (k + ups h) (ds @ downs h))"
  using assms
proof (induction h arbitrary: s k ds)
  case Nil
  then show ?case by simp
next
  case (Cons c h)
  show ?case
  proof (cases c)
    case (Some t)
    show ?thesis
    proof (cases "length ds < k")
      case True
      then obtain n where n: "k - length ds = Suc n" by (metis Suc_diff_Suc)
      then obtain s1 where s1: "down t s = Inr (True, s1)" "holds s1 n (drop k ds)"
        using Cons.prems(1) down_free [of s n "drop k ds" t] by auto
      have "holds s1 (k - length (ds @ [t])) (drop k (ds @ [t]))" proof -
        have "k - length (ds @ [t]) = n" using n by simp
        then show ?thesis using s1(2) True by simp
      qed
      from Cons.IH [OF this] obtain ps s' where
        "run h s1 = Inr (ps, s')" "take k (ds @ [t]) @ ps = take (k + ups h) ((ds @ [t]) @ downs h)"
        "holds s' (k + ups h - length ((ds @ [t]) @ downs h)) (drop (k + ups h) ((ds @ [t]) @ downs h))"
        using Cons.prems(2) Some by auto
      then show ?thesis using Some s1(1) True by simp
    next
      case False
      then have "holds s 0 (drop k ds)" using Cons.prems(1) by simp
      then obtain s1 where s1: "down t s = Inr (False, s1)" "holds s1 0 (drop k ds @ [t])"
        using Cons.prems(2) Some down_wait [of s "drop k ds" t] by auto
      have "holds s1 (k - length (ds @ [t])) (drop k (ds @ [t]))" using s1(2) False by simp
      from Cons.IH [OF this] obtain ps s' where
        "run h s1 = Inr (ps, s')" "take k (ds @ [t]) @ ps = take (k + ups h) ((ds @ [t]) @ downs h)"
        "holds s' (k + ups h - length ((ds @ [t]) @ downs h)) (drop (k + ups h) ((ds @ [t]) @ downs h))"
        using Cons.prems(2) Some by auto
      then show ?thesis using Some s1(1) False by simp
    qed
  next
    case None
    show ?thesis
    proof (cases "drop k ds")
      case Nil
      then have l: "length ds \<le> k" by simp
      have "Suc k < limit" using Cons.prems(2) None by simp
      then have "Suc (k - length ds) < limit" by linarith
      then have u: "fst (up s) = None" "holds (snd (up s)) (Suc (k - length ds)) []"
        using up_free [of s "k - length ds"] Cons.prems(1) Nil by simp_all
      have "holds (snd (up s)) (Suc k - length ds) (drop (Suc k) ds)"
        using u(2) l by (simp add: Suc_diff_le)
      from Cons.IH [OF this] obtain ps s' where
        "run h (snd (up s)) = Inr (ps, s')" "take (Suc k) ds @ ps = take (Suc k + ups h) (ds @ downs h)"
        "holds s' (Suc k + ups h - length (ds @ downs h)) (drop (Suc k + ups h) (ds @ downs h))"
        using Cons.prems(2) None by auto
      then show ?thesis using None u(1) l by (simp split: prod.splits) auto
    next
      case (Cons w ws)
      then have l: "k < length ds" by (metis drop_all list.distinct(1) not_le)
      have u: "fst (up s) = Some w" "holds (snd (up s)) (k - length ds) ws"
        using up_wake [of s "k - length ds" w ws] Cons.prems(1) Cons by simp_all
      have ws: "ws = drop (Suc k) ds" "ds ! k = w"
        using Cons by (metis drop_Suc list.sel(3) tl_drop, metis Cons hd_drop_conv_nth l list.sel(1))
      have "holds (snd (up s)) (Suc k - length ds) (drop (Suc k) ds)"
        using u(2) l ws(1) by simp
      from Cons.IH [OF this] obtain ps s' where
        r: "run h (snd (up s)) = Inr (ps, s')" "take (Suc k) ds @ ps = take (Suc k + ups h) (ds @ downs h)"
        "holds s' (Suc k + ups h - length (ds @ downs h)) (drop (Suc k + ups h) (ds @ downs h))"
        using Cons.prems(2) None by auto
      have "take k ds @ w # ps = take (Suc k) ds @ ps" using l ws(2) by (simp add: take_Suc_conv_app_nth)
      then show ?thesis using None u(1) r by (simp split: prod.splits) auto
    qed
  qed
qed

text \<open>Threads get through in the order of their calls, as many as there are tokens.\<close>

lemma passes_in_order:
  assumes "holds s k []" "legal k [] h"
  shows "\<exists>s'. run h s = Inr (take (k + ups h) (downs h), s') \<and>
    holds s' (k + ups h - length (downs h)) (drop (k + ups h) (downs h))"
  using run_passes [of s k "[]" h] assms by auto

end

section \<open>The kernel's semaphore is one\<close>

definition sem_holds :: "sem \<times> next_map \<Rightarrow> nat \<Rightarrow> ptr list \<Rightarrow> bool" where
  "sem_holds = (\<lambda>(s, nx) n ws. unat (s_count s) = n \<and> queue_holds (s_wait s, nx) ws)"

lemma unat_u64_less: "unat (w :: u64) < 18446744073709551616"
  using unsigned_less [of w] by simp

interpretation ks: semaphore_spec sem_down sem_up sem_holds "\<lambda>t. t \<noteq> 0" "18446744073709551616"
proof (unfold_locales, goal_cases)
  case (1 s n ws t)
  obtain c q nx where s: "s = (\<lparr>s_count = c, s_wait = q\<rparr>, nx)" by (cases s) (metis sem.cases prod.collapse)
  have c: "unat c = Suc n" "0 < c" using 1 s by (auto simp: sem_holds_def word_less_nat_alt)
  then have "unat (c - 1) = n" by (subst unat_sub) (simp_all add: word_le_nat_alt)
  then show ?case using 1 s c by (auto simp: sem_holds_def sem_down_def)
next
  case (2 s ws t)
  obtain c q nx where s: "s = (\<lparr>s_count = c, s_wait = q\<rparr>, nx)" by (cases s) (metis sem.cases prod.collapse)
  have h: "unat c = 0" "queue_holds (q, nx) ws" using 2(1) s by (auto simp: sem_holds_def)
  obtain s' where "q_add t (q, nx) = Inr s'" "queue_holds s' (ws @ [t])"
    using iq.enq_holds [OF h(2)] 2(2,3) by blast
  then show ?case using s h(1) by (cases s') (auto simp: sem_holds_def sem_down_def word_less_nat_alt)
next
  case (3 s n)
  obtain c q nx where s: "s = (\<lparr>s_count = c, s_wait = q\<rparr>, nx)" by (cases s) (metis sem.cases prod.collapse)
  have h: "unat c = n" "queue_holds (q, nx) []" using 3(1) s by (auto simp: sem_holds_def)
  have "unat (c + 1) = Suc n" using h(1) 3(2) by (subst unat_add_lem [THEN iffD1]) simp_all
  then show ?case using q_remove_holds [OF h(2)] s
    by (auto simp: sem_holds_def sem_up_def Let_def split: prod.splits)
next
  case (4 s n w ws)
  obtain c q nx where s: "s = (\<lparr>s_count = c, s_wait = q\<rparr>, nx)" by (cases s) (metis sem.cases prod.collapse)
  have h: "unat c = n" "queue_holds (q, nx) (w # ws)" using 4 s by (auto simp: sem_holds_def)
  have "w \<noteq> 0" using queue_holds_nonnull [OF h(2)] by auto
  then show ?case using q_remove_holds [OF h(2)] s h(1)
    by (auto simp: sem_holds_def sem_up_def Let_def split: prod.splits)
qed

lemma sem_init_holds: "sem_holds (sem_init c, nx) (unat c) []"
proof -
  have "unat (ucast c :: u64) = unat c"
    by (simp add: unsigned_ucast_eq take_bit_nat_eq_self unsigned_less [THEN less_le_trans])
  then show ?thesis by (simp add: sem_holds_def sem_init_def queue_init_holds)
qed

section \<open>The abstract semaphore\<close>

text \<open>Tokens and waiting threads as such: what programs that use semaphores are modelled with.\<close>

record 't asem =
  tokens :: nat
  waiters :: "'t list"

definition asem_init :: "nat \<Rightarrow> 't asem" where
  "asem_init n = \<lparr>tokens = n, waiters = []\<rparr>"

definition asem_down :: "'t \<Rightarrow> 't asem \<Rightarrow> bool \<times> 't asem" where
  "asem_down t s = (if 0 < tokens s then (True, s\<lparr>tokens := tokens s - 1\<rparr>)
     else (False, s\<lparr>waiters := waiters s @ [t]\<rparr>))"

definition asem_up :: "'t asem \<Rightarrow> 't option \<times> 't asem" where
  "asem_up s = (case waiters s of [] \<Rightarrow> (None, s\<lparr>tokens := tokens s + 1\<rparr>)
     | w # ws \<Rightarrow> (Some w, s\<lparr>waiters := ws\<rparr>))"

definition asem_holds :: "'t asem \<Rightarrow> nat \<Rightarrow> 't list \<Rightarrow> bool" where
  "asem_holds s n ws \<longleftrightarrow> tokens s = n \<and> waiters s = ws"

interpretation as: semaphore_spec "\<lambda>t s. Inr (asem_down t s)" asem_up asem_holds "\<lambda>_. True" n for n
  by unfold_locales (auto simp: asem_holds_def asem_down_def asem_up_def)

text \<open>The kernel's semaphore does what the abstract one does, step by step.\<close>

definition sem_abs :: "sem \<times> next_map \<Rightarrow> ptr asem \<Rightarrow> bool" where
  "sem_abs s a \<longleftrightarrow> sem_holds s (tokens a) (waiters a) \<and> (waiters a = [] \<or> tokens a = 0)"

lemma sem_down_refines:
  assumes "sem_abs s a" "t \<noteq> 0" "t \<notin> set (waiters a)"
  shows "\<exists>s'. sem_down t s = Inr (fst (asem_down t a), s') \<and> sem_abs s' (snd (asem_down t a))"
proof (cases "tokens a")
  case 0
  then show ?thesis using ks.down_wait [of s "waiters a" t] assms
    by (auto simp: sem_abs_def asem_down_def)
next
  case (Suc n)
  then show ?thesis using ks.down_free [of s n "waiters a" t] assms
    by (auto simp: sem_abs_def asem_down_def)
qed

lemma sem_up_refines:
  assumes "sem_abs s a" "Suc (tokens a) < 18446744073709551616"
  shows "fst (sem_up s) = fst (asem_up a) \<and> sem_abs (snd (sem_up s)) (snd (asem_up a))"
proof (cases "waiters a")
  case Nil
  then show ?thesis using ks.up_free [of s "tokens a"] assms by (auto simp: sem_abs_def asem_up_def)
next
  case (Cons w ws)
  then show ?thesis using ks.up_wake [of s "tokens a" w ws] assms
    by (auto simp: sem_abs_def asem_up_def)
qed

section \<open>Threads at a semaphore\<close>

text \<open>\<open>w t\<close> tells that the thread \<open>t\<close> is blocked in \<open>down\<close>.\<close>

definition wait_ok :: "'t asem \<Rightarrow> ('t \<Rightarrow> bool) \<Rightarrow> bool" where
  "wait_ok s w \<longleftrightarrow> distinct (waiters s) \<and> set (waiters s) = {t. w t} \<and> (waiters s = [] \<or> tokens s = 0)"

lemma wait_ok_init: "wait_ok (asem_init n) (\<lambda>_. False)"
  by (simp add: wait_ok_def asem_init_def)

lemma wait_ok_cong: "wait_ok s w \<Longrightarrow> (\<And>t. w' t = w t) \<Longrightarrow> wait_ok s w'"
  by (simp add: wait_ok_def)

lemma asem_down_cases:
  assumes ok: "wait_ok s w" and t: "\<not> w t"
  obtains (pass) s' where "asem_down t s = (True, s')" "tokens s = Suc (tokens s')" "wait_ok s' w"
  | (block) s' where "asem_down t s = (False, s')" "tokens s' = tokens s" "tokens s = 0" "wait_ok s' (w(t := True))"
proof (cases "tokens s")
  case (Suc n)
  then have "asem_down t s = (True, s\<lparr>tokens := n\<rparr>)" by (simp add: asem_down_def)
  moreover have "wait_ok (s\<lparr>tokens := n\<rparr>) w" using ok Suc unfolding wait_ok_def by force
  ultimately show ?thesis using Suc by (intro pass) simp_all
next
  case 0
  let ?s = "s\<lparr>waiters := waiters s @ [t]\<rparr>"
  have w: "set (waiters s) = {t. w t}" "distinct (waiters s)" using ok unfolding wait_ok_def by blast+
  have "t \<notin> set (waiters s)" unfolding w(1) using t by simp
  moreover have "insert t {t. w t} = {u. (w(t := True)) u}" by auto
  ultimately have "wait_ok ?s (w(t := True))" using 0 w by (simp add: wait_ok_def)
  then show ?thesis using 0 by (intro block [of ?s]) (simp_all add: asem_down_def)
qed

lemma asem_up_cases:
  assumes ok: "wait_ok s w"
  obtains (free) s' where "asem_up s = (None, s')" "tokens s' = Suc (tokens s)" "wait_ok s' w"
  | (wake) u s' where "asem_up s = (Some u, s')" "tokens s' = tokens s" "w u" "wait_ok s' (w(u := False))"
proof (cases "waiters s")
  case Nil
  let ?s = "s\<lparr>tokens := tokens s + 1\<rparr>"
  have "wait_ok ?s w" using ok Nil unfolding wait_ok_def by simp
  then show ?thesis using Nil by (intro free [of ?s]) (simp_all add: asem_up_def)
next
  case (Cons u us)
  let ?s = "s\<lparr>waiters := us\<rparr>"
  have w: "insert u (set us) = {t. w t}" "distinct (u # us)" "tokens s = 0"
    using ok Cons unfolding wait_ok_def by auto
  have "set us = {t. (w(u := False)) t}" using w(1,2) by auto
  then have "wait_ok ?s (w(u := False))" using w by (simp add: wait_ok_def)
  moreover have "w u" using w(1) by blast
  ultimately show ?thesis using Cons by (intro wake [of u ?s]) (simp_all add: asem_up_def)
qed

lemma wait_ok_blocked: "wait_ok s w \<Longrightarrow> w t \<Longrightarrow> tokens s = 0"
  by (auto simp: wait_ok_def)

text \<open>What the threads hold together, each according to the point of the program it is at.\<close>

definition owed :: "('p \<Rightarrow> nat) \<Rightarrow> ('t::finite \<Rightarrow> 'p) \<Rightarrow> nat" where
  "owed f pc = (\<Sum>t\<in>UNIV. f (pc t))"

lemma owed_upd: "owed f (pc(t := p)) + f (pc t) = owed f pc + f p"
proof -
  have "owed f pc = f (pc t) + (\<Sum>u\<in>UNIV - {t}. f (pc u))"
    unfolding owed_def by (rule sum.remove) simp_all
  moreover have "owed f (pc(t := p)) = f p + (\<Sum>u\<in>UNIV - {t}. f ((pc(t := p)) u))"
    unfolding owed_def by (subst sum.remove [of UNIV t]) simp_all
  moreover have "(\<Sum>u\<in>UNIV - {t}. f ((pc(t := p)) u)) = (\<Sum>u\<in>UNIV - {t}. f (pc u))"
    by (rule sum.cong) auto
  ultimately show ?thesis by linarith
qed

lemma owed_ge: "f (pc t) \<le> owed f pc"
  unfolding owed_def by (rule member_le_sum) simp_all

lemma owed_0: "owed f pc = 0 \<longleftrightarrow> (\<forall>t. f (pc t) = 0)"
  by (simp add: owed_def)

text \<open>A thread that is made ready goes on where \<open>wake\<close> says.\<close>

definition wake_in :: "('p \<Rightarrow> 'p) \<Rightarrow> 't option \<Rightarrow> ('t \<Rightarrow> 'p) \<Rightarrow> 't \<Rightarrow> 'p" where
  "wake_in wake w pc = (case w of None \<Rightarrow> pc | Some u \<Rightarrow> pc(u := wake (pc u)))"

lemma wake_in_simps [simp]:
  "wake_in wake None pc = pc" "wake_in wake (Some u) pc = pc(u := wake (pc u))"
  by (simp_all add: wake_in_def)

text \<open>The accounts of one semaphore: the threads at the points \<open>at\<close> are the ones in its queue, and
  its tokens and those the threads hold (\<open>f\<close>) are \<open>k\<close> together.\<close>

definition sem_inv :: "('p \<Rightarrow> bool) \<Rightarrow> ('p \<Rightarrow> nat) \<Rightarrow> 't::finite asem \<Rightarrow> ('t \<Rightarrow> 'p) \<Rightarrow> nat \<Rightarrow> bool" where
  "sem_inv at f s pc k \<longleftrightarrow> wait_ok s (\<lambda>u. at (pc u)) \<and> tokens s + owed f pc = k"

lemma at_upd: "(\<lambda>u. f ((pc(t := p)) u)) = (\<lambda>u. f (pc u))(t := f p)"
  by auto

lemma at_keep: "f p = f (pc t) \<Longrightarrow> (\<lambda>u. f ((pc(t := p)) u)) = (\<lambda>u. f (pc u))"
  by auto

lemma sem_inv_init: "\<not> at p \<Longrightarrow> f p = 0 \<Longrightarrow> sem_inv at f (asem_init n) (\<lambda>_. p) n"
  by (simp add: sem_inv_def wait_ok_init owed_def) (simp add: asem_init_def)

lemma sem_inv_same:
  assumes "sem_inv at f s pc k" "at p = at (pc t)" "f p = f (pc t)"
  shows "sem_inv at f s (pc(t := p)) k"
  using assms owed_upd [of f pc t p] by (simp add: sem_inv_def at_keep del: fun_upd_apply)

lemma sem_inv_more:
  assumes "sem_inv at f s pc k" "at p = at (pc t)" "f p = Suc (f (pc t))"
  shows "sem_inv at f s (pc(t := p)) (Suc k)"
  using assms owed_upd [of f pc t p] by (simp add: sem_inv_def at_keep del: fun_upd_apply)

lemma sem_inv_less:
  assumes "sem_inv at f s pc (Suc k)" "at p = at (pc t)" "f (pc t) = Suc (f p)"
  shows "sem_inv at f s (pc(t := p)) k"
  using assms owed_upd [of f pc t p] by (simp add: sem_inv_def at_keep del: fun_upd_apply)

lemma sem_inv_wake_same:
  assumes "sem_inv at f s pc k" "\<And>u. w = Some u \<Longrightarrow> at (wake (pc u)) = at (pc u) \<and> f (wake (pc u)) = f (pc u)"
  shows "sem_inv at f s (wake_in wake w pc) k"
  using assms by (cases w) (auto intro: sem_inv_same)

text \<open>A thread that holds a token is counted.\<close>

lemma sem_inv_ge: "sem_inv at f s pc k \<Longrightarrow> f (pc t) \<le> k"
  using owed_ge [of f pc t] by (simp add: sem_inv_def)

lemma sem_inv_blocked:
  "sem_inv at f s pc k \<Longrightarrow> at (pc t) \<Longrightarrow> owed f pc = k"
  using wait_ok_blocked [of s "\<lambda>u. at (pc u)" t] by (simp add: sem_inv_def)

locale sem_client =
  fixes at :: "'p \<Rightarrow> bool" and f :: "'p \<Rightarrow> nat" and wake :: "'p \<Rightarrow> 'p"
  assumes blocked: "at p \<Longrightarrow> f p = 0 \<and> f (wake p) = 1 \<and> \<not> at (wake p)"
begin

lemma inv_down:
  assumes inv: "sem_inv at f s pc k" and d: "asem_down t s = (ok, s')"
    and now: "\<not> at (pc t)" "f (pc t) = 0" and wait: "at q" and go: "\<not> at p" "f p = 1"
  shows "sem_inv at f s' (pc(t := if ok then p else q)) k"
proof -
  have w: "wait_ok s (\<lambda>u. at (pc u))" using inv by (simp add: sem_inv_def)
  have q: "f q = 0" using blocked wait by blast
  from w now(1) show ?thesis
  proof (rule asem_down_cases)
    fix s1 assume "asem_down t s = (True, s1)" "tokens s = Suc (tokens s1)" "wait_ok s1 (\<lambda>u. at (pc u))"
    then show ?thesis using inv d now go owed_upd [of f pc t p]
      by (simp add: sem_inv_def at_keep del: fun_upd_apply)
  next
    fix s1 assume "asem_down t s = (False, s1)" "tokens s1 = tokens s" "wait_ok s1 ((\<lambda>u. at (pc u))(t := True))"
    then show ?thesis using inv d now wait q owed_upd [of f pc t q]
      by (simp add: sem_inv_def at_upd del: fun_upd_apply)
  qed
qed

lemma woken_at:
  assumes "sem_inv at f s pc k" "asem_up s = (Some u, s')"
  shows "at (pc u)"
proof -
  have "wait_ok s (\<lambda>u. at (pc u))" using assms by (simp add: sem_inv_def)
  then show ?thesis by (rule asem_up_cases) (use assms(2) in auto)
qed

lemma inv_up:
  assumes inv: "sem_inv at f s pc k" and u: "asem_up s = (w, s')"
    and now: "\<not> at (pc t)" "f (pc t) = 1" and go: "\<not> at p" "f p = 0"
  shows "sem_inv at f s' (wake_in wake w (pc(t := p))) k"
proof -
  have w: "wait_ok s (\<lambda>u. at (pc u))" using inv by (simp add: sem_inv_def)
  have o: "owed f (pc(t := p)) + 1 = owed f pc" using owed_upd [of f pc t p] now go by simp
  from w show ?thesis
  proof (rule asem_up_cases)
    fix s1 assume "asem_up s = (None, s1)" "tokens s1 = Suc (tokens s)" "wait_ok s1 (\<lambda>u. at (pc u))"
    then show ?thesis using inv u now go o by (simp add: sem_inv_def at_keep del: fun_upd_apply)
  next
    fix v s1
    assume a: "asem_up s = (Some v, s1)" "tokens s1 = tokens s" "at (pc v)"
      and w1: "wait_ok s1 ((\<lambda>u. at (pc u))(v := False))"
    have v: "v \<noteq> t" using a(3) now by auto
    have b: "f (pc v) = 0" "f (wake (pc v)) = 1" "\<not> at (wake (pc v))" using blocked a(3) by auto
    have "owed f ((pc(t := p))(v := wake (pc v))) = owed f pc"
      using owed_upd [of f "pc(t := p)" v "wake (pc v)"] o b v by simp
    moreover have "(\<lambda>u. at (((pc(t := p))(v := wake (pc v))) u)) = (\<lambda>u. at (pc u))(v := False)"
      using b go now by (auto simp: fun_eq_iff)
    moreover have "wake_in wake w (pc(t := p)) = (pc(t := p))(v := wake (pc v))" "s' = s1"
      using u a(1) v by auto
    ultimately show ?thesis using inv a w1 by (simp add: sem_inv_def del: fun_upd_apply)
  qed
qed

end

section \<open>Property\<close>

text \<open>
  C22.  A semaphore lets threads through in the order in which they call \<open>down\<close>.  For every history
  of \<open>down\<close> and \<open>up\<close> calls on a new semaphore in which no waiting thread calls again, no call
  follows a null pointer, and the threads that have got through are exactly the first \<open>c + ups\<close> of
  those that called; the others are in the queue, in order, and the count is what is left over.
\<close>

theorem semaphore_fifo:
  assumes "ks.legal (unat c) [] h"
  shows "\<exists>s. ks.run h (sem_init c, nx) = Inr (take (unat c + ks.ups h) (ks.downs h), s) \<and>
    sem_holds s (unat c + ks.ups h - length (ks.downs h)) (drop (unat c + ks.ups h) (ks.downs h))"
  using ks.passes_in_order [OF sem_init_holds assms] .

lemma semaphore_fifo_witness:
  "\<exists>s. ks.run [Some 16, Some 32, Some 48, None] (sem_init 1, \<lambda>_. 0) = Inr ([16, 32], s) \<and> sem_holds s 0 [48]"
  using semaphore_fifo [of 1 "[Some 16, Some 32, Some 48, None]" "\<lambda>_. 0"] by simp

end
