(* ===== verification/Bounded_Buffer.thy ===== *)
theory Bounded_Buffer
  imports Semaphore
begin

text \<open>
  The bounded buffer of \<open>kernel/bb.h\<close>: a ring of \<open>N\<close> slots, a semaphore for the empty slots,
  one for the full slots and one that serves as a lock.  Every thread is at a point of \<open>put\<close> or
  \<open>get\<close> or in neither; \<open>bb_step\<close> is the next action of one thread (\<open>None\<close>: it is blocked or
  idle), and threads interleave freely.  The statements between \<open>lock.down\<close> and \<open>lock.up\<close>
  are one step; the semaphores are the abstract ones of \<open>Semaphore\<close>, whose refinement by the
  kernel's is shown there.
\<close>

section \<open>Program and state\<close>

datatype 'a point = Idle
  | Put_empty 'a | Put_empty_wait 'a | Put_lock 'a | Put_lock_wait 'a | Put_crit 'a | Put_unlock | Put_full
  | Get_full | Get_full_wait | Get_lock | Get_lock_wait | Get_crit | Get_unlock 'a | Get_empty 'a

record ('a, 't) bb =
  bb_head :: u32
  bb_n :: u32
  bb_N :: u32
  bb_data :: "'a list"
  nEmpty :: "'t asem"
  nFull :: "'t asem"
  bb_lock :: "'t asem"
  bb_pc :: "'t \<Rightarrow> 'a point"

definition bb_init :: "u32 \<Rightarrow> 'a list \<Rightarrow> ('a, 't) bb" where
  "bb_init N xs = \<lparr>bb_head = 0, bb_n = 0, bb_N = N, bb_data = xs, nEmpty = asem_init (unat N),
     nFull = asem_init 0, bb_lock = asem_init 1, bb_pc = (\<lambda>_. Idle)\<rparr>"

datatype 'a event = Tau | In 'a | Out 'a | Fault fault

text \<open>Where a blocked thread goes on once it is given the token.\<close>

fun wake :: "'a point \<Rightarrow> 'a point" where
  "wake (Put_empty_wait a) = Put_lock a"
| "wake (Put_lock_wait a) = Put_crit a"
| "wake Get_full_wait = Get_lock"
| "wake Get_lock_wait = Get_crit"
| "wake p = p"

text \<open>The critical section of \<open>put\<close> and of \<open>get\<close>.\<close>

definition put_item :: "'a \<Rightarrow> ('a, 't) bb \<Rightarrow> ('a, 't) bb res" where
  "put_item a s =
     (if bb_N s = 0 then Inl DivByZero
      else let i = unat ((bb_head s + bb_n s) mod bb_N s) in
        if length (bb_data s) \<le> i then Inl OutOfRange
        else Inr (s\<lparr>bb_data := (bb_data s)[i := a], bb_n := bb_n s + 1\<rparr>))"

definition get_item :: "('a, 't) bb \<Rightarrow> ('a \<times> ('a, 't) bb) res" where
  "get_item s =
     (if length (bb_data s) \<le> unat (bb_head s) then Inl OutOfRange
      else if bb_N s = 0 then Inl DivByZero
      else Inr (bb_data s ! unat (bb_head s),
        s\<lparr>bb_head := (bb_head s + 1) mod bb_N s, bb_n := bb_n s - 1\<rparr>))"

fun bb_step :: "'t \<Rightarrow> ('a, 't) bb \<Rightarrow> ('a event \<times> ('a, 't) bb) option" where
  "bb_step t s =
     (case bb_pc s t of
        Put_empty a \<Rightarrow> (case asem_down t (nEmpty s) of (ok, e) \<Rightarrow>
          Some (Tau, s\<lparr>nEmpty := e, bb_pc := (bb_pc s)(t := if ok then Put_lock a else Put_empty_wait a)\<rparr>))
      | Put_lock a \<Rightarrow> (case asem_down t (bb_lock s) of (ok, l) \<Rightarrow>
          Some (Tau, s\<lparr>bb_lock := l, bb_pc := (bb_pc s)(t := if ok then Put_crit a else Put_lock_wait a)\<rparr>))
      | Put_crit a \<Rightarrow> (case put_item a s of Inl e \<Rightarrow> Some (Fault e, s)
          | Inr s' \<Rightarrow> Some (In a, s'\<lparr>bb_pc := (bb_pc s)(t := Put_unlock)\<rparr>))
      | Put_unlock \<Rightarrow> (case asem_up (bb_lock s) of (w, l) \<Rightarrow>
          Some (Tau, s\<lparr>bb_lock := l, bb_pc := wake_in wake w ((bb_pc s)(t := Put_full))\<rparr>))
      | Put_full \<Rightarrow> (case asem_up (nFull s) of (w, f) \<Rightarrow>
          Some (Tau, s\<lparr>nFull := f, bb_pc := wake_in wake w ((bb_pc s)(t := Idle))\<rparr>))
      | Get_full \<Rightarrow> (case asem_down t (nFull s) of (ok, f) \<Rightarrow>
          Some (Tau, s\<lparr>nFull := f, bb_pc := (bb_pc s)(t := if ok then Get_lock else Get_full_wait)\<rparr>))
      | Get_lock \<Rightarrow> (case asem_down t (bb_lock s) of (ok, l) \<Rightarrow>
          Some (Tau, s\<lparr>bb_lock := l, bb_pc := (bb_pc s)(t := if ok then Get_crit else Get_lock_wait)\<rparr>))
      | Get_crit \<Rightarrow> (case get_item s of Inl e \<Rightarrow> Some (Fault e, s)
          | Inr (a, s') \<Rightarrow> Some (Out a, s'\<lparr>bb_pc := (bb_pc s)(t := Get_unlock a)\<rparr>))
      | Get_unlock a \<Rightarrow> (case asem_up (bb_lock s) of (w, l) \<Rightarrow>
          Some (Tau, s\<lparr>bb_lock := l, bb_pc := wake_in wake w ((bb_pc s)(t := Get_empty a))\<rparr>))
      | Get_empty a \<Rightarrow> (case asem_up (nEmpty s) of (w, e) \<Rightarrow>
          Some (Tau, s\<lparr>nEmpty := e, bb_pc := wake_in wake w ((bb_pc s)(t := Idle))\<rparr>))
      | _ \<Rightarrow> None)"

declare bb_step.simps [simp del]

fun ev_in :: "'a event \<Rightarrow> 'a list" where
  "ev_in (In a) = [a]" | "ev_in _ = []"

fun ev_out :: "'a event \<Rightarrow> 'a list" where
  "ev_out (Out a) = [a]" | "ev_out _ = []"

text \<open>The states threads can reach from a new buffer (whose slots hold anything), with the items
  put and got so far in the order of the critical sections.\<close>

inductive bb_reach :: "u32 \<Rightarrow> 'a list \<Rightarrow> 'a list \<Rightarrow> ('a, 't) bb \<Rightarrow> bool" where
  init: "length xs = unat N \<Longrightarrow> bb_reach N [] [] (bb_init N xs)"
| put: "bb_reach N ins outs s \<Longrightarrow> bb_pc s t = Idle \<Longrightarrow>
    bb_reach N ins outs (s\<lparr>bb_pc := (bb_pc s)(t := Put_empty a)\<rparr>)"
| get: "bb_reach N ins outs s \<Longrightarrow> bb_pc s t = Idle \<Longrightarrow>
    bb_reach N ins outs (s\<lparr>bb_pc := (bb_pc s)(t := Get_full)\<rparr>)"
| step: "bb_reach N ins outs s \<Longrightarrow> bb_step t s = Some (ev, s') \<Longrightarrow>
    bb_reach N (ins @ ev_in ev) (outs @ ev_out ev) s'"

section \<open>The ring\<close>

text \<open>The items in the buffer, oldest first.\<close>

definition bb_content :: "('a, 't) bb \<Rightarrow> 'a list" where
  "bb_content s = map (\<lambda>i. bb_data s ! ((unat (bb_head s) + i) mod unat (bb_N s))) [0..<unat (bb_n s)]"

definition ring_ok :: "('a, 't) bb \<Rightarrow> bool" where
  "ring_ok s \<longleftrightarrow> 0 < unat (bb_N s) \<and> unat (bb_N s) < 2147483648 \<and> length (bb_data s) = unat (bb_N s) \<and>
     unat (bb_head s) < unat (bb_N s) \<and> unat (bb_n s) \<le> unat (bb_N s)"

lemma length_content [simp]: "length (bb_content s) = unat (bb_n s)"
  by (simp add: bb_content_def)

lemma content_nth:
  "i < unat (bb_n s) \<Longrightarrow> bb_content s ! i = bb_data s ! ((unat (bb_head s) + i) mod unat (bb_N s))"
  by (simp add: bb_content_def)

lemma ring_index_inj:
  assumes "i < n" "n < (N :: nat)"
  shows "(h + i) mod N \<noteq> (h + n) mod N"
proof
  assume "(h + i) mod N = (h + n) mod N"
  then have "N dvd (h + n) - (h + i)" using assms by (subst mod_eq_dvd_iff_nat [symmetric]) simp_all
  then have "N \<le> n - i" using assms by (intro dvd_imp_le) simp_all
  then show False using assms by simp
qed

lemma put_item_ok:
  assumes ok: "ring_ok s" and n: "unat (bb_n s) < unat (bb_N s)"
  obtains s' where "put_item a s = Inr s'" "bb_content s' = bb_content s @ [a]" "ring_ok s'"
    "unat (bb_n s') = Suc (unat (bb_n s))"
    "s' = s\<lparr>bb_data := bb_data s', bb_n := bb_n s'\<rparr>"
proof -
  let ?N = "unat (bb_N s)" let ?h = "unat (bb_head s)" let ?k = "unat (bb_n s)"
  let ?i = "(?h + ?k) mod ?N"
  let ?s = "s\<lparr>bb_data := (bb_data s)[?i := a], bb_n := bb_n s + 1\<rparr>"
  note o = ok [unfolded ring_ok_def]
  have "unat (bb_head s + bb_n s) = ?h + ?k" using o n by (subst unat_add_lem [THEN iffD1]) simp_all
  then have i: "unat ((bb_head s + bb_n s) mod bb_N s) = ?i" by (simp add: unat_mod)
  have "?i < ?N" using o by simp
  moreover have "bb_N s \<noteq> 0" using o by auto
  ultimately have p: "put_item a s = Inr ?s" unfolding put_item_def Let_def i using o by (simp add: not_le)
  have k: "unat (bb_n s + 1) = Suc ?k" using o n by (subst unat_add_lem [THEN iffD1]) simp_all
  have "bb_content ?s = bb_content s @ [a]"
  proof (rule nth_equalityI)
    fix j assume "j < length (bb_content ?s)"
    then have "j < Suc ?k" by (simp add: k)
    then consider "j < ?k" | "j = ?k" by linarith
    then show "bb_content ?s ! j = (bb_content s @ [a]) ! j"
    proof cases
      case 1
      then show ?thesis using ring_index_inj [OF 1 n, symmetric] k by (simp add: bb_content_def nth_append)
    next
      case 2
      then show ?thesis using k \<open>?i < ?N\<close> o by (simp add: bb_content_def nth_append)
    qed
  qed (simp add: k)
  moreover have "ring_ok ?s" using o n k by (simp add: ring_ok_def)
  ultimately show ?thesis using p k by (intro that [of ?s]) simp_all
qed

lemma get_item_ok:
  assumes ok: "ring_ok s" and n: "0 < unat (bb_n s)"
  obtains a s' where "get_item s = Inr (a, s')" "bb_content s = a # bb_content s'" "ring_ok s'"
    "unat (bb_n s) = Suc (unat (bb_n s'))"
    "s' = s\<lparr>bb_head := bb_head s', bb_n := bb_n s'\<rparr>"
proof -
  let ?N = "unat (bb_N s)" let ?h = "unat (bb_head s)" let ?k = "unat (bb_n s)"
  let ?s = "s\<lparr>bb_head := (bb_head s + 1) mod bb_N s, bb_n := bb_n s - 1\<rparr>"
  note o = ok [unfolded ring_ok_def]
  have h: "unat ((bb_head s + 1) mod bb_N s) = Suc ?h mod ?N"
    using o by (subst unat_mod, subst unat_add_lem [THEN iffD1]) simp_all
  have k: "?k = Suc (unat (bb_n s - 1))" using n by (subst unat_sub) (simp_all add: word_le_nat_alt)
  have p: "get_item s = Inr (bb_data s ! ?h, ?s)" using o by (auto simp: get_item_def)
  have "bb_content s = (bb_data s ! ?h) # bb_content ?s"
  proof (rule nth_equalityI)
    fix j assume j: "j < length (bb_content s)"
    show "bb_content s ! j = ((bb_data s ! ?h) # bb_content ?s) ! j"
    proof (cases j)
      case 0
      then show ?thesis using n o by (simp add: content_nth)
    next
      case (Suc i)
      then have "i < unat (bb_n s - 1)" using j k by simp
      then show ?thesis using Suc j h by (simp add: content_nth mod_simps)
    qed
  qed (simp add: k)
  moreover have "ring_ok ?s" using o n k h by (simp add: ring_ok_def)
  ultimately show ?thesis using p k by (intro that [of _ ?s]) simp_all
qed

section \<open>Who holds which token\<close>

definition at_empty :: "'a point \<Rightarrow> bool" where
  "at_empty p = (case p of Put_empty_wait _ \<Rightarrow> True | _ \<Rightarrow> False)"

definition at_full :: "'a point \<Rightarrow> bool" where
  "at_full p = (case p of Get_full_wait \<Rightarrow> True | _ \<Rightarrow> False)"

definition at_lock :: "'a point \<Rightarrow> bool" where
  "at_lock p = (case p of Put_lock_wait _ \<Rightarrow> True | Get_lock_wait \<Rightarrow> True | _ \<Rightarrow> False)"

definition has_empty :: "'a point \<Rightarrow> nat" where
  "has_empty p = (case p of Put_lock _ \<Rightarrow> 1 | Put_lock_wait _ \<Rightarrow> 1 | Put_crit _ \<Rightarrow> 1
     | Get_unlock _ \<Rightarrow> 1 | Get_empty _ \<Rightarrow> 1 | _ \<Rightarrow> 0)"

definition has_full :: "'a point \<Rightarrow> nat" where
  "has_full p = (case p of Get_lock \<Rightarrow> 1 | Get_lock_wait \<Rightarrow> 1 | Get_crit \<Rightarrow> 1
     | Put_unlock \<Rightarrow> 1 | Put_full \<Rightarrow> 1 | _ \<Rightarrow> 0)"

definition has_lock :: "'a point \<Rightarrow> nat" where
  "has_lock p = (case p of Put_crit _ \<Rightarrow> 1 | Put_unlock \<Rightarrow> 1 | Get_crit \<Rightarrow> 1 | Get_unlock _ \<Rightarrow> 1 | _ \<Rightarrow> 0)"

lemmas point_defs = at_empty_def at_full_def at_lock_def has_empty_def has_full_def has_lock_def

interpretation empty: sem_client at_empty has_empty wake
  by unfold_locales (auto simp: point_defs split: point.splits)

interpretation full: sem_client at_full has_full wake
  by unfold_locales (auto simp: point_defs split: point.splits)

interpretation lock: sem_client at_lock has_lock wake
  by unfold_locales (auto simp: point_defs split: point.splits)

lemma wake_others:
  "at_empty p \<Longrightarrow> at_full (wake p) = at_full p \<and> has_full (wake p) = has_full p \<and>
     at_lock (wake p) = at_lock p \<and> has_lock (wake p) = has_lock p"
  "at_full p \<Longrightarrow> at_empty (wake p) = at_empty p \<and> has_empty (wake p) = has_empty p \<and>
     at_lock (wake p) = at_lock p \<and> has_lock (wake p) = has_lock p"
  "at_lock p \<Longrightarrow> at_empty (wake p) = at_empty p \<and> has_empty (wake p) = has_empty p \<and>
     at_full (wake p) = at_full p \<and> has_full (wake p) = has_full p"
  by (auto simp: point_defs split: point.splits)

definition bb_inv :: "u32 \<Rightarrow> ('a, 't::finite) bb \<Rightarrow> bool" where
  "bb_inv N s \<longleftrightarrow> bb_N s = N \<and> ring_ok s \<and>
     sem_inv at_empty has_empty (nEmpty s) (bb_pc s) (unat N - unat (bb_n s)) \<and>
     sem_inv at_full has_full (nFull s) (bb_pc s) (unat (bb_n s)) \<and>
     sem_inv at_lock has_lock (bb_lock s) (bb_pc s) 1"

lemma bb_init_inv:
  assumes "0 < unat N" "unat N < 2147483648" "length xs = unat N"
  shows "bb_inv N (bb_init N xs)"
  using assms by (simp add: bb_inv_def bb_init_def ring_ok_def sem_inv_init point_defs)

section \<open>Every step keeps the accounts\<close>

lemma bb_inv_lock:
  assumes "bb_inv N s"
  shows "sem_inv at_empty has_empty (nEmpty s) (bb_pc s) (unat N - unat (bb_n s))"
    "sem_inv at_full has_full (nFull s) (bb_pc s) (unat (bb_n s))"
    "sem_inv at_lock has_lock (bb_lock s) (bb_pc s) 1" "ring_ok s" "bb_N s = N"
  using assms by (simp_all add: bb_inv_def)

lemma bb_frame [simp]:
  "bb_content (s\<lparr>nEmpty := x\<rparr>) = bb_content s" "bb_content (s\<lparr>nFull := x\<rparr>) = bb_content s"
  "bb_content (s\<lparr>bb_lock := x\<rparr>) = bb_content s" "bb_content (s\<lparr>bb_pc := pc\<rparr>) = bb_content s"
  "ring_ok (s\<lparr>nEmpty := x\<rparr>) = ring_ok s" "ring_ok (s\<lparr>nFull := x\<rparr>) = ring_ok s"
  "ring_ok (s\<lparr>bb_lock := x\<rparr>) = ring_ok s" "ring_ok (s\<lparr>bb_pc := pc\<rparr>) = ring_ok s"
  by (simp_all add: bb_content_def ring_ok_def)

text \<open>The points \<open>p\<close> and \<open>q\<close> do not differ for the other two semaphores.\<close>

definition same_empty :: "'a point \<Rightarrow> 'a point \<Rightarrow> bool" where
  "same_empty p q \<longleftrightarrow> at_empty p = at_empty q \<and> has_empty p = has_empty q"

definition same_full :: "'a point \<Rightarrow> 'a point \<Rightarrow> bool" where
  "same_full p q \<longleftrightarrow> at_full p = at_full q \<and> has_full p = has_full q"

definition same_lock :: "'a point \<Rightarrow> 'a point \<Rightarrow> bool" where
  "same_lock p q \<longleftrightarrow> at_lock p = at_lock q \<and> has_lock p = has_lock q"

lemmas same_defs = same_empty_def same_full_def same_lock_def

lemma keep_empty: "sem_inv at_empty has_empty x pc k \<Longrightarrow> same_empty p (pc t) \<Longrightarrow>
    sem_inv at_empty has_empty x (pc(t := p)) k"
  by (rule sem_inv_same) (auto simp: same_empty_def)

lemma keep_full: "sem_inv at_full has_full x pc k \<Longrightarrow> same_full p (pc t) \<Longrightarrow>
    sem_inv at_full has_full x (pc(t := p)) k"
  by (rule sem_inv_same) (auto simp: same_full_def)

lemma keep_lock: "sem_inv at_lock has_lock x pc k \<Longrightarrow> same_lock p (pc t) \<Longrightarrow>
    sem_inv at_lock has_lock x (pc(t := p)) k"
  by (rule sem_inv_same) (auto simp: same_lock_def)

lemma wake_keeps:
  "sem_inv at_full has_full x pc k \<Longrightarrow> (\<And>u. w = Some u \<Longrightarrow> at_empty (pc u) \<or> at_lock (pc u)) \<Longrightarrow>
     sem_inv at_full has_full x (wake_in wake w pc) k"
  "sem_inv at_empty has_empty y pc k \<Longrightarrow> (\<And>u. w = Some u \<Longrightarrow> at_full (pc u) \<or> at_lock (pc u)) \<Longrightarrow>
     sem_inv at_empty has_empty y (wake_in wake w pc) k"
  "sem_inv at_lock has_lock z pc k \<Longrightarrow> (\<And>u. w = Some u \<Longrightarrow> at_full (pc u) \<or> at_empty (pc u)) \<Longrightarrow>
     sem_inv at_lock has_lock z (wake_in wake w pc) k"
  by (erule sem_inv_wake_same, use wake_others in blast)+

text \<open>One lemma for each call: \<open>q\<close> is the point where the thread waits, \<open>p\<close> the one behind the
  call.\<close>

lemma down_empty:
  assumes "bb_inv N s" "asem_down t (nEmpty s) = (ok, e)"
    and "\<not> at_empty (bb_pc s t)" "has_empty (bb_pc s t) = 0" "at_empty q" "\<not> at_empty p" "has_empty p = 1"
    and "same_full p (bb_pc s t)" "same_full q (bb_pc s t)" "same_lock p (bb_pc s t)" "same_lock q (bb_pc s t)"
  shows "bb_inv N (s\<lparr>nEmpty := e, bb_pc := (bb_pc s)(t := if ok then p else q)\<rparr>)"
  using assms(8-) bb_inv_lock [OF assms(1)] empty.inv_down [OF bb_inv_lock(1) [OF assms(1)] assms(2-7)]
  by (simp add: bb_inv_def keep_full keep_lock)

lemma down_full:
  assumes "bb_inv N s" "asem_down t (nFull s) = (ok, e)"
    and "\<not> at_full (bb_pc s t)" "has_full (bb_pc s t) = 0" "at_full q" "\<not> at_full p" "has_full p = 1"
    and "same_empty p (bb_pc s t)" "same_empty q (bb_pc s t)" "same_lock p (bb_pc s t)" "same_lock q (bb_pc s t)"
  shows "bb_inv N (s\<lparr>nFull := e, bb_pc := (bb_pc s)(t := if ok then p else q)\<rparr>)"
  using assms(8-) bb_inv_lock [OF assms(1)] full.inv_down [OF bb_inv_lock(2) [OF assms(1)] assms(2-7)]
  by (simp add: bb_inv_def keep_empty keep_lock)

lemma down_lock:
  assumes "bb_inv N s" "asem_down t (bb_lock s) = (ok, e)"
    and "\<not> at_lock (bb_pc s t)" "has_lock (bb_pc s t) = 0" "at_lock q" "\<not> at_lock p" "has_lock p = 1"
    and "same_full p (bb_pc s t)" "same_full q (bb_pc s t)" "same_empty p (bb_pc s t)" "same_empty q (bb_pc s t)"
  shows "bb_inv N (s\<lparr>bb_lock := e, bb_pc := (bb_pc s)(t := if ok then p else q)\<rparr>)"
  using assms(8-) bb_inv_lock [OF assms(1)] lock.inv_down [OF bb_inv_lock(3) [OF assms(1)] assms(2-7)]
  by (simp add: bb_inv_def keep_full keep_empty)

lemma up_empty:
  assumes "bb_inv N s" "asem_up (nEmpty s) = (w, e)"
    and "\<not> at_empty (bb_pc s t)" "has_empty (bb_pc s t) = 1" "\<not> at_empty p" "has_empty p = 0"
    and "same_full p (bb_pc s t)" "same_lock p (bb_pc s t)"
  shows "bb_inv N (s\<lparr>nEmpty := e, bb_pc := wake_in wake w ((bb_pc s)(t := p))\<rparr>)"
proof -
  note i = bb_inv_lock [OF assms(1)]
  have w: "at_empty (((bb_pc s)(t := p)) u)" if "w = Some u" for u
    using empty.woken_at [OF i(1)] assms(2,3) that by auto
  show ?thesis using i assms(7-) empty.inv_up [OF i(1) assms(2-6)] w
    by (simp add: bb_inv_def keep_full keep_lock wake_keeps del: fun_upd_apply)
qed

lemma up_full:
  assumes "bb_inv N s" "asem_up (nFull s) = (w, e)"
    and "\<not> at_full (bb_pc s t)" "has_full (bb_pc s t) = 1" "\<not> at_full p" "has_full p = 0"
    and "same_empty p (bb_pc s t)" "same_lock p (bb_pc s t)"
  shows "bb_inv N (s\<lparr>nFull := e, bb_pc := wake_in wake w ((bb_pc s)(t := p))\<rparr>)"
proof -
  note i = bb_inv_lock [OF assms(1)]
  have w: "at_full (((bb_pc s)(t := p)) u)" if "w = Some u" for u
    using full.woken_at [OF i(2)] assms(2,3) that by auto
  show ?thesis using i assms(7-) full.inv_up [OF i(2) assms(2-6)] w
    by (simp add: bb_inv_def keep_empty keep_lock wake_keeps del: fun_upd_apply)
qed

lemma up_lock:
  assumes "bb_inv N s" "asem_up (bb_lock s) = (w, e)"
    and "\<not> at_lock (bb_pc s t)" "has_lock (bb_pc s t) = 1" "\<not> at_lock p" "has_lock p = 0"
    and "same_empty p (bb_pc s t)" "same_full p (bb_pc s t)"
  shows "bb_inv N (s\<lparr>bb_lock := e, bb_pc := wake_in wake w ((bb_pc s)(t := p))\<rparr>)"
proof -
  note i = bb_inv_lock [OF assms(1)]
  have w: "at_lock (((bb_pc s)(t := p)) u)" if "w = Some u" for u
    using lock.woken_at [OF i(3)] assms(2,3) that by auto
  show ?thesis using i assms(7-) lock.inv_up [OF i(3) assms(2-6)] w
    by (simp add: bb_inv_def keep_empty keep_full wake_keeps del: fun_upd_apply)
qed

lemma put_crit:
  assumes inv: "bb_inv N s" and pc: "bb_pc s t = Put_crit a"
  obtains s1 where "put_item a s = Inr s1" "bb_content s1 = bb_content s @ [a]"
    "bb_inv N (s1\<lparr>bb_pc := (bb_pc s)(t := Put_unlock)\<rparr>)" "bb_pc s1 = bb_pc s"
proof -
  note i = bb_inv_lock [OF inv]
  have "1 \<le> unat N - unat (bb_n s)" using sem_inv_ge [OF i(1), of t] pc by (simp add: has_empty_def)
  then have n: "unat (bb_n s) < unat (bb_N s)" "unat N - unat (bb_n s) = Suc (unat N - Suc (unat (bb_n s)))"
    using i(5) by auto
  obtain s1 where s1: "put_item a s = Inr s1" "bb_content s1 = bb_content s @ [a]" "ring_ok s1"
    "unat (bb_n s1) = Suc (unat (bb_n s))" "s1 = s\<lparr>bb_data := bb_data s1, bb_n := bb_n s1\<rparr>"
    by (rule put_item_ok [OF i(4) n(1)])
  have f: "bb_N s1 = bb_N s" "nEmpty s1 = nEmpty s" "nFull s1 = nFull s" "bb_lock s1 = bb_lock s" "bb_pc s1 = bb_pc s"
    by (subst s1(5), simp)+
  have "sem_inv at_empty has_empty (nEmpty s) ((bb_pc s)(t := Put_unlock)) (unat N - Suc (unat (bb_n s)))"
    by (rule sem_inv_less [OF i(1) [unfolded n(2)]]) (simp_all add: pc point_defs)
  moreover have "sem_inv at_full has_full (nFull s) ((bb_pc s)(t := Put_unlock)) (Suc (unat (bb_n s)))"
    by (rule sem_inv_more [OF i(2)]) (simp_all add: pc point_defs)
  moreover have "sem_inv at_lock has_lock (bb_lock s) ((bb_pc s)(t := Put_unlock)) 1"
    by (rule sem_inv_same [OF i(3)]) (simp_all add: pc point_defs)
  ultimately have "bb_inv N (s1\<lparr>bb_pc := (bb_pc s)(t := Put_unlock)\<rparr>)"
    using s1(3,4) i(5) by (simp add: bb_inv_def f)
  then show ?thesis using that s1(1,2) f(5) by blast
qed

lemma get_crit:
  assumes inv: "bb_inv N s" and pc: "bb_pc s t = Get_crit"
  obtains a s1 where "get_item s = Inr (a, s1)" "bb_content s = a # bb_content s1"
    "bb_inv N (s1\<lparr>bb_pc := (bb_pc s)(t := Get_unlock a)\<rparr>)" "bb_pc s1 = bb_pc s"
proof -
  note i = bb_inv_lock [OF inv]
  have n: "0 < unat (bb_n s)" using sem_inv_ge [OF i(2), of t] pc by (simp add: has_full_def)
  obtain a s1 where s1: "get_item s = Inr (a, s1)" "bb_content s = a # bb_content s1" "ring_ok s1"
    "unat (bb_n s) = Suc (unat (bb_n s1))" "s1 = s\<lparr>bb_head := bb_head s1, bb_n := bb_n s1\<rparr>"
    by (rule get_item_ok [OF i(4) n])
  have f: "bb_N s1 = bb_N s" "nEmpty s1 = nEmpty s" "nFull s1 = nFull s" "bb_lock s1 = bb_lock s" "bb_pc s1 = bb_pc s"
    by (subst s1(5), simp)+
  have le: "unat (bb_n s) \<le> unat N" using i(4,5) by (simp add: ring_ok_def)
  then have m: "unat N - unat (bb_n s1) = Suc (unat N - unat (bb_n s))" using s1(4) by linarith
  have "sem_inv at_empty has_empty (nEmpty s) ((bb_pc s)(t := Get_unlock a)) (unat N - unat (bb_n s1))"
    unfolding m by (rule sem_inv_more [OF i(1)]) (simp_all add: pc point_defs)
  moreover have "sem_inv at_full has_full (nFull s) ((bb_pc s)(t := Get_unlock a)) (unat (bb_n s1))"
    by (rule sem_inv_less [OF i(2) [unfolded s1(4)]]) (simp_all add: pc point_defs)
  moreover have "sem_inv at_lock has_lock (bb_lock s) ((bb_pc s)(t := Get_unlock a)) 1"
    by (rule sem_inv_same [OF i(3)]) (simp_all add: pc point_defs)
  ultimately have "bb_inv N (s1\<lparr>bb_pc := (bb_pc s)(t := Get_unlock a)\<rparr>)"
    using s1(3) i(5) by (simp add: bb_inv_def f)
  then show ?thesis using that s1(1,2) f(5) by blast
qed

lemma bb_step_inv:
  assumes inv: "bb_inv N s" and st: "bb_step t s = Some (ev, s')"
  shows "bb_inv N s' \<and> bb_content s @ ev_in ev = ev_out ev @ bb_content s' \<and> (\<forall>e. ev \<noteq> Fault e)"
proof (cases "bb_pc s t")
  case (Put_crit a)
  show ?thesis by (rule put_crit [OF inv Put_crit]) (use st Put_crit in \<open>auto simp: bb_step.simps\<close>)
next
  case Get_crit
  show ?thesis by (rule get_crit [OF inv Get_crit]) (use st Get_crit in \<open>auto simp: bb_step.simps\<close>)
next
  case (Put_empty a)
  then show ?thesis using st
    by (auto simp: bb_step.simps point_defs same_defs split: prod.splits intro!: down_empty [OF inv])
next
  case (Put_lock a)
  then show ?thesis using st
    by (auto simp: bb_step.simps point_defs same_defs split: prod.splits intro!: down_lock [OF inv])
next
  case Get_full
  then show ?thesis using st
    by (auto simp: bb_step.simps point_defs same_defs split: prod.splits intro!: down_full [OF inv])
next
  case Get_lock
  then show ?thesis using st
    by (auto simp: bb_step.simps point_defs same_defs split: prod.splits intro!: down_lock [OF inv])
next
  case Put_unlock
  then show ?thesis using st
    by (auto simp: bb_step.simps point_defs same_defs split: prod.splits intro!: up_lock [OF inv])
next
  case Put_full
  then show ?thesis using st
    by (auto simp: bb_step.simps point_defs same_defs split: prod.splits intro!: up_full [OF inv])
next
  case (Get_unlock a)
  then show ?thesis using st
    by (auto simp: bb_step.simps point_defs same_defs split: prod.splits intro!: up_lock [OF inv])
next
  case (Get_empty a)
  then show ?thesis using st
    by (auto simp: bb_step.simps point_defs same_defs split: prod.splits intro!: up_empty [OF inv])
qed (use st in \<open>simp_all add: bb_step.simps\<close>)

lemma bb_start_inv:
  assumes "bb_inv N s" "bb_pc s t = Idle"
  shows "bb_inv N (s\<lparr>bb_pc := (bb_pc s)(t := Put_empty a)\<rparr>)" "bb_inv N (s\<lparr>bb_pc := (bb_pc s)(t := Get_full)\<rparr>)"
  using bb_inv_lock [OF assms(1)] assms(2)
  by (simp_all add: bb_inv_def keep_empty keep_full keep_lock same_defs point_defs)

lemma bb_reach_inv:
  assumes "bb_reach N ins outs s" "0 < unat N" "unat N < 2147483648"
  shows "bb_inv N s \<and> ins = outs @ bb_content s"
  using assms
proof (induction rule: bb_reach.induct)
  case (init xs N)
  then show ?case using bb_init_inv [of N xs] by (simp add: bb_content_def) (simp add: bb_init_def)
next
  case (put N ins outs s t a)
  then show ?case using bb_start_inv(1) [of N s t a] by simp
next
  case (get N ins outs s t)
  then show ?case using bb_start_inv(2) [of N s t] by simp
next
  case (step N ins outs s t ev s')
  then show ?case using bb_step_inv [of N s t ev s'] by simp
qed

section \<open>No deadlock\<close>

lemma bb_stuck_points:
  "bb_step t s = None \<Longrightarrow> bb_pc s t = Idle \<or> at_empty (bb_pc s t) \<or> at_full (bb_pc s t) \<or> at_lock (bb_pc s t)"
  by (auto simp: bb_step.simps point_defs split: point.splits prod.splits sum.splits)

lemma bb_stuck:
  assumes inv: "bb_inv N s" and stuck: "\<forall>t. bb_step t s = None"
  shows "bb_pc s t = Idle \<or> (\<exists>a. bb_pc s t = Put_empty_wait a) \<and> unat (bb_n s) = unat N \<or>
    bb_pc s t = Get_full_wait \<and> unat (bb_n s) = 0"
proof -
  note i = bb_inv_lock [OF inv]
  have p: "bb_pc s u = Idle \<or> at_empty (bb_pc s u) \<or> at_full (bb_pc s u) \<or> at_lock (bb_pc s u)" for u
    by (rule bb_stuck_points [OF stuck [rule_format]])
  have "owed has_lock (bb_pc s) = 0" unfolding owed_0
  proof
    fix u show "has_lock (bb_pc s u) = 0" using p [of u] by (auto simp: point_defs split: point.splits)
  qed
  then have nl: "\<not> at_lock (bb_pc s u)" for u using sem_inv_blocked [OF i(3), of u] by auto
  have q: "bb_pc s u = Idle \<or> at_empty (bb_pc s u) \<or> at_full (bb_pc s u)" for u using p nl by blast
  have z: "has_empty (bb_pc s u) = 0 \<and> has_full (bb_pc s u) = 0" for u
    using q [of u] by (auto simp: point_defs split: point.splits)
  have "owed has_empty (bb_pc s) = 0" "owed has_full (bb_pc s) = 0" unfolding owed_0 using z by blast+
  then have e: "at_empty (bb_pc s t) \<Longrightarrow> unat N - unat (bb_n s) = 0" "at_full (bb_pc s t) \<Longrightarrow> unat (bb_n s) = 0"
    using sem_inv_blocked [OF i(1), of t] sem_inv_blocked [OF i(2), of t] by simp_all
  have "unat (bb_n s) \<le> unat N" using i(4,5) by (simp add: ring_ok_def)
  then show ?thesis using q [of t] e by (auto simp: point_defs split: point.splits)
qed

text \<open>The actions a thread has left in its call, at most.\<close>

definition left :: "'a point \<Rightarrow> nat" where
  "left p = (case p of Idle \<Rightarrow> 0
     | Put_empty _ \<Rightarrow> 7 | Put_empty_wait _ \<Rightarrow> 6 | Put_lock _ \<Rightarrow> 5 | Put_lock_wait _ \<Rightarrow> 4 | Put_crit _ \<Rightarrow> 3
     | Put_unlock \<Rightarrow> 2 | Put_full \<Rightarrow> 1
     | Get_full \<Rightarrow> 7 | Get_full_wait \<Rightarrow> 6 | Get_lock \<Rightarrow> 5 | Get_lock_wait \<Rightarrow> 4 | Get_crit \<Rightarrow> 3
     | Get_unlock _ \<Rightarrow> 2 | Get_empty _ \<Rightarrow> 1)"

lemma owed_less: "left p < left (pc t) \<Longrightarrow> owed left (pc(t := p)) < owed left pc"
  using owed_upd [of left pc t p] by linarith

lemma owed_wake: "owed left (wake_in wake w pc) \<le> owed left pc"
proof (cases w)
  case (Some u)
  have "left (wake (pc u)) \<le> left (pc u)" by (auto simp: left_def split: point.splits)
  then show ?thesis using Some owed_upd [of left pc u "wake (pc u)"] by simp
qed simp

lemma owed_wake_less: "left p < left (pc t) \<Longrightarrow> owed left (wake_in wake w (pc(t := p))) < owed left pc"
  by (rule le_less_trans [OF owed_wake owed_less])

definition bb_next :: "('a, 't) bb \<Rightarrow> ('a, 't) bb \<Rightarrow> bool" where
  "bb_next s s' \<longleftrightarrow> (\<exists>t ev. bb_step t s = Some (ev, s'))"

lemma put_item_pc: "put_item a s = Inr s' \<Longrightarrow> bb_pc s' = bb_pc s"
  by (auto simp: put_item_def Let_def split: if_splits)

lemma get_item_pc: "get_item s = Inr (a, s') \<Longrightarrow> bb_pc s' = bb_pc s"
  by (auto simp: get_item_def split: if_splits)

lemma bb_step_left:
  assumes "bb_step t s = Some (ev, s')" "\<forall>e. ev \<noteq> Fault e"
  shows "owed left (bb_pc s') < owed left (bb_pc s)"
  using assms
  by (cases "bb_pc s t")
     (auto simp: bb_step.simps left_def split: prod.splits sum.splits
       intro!: owed_less owed_wake_less)

lemma bb_next_bounded:
  assumes "(bb_next ^^ k) s s'" "bb_inv N s"
  shows "k + owed left (bb_pc s') \<le> owed left (bb_pc s) \<and> bb_inv N s'"
  using assms
proof (induction k arbitrary: s')
  case 0
  then show ?case by simp
next
  case (Suc k)
  from Suc.prems(1) obtain m where n: "(bb_next ^^ k) s m" "bb_next m s'" by (rule relpowp_Suc_E)
  obtain t ev where m: "(bb_next ^^ k) s m" "bb_step t m = Some (ev, s')"
    using n unfolding bb_next_def by blast
  have i: "k + owed left (bb_pc m) \<le> owed left (bb_pc s)" "bb_inv N m" using Suc.IH [OF m(1)] Suc.prems(2) by auto
  have j: "bb_inv N s'" "\<forall>e. ev \<noteq> Fault e" using bb_step_inv [OF i(2) m(2)] by auto
  show ?case using bb_step_left [OF m(2) j(2)] i j by linarith
qed

lemma owed_left_le: "owed left (pc :: 't::finite \<Rightarrow> 'a point) \<le> 7 * CARD('t)"
proof -
  have "owed left pc \<le> (\<Sum>t\<in>(UNIV :: 't set). 7)" unfolding owed_def
    by (rule sum_mono) (auto simp: left_def split: point.splits)
  then show ?thesis by simp
qed

section \<open>Small schedules\<close>

datatype ('a, 't) action = Start_put 't 'a | Start_get 't | Go 't

fun bb_exec :: "('a, 't) action list \<Rightarrow> 'a list \<times> 'a list \<times> ('a, 't) bb \<Rightarrow> ('a list \<times> 'a list \<times> ('a, 't) bb) option" where
  "bb_exec [] x = Some x"
| "bb_exec (Start_put t a # as) (ins, outs, s) =
     (if left (bb_pc s t) = 0 then bb_exec as (ins, outs, s\<lparr>bb_pc := (bb_pc s)(t := Put_empty a)\<rparr>) else None)"
| "bb_exec (Start_get t # as) (ins, outs, s) =
     (if left (bb_pc s t) = 0 then bb_exec as (ins, outs, s\<lparr>bb_pc := (bb_pc s)(t := Get_full)\<rparr>) else None)"
| "bb_exec (Go t # as) (ins, outs, s) =
     (case bb_step t s of None \<Rightarrow> None
      | Some (ev, s') \<Rightarrow> bb_exec as (ins @ ev_in ev, outs @ ev_out ev, s'))"

lemma left_0: "left p = 0 \<Longrightarrow> p = Idle"
  by (cases p) (simp_all add: left_def)

lemma bb_exec_reach:
  "bb_reach N (fst x) (fst (snd x)) (snd (snd x)) \<Longrightarrow> bb_exec as x = Some y \<Longrightarrow>
   bb_reach N (fst y) (fst (snd y)) (snd (snd y))"
proof (induction as x rule: bb_exec.induct)
  case (2 t a as ins outs s)
  then show ?case by (auto dest!: left_0 intro: bb_reach.put split: if_splits)
next
  case (3 t as ins outs s)
  then show ?case by (auto dest!: left_0 intro: bb_reach.get split: if_splits)
next
  case (4 t as ins outs s)
  then obtain ev s' where st: "bb_step t s = Some (ev, s')" by (auto split: option.splits)
  have "bb_reach N (ins @ ev_in ev) (outs @ ev_out ev) s'" using 4(2) st by (auto intro: bb_reach.step)
  then show ?case using 4(1) [OF st refl] 4(3) st by simp
qed auto

section \<open>Properties\<close>

text \<open>
  C11.  The bounded buffer is a bounded FIFO channel.  Under every interleaving of any number of
  threads in \<open>put\<close> and \<open>get\<close>, the items that were got, followed by those in the buffer, are
  exactly the items that were put, in order; there are never more than \<open>N\<close> of them in the buffer,
  and no access is outside the array.
\<close>

theorem bounded_buffer_fifo:
  fixes s :: "('a, 't::finite) bb"
  assumes "bb_reach N ins outs s" and "0 < unat N" and "unat N < 2147483648"
  shows "ins = outs @ bb_content s \<and> length (bb_content s) \<le> unat N \<and>
    (\<forall>t ev s'. bb_step t s = Some (ev, s') \<longrightarrow> (\<forall>e. ev \<noteq> Fault e))"
proof -
  have i: "bb_inv N s" "ins = outs @ bb_content s" using bb_reach_inv [OF assms] by auto
  have "unat (bb_n s) \<le> unat N" using bb_inv_lock(4,5) [OF i(1)] by (simp add: ring_ok_def)
  moreover have "\<forall>t ev s'. bb_step t s = Some (ev, s') \<longrightarrow> (\<forall>e. ev \<noteq> Fault e)"
    using bb_step_inv [OF i(1)] by (intro allI impI) blast
  ultimately show ?thesis using i(2) by (simp only: length_content simp_thms)
qed

text \<open>Two puts into one slot, the second blocked until a \<open>get\<close>.\<close>

definition demo_acts :: "(nat, bool) action list" where
  "demo_acts = [Start_put True 7, Go True, Go True, Go True, Go True, Go True, Start_put True 8, Go True,
     Start_get False, Go False, Go False, Go False, Go False, Go False, Go True, Go True]"

lemma demo_acts_run:
  "map_option (\<lambda>(ins, outs, s). (ins, outs, bb_content s)) (bb_exec demo_acts ([], [], bb_init 1 [0])) =
    Some ([7, 8], [7], [8])"
  by code_simp

lemma demo_acts_reach:
  obtains s :: "(nat, bool) bb" where "bb_reach 1 [7, 8] [7] s" "bb_content s = [8]"
proof -
  have "bb_reach 1 [] [] (bb_init 1 [0] :: (nat, bool) bb)" by (rule bb_reach.init) simp
  then show ?thesis using demo_acts_run bb_exec_reach [of 1 "([], [], bb_init 1 [0])" demo_acts] that
    by (auto split: prod.splits)
qed

lemma bounded_buffer_fifo_witness:
  "\<exists>s :: (nat, bool) bb. bb_reach 1 [7, 8] [7] s \<and> [7, 8] = [7] @ bb_content s"
proof -
  obtain s :: "(nat, bool) bb" where "bb_reach 1 [7, 8] [7] s" by (rule demo_acts_reach)
  then show ?thesis using bounded_buffer_fifo [of 1 "[7, 8]" "[7]" s] by auto
qed

text \<open>
  C28.  No call is stuck without reason.  Whatever the schedule, the calls of \<open>put\<close> and \<open>get\<close> in
  progress take at most seven more actions each, and when no thread can move, every thread is idle,
  waits to put into a buffer with \<open>N\<close> items or waits to get from an empty one.
\<close>

theorem bounded_buffer_live:
  fixes s :: "('a, 't::finite) bb"
  assumes "bb_reach N ins outs s" and "0 < unat N" and "unat N < 2147483648" and "(bb_next ^^ k) s s'"
  shows "k \<le> 7 * CARD('t) \<and> ((\<forall>t. bb_step t s' = None) \<longrightarrow>
    (\<forall>t. bb_pc s' t = Idle \<or> (\<exists>a. bb_pc s' t = Put_empty_wait a) \<and> unat (bb_n s') = unat N \<or>
       bb_pc s' t = Get_full_wait \<and> unat (bb_n s') = 0))"
proof -
  have "bb_inv N s" using bb_reach_inv [OF assms(1-3)] by blast
  then have b: "k + owed left (bb_pc s') \<le> owed left (bb_pc s)" "bb_inv N s'"
    using bb_next_bounded [OF assms(4)] by blast+
  then show ?thesis using owed_left_le [of "bb_pc s"] bb_stuck [OF b(2)] by (meson le_trans add_leE)
qed

lemma bounded_buffer_live_witness:
  "\<exists>s :: (nat, bool) bb. bb_reach 1 [7, 8] [7] s \<and>
     ((\<forall>t. bb_step t s = None) \<longrightarrow> (\<forall>t. bb_pc s t = Idle \<or> (\<exists>a. bb_pc s t = Put_empty_wait a) \<and> unat (bb_n s) = unat 1 \<or>
       bb_pc s t = Get_full_wait \<and> unat (bb_n s) = 0))"
proof -
  obtain s :: "(nat, bool) bb" where "bb_reach 1 [7, 8] [7] s" by (rule demo_acts_reach)
  then show ?thesis using bounded_buffer_live [of 1 "[7, 8]" "[7]" s 0 s] by auto
qed

end
