(* ===== verification/Future.thy ===== *)
theory Future
  imports Semaphore
begin

text \<open>
  The future of \<open>kernel/future.h\<close>: one value, a flag and a semaphore on which the readers wait
  and which each of them passes on.  As in \<open>Bounded_Buffer\<close>, \<open>fut_step\<close> is the next action of one
  thread; every read and every write of a field is an action of its own.  A \<open>set\<close> that finds the
  flag set fails its \<open>ASSERT\<close>.
\<close>

section \<open>Program and state\<close>

datatype 'a fpoint = Outside
  | Set_check 'a | Set_value 'a | Set_ready 'a | Set_up
  | Get_check | Get_down | Get_down_wait | Get_up | Get_read

record ('a, 't) fut =
  f_go :: "'t asem"
  f_ready :: bool
  f_val :: 'a
  f_pc :: "'t \<Rightarrow> 'a fpoint"

definition fut_init :: "'a \<Rightarrow> ('a, 't) fut" where
  "fut_init d = \<lparr>f_go = asem_init 0, f_ready = False, f_val = d, f_pc = (\<lambda>_. Outside)\<rparr>"

datatype 'a fevent = Quiet | Returns 'a | Fails fault

fun f_wake :: "'a fpoint \<Rightarrow> 'a fpoint" where
  "f_wake Get_down_wait = Get_up"
| "f_wake p = p"

fun fut_step :: "'t \<Rightarrow> ('a, 't) fut \<Rightarrow> ('a fevent \<times> ('a, 't) fut) option" where
  "fut_step t s =
     (case f_pc s t of
        Set_check v \<Rightarrow> (if f_ready s then Some (Fails Panic, s)
          else Some (Quiet, s\<lparr>f_pc := (f_pc s)(t := Set_value v)\<rparr>))
      | Set_value v \<Rightarrow> Some (Quiet, s\<lparr>f_val := v, f_pc := (f_pc s)(t := Set_ready v)\<rparr>)
      | Set_ready v \<Rightarrow> Some (Quiet, s\<lparr>f_ready := True, f_pc := (f_pc s)(t := Set_up)\<rparr>)
      | Set_up \<Rightarrow> (case asem_up (f_go s) of (w, g) \<Rightarrow>
          Some (Quiet, s\<lparr>f_go := g, f_pc := wake_in f_wake w ((f_pc s)(t := Outside))\<rparr>))
      | Get_check \<Rightarrow> Some (Quiet, s\<lparr>f_pc := (f_pc s)(t := if f_ready s then Get_read else Get_down)\<rparr>)
      | Get_down \<Rightarrow> (case asem_down t (f_go s) of (ok, g) \<Rightarrow>
          Some (Quiet, s\<lparr>f_go := g, f_pc := (f_pc s)(t := if ok then Get_up else Get_down_wait)\<rparr>))
      | Get_up \<Rightarrow> (case asem_up (f_go s) of (w, g) \<Rightarrow>
          Some (Quiet, s\<lparr>f_go := g, f_pc := wake_in f_wake w ((f_pc s)(t := Get_read))\<rparr>))
      | Get_read \<Rightarrow> Some (Returns (f_val s), s\<lparr>f_pc := (f_pc s)(t := Outside)\<rparr>)
      | _ \<Rightarrow> None)"

declare fut_step.simps [simp del]

text \<open>The states that can be reached with any number of calls of \<open>get\<close> and at most one of
  \<open>set\<close>: \<open>c\<close> is the value it was called with, if it was.\<close>

inductive fut_reach :: "'a option \<Rightarrow> ('a, 't) fut \<Rightarrow> bool" where
  init: "fut_reach None (fut_init d)"
| set: "fut_reach None s \<Longrightarrow> f_pc s t = Outside \<Longrightarrow> fut_reach (Some v) (s\<lparr>f_pc := (f_pc s)(t := Set_check v)\<rparr>)"
| get: "fut_reach c s \<Longrightarrow> f_pc s t = Outside \<Longrightarrow> fut_reach c (s\<lparr>f_pc := (f_pc s)(t := Get_check)\<rparr>)"
| step: "fut_reach c s \<Longrightarrow> fut_step t s = Some (ev, s') \<Longrightarrow> fut_reach c s'"

section \<open>Invariant\<close>

definition at_go :: "'a fpoint \<Rightarrow> bool" where
  "at_go p = (case p of Get_down_wait \<Rightarrow> True | _ \<Rightarrow> False)"

definition has_go :: "'a fpoint \<Rightarrow> nat" where
  "has_go p = (case p of Get_up \<Rightarrow> 1 | Set_up \<Rightarrow> 1 | _ \<Rightarrow> 0)"

text \<open>A \<open>set\<close> that has not set the flag yet.\<close>

definition setting :: "'a fpoint \<Rightarrow> nat" where
  "setting p = (case p of Set_check _ \<Rightarrow> 1 | Set_value _ \<Rightarrow> 1 | Set_ready _ \<Rightarrow> 1 | _ \<Rightarrow> 0)"

lemmas fpoint_defs = at_go_def has_go_def setting_def

interpretation go: sem_client at_go has_go f_wake
  by unfold_locales (auto simp: fpoint_defs split: fpoint.splits)

text \<open>What is known of a thread from where it is.\<close>

definition point_ok :: "'a option \<Rightarrow> bool \<Rightarrow> 'a \<Rightarrow> 'a fpoint \<Rightarrow> bool" where
  "point_ok c r x p = (case p of Set_check v \<Rightarrow> c = Some v | Set_value v \<Rightarrow> c = Some v
     | Set_ready v \<Rightarrow> c = Some v \<and> x = v | Get_read \<Rightarrow> r | _ \<Rightarrow> True)"

definition fut_inv :: "'a option \<Rightarrow> ('a, 't::finite) fut \<Rightarrow> bool" where
  "fut_inv c s \<longleftrightarrow>
     sem_inv at_go has_go (f_go s) (f_pc s) (if f_ready s then 1 else 0) \<and>
     owed setting (f_pc s) + (if f_ready s then 1 else 0) = (if c = None then 0 else 1) \<and>
     (f_ready s \<longrightarrow> c = Some (f_val s)) \<and>
     (\<forall>t. point_ok c (f_ready s) (f_val s) (f_pc s t))"

lemma fut_inv_parts:
  assumes "fut_inv c s"
  shows "sem_inv at_go has_go (f_go s) (f_pc s) (if f_ready s then 1 else 0)"
    "owed setting (f_pc s) + (if f_ready s then 1 else 0) = (if c = None then 0 else 1)"
    "f_ready s \<Longrightarrow> c = Some (f_val s)" "point_ok c (f_ready s) (f_val s) (f_pc s t)"
  using assms by (auto simp: fut_inv_def)

lemma setting_same: "setting p = setting (pc t) \<Longrightarrow> owed setting (pc(t := p)) = owed setting pc"
  using owed_upd [of setting pc t p] by simp

lemma setting_wake: "owed setting (wake_in f_wake w pc) = owed setting pc"
  by (cases w) (auto intro!: setting_same simp: setting_def split: fpoint.splits)

lemma point_ok_wake: "point_ok c r x p \<Longrightarrow> point_ok c r x (f_wake p)"
  by (cases p) (simp_all add: point_ok_def)

lemma points_ok_wake:
  "\<forall>t. point_ok c r x (pc t) \<Longrightarrow> point_ok c r x (wake_in f_wake w pc t)"
  by (cases w) (auto simp: point_ok_wake)

text \<open>At most one thread is setting.\<close>

lemma setting_once:
  assumes "fut_inv c s" "setting (f_pc s t) = 1"
  shows "\<not> f_ready s" "u \<noteq> t \<Longrightarrow> setting (f_pc s u) = 0"
proof -
  have o: "owed setting (f_pc s) + (if f_ready s then 1 else 0) \<le> 1"
    using fut_inv_parts(2) [OF assms(1)] by simp
  have "1 \<le> owed setting (f_pc s)" using owed_ge [of setting "f_pc s" t] assms(2) by simp
  then show "\<not> f_ready s" using o by (auto split: if_splits)
  have "owed setting ((f_pc s)(t := Outside)) + 1 = owed setting (f_pc s)"
    using owed_upd [of setting "f_pc s" t Outside] assms(2) by (simp add: setting_def)
  then have "owed setting ((f_pc s)(t := Outside)) = 0" using o by simp
  then show "u \<noteq> t \<Longrightarrow> setting (f_pc s u) = 0" unfolding owed_0 by (drule_tac spec [of _ u]) simp
qed

text \<open>A move of one thread that changes no field.\<close>

lemma fut_move:
  assumes "fut_inv c s" "at_go p = at_go (f_pc s t)" "has_go p = has_go (f_pc s t)"
    "setting p = setting (f_pc s t)" "point_ok c (f_ready s) (f_val s) p"
  shows "fut_inv c (s\<lparr>f_pc := (f_pc s)(t := p)\<rparr>)"
  using assms sem_inv_same [of at_go has_go "f_go s" "f_pc s" _ p t]
  by (auto simp: fut_inv_def setting_same)

lemma fut_up:
  assumes inv: "fut_inv c s" and u: "asem_up (f_go s) = (w, g)"
    and t: "has_go (f_pc s t) = 1" and p: "\<not> at_go p" "has_go p = 0" "setting p = setting (f_pc s t)"
    "point_ok c (f_ready s) (f_val s) p"
  shows "fut_inv c (s\<lparr>f_go := g, f_pc := wake_in f_wake w ((f_pc s)(t := p))\<rparr>)"
proof -
  have na: "\<not> at_go (f_pc s t)" using t by (auto simp: fpoint_defs split: fpoint.splits)
  note i = fut_inv_parts [OF inv]
  have "point_ok c (f_ready s) (f_val s) (wake_in f_wake w ((f_pc s)(t := p)) u)" for u
    by (rule points_ok_wake) (use i(4) p(4) in simp)
  then show ?thesis using go.inv_up [OF i(1) u na t p(1,2)] i(2,3) p(3)
    by (simp add: fut_inv_def setting_wake setting_same)
qed

lemma fut_down:
  assumes inv: "fut_inv c s" and d: "asem_down t (f_go s) = (ok, g)" and t: "f_pc s t = Get_down"
  shows "fut_inv c (s\<lparr>f_go := g, f_pc := (f_pc s)(t := if ok then Get_up else Get_down_wait)\<rparr>)"
proof -
  note i = fut_inv_parts [OF inv]
  have "sem_inv at_go has_go g ((f_pc s)(t := if ok then Get_up else Get_down_wait)) (if f_ready s then 1 else 0)"
    by (rule go.inv_down [OF i(1) d]) (simp_all add: t fpoint_defs)
  then show ?thesis using i(2,3,4)
    by (auto simp: fut_inv_def setting_same t setting_def) (auto simp: point_ok_def)
qed

lemma fut_set_value:
  assumes inv: "fut_inv c s" and t: "f_pc s t = Set_value v"
  shows "fut_inv c (s\<lparr>f_val := v, f_pc := (f_pc s)(t := Set_ready v)\<rparr>)"
proof -
  note i = fut_inv_parts [OF inv]
  have "setting (f_pc s t) = 1" by (simp add: t setting_def)
  note o = setting_once [OF inv this]
  have c: "c = Some v" using i(4) [of t] by (simp add: t point_ok_def)
  have "point_ok c False v (((f_pc s)(t := Set_ready v)) u)" for u
    using i(4) [of u] o(1) o(2) [of u] c by (auto simp: point_ok_def setting_def split: fpoint.splits)
  moreover have "sem_inv at_go has_go (f_go s) ((f_pc s)(t := Set_ready v)) (if f_ready s then 1 else 0)"
    by (rule sem_inv_same [OF i(1)]) (simp_all add: t fpoint_defs)
  ultimately show ?thesis using i(2,3) o(1)
    by (simp add: fut_inv_def setting_same t setting_def)
qed

lemma fut_set_ready:
  assumes inv: "fut_inv c s" and t: "f_pc s t = Set_ready v"
  shows "fut_inv c (s\<lparr>f_ready := True, f_pc := (f_pc s)(t := Set_up)\<rparr>)"
proof -
  note i = fut_inv_parts [OF inv]
  have "setting (f_pc s t) = 1" by (simp add: t setting_def)
  note o = setting_once [OF inv this]
  have c: "c = Some v \<and> f_val s = v" using i(4) [of t] by (simp add: t point_ok_def)
  have "point_ok c True (f_val s) (((f_pc s)(t := Set_up)) u)" for u
    using i(4) [of u] o(2) [of u] c by (auto simp: point_ok_def setting_def split: fpoint.splits)
  moreover have "sem_inv at_go has_go (f_go s) ((f_pc s)(t := Set_up)) 1"
    using sem_inv_more [of at_go has_go "f_go s" "f_pc s" 0 Set_up t] i(1) o(1) by (simp add: t fpoint_defs)
  moreover have "owed setting ((f_pc s)(t := Set_up)) + 1 = owed setting (f_pc s)"
    using owed_upd [of setting "f_pc s" t Set_up] by (simp add: t setting_def)
  ultimately show ?thesis using i(2) o(1) c by (simp add: fut_inv_def)
qed

definition fevent_ok :: "'a option \<Rightarrow> 'a fevent \<Rightarrow> bool" where
  "fevent_ok c ev = (case ev of Quiet \<Rightarrow> True | Returns a \<Rightarrow> c = Some a | Fails e \<Rightarrow> False)"

lemma fut_step_inv:
  assumes inv: "fut_inv c s" and st: "fut_step t s = Some (ev, s')"
  shows "fut_inv c s' \<and> fevent_ok c ev"
proof (cases "f_pc s t")
  case (Set_check v)
  have "\<not> f_ready s" by (rule setting_once(1) [OF inv, of t]) (simp add: Set_check setting_def)
  moreover have "c = Some v" using fut_inv_parts(4) [OF inv, of t] by (simp add: Set_check point_ok_def)
  moreover have "fut_inv c (s\<lparr>f_pc := (f_pc s)(t := Set_value v)\<rparr>)" if "c = Some v"
    by (rule fut_move [OF inv]) (simp_all add: Set_check that fpoint_defs point_ok_def)
  ultimately show ?thesis using Set_check st by (auto simp: fut_step.simps fevent_ok_def)
next
  case (Set_value v)
  then show ?thesis using st fut_set_value [OF inv Set_value] by (auto simp: fut_step.simps fevent_ok_def)
next
  case (Set_ready v)
  then show ?thesis using st fut_set_ready [OF inv Set_ready] by (auto simp: fut_step.simps fevent_ok_def)
next
  case Set_up
  then show ?thesis using st
    by (auto simp: fut_step.simps fevent_ok_def fpoint_defs point_ok_def split: prod.splits intro!: fut_up [OF inv])
next
  case Get_check
  have "fut_inv c (s\<lparr>f_pc := (f_pc s)(t := if f_ready s then Get_read else Get_down)\<rparr>)"
    by (rule fut_move [OF inv]) (simp_all add: Get_check fpoint_defs point_ok_def)
  then show ?thesis using Get_check st by (auto simp: fut_step.simps fevent_ok_def)
next
  case Get_down
  then show ?thesis using st fut_down [OF inv _ Get_down]
    by (auto simp: fut_step.simps fevent_ok_def split: prod.splits)
next
  case Get_up
  have "has_go (f_pc s t) \<le> (if f_ready s then 1 else 0)" by (rule sem_inv_ge [OF fut_inv_parts(1) [OF inv]])
  then have "f_ready s" by (simp add: Get_up has_go_def split: if_splits)
  then show ?thesis using Get_up st
    by (auto simp: fut_step.simps fevent_ok_def fpoint_defs point_ok_def split: prod.splits intro!: fut_up [OF inv])
next
  case Get_read
  have "f_ready s" using fut_inv_parts(4) [OF inv, of t] by (simp add: Get_read point_ok_def)
  then have "c = Some (f_val s)" by (rule fut_inv_parts(3) [OF inv])
  moreover have "fut_inv c (s\<lparr>f_pc := (f_pc s)(t := Outside)\<rparr>)"
    by (rule fut_move [OF inv]) (simp_all add: Get_read fpoint_defs point_ok_def)
  ultimately show ?thesis using Get_read st by (auto simp: fut_step.simps fevent_ok_def)
qed (use st in \<open>simp_all add: fut_step.simps\<close>)

lemma fut_reach_inv: "fut_reach c s \<Longrightarrow> fut_inv c s"
proof (induction rule: fut_reach.induct)
  case (init d)
  show ?case by (simp add: fut_inv_def fut_init_def sem_inv_init fpoint_defs owed_def point_ok_def)
next
  case (set s t v)
  note i = fut_inv_parts [OF set.IH]
  have "owed setting ((f_pc s)(t := Set_check v)) = 1" "\<not> f_ready s"
    using owed_upd [of setting "f_pc s" t "Set_check v"] i(2) set.hyps by (auto simp: setting_def split: if_splits)
  moreover have "point_ok (Some v) False (f_val s) (((f_pc s)(t := Set_check v)) u)" for u
    using i(4) [of u] \<open>\<not> f_ready s\<close> by (auto simp: point_ok_def split: fpoint.splits)
  moreover have "sem_inv at_go has_go (f_go s) ((f_pc s)(t := Set_check v)) (if f_ready s then 1 else 0)"
    by (rule sem_inv_same [OF i(1)]) (simp_all add: set.hyps fpoint_defs)
  ultimately show ?case by (simp add: fut_inv_def)
next
  case (get c s t)
  then show ?case by (intro fut_move) (simp_all add: fpoint_defs point_ok_def)
next
  case (step c s t ev s')
  then show ?case using fut_step_inv by blast
qed

section \<open>No reader is left behind\<close>

definition f_left :: "'a fpoint \<Rightarrow> nat" where
  "f_left p = (case p of Outside \<Rightarrow> 0 | Set_check _ \<Rightarrow> 4 | Set_value _ \<Rightarrow> 3 | Set_ready _ \<Rightarrow> 2 | Set_up \<Rightarrow> 1
     | Get_check \<Rightarrow> 5 | Get_down \<Rightarrow> 4 | Get_down_wait \<Rightarrow> 3 | Get_up \<Rightarrow> 2 | Get_read \<Rightarrow> 1)"

lemma f_owed_less: "f_left p < f_left (pc t) \<Longrightarrow> owed f_left (pc(t := p)) < owed f_left pc"
  using owed_upd [of f_left pc t p] by linarith

lemma f_owed_wake: "owed f_left (wake_in f_wake w pc) \<le> owed f_left pc"
proof (cases w)
  case (Some u)
  have "f_left (f_wake (pc u)) \<le> f_left (pc u)" by (auto simp: f_left_def split: fpoint.splits)
  then show ?thesis using Some owed_upd [of f_left pc u "f_wake (pc u)"] by simp
qed simp

lemma f_owed_wake_less:
  "f_left p < f_left (pc t) \<Longrightarrow> owed f_left (wake_in f_wake w (pc(t := p))) < owed f_left pc"
  by (rule le_less_trans [OF f_owed_wake f_owed_less])

lemma fut_step_left:
  assumes "fut_step t s = Some (ev, s')" "\<forall>e. ev \<noteq> Fails e"
  shows "owed f_left (f_pc s') < owed f_left (f_pc s)"
  using assms
  by (cases "f_pc s t")
     (auto simp: fut_step.simps f_left_def split: prod.splits if_splits intro!: f_owed_less f_owed_wake_less)

definition fut_next :: "('a, 't) fut \<Rightarrow> ('a, 't) fut \<Rightarrow> bool" where
  "fut_next s s' \<longleftrightarrow> (\<exists>t ev. fut_step t s = Some (ev, s'))"

lemma fut_next_bounded:
  assumes "(fut_next ^^ k) s s'" "fut_inv c s"
  shows "k + owed f_left (f_pc s') \<le> owed f_left (f_pc s) \<and> fut_inv c s'"
  using assms
proof (induction k arbitrary: s')
  case 0
  then show ?case by simp
next
  case (Suc k)
  from Suc.prems(1) obtain m where n: "(fut_next ^^ k) s m" "fut_next m s'" by (rule relpowp_Suc_E)
  obtain t ev where m: "fut_step t m = Some (ev, s')" using n(2) unfolding fut_next_def by blast
  have i: "k + owed f_left (f_pc m) \<le> owed f_left (f_pc s)" "fut_inv c m" using Suc.IH [OF n(1)] Suc.prems(2) by auto
  have j: "fut_inv c s'" "fevent_ok c ev" using fut_step_inv [OF i(2) m] by auto
  then have "\<forall>e. ev \<noteq> Fails e" by (auto simp: fevent_ok_def)
  then show ?case using fut_step_left [OF m] i j by fastforce
qed

lemma f_owed_le: "owed f_left (pc :: 't::finite \<Rightarrow> 'a fpoint) \<le> 5 * CARD('t)"
proof -
  have "owed f_left pc \<le> (\<Sum>t\<in>(UNIV :: 't set). 5)" unfolding owed_def
    by (rule sum_mono) (auto simp: f_left_def split: fpoint.splits)
  then show ?thesis by simp
qed

lemma fut_stuck_points: "fut_step t s = None \<Longrightarrow> f_pc s t = Outside \<or> f_pc s t = Get_down_wait"
  by (auto simp: fut_step.simps split: fpoint.splits prod.splits if_splits)

lemma fut_stuck:
  assumes inv: "fut_inv c s" and stuck: "\<forall>t. fut_step t s = None"
  shows "f_pc s t = Outside \<or> f_pc s t = Get_down_wait \<and> c = None"
proof -
  note i = fut_inv_parts [OF inv]
  have p: "f_pc s u = Outside \<or> f_pc s u = Get_down_wait" for u
    by (rule fut_stuck_points [OF stuck [rule_format]])
  have "has_go (f_pc s u) = 0 \<and> setting (f_pc s u) = 0" for u using p [of u] by (auto simp: fpoint_defs)
  then have "owed has_go (f_pc s) = 0" "owed setting (f_pc s) = 0" unfolding owed_0 by blast+
  then show ?thesis using p [of t] i(2) sem_inv_blocked [OF i(1), of t]
    by (auto simp: at_go_def split: if_splits)
qed

section \<open>Property\<close>

text \<open>A schedule: one thread sets, one has started to wait before.\<close>

fun fut_exec :: "'t list \<Rightarrow> ('a, 't) fut \<Rightarrow> ('a, 't) fut option" where
  "fut_exec [] s = Some s"
| "fut_exec (t # ts) s = (case fut_step t s of None \<Rightarrow> None | Some (ev, s') \<Rightarrow> fut_exec ts s')"

lemma fut_exec_reach: "fut_exec ts s = Some s' \<Longrightarrow> fut_reach c s \<Longrightarrow> fut_reach c s'"
  by (induction ts arbitrary: s) (auto split: option.splits intro: fut_reach.step)

definition fut_demo :: "(nat, bool) fut" where
  "fut_demo = (fut_init 0)\<lparr>f_pc := (\<lambda>_. Outside)(False := Get_check)\<rparr>"

definition fut_demo2 :: "(nat, bool) fut \<Rightarrow> (nat, bool) fut" where
  "fut_demo2 s = s\<lparr>f_pc := (f_pc s)(True := Set_check 5)\<rparr>"

lemma fut_demo_run:
  "(case fut_exec [False, False] fut_demo of None \<Rightarrow> None
    | Some s \<Rightarrow> if f_left (f_pc s True) = 0 then
        map_option (\<lambda>s. (f_ready s, f_val s, f_left (f_pc s False))) (fut_exec [True, True, True, True] (fut_demo2 s))
      else None) = Some (True, 5, 2)"
  by code_simp

lemma fut_demo_reach:
  obtains s :: "(nat, bool) fut" where "fut_reach (Some 5) s" "f_left (f_pc s False) = 2"
proof -
  have r: "fut_reach None fut_demo" unfolding fut_demo_def
    using fut_reach.get [OF fut_reach.init [of 0], of False] by (simp add: fut_init_def)
  obtain s1 s2 where s1: "fut_exec [False, False] fut_demo = Some s1" "f_left (f_pc s1 True) = 0"
    and s2: "fut_exec [True, True, True, True] (fut_demo2 s1) = Some s2" "f_left (f_pc s2 False) = 2"
    using fut_demo_run by (auto split: option.splits if_splits simp del: fut_exec.simps)
  have "f_pc s1 True = Outside" using s1(2) by (cases "f_pc s1 True") (simp_all add: f_left_def)
  then have "fut_reach (Some 5) (fut_demo2 s1)"
    unfolding fut_demo2_def by (rule fut_reach.set [OF fut_exec_reach [OF s1(1) r]])
  from fut_exec_reach [OF s2(1) this] show ?thesis using s2(2) by (rule that)
qed

text \<open>
  C25.  Every reader of a future gets its value.  With at most one call of \<open>set\<close> and any number of
  calls of \<open>get\<close>, in every interleaving, a \<open>get\<close> that returns returns the value that was set,
  the assertion in \<open>set\<close> never fails, the calls in progress take at most five more actions each,
  and when no thread can move, nobody waits unless \<open>set\<close> was never called.
\<close>

theorem future_delivers:
  fixes s :: "('a, 't::finite) fut"
  assumes "fut_reach c s" and "(fut_next ^^ k) s s'"
  shows "k \<le> 5 * CARD('t) \<and>
    (\<forall>t ev s2. fut_step t s' = Some (ev, s2) \<longrightarrow> (\<forall>e. ev \<noteq> Fails e) \<and> (\<forall>a. ev = Returns a \<longrightarrow> c = Some a)) \<and>
    ((\<forall>t. fut_step t s' = None) \<longrightarrow> (\<forall>t. f_pc s' t = Outside \<or> f_pc s' t = Get_down_wait \<and> c = None))"
proof -
  have b: "k + owed f_left (f_pc s') \<le> owed f_left (f_pc s)" "fut_inv c s'"
    using fut_next_bounded [OF assms(2) fut_reach_inv [OF assms(1)]] by blast+
  have "k \<le> 5 * CARD('t)" using b(1) f_owed_le [of "f_pc s"] by linarith
  moreover have "(\<forall>e. ev \<noteq> Fails e) \<and> (\<forall>a. ev = Returns a \<longrightarrow> c = Some a)"
    if "fut_step t s' = Some (ev, s2)" for t ev s2
    using fut_step_inv [OF b(2) that] by (auto simp: fevent_ok_def)
  ultimately show ?thesis using fut_stuck [OF b(2)] by blast
qed

lemma future_delivers_witness:
  "\<exists>s :: (nat, bool) fut. fut_reach (Some 5) s \<and>
     (\<forall>t ev s2. fut_step t s = Some (ev, s2) \<longrightarrow> (\<forall>a. ev = Returns a \<longrightarrow> a = 5))"
proof -
  obtain s :: "(nat, bool) fut" where s: "fut_reach (Some 5) s" by (rule fut_demo_reach)
  show ?thesis using future_delivers [OF s, of 0 s] s by fastforce
qed

end
