(* ===== verification/Barrier.thy ===== *)
theory Barrier
  imports Semaphore
begin

text \<open>
  The one-shot barrier of \<open>kernel/barrier.h\<close>: a counter that every arriving thread decrements
  atomically and a semaphore that the last one raises and every other one takes and passes on.
  The counter is the code's \<open>int32_t\<close>, a 32 bit word read as a signed number; \<open>k\<close> in
  \<open>bar_reach\<close> counts the calls of \<open>sync\<close> that have decremented it.
\<close>

section \<open>Program and state\<close>

datatype bpoint = Away | B_count | B_down | B_down_wait | B_up | Passed

record 't barrier =
  b_count :: u32
  b_sem :: "'t asem"
  b_pc :: "'t \<Rightarrow> bpoint"

definition bar_init :: "u32 \<Rightarrow> 't barrier" where
  "bar_init n = \<lparr>b_count = n, b_sem = asem_init 0, b_pc = (\<lambda>_. Away)\<rparr>"

datatype bevent = Inside | Arrived | Broken fault

fun b_wake :: "bpoint \<Rightarrow> bpoint" where
  "b_wake B_down_wait = B_up"
| "b_wake p = p"

fun bar_step :: "'t \<Rightarrow> 't barrier \<Rightarrow> (bevent \<times> 't barrier) option" where
  "bar_step t s =
     (case b_pc s t of
        B_count \<Rightarrow> (let x = b_count s - 1 in
          if sint x < 0 then Some (Broken Panic, s\<lparr>b_count := x\<rparr>)
          else Some (Arrived, s\<lparr>b_count := x, b_pc := (b_pc s)(t := if x = 0 then B_up else B_down)\<rparr>))
      | B_down \<Rightarrow> (case asem_down t (b_sem s) of (ok, g) \<Rightarrow>
          Some (Inside, s\<lparr>b_sem := g, b_pc := (b_pc s)(t := if ok then B_up else B_down_wait)\<rparr>))
      | B_up \<Rightarrow> (case asem_up (b_sem s) of (w, g) \<Rightarrow>
          Some (Inside, s\<lparr>b_sem := g, b_pc := wake_in b_wake w ((b_pc s)(t := Passed))\<rparr>))
      | _ \<Rightarrow> None)"

declare bar_step.simps [simp del]

text \<open>A barrier for \<open>n\<close> threads; a panic stops everything.\<close>

inductive bar_reach :: "nat \<Rightarrow> nat \<Rightarrow> 't barrier \<Rightarrow> bool" where
  init: "bar_reach n 0 (bar_init (of_nat n))"
| sync: "bar_reach n k s \<Longrightarrow> b_pc s t = Away \<or> b_pc s t = Passed \<Longrightarrow>
    bar_reach n k (s\<lparr>b_pc := (b_pc s)(t := B_count)\<rparr>)"
| arrive: "bar_reach n k s \<Longrightarrow> bar_step t s = Some (Arrived, s') \<Longrightarrow> bar_reach n (Suc k) s'"
| inside: "bar_reach n k s \<Longrightarrow> bar_step t s = Some (Inside, s') \<Longrightarrow> bar_reach n k s'"

section \<open>Invariant\<close>

definition at_bar :: "bpoint \<Rightarrow> bool" where
  "at_bar p = (p = B_down_wait)"

definition has_bar :: "bpoint \<Rightarrow> nat" where
  "has_bar p = (if p = B_up then 1 else 0)"

interpretation bar: sem_client at_bar has_bar b_wake
  by unfold_locales (simp_all add: at_bar_def has_bar_def)

definition bar_inv :: "nat \<Rightarrow> nat \<Rightarrow> 't::finite barrier \<Rightarrow> bool" where
  "bar_inv n k s \<longleftrightarrow> k \<le> n \<and> b_count s = of_nat (n - k) \<and>
     sem_inv at_bar has_bar (b_sem s) (b_pc s) (if k = n \<and> 0 < n then 1 else 0) \<and>
     (k < n \<longrightarrow> (\<forall>t. b_pc s t \<noteq> Passed))"

lemma sint_of_nat_u32: "m < 2147483648 \<Longrightarrow> sint (of_nat m :: u32) = int m"
  using sint_of_int_u32 [of "int m"] by simp

text \<open>The decrement: it panics exactly when all have arrived already.\<close>

lemma count_pred:
  assumes "n < 2147483648" "k \<le> n"
  shows "sint (of_nat (n - k) - 1 :: u32) = int (n - k) - 1"
proof (cases "n - k")
  case (Suc m)
  then have "m < 2147483648" using assms(1) by linarith
  from sint_of_nat_u32 [OF this] show ?thesis by (simp add: Suc)
qed simp

lemma count_pred_word: "k < n \<Longrightarrow> of_nat (n - k) - 1 = (of_nat (n - Suc k) :: u32)"
  by (simp add: Suc_diff_Suc [symmetric])

lemma bar_arrive_inv:
  assumes n: "n < 2147483648" and inv: "bar_inv n k s" and pc: "b_pc s t = B_count"
    and st: "bar_step t s = Some (Arrived, s')"
  shows "bar_inv n (Suc k) s' \<and> k < n"
proof -
  have i: "k \<le> n" "b_count s = of_nat (n - k)"
    "sem_inv at_bar has_bar (b_sem s) (b_pc s) (if k = n \<and> 0 < n then 1 else 0)"
    "k < n \<Longrightarrow> \<forall>t. b_pc s t \<noteq> Passed"
    using inv by (simp_all add: bar_inv_def)
  let ?x = "b_count s - 1"
  have x: "sint ?x = int (n - k) - 1" unfolding i(2) by (rule count_pred [OF n i(1)])
  have ge: "\<not> sint ?x < 0" and s': "s' = s\<lparr>b_count := ?x, b_pc := (b_pc s)(t := if ?x = 0 then B_up else B_down)\<rparr>"
    using st pc by (auto simp: bar_step.simps Let_def split: if_splits)
  have kn: "k < n" using ge x i(1) by simp
  have xw: "?x = of_nat (n - Suc k)" unfolding i(2) by (rule count_pred_word [OF kn])
  have z: "?x = 0 \<longleftrightarrow> Suc k = n"
    unfolding xw using kn n unat_of_nat_u32 [of "n - Suc k"] by (auto simp: word_unat_eq_iff)
  have i3: "sem_inv at_bar has_bar (b_sem s) (b_pc s) 0" using i(3) kn by simp
  define p where "p = (if ?x = 0 then B_up else B_down)"
  have s1: "s' = s\<lparr>b_count := of_nat (n - Suc k), b_pc := (b_pc s)(t := p)\<rparr>"
    unfolding s' p_def xw ..
  have "sem_inv at_bar has_bar (b_sem s) ((b_pc s)(t := p))
      (if Suc k = n \<and> 0 < n then 1 else 0)"
  proof (cases "Suc k = n")
    case True
    have "sem_inv at_bar has_bar (b_sem s) ((b_pc s)(t := B_up)) (Suc 0)"
      by (rule sem_inv_more [OF i3]) (simp_all add: pc at_bar_def has_bar_def)
    then show ?thesis using True z by (simp add: p_def)
  next
    case False
    have "sem_inv at_bar has_bar (b_sem s) ((b_pc s)(t := B_down)) 0"
      by (rule sem_inv_same [OF i3]) (simp_all add: pc at_bar_def has_bar_def)
    then show ?thesis using False z by (simp add: p_def)
  qed
  moreover have "p \<noteq> Passed" by (simp add: p_def)
  ultimately show ?thesis using kn i(4) unfolding s1 bar_inv_def by (simp del: of_nat_diff)
qed

lemma bar_down_inv:
  assumes inv: "bar_inv n k s" and pc: "b_pc s t = B_down" and d: "asem_down t (b_sem s) = (ok, g)"
  shows "bar_inv n k (s\<lparr>b_sem := g, b_pc := (b_pc s)(t := if ok then B_up else B_down_wait)\<rparr>)"
proof -
  have i3: "sem_inv at_bar has_bar (b_sem s) (b_pc s) (if k = n \<and> 0 < n then 1 else 0)"
    using inv by (simp add: bar_inv_def)
  have "sem_inv at_bar has_bar g ((b_pc s)(t := if ok then B_up else B_down_wait)) (if k = n \<and> 0 < n then 1 else 0)"
    by (rule bar.inv_down [OF i3 d]) (simp_all add: pc at_bar_def has_bar_def)
  then show ?thesis using inv by (simp add: bar_inv_def)
qed

lemma bar_up_inv:
  assumes inv: "bar_inv n k s" and pc: "b_pc s t = B_up" and u: "asem_up (b_sem s) = (w, g)"
  shows "bar_inv n k (s\<lparr>b_sem := g, b_pc := wake_in b_wake w ((b_pc s)(t := Passed))\<rparr>)"
proof -
  have i3: "sem_inv at_bar has_bar (b_sem s) (b_pc s) (if k = n \<and> 0 < n then 1 else 0)"
    using inv by (simp add: bar_inv_def)
  have "1 \<le> (if k = n \<and> 0 < n then 1 else 0 :: nat)"
    using sem_inv_ge [OF i3, of t] by (simp add: pc has_bar_def)
  then have "k = n" by (simp split: if_splits)
  moreover have "sem_inv at_bar has_bar g (wake_in b_wake w ((b_pc s)(t := Passed))) (if k = n \<and> 0 < n then 1 else 0)"
    by (rule bar.inv_up [OF i3 u]) (simp_all add: pc at_bar_def has_bar_def)
  ultimately show ?thesis using inv by (simp add: bar_inv_def)
qed

lemma bar_inside_inv:
  assumes inv: "bar_inv n k s" and st: "bar_step t s = Some (Inside, s')"
  shows "bar_inv n k s'"
proof (cases "b_pc s t")
  case B_down
  then show ?thesis using st bar_down_inv [OF inv B_down] by (auto simp: bar_step.simps split: prod.splits)
next
  case B_up
  then show ?thesis using st bar_up_inv [OF inv B_up] by (auto simp: bar_step.simps split: prod.splits)
qed (use st in \<open>auto simp: bar_step.simps Let_def split: if_splits\<close>)

lemma bar_arrived_pc: "bar_step t s = Some (Arrived, s') \<Longrightarrow> b_pc s t = B_count"
  by (cases "b_pc s t") (auto simp: bar_step.simps split: prod.splits)

lemma bar_reach_inv:
  fixes s :: "'t::finite barrier"
  shows "bar_reach n k s \<Longrightarrow> n < 2147483648 \<Longrightarrow> bar_inv n k s"
proof (induction rule: bar_reach.induct)
  case (init n)
  have "sem_inv at_bar has_bar (asem_init 0) (\<lambda>_ :: 't. Away) 0"
    by (rule sem_inv_init) (simp_all add: at_bar_def has_bar_def)
  then show ?case by (cases "n = 0") (simp_all add: bar_inv_def bar_init_def)
next
  case (sync n k s t)
  then have "bar_inv n k s" by blast
  moreover have "sem_inv at_bar has_bar x ((b_pc s)(t := B_count)) m"
    if "sem_inv at_bar has_bar x (b_pc s) m" for x m
    by (rule sem_inv_same [OF that]) (use sync.hyps in \<open>auto simp: at_bar_def has_bar_def\<close>)
  ultimately show ?case by (simp add: bar_inv_def)
next
  case (arrive n k s t s')
  have "bar_inv n k s" by (rule arrive.IH [OF arrive.prems])
  from bar_arrive_inv [OF arrive.prems this bar_arrived_pc [OF arrive.hyps(2)] arrive.hyps(2)]
  show ?case ..
next
  case (inside n k s t s')
  show ?case by (rule bar_inside_inv [OF inside.IH [OF inside.prems] inside.hyps(2)])
qed

section \<open>No thread is left behind\<close>

definition b_left :: "bpoint \<Rightarrow> nat" where
  "b_left p = (case p of Away \<Rightarrow> 0 | Passed \<Rightarrow> 0 | B_count \<Rightarrow> 4 | B_down \<Rightarrow> 3 | B_down_wait \<Rightarrow> 2 | B_up \<Rightarrow> 1)"

lemma bar_stuck_points: "bar_step t s = None \<Longrightarrow> b_pc s t = Away \<or> b_pc s t = Passed \<or> b_pc s t = B_down_wait"
  by (auto simp: bar_step.simps Let_def split: bpoint.splits prod.splits if_splits)

lemma bar_stuck:
  assumes inv: "bar_inv n n s" and n: "0 < n" and stuck: "\<forall>t. bar_step t s = None"
  shows "b_pc s t = Away \<or> b_pc s t = Passed"
proof -
  have i: "sem_inv at_bar has_bar (b_sem s) (b_pc s) 1" using inv n by (simp add: bar_inv_def)
  have p: "b_pc s u = Away \<or> b_pc s u = Passed \<or> b_pc s u = B_down_wait" for u
    by (rule bar_stuck_points [OF stuck [rule_format]])
  have "has_bar (b_pc s u) = 0" for u using p [of u] by (auto simp: has_bar_def)
  then have "owed has_bar (b_pc s) = 0" unfolding owed_0 by blast
  then show ?thesis using p [of t] sem_inv_blocked [OF i, of t] by (auto simp: at_bar_def)
qed

section \<open>Property\<close>

text \<open>
  C26.  The barrier holds everyone back until the last one is there, and then lets everyone through.
  In every interleaving, no thread has passed before \<open>n\<close> threads have arrived; once they have and
  no thread can move, all of them have passed; and a call panics exactly when \<open>n\<close> threads have
  arrived before it.
\<close>

theorem barrier_releases_together:
  fixes s :: "'t::finite barrier"
  assumes "bar_reach n k s" and "0 < n" and "n < 2147483648"
  shows "((\<exists>t. b_pc s t = Passed) \<longrightarrow> k = n) \<and>
    (k = n \<and> (\<forall>t. bar_step t s = None) \<longrightarrow> (\<forall>t. b_pc s t = Away \<or> b_pc s t = Passed)) \<and>
    (\<forall>t. b_pc s t = B_count \<longrightarrow> ((\<exists>s'. bar_step t s = Some (Broken Panic, s')) \<longleftrightarrow> k = n))"
proof -
  have inv: "bar_inv n k s" by (rule bar_reach_inv [OF assms(1,3)])
  then have "(\<exists>t. b_pc s t = Passed) \<longrightarrow> k = n" by (auto simp: bar_inv_def)
  moreover have "k = n \<and> (\<forall>t. bar_step t s = None) \<longrightarrow> (\<forall>t. b_pc s t = Away \<or> b_pc s t = Passed)"
    using bar_stuck inv assms(2) by blast
  moreover have i: "k \<le> n" "b_count s = of_nat (n - k)" using inv by (simp_all add: bar_inv_def)
  moreover have "(\<exists>s'. bar_step t s = Some (Broken Panic, s')) \<longleftrightarrow> k = n" if "b_pc s t = B_count" for t
    using that count_pred [OF assms(3) i(1)] i by (auto simp: bar_step.simps Let_def)
  ultimately show ?thesis by blast
qed

definition bar_demo :: "bool barrier" where
  "bar_demo = (bar_init 2)\<lparr>b_pc := (\<lambda>_. Away)(True := B_count)\<rparr>"

lemma bar_demo_reach: "bar_reach 2 1 (bar_demo\<lparr>b_count := 1, b_pc := (\<lambda>_. Away)(True := B_down)\<rparr>)"
proof -
  have r: "bar_reach 2 0 bar_demo" unfolding bar_demo_def
    using bar_reach.sync [OF bar_reach.init [of 2], of True] by (simp add: bar_init_def)
  have "bar_step True bar_demo = Some (Arrived, bar_demo\<lparr>b_count := 1, b_pc := (\<lambda>_. Away)(True := B_down)\<rparr>)"
    by (simp add: bar_step.simps bar_demo_def bar_init_def)
  from bar_reach.arrive [OF r this] show ?thesis by simp
qed

lemma barrier_releases_together_witness:
  "\<exists>s :: bool barrier. bar_reach 2 1 s \<and> (\<forall>t. b_pc s t \<noteq> Passed)"
  using barrier_releases_together [OF bar_demo_reach] bar_demo_reach by auto

end
