(* ===== verification/Process.thy ===== *)
theory Process
  imports Elf Semaphore
begin

text \<open>
  The state system calls work on: the process control block of \<open>kernel/process.h\<close> with its
  three tables of ten handles (open files 0-9, semaphores 10-19, children 20-29), and the objects
  the handles refer to.  An object is a number (0: the null pointer) that \<open>new\<close> takes from a
  counter; descriptors and semaphores are shared between parent and child through these numbers, as
  the code shares them through \<open>Shared\<close> pointers.  The address space of a process is its map from
  addresses to bytes.  The heap is taken to have room for the objects, and their release when the
  last reference goes away is not observable here.
\<close>

type_synonym obj = nat

record filedesc =
  fd_file :: "node option"
  fd_offset :: u32
  fd_reserved :: bool

definition filedesc_new :: filedesc where
  "filedesc_new = \<lparr>fd_file = None, fd_offset = 0, fd_reserved = False\<rparr>"

record proc =
  p_id :: nat
  p_fd :: "obj list"
  p_sp :: "obj list"
  p_cp :: "obj list"
  p_future :: obj
  p_mem :: byte_mem

record kstate =
  k_fresh :: obj
  k_desc :: "obj \<Rightarrow> filedesc"
  k_sem :: "obj \<Rightarrow> nat asem"
  k_fut :: "obj \<Rightarrow> u32 option"
  k_console :: "u8 list"
  k_ready :: "nat list"
  k_next_id :: nat

definition new_desc :: "filedesc \<Rightarrow> kstate \<Rightarrow> obj \<times> kstate" where
  "new_desc fd k = (k_fresh k, k\<lparr>k_desc := (k_desc k)(k_fresh k := fd), k_fresh := k_fresh k + 1\<rparr>)"

definition new_sem :: "u32 \<Rightarrow> kstate \<Rightarrow> obj \<times> kstate" where
  "new_sem c k = (k_fresh k, k\<lparr>k_sem := (k_sem k)(k_fresh k := asem_init (unat c)), k_fresh := k_fresh k + 1\<rparr>)"

definition new_future :: "kstate \<Rightarrow> obj \<times> kstate" where
  "new_future k = (k_fresh k, k\<lparr>k_fut := (k_fut k)(k_fresh k := None), k_fresh := k_fresh k + 1\<rparr>)"

text \<open>The constructor of the control block, for the thread \<open>tid\<close> with the address space \<open>m\<close>.\<close>

definition pcb_new :: "nat \<Rightarrow> byte_mem \<Rightarrow> kstate \<Rightarrow> proc \<times> kstate" where
  "pcb_new tid m k =
     (case new_desc (filedesc_new\<lparr>fd_reserved := True\<rparr>) k of (f0, k1) \<Rightarrow>
      case new_desc (filedesc_new\<lparr>fd_reserved := True\<rparr>) k1 of (f1, k2) \<Rightarrow>
      case new_desc (filedesc_new\<lparr>fd_reserved := True\<rparr>) k2 of (f2, k3) \<Rightarrow>
      case new_future k3 of (fu, k4) \<Rightarrow>
        (\<lparr>p_id = tid, p_fd = [f0, f1, f2, 0, 0, 0, 0, 0, 0, 0], p_sp = replicate 10 0,
          p_cp = replicate 10 0, p_future = fu, p_mem = m\<rparr>, k4))"

definition kstate_boot :: kstate where
  "kstate_boot = \<lparr>k_fresh = 1, k_desc = (\<lambda>_. filedesc_new), k_sem = (\<lambda>_. asem_init 0), k_fut = (\<lambda>_. None),
     k_console = [], k_ready = [], k_next_id = 0\<rparr>"

text \<open>An array read with an index the code does not check.\<close>

definition slot_at :: "obj list \<Rightarrow> nat \<Rightarrow> obj res" where
  "slot_at xs i = (if i < length xs then Inr (xs ! i) else Inl OutOfRange)"

text \<open>The search loops \<open>for (i = 0; i < 10; i++) if (xs[i] == nullptr)\<close>.\<close>

fun first_null :: "obj list \<Rightarrow> nat \<Rightarrow> nat option" where
  "first_null [] i = None"
| "first_null (x # xs) i = (if x = 0 then Some i else first_null xs (Suc i))"

section \<open>Well-formed states\<close>

text \<open>Tables of ten handles that refer to objects that exist.\<close>

definition handles_ok :: "obj \<Rightarrow> obj list \<Rightarrow> bool" where
  "handles_ok n xs \<longleftrightarrow> length xs = 10 \<and> (\<forall>x\<in>set xs. x < n)"

definition proc_ok :: "kstate \<Rightarrow> proc \<Rightarrow> bool" where
  "proc_ok k p \<longleftrightarrow> 0 < k_fresh k \<and> handles_ok (k_fresh k) (p_fd p) \<and> handles_ok (k_fresh k) (p_sp p) \<and>
     handles_ok (k_fresh k) (p_cp p) \<and> 0 < p_future p \<and> p_future p < k_fresh k"

lemma handles_ok_mono: "handles_ok n xs \<Longrightarrow> n \<le> m \<Longrightarrow> handles_ok m xs"
  by (auto simp: handles_ok_def)

lemma handles_ok_update: "handles_ok n xs \<Longrightarrow> x < n \<Longrightarrow> handles_ok n (xs[i := x])"
  by (auto simp: handles_ok_def dest: subsetD [OF set_update_subset_insert])

lemma pcb_new_ok:
  assumes "0 < k_fresh k" "pcb_new tid m k = (p, k')"
  shows "proc_ok k' p \<and> p_mem p = m"
  using assms by (auto simp: pcb_new_def new_desc_def new_future_def proc_ok_def handles_ok_def)

lemma first_null_from:
  "first_null xs b = Some i \<Longrightarrow> b \<le> i \<and> i - b < length xs \<and> xs ! (i - b) = 0 \<and> (\<forall>j < i - b. xs ! j \<noteq> 0)"
proof (induction xs arbitrary: b)
  case Nil
  then show ?case by simp
next
  case (Cons x xs)
  show ?case
  proof (cases "x = 0")
    case True
    then show ?thesis using Cons.prems by simp
  next
    case False
    then have h: "Suc b \<le> i" "i - Suc b < length xs" "xs ! (i - Suc b) = 0" "\<forall>j < i - Suc b. xs ! j \<noteq> 0"
      using Cons by auto
    then have e: "i - b = Suc (i - Suc b)" by simp
    show ?thesis unfolding e using h False by (auto simp: less_Suc_eq_0_disj)
  qed
qed

lemma first_null_least:
  "first_null xs 0 = Some i \<Longrightarrow> i < length xs \<and> xs ! i = 0 \<and> (\<forall>j < i. xs ! j \<noteq> 0)"
  using first_null_from [of xs 0 i] by simp

lemma first_null_none: "first_null xs b = None \<longleftrightarrow> 0 \<notin> set xs"
  by (induction xs arbitrary: b) auto

end
