(* ===== verification/Sys.thy ===== *)
theory Sys
  imports Process Vmm
begin

text \<open>
  The system calls of \<open>kernel/sys.cc\<close>, one definition for each case of \<open>sysHandler\<close>.  The
  arguments lie on the user's stack behind the return address.  A call is one step of the process
  that makes it; it returns a value, blocks (a \<open>down\<close> or a \<open>wait\<close> that has to wait), ends the
  process, starts a child or enters a new program.  A negative result is the code's \<open>-1\<close>, the
  word \<open>0xFFFFFFFF\<close>.  Two things are arguments of the model: \<open>init_dev\<close>, the initialisation of
  the sound device (case 14), and \<open>junk\<close>, the value of the stack word that \<open>exec\<close> copies without
  having written it.  A \<open>Shared\<close> pointer that is null and is followed gives \<open>NullDeref\<close>, an
  index the code does not check \<open>OutOfRange\<close>.
\<close>

section \<open>Arguments and buffers\<close>

datatype result = Ret u32 | Blocks | Exits | Shuts_down | Forks u32 proc u32 u32 | Enters u32 u32

type_synonym outcome = "(result \<times> proc \<times> kstate) res option"

definition minus_1 :: u32 where
  "minus_1 = 0xFFFFFFFF"

text \<open>\<open>user_esp[i]\<close>.\<close>

definition user_arg :: "proc \<Rightarrow> u32 \<Rightarrow> u32 \<Rightarrow> u32" where
  "user_arg p esp i = mem32 (p_mem p) (esp + 4 * i)"

definition in_page :: "u32 \<Rightarrow> u32 \<Rightarrow> bool" where
  "in_page a base \<longleftrightarrow> base \<le> a \<and> a < base + 4096"

definition bad_buffer :: "config \<Rightarrow> u32 \<Rightarrow> bool" where
  "bad_buffer c a \<longleftrightarrow> a < 0x80000000 \<or> in_page a (localAPIC c) \<or> in_page a (ioAPIC c)"

text \<open>A string of the user's, as the character loops see it.\<close>

definition user_string :: "byte_mem \<Rightarrow> u32 \<Rightarrow> cmem" where
  "user_string m a = (\<lambda>i. m (a + of_nat i))"

definition ret :: "u32 \<Rightarrow> proc \<Rightarrow> kstate \<Rightarrow> outcome" where
  "ret v p k = Some (Inr (Ret v, p, k))"

section \<open>exit and wait\<close>

definition sys_exit :: "u32 \<Rightarrow> proc \<Rightarrow> kstate \<Rightarrow> outcome" where
  "sys_exit esp p k =
     (let rc = user_arg p esp 1 in
      obind (Some (assert_that (k_fut k (p_future p) = None))) (\<lambda>_.
        Some (Inr (Exits, p, k\<lparr>k_fut := (k_fut k)(p_future p := Some rc)\<rparr>))))"

definition sys_wait :: "config \<Rightarrow> u32 \<Rightarrow> proc \<Rightarrow> kstate \<Rightarrow> outcome" where
  "sys_wait c esp p k =
     (let status = user_arg p esp 2 in
      if bad_buffer c status then ret minus_1 p k
      else let num = user_arg p esp 1 in
        if num < 20 \<or> 29 < num then ret minus_1 p k
        else obind (Some (slot_at (p_cp p) (unat (num - 20)))) (\<lambda>f.
          if f = 0 then Some (Inl NullDeref)
          else (case k_fut k f of
              None \<Rightarrow> Some (Inr (Blocks, p, k))
            | Some rc \<Rightarrow> ret 0 (p\<lparr>p_mem := write_bytes (p_mem p) status (put32 rc)\<rparr>) k)))"

section \<open>Files\<close>

definition sys_write :: "config \<Rightarrow> u32 \<Rightarrow> proc \<Rightarrow> kstate \<Rightarrow> outcome" where
  "sys_write c esp p k =
     (let fnum = user_arg p esp 1 in
      obind (Some (slot_at (p_fd p) (unat fnum))) (\<lambda>f.
        if f = 0 then ret minus_1 p k
        else if fnum < 3 \<and> \<not> fd_reserved (k_desc k f) then ret minus_1 p k
        else let buffer_addr = user_arg p esp 2 in
          if bad_buffer c buffer_addr then ret minus_1 p k
          else let nbyte = user_arg p esp 3 in
            ret nbyte p (k\<lparr>k_console := k_console k @
              map (\<lambda>i. p_mem p (buffer_addr + of_nat i)) [0..<unat nbyte]\<rparr>)))"

definition sys_open :: "(nat \<Rightarrow> u8) \<Rightarrow> ext2 \<Rightarrow> node \<Rightarrow> u32 \<Rightarrow> proc \<Rightarrow> kstate \<Rightarrow> outcome" where
  "sys_open d e root esp p k =
     (let filename = user_arg p esp 1 in
      if filename < 0x80000000 then ret minus_1 p k
      else obind (ext2_find d e (Some root) (user_string (p_mem p) filename)) (\<lambda>file.
        case file of
          None \<Rightarrow> ret minus_1 p k
        | Some nd \<Rightarrow>
           (case first_null (p_fd p) 0 of
              None \<Rightarrow> ret minus_1 p k
            | Some i \<Rightarrow> (case new_desc (filedesc_new\<lparr>fd_file := Some nd\<rparr>) k of (f, k') \<Rightarrow>
                ret (of_nat i) (p\<lparr>p_fd := (p_fd p)[i := f]\<rparr>) k'))))"

text \<open>The checks that \<open>len\<close>, \<open>read\<close> and \<open>seek\<close> share; \<open>body\<close> gets the descriptor.\<close>

definition with_file :: "u32 \<Rightarrow> proc \<Rightarrow> kstate \<Rightarrow> (obj \<Rightarrow> outcome) \<Rightarrow> outcome" where
  "with_file fnum p k body =
     (if 9 < fnum then ret minus_1 p k
      else obind (Some (slot_at (p_fd p) (unat fnum))) (\<lambda>f.
        if f = 0 then ret minus_1 p k else body f))"

definition sys_len :: "u32 \<Rightarrow> proc \<Rightarrow> kstate \<Rightarrow> outcome" where
  "sys_len esp p k =
     with_file (user_arg p esp 1) p k (\<lambda>f.
       if fd_reserved (k_desc k f) then ret 0 p k
       else (case fd_file (k_desc k f) of None \<Rightarrow> Some (Inl NullDeref)
         | Some nd \<Rightarrow> ret (node_size nd) p k))"

text \<open>How many bytes \<open>read\<close> asks the file for: the request cut at the end of the file and at the
  pages of the interrupt controllers, in 32 bit arithmetic.\<close>

definition read_amount :: "config \<Rightarrow> u32 \<Rightarrow> u32 \<Rightarrow> u32 \<Rightarrow> u32 \<Rightarrow> u32" where
  "read_amount c off sz buf n =
     (let n1 = (if sz \<le> off + n then sz - off else n);
          n2 = (if in_page (buf + n1) (ioAPIC c) then ioAPIC c - buf else n1)
      in if in_page (buf + n2) (localAPIC c) then localAPIC c - buf else n2)"

definition sys_read :: "config \<Rightarrow> (nat \<Rightarrow> u8) \<Rightarrow> u32 \<Rightarrow> proc \<Rightarrow> kstate \<Rightarrow> outcome" where
  "sys_read c d esp p k =
     (let buffer = user_arg p esp 2 in
      with_file (user_arg p esp 1) p k (\<lambda>f.
        let fd = k_desc k f in
        if fd_reserved fd then ret minus_1 p k
        else if bad_buffer c buffer then ret minus_1 p k
        else (case fd_file fd of None \<Rightarrow> Some (Inl NullDeref)
          | Some nd \<Rightarrow>
             let n = read_amount c (fd_offset fd) (node_size nd) buffer (user_arg p esp 3) in
             obind (node_read_all d nd (fd_offset fd) n) (\<lambda>(cnt, bytes).
               let bytes_read = of_int cnt in
               ret bytes_read (p\<lparr>p_mem := write_bytes (p_mem p) buffer bytes\<rparr>)
                 (k\<lparr>k_desc := (k_desc k)(f := fd\<lparr>fd_offset := fd_offset fd + bytes_read\<rparr>)\<rparr>)))))"

definition sys_seek :: "u32 \<Rightarrow> proc \<Rightarrow> kstate \<Rightarrow> outcome" where
  "sys_seek esp p k =
     with_file (user_arg p esp 1) p k (\<lambda>f.
       if fd_reserved (k_desc k f) then ret minus_1 p k
       else let off = user_arg p esp 2 in
         ret off p (k\<lparr>k_desc := (k_desc k)(f := (k_desc k f)\<lparr>fd_offset := off\<rparr>)\<rparr>))"

section \<open>Semaphores\<close>

definition sys_sem :: "u32 \<Rightarrow> proc \<Rightarrow> kstate \<Rightarrow> outcome" where
  "sys_sem esp p k =
     (let initial = user_arg p esp 1 in
      case first_null (p_sp p) 0 of
        None \<Rightarrow> ret minus_1 p k
      | Some i \<Rightarrow> (case new_sem initial k of (s, k') \<Rightarrow>
          ret (of_nat i + 10) (p\<lparr>p_sp := (p_sp p)[i := s]\<rparr>) k'))"

definition with_sem :: "u32 \<Rightarrow> proc \<Rightarrow> kstate \<Rightarrow> (obj \<Rightarrow> outcome) \<Rightarrow> outcome" where
  "with_sem num p k body =
     (if 19 < num \<or> num < 10 then ret minus_1 p k
      else obind (Some (slot_at (p_sp p) (unat (num - 10)))) (\<lambda>s.
        if s = 0 then ret minus_1 p k else body s))"

definition sys_up :: "u32 \<Rightarrow> proc \<Rightarrow> kstate \<Rightarrow> outcome" where
  "sys_up esp p k =
     with_sem (user_arg p esp 1) p k (\<lambda>s.
       case asem_up (k_sem k s) of (w, s') \<Rightarrow>
         ret 0 p (k\<lparr>k_sem := (k_sem k)(s := s'),
                    k_ready := (case w of None \<Rightarrow> k_ready k | Some t \<Rightarrow> k_ready k @ [t])\<rparr>))"

definition sys_down :: "u32 \<Rightarrow> proc \<Rightarrow> kstate \<Rightarrow> outcome" where
  "sys_down esp p k =
     with_sem (user_arg p esp 1) p k (\<lambda>s.
       case asem_down (p_id p) (k_sem k s) of (ok, s') \<Rightarrow>
         (let k' = k\<lparr>k_sem := (k_sem k)(s := s')\<rparr> in
          if ok then ret 0 p k' else Some (Inr (Blocks, p, k'))))"

section \<open>close\<close>

definition sys_close :: "u32 \<Rightarrow> proc \<Rightarrow> kstate \<Rightarrow> outcome" where
  "sys_close esp p k =
     (let num = user_arg p esp 1 in
      if 29 < num then ret minus_1 p k
      else if num < 10 then
        obind (Some (slot_at (p_fd p) (unat num))) (\<lambda>f.
          if f = 0 then ret minus_1 p k
          else let fd = (k_desc k f)\<lparr>fd_offset := 0\<rparr>;
                   fd = (if num < 3 then fd\<lparr>fd_reserved := False\<rparr> else fd)
            in ret 0 (p\<lparr>p_fd := (p_fd p)[unat num := 0]\<rparr>) (k\<lparr>k_desc := (k_desc k)(f := fd)\<rparr>))
      else if num < 20 then
        obind (Some (slot_at (p_sp p) (unat (num - 10)))) (\<lambda>s.
          if s = 0 then ret minus_1 p k
          else ret 0 (p\<lparr>p_sp := (p_sp p)[unat (num - 10) := 0]\<rparr>) k)
      else
        obind (Some (slot_at (p_cp p) (unat (num - 20)))) (\<lambda>f.
          if f = 0 then ret minus_1 p k
          else ret 0 (p\<lparr>p_cp := (p_cp p)[unat (num - 20) := 0]\<rparr>) k))"

section \<open>fork\<close>

text \<open>The loop that looks for a free child slot runs \<open>pid\<close> up to 10 and reads one slot past the
  table when all are taken.\<close>

fun child_slot :: "obj list \<Rightarrow> nat \<Rightarrow> nat res" where
  "child_slot [] pid = Inl OutOfRange"
| "child_slot (x # xs) pid = (if x = 0 then Inr pid else child_slot xs (Suc pid))"

text \<open>The child gets a control block and a page directory of its own.  Its private pages are copied
  frame by frame (theory \<open>Fork\<close>), so its memory is the parent's.\<close>

definition sys_fork :: "u32 \<Rightarrow> u32 \<Rightarrow> proc \<Rightarrow> kstate \<Rightarrow> outcome" where
  "sys_fork eip esp p k =
     obind (Some (child_slot (p_cp p) 0)) (\<lambda>pid.
       case pcb_new (k_next_id k) (p_mem p) (k\<lparr>k_next_id := k_next_id k + 1\<rparr>) of (child, k1) \<Rightarrow>
         let child = child\<lparr>p_fd := p_fd p, p_sp := p_sp p\<rparr>
         in Some (Inr (Forks (of_nat pid + 20) child eip esp,
              p\<lparr>p_cp := (p_cp p)[pid := p_future child]\<rparr>,
              k1\<lparr>k_ready := k_ready k1 @ [p_id child]\<rparr>)))"

section \<open>exec\<close>

partial_function (option) count_args :: "proc \<Rightarrow> u32 \<Rightarrow> u32 \<Rightarrow> nat \<Rightarrow> nat option" where
  "count_args p esp index argc =
     (if user_arg p esp index \<noteq> 0 then count_args p esp (index + 1) (argc + 1) else Some argc)"

declare count_args.simps [code]

text \<open>The copy of one argument, with its terminator.\<close>

definition copy_arg :: "byte_mem \<Rightarrow> u32 \<Rightarrow> u8 list option" where
  "copy_arg m a = map_option (\<lambda>n. map (user_string m a) [0..<n + 1]) (strlen_from (user_string m a) 0)"

fun copy_args :: "proc \<Rightarrow> u32 \<Rightarrow> nat list \<Rightarrow> u8 list list option" where
  "copy_args p esp [] = Some []"
| "copy_args p esp (i # is) =
     Option.bind (copy_arg (p_mem p) (user_arg p esp (of_nat i + 1))) (\<lambda>a.
     Option.bind (copy_args p esp is) (\<lambda>as. Some (a # as)))"

text \<open>The loop that unmaps private space: an unmapped page reads as zeros when it is touched again.\<close>

definition clear_page :: "u32 \<Rightarrow> byte_mem \<Rightarrow> byte_mem" where
  "clear_page a m = (\<lambda>x. if framedown x = framedown a then 0 else m x)"

partial_function (option) clear_private :: "config \<Rightarrow> u32 \<Rightarrow> byte_mem \<Rightarrow> byte_mem option" where
  "clear_private c address m =
     (if address < memSize c then
        clear_private c (address + 4096)
          (if address \<noteq> localAPIC c \<and> address \<noteq> ioAPIC c then clear_page address m else m)
      else Some m)"

declare clear_private.simps [code]

text \<open>The top half of the new stack: the strings, with the addresses they get.\<close>

fun push_strings :: "u8 list list \<Rightarrow> u32 \<Rightarrow> byte_mem \<Rightarrow> u32 list \<times> byte_mem" where
  "push_strings [] sp m = ([], m)"
| "push_strings (a # as) sp m =
     (case push_strings as (sp + of_nat (length a)) (write_bytes m sp a) of (ptrs, m') \<Rightarrow> (sp # ptrs, m'))"

definition put_words :: "u32 list \<Rightarrow> u8 list" where
  "put_words ws = concat (map put32 ws)"

definition exec_top :: u32 where
  "exec_top = 0xefffe000"

definition exec_stack :: "u32 \<Rightarrow> u8 list list \<Rightarrow> byte_mem \<Rightarrow> u32 \<times> byte_mem" where
  "exec_stack junk args m =
     (let argc = length args;
          total = of_nat (sum_list (map length args)) :: u32;
          (ptrs, m1) = push_strings (tl args) (exec_top - total) m;
          argvpp = framedown (exec_top - total) - of_nat argc * 4;
          m2 = write_bytes m1 argvpp (put_words (take argc (ptrs @ [junk])));
          m3 = write_bytes m2 (argvpp - 12) (put_words [of_nat argc - 1, argvpp, 0])
      in (argvpp - 12, m3))"

definition sys_exec ::
    "config \<Rightarrow> (nat \<Rightarrow> u8) \<Rightarrow> ext2 \<Rightarrow> node \<Rightarrow> u32 \<Rightarrow> u32 \<Rightarrow> proc \<Rightarrow> kstate \<Rightarrow> outcome" where
  "sys_exec c d e root junk esp p k =
     Option.bind (count_args p esp 1 0) (\<lambda>argc.
     Option.bind (copy_args p esp [0..<argc]) (\<lambda>args.
     Option.bind (clear_private c 0x80000000 (p_mem p)) (\<lambda>m1.
     case exec_stack junk args m1 of (sp, m2) \<Rightarrow>
       let p2 = p\<lparr>p_mem := m2\<rparr> in
       obind (ext2_find d e (Some root) (user_string m2 (user_arg p2 esp 1))) (\<lambda>program.
       obind (elf_load d program m2) (\<lambda>(entry, m3).
         Some (Inr (Enters entry sp, p\<lparr>p_mem := m3\<rparr>, k)))))))"

section \<open>The handler\<close>

definition sys_play :: "(proc \<Rightarrow> kstate \<Rightarrow> (proc \<times> kstate) res option) \<Rightarrow> u32 \<Rightarrow> proc \<Rightarrow> kstate \<Rightarrow> outcome" where
  "sys_play init_dev esp p k =
     obind (Some (slot_at (p_fd p) (unat (user_arg p esp 1)))) (\<lambda>_.
     obind (init_dev p k) (\<lambda>(p', k'). ret minus_1 p' k'))"

definition sysHandler ::
    "config \<Rightarrow> (nat \<Rightarrow> u8) \<Rightarrow> ext2 \<Rightarrow> node \<Rightarrow> u32 \<Rightarrow> (proc \<Rightarrow> kstate \<Rightarrow> (proc \<times> kstate) res option) \<Rightarrow>
     u32 \<Rightarrow> u32 \<Rightarrow> u32 \<Rightarrow> proc \<Rightarrow> kstate \<Rightarrow> outcome" where
  "sysHandler c d e root junk init_dev eax eip esp p k =
     (if eax = 0 then sys_exit esp p k
      else if eax = 1 then sys_write c esp p k
      else if eax = 2 then sys_fork eip esp p k
      else if eax = 3 then sys_sem esp p k
      else if eax = 4 then sys_up esp p k
      else if eax = 5 then sys_down esp p k
      else if eax = 6 then sys_close esp p k
      else if eax = 7 then Some (Inr (Shuts_down, p, k))
      else if eax = 8 then sys_wait c esp p k
      else if eax = 9 then sys_exec c d e root junk esp p k
      else if eax = 10 then sys_open d e root esp p k
      else if eax = 11 then sys_len esp p k
      else if eax = 12 then sys_read c d esp p k
      else if eax = 13 then sys_seek esp p k
      else if eax = 14 then sys_play init_dev esp p k
      else ret minus_1 p k)"

end
