(* ===== verification/Sys_Correct.thy ===== *)
theory Sys_Correct
  imports Sys
begin

text \<open>
  What the system calls guarantee: the handle tables stay well formed, bad handles are rejected,
  \<open>read\<close> delivers the file, \<open>fork\<close>, \<open>exit\<close> and \<open>wait\<close> hand over the exit code, \<open>exec\<close>
  builds the stack of the new program; and where the code goes wrong on shared descriptors and at
  the end of a file.
\<close>

section \<open>Well-formed tables\<close>

definition call_ok :: "proc \<Rightarrow> kstate \<Rightarrow> outcome \<Rightarrow> bool" where
  "call_ok p k out \<longleftrightarrow> (\<forall>r p' k'. out = Some (Inr (r, p', k')) \<longrightarrow>
     k_fresh k \<le> k_fresh k' \<and> proc_ok k' p' \<and> (\<forall>v q a b. r = Forks v q a b \<longrightarrow> proc_ok k' q))"

lemma call_ok_fault [simp]: "call_ok p k (Some (Inl e))" "call_ok p k None"
  by (simp_all add: call_ok_def)

lemma call_ok_ret:
  "call_ok p k (ret v p' k') \<longleftrightarrow> k_fresh k \<le> k_fresh k' \<and> proc_ok k' p'"
  by (auto simp: call_ok_def ret_def)

lemma call_ok_result:
  "call_ok p k (Some (Inr (r, p', k'))) \<longleftrightarrow> k_fresh k \<le> k_fresh k' \<and> proc_ok k' p' \<and>
     (\<forall>v q a b. r = Forks v q a b \<longrightarrow> proc_ok k' q)"
  by (auto simp: call_ok_def)

lemma call_ok_obind:
  "(\<And>x. m = Some (Inr x) \<Longrightarrow> call_ok p k (f x)) \<Longrightarrow> call_ok p k (obind m f)"
  by (cases m) (auto simp: obind_def split: sum.splits)

lemma call_ok_bind:
  "(\<And>x. m = Some x \<Longrightarrow> call_ok p k (f x)) \<Longrightarrow> call_ok p k (Option.bind m f)"
  by (cases m) auto

lemma proc_ok_fields:
  assumes "proc_ok k p"
  shows "proc_ok k (p\<lparr>p_mem := m\<rparr>)" "x < k_fresh k \<Longrightarrow> proc_ok k (p\<lparr>p_fd := (p_fd p)[i := x]\<rparr>)"
    "x < k_fresh k \<Longrightarrow> proc_ok k (p\<lparr>p_sp := (p_sp p)[i := x]\<rparr>)"
    "x < k_fresh k \<Longrightarrow> proc_ok k (p\<lparr>p_cp := (p_cp p)[i := x]\<rparr>)" "0 < k_fresh k"
  using assms by (auto simp: proc_ok_def handles_ok_update)

lemma proc_ok_mono: "proc_ok k p \<Longrightarrow> k_fresh k \<le> k_fresh k' \<Longrightarrow> proc_ok k' p"
  unfolding proc_ok_def by (meson handles_ok_mono less_le_trans)

lemma proc_ok_kstate [simp]:
  "proc_ok (k\<lparr>k_desc := x1\<rparr>) p = proc_ok k p" "proc_ok (k\<lparr>k_sem := x2\<rparr>) p = proc_ok k p"
  "proc_ok (k\<lparr>k_fut := x3\<rparr>) p = proc_ok k p" "proc_ok (k\<lparr>k_console := x4\<rparr>) p = proc_ok k p"
  "proc_ok (k\<lparr>k_ready := x5\<rparr>) p = proc_ok k p" "proc_ok (k\<lparr>k_next_id := x6\<rparr>) p = proc_ok k p"
  by (simp_all add: proc_ok_def)

lemma proc_ok_new:
  assumes "proc_ok k p" "k_fresh k' = Suc (k_fresh k)"
  shows "proc_ok k' (p\<lparr>p_fd := (p_fd p)[i := k_fresh k]\<rparr>)" "proc_ok k' (p\<lparr>p_sp := (p_sp p)[i := k_fresh k]\<rparr>)"
  using proc_ok_fields [OF proc_ok_mono [OF assms(1), of k']] assms(2) by simp_all

lemma with_file_ok: "proc_ok k p \<Longrightarrow> (\<And>f. call_ok p k (body f)) \<Longrightarrow> call_ok p k (with_file n p k body)"
  by (auto simp: with_file_def call_ok_ret intro!: call_ok_obind)

lemma with_sem_ok: "proc_ok k p \<Longrightarrow> (\<And>f. call_ok p k (body f)) \<Longrightarrow> call_ok p k (with_sem n p k body)"
  by (auto simp: with_sem_def call_ok_ret intro!: call_ok_obind)

lemma sys_calls_ok:
  assumes "proc_ok k p"
  shows "call_ok p k (sys_exit esp p k)" "call_ok p k (sys_wait c esp p k)" "call_ok p k (sys_write c esp p k)"
    "call_ok p k (sys_open d e root esp p k)" "call_ok p k (sys_len esp p k)"
    "call_ok p k (sys_read c d esp p k)" "call_ok p k (sys_seek esp p k)"
    "call_ok p k (sys_sem esp p k)" "call_ok p k (sys_up esp p k)" "call_ok p k (sys_down esp p k)"
    "call_ok p k (sys_close esp p k)"
proof -
  note f = proc_ok_fields [OF assms] and r = call_ok_ret
  show "call_ok p k (sys_exit esp p k)" using assms
    by (auto simp: sys_exit_def Let_def call_ok_result intro!: call_ok_obind)
  show "call_ok p k (sys_wait c esp p k)" using assms f
    by (auto simp: sys_wait_def Let_def r call_ok_result intro!: call_ok_obind split: option.splits)
  show "call_ok p k (sys_write c esp p k)" using assms
    by (auto simp: sys_write_def Let_def r intro!: call_ok_obind)
  show "call_ok p k (sys_open d e root esp p k)" using assms f
    by (auto simp: sys_open_def Let_def r new_desc_def intro!: call_ok_obind proc_ok_new split: option.splits)
  show "call_ok p k (sys_len esp p k)" using assms
    by (auto simp: sys_len_def r intro!: with_file_ok split: option.splits)
  show "call_ok p k (sys_read c d esp p k)" using assms f
    by (auto simp: sys_read_def Let_def r intro!: with_file_ok call_ok_obind split: option.splits)
  show "call_ok p k (sys_seek esp p k)" using assms
    by (auto simp: sys_seek_def Let_def r intro!: with_file_ok)
  show "call_ok p k (sys_sem esp p k)" using assms f
    by (auto simp: sys_sem_def Let_def r new_sem_def intro!: call_ok_obind proc_ok_new split: option.splits)
  show "call_ok p k (sys_up esp p k)" using assms
    by (auto simp: sys_up_def r intro!: with_sem_ok split: prod.splits)
  show "call_ok p k (sys_down esp p k)" using assms
    by (auto simp: sys_down_def Let_def r call_ok_result intro!: with_sem_ok split: prod.splits)
  show "call_ok p k (sys_close esp p k)" using assms f
    by (auto simp: sys_close_def Let_def r intro!: call_ok_obind)
qed

lemma child_slot_less: "child_slot xs b = Inr i \<Longrightarrow> b \<le> i \<and> i - b < length xs"
proof (induction xs arbitrary: b)
  case (Cons x xs)
  then show ?case by (cases "x = 0") fastforce+
qed simp

lemma sys_fork_result:
  assumes "proc_ok k p" "sys_fork eip esp p k = Some (Inr (r, p', k'))"
  obtains pid child where "child_slot (p_cp p) 0 = Inr pid" "pid < 10"
    "r = Forks (of_nat pid + 20) child eip esp" "p' = p\<lparr>p_cp := (p_cp p)[pid := p_future child]\<rparr>"
    "p_fd child = p_fd p" "p_sp child = p_sp p" "p_mem child = p_mem p" "p_future child = k_fresh k + 3"
    "k_fresh k' = k_fresh k + 4" "k_fut k' = (k_fut k)(k_fresh k + 3 := None)" "proc_ok k' child"
    "p_cp child = replicate 10 0"
proof -
  obtain pid where pid: "child_slot (p_cp p) 0 = Inr pid"
    using assms(2) by (cases "child_slot (p_cp p) 0") (auto simp: sys_fork_def)
  have l: "pid < 10" using child_slot_less [OF pid] assms(1) by (simp add: proc_ok_def handles_ok_def)
  obtain ch k1 where c: "pcb_new (k_next_id k) (p_mem p) (k\<lparr>k_next_id := k_next_id k + 1\<rparr>) = (ch, k1)"
    by fastforce
  let ?ch = "ch\<lparr>p_fd := p_fd p, p_sp := p_sp p\<rparr>"
  have r: "r = Forks (of_nat pid + 20) ?ch eip esp" "p' = p\<lparr>p_cp := (p_cp p)[pid := p_future ch]\<rparr>"
    "k' = k1\<lparr>k_ready := k_ready k1 @ [p_id ch]\<rparr>"
    using assms(2) pid c by (auto simp: sys_fork_def Let_def)
  have f: "k_fresh k1 = k_fresh k + 4" "p_cp ch = replicate 10 0" "p_future ch = k_fresh k + 3" "p_mem ch = p_mem p"
    "k_fut k1 = (k_fut k)(k_fresh k + 3 := None)"
    using c by (auto simp: pcb_new_def new_desc_def new_future_def)
  have "proc_ok k1 ch" using pcb_new_ok [OF _ c] assms(1) by (simp add: proc_ok_def)
  moreover have "proc_ok k1 p" by (rule proc_ok_mono [OF assms(1)]) (simp add: f)
  ultimately have "proc_ok k' ?ch" unfolding r(3) by (simp add: proc_ok_def)
  then show ?thesis using that [of pid ?ch] pid l r f by simp
qed

lemma sys_fork_ok: "proc_ok k p \<Longrightarrow> call_ok p k (sys_fork eip esp p k)"
proof (unfold call_ok_def, intro allI impI)
  fix r p' k' assume a: "proc_ok k p" "sys_fork eip esp p k = Some (Inr (r, p', k'))"
  then show "k_fresh k \<le> k_fresh k' \<and> proc_ok k' p' \<and> (\<forall>v q a b. r = Forks v q a b \<longrightarrow> proc_ok k' q)"
  proof (rule sys_fork_result)
    fix pid child
    assume c: "r = Forks (of_nat pid + 20) child eip esp" "p' = p\<lparr>p_cp := (p_cp p)[pid := p_future child]\<rparr>"
      "p_future child = k_fresh k + 3" "k_fresh k' = k_fresh k + 4" "proc_ok k' child"
    have "proc_ok k' p" by (rule proc_ok_mono [OF a(1)]) (simp add: c)
    then have "proc_ok k' p'" unfolding c(2) by (rule proc_ok_fields(4)) (simp add: c)
    then show ?thesis using c by simp
  qed
qed

lemma sys_exec_ok: "proc_ok k p \<Longrightarrow> call_ok p k (sys_exec c d e root junk esp p k)"
  by (auto simp: sys_exec_def Let_def call_ok_result proc_ok_fields split: prod.splits
      intro!: call_ok_bind call_ok_obind)

section \<open>Reading\<close>

lemma write_bytes_append:
  assumes "length bs + length cs \<le> 4294967296"
  shows "write_bytes (write_bytes m a bs) (a + of_nat (length bs)) cs = write_bytes m a (bs @ cs)"
proof
  fix x
  let ?i = "unat (x - a)" let ?n = "length bs"
  have e: "x - (a + of_nat ?n) = (x - a) - of_nat ?n" by simp
  show "write_bytes (write_bytes m a bs) (a + of_nat ?n) cs x = write_bytes m a (bs @ cs) x"
  proof (cases "?n < 4294967296")
    case True
    note n = unat_of_nat_u32 [OF True]
    show ?thesis
    proof (cases "?n \<le> ?i")
      case True
      then have "unat ((x - a) - of_nat ?n) = ?i - ?n"
        using n by (subst unat_sub) (simp_all add: word_le_nat_alt)
      then show ?thesis unfolding write_bytes_def Let_def e using True by (auto simp: nth_append)
    next
      case False
      have "unat ((x - a) - of_nat ?n) = ?i + (4294967296 - ?n)"
        using False n \<open>?n < 4294967296\<close> by (simp add: unat_sub_if_size word_size)
      then show ?thesis unfolding write_bytes_def Let_def e using False assms by (auto simp: nth_append)
    qed
  next
    case False
    then have "length cs = 0" using assms by linarith
    then show ?thesis by (simp add: write_bytes_def)
  qed
qed

lemma read_amount_plain:
  assumes "unat off \<le> unat sz" "unat off + unat n < 4294967296"
    and "\<not> in_page (buf + of_nat k) (ioAPIC c)" "\<not> in_page (buf + of_nat k) (localAPIC c)"
    and k: "k = min (unat n) (unat sz - unat off)"
  shows "unat (read_amount c off sz buf n) = k"
proof -
  have o: "unat (off + n) = unat off + unat n" using assms(2) by (subst unat_add_lem [THEN iffD1]) simp_all
  have d: "unat (sz - off) = unat sz - unat off" using assms(1) by (subst unat_sub) (simp_all add: word_le_nat_alt)
  let ?n1 = "if sz \<le> off + n then sz - off else n"
  have u: "unat ?n1 = k"
  proof (cases "unat sz \<le> unat off + unat n")
    case True
    then have "k = unat sz - unat off" using k by linarith
    then show ?thesis using True o d by (simp add: word_le_nat_alt)
  next
    case False
    then have "k = unat n" using k by linarith
    then show ?thesis using False o by (simp add: word_le_nat_alt)
  qed
  then have "?n1 = of_nat k" by (rule of_nat_unat_eq)
  then have "read_amount c off sz buf n = ?n1" using assms(3,4) by (simp add: read_amount_def Let_def)
  then show ?thesis using u by simp
qed

lemma with_file_open:
  "length (p_fd p) = 10 \<Longrightarrow> fnum \<le> 9 \<Longrightarrow> p_fd p ! unat fnum \<noteq> 0 \<Longrightarrow>
   with_file fnum p k body = body (p_fd p ! unat fnum)"
proof -
  assume a: "length (p_fd p) = 10" "fnum \<le> 9" "p_fd p ! unat fnum \<noteq> 0"
  have "unat fnum < 10" using a(2) by (simp add: word_le_nat_alt)
  then show ?thesis using a by (simp add: with_file_def slot_at_def not_less [symmetric])
qed

lemma of_int_of_nat_word: "of_int (int n) = (of_nat n :: u32)"
  by simp

lemma sys_read_exact:
  assumes "length (p_fd p) = 10" and "user_arg p esp 1 \<le> 9"
    and f: "f = p_fd p ! unat (user_arg p esp 1)" "f \<noteq> 0" "\<not> fd_reserved (k_desc k f)"
    and nd: "fd_file (k_desc k f) = Some nd" "node_ok d nd"
    and off: "off = unat (fd_offset (k_desc k f))" "off \<le> unat (node_size nd)"
    and buf: "buf = user_arg p esp 2" "\<not> bad_buffer c buf"
    and n: "off + unat (user_arg p esp 3) < 2 ^ 32"
    and m: "m = min (unat (user_arg p esp 3)) (unat (node_size nd) - off)"
    and gap: "\<not> in_page (buf + of_nat m) (ioAPIC c)" "\<not> in_page (buf + of_nat m) (localAPIC c)"
  shows "sys_read c d esp p k = Some (Inr (Ret (of_nat m),
    p\<lparr>p_mem := write_bytes (p_mem p) buf (take m (drop off (node_bytes d nd)))\<rparr>,
    k\<lparr>k_desc := (k_desc k)(f := (k_desc k f)\<lparr>fd_offset := fd_offset (k_desc k f) + of_nat m\<rparr>)\<rparr>))"
proof -
  let ?off = "fd_offset (k_desc k f)"
  have u: "unat (read_amount c ?off (node_size nd) buf (user_arg p esp 3)) = m"
    by (rule read_amount_plain) (use assms in simp_all)
  have rd: "node_read_all d nd ?off (read_amount c ?off (node_size nd) buf (user_arg p esp 3)) =
      Some (Inr (int m, take m (drop off (node_bytes d nd))))"
  proof -
    have "unat ?off \<le> unat (node_size nd)" using off by simp
    from node_read_all_bytes [OF nd(2) this, of "read_amount c ?off (node_size nd) buf (user_arg p esp 3)"]
    show ?thesis unfolding u Let_def off(1) [symmetric] using m by simp
  qed
  show ?thesis
    unfolding sys_read_def Let_def buf(1) [symmetric]
      with_file_open [OF assms(1,2) f(2) [unfolded f(1)]] f(1) [symmetric]
    using f(3) buf(2) rd by (simp add: nd(1) ret_def)
qed

section \<open>The new stack\<close>

lemma length_put_words [simp]: "length (put_words ws) = 4 * length ws"
  by (induction ws) (simp_all add: put_words_def)

lemma put_words_nth: "i < length ws \<Longrightarrow> take 4 (drop (4 * i) (put_words ws)) = put32 (ws ! i)"
proof (induction ws arbitrary: i)
  case (Cons w ws)
  then show ?case by (cases i) (simp_all add: put_words_def)
qed simp

lemma mem32_write_bytes:
  assumes "j + 4 \<le> length bs" "length bs \<le> 4294967296"
  shows "mem32 (write_bytes m a bs) (a + of_nat j) = bytes32 bs j"
proof -
  have "write_bytes m a bs (a + of_nat j + of_nat k) = bs ! (j + k)" if "k < 4" for k
    using write_bytes_at [of "j + k" bs m a] that assms by (simp add: add.assoc)
  from this [of 0] this [of 1] this [of 2] this [of 3] show ?thesis
    by (simp add: mem32_def bytes32_def)
qed

lemma mem32_put_words:
  assumes "i < length ws" "length ws \<le> 1073741824"
  shows "mem32 (write_bytes m a (put_words ws)) (a + of_nat (4 * i)) = ws ! i"
proof -
  have "mem32 (write_bytes m a (put_words ws)) (a + of_nat (4 * i)) = bytes32 (put_words ws) (4 * i)"
    by (rule mem32_write_bytes) (use assms in simp_all)
  also have "\<dots> = bytes32 (take 4 (drop (4 * i) (put_words ws))) 0"
    using assms by (simp add: bytes32_def)
  also have "\<dots> = ws ! i" unfolding put_words_nth [OF assms(1)]
    using bytes32_put [of "[]" 0 "ws ! i" "[]"] by simp
  finally show ?thesis .
qed

text \<open>The address of the \<open>i\<close>-th of the strings \<open>as\<close> laid out from \<open>sp\<close> on.\<close>

definition arg_addr :: "u32 \<Rightarrow> u8 list list \<Rightarrow> nat \<Rightarrow> u32" where
  "arg_addr sp as i = sp + of_nat (sum_list (map length (take i as)))"

lemma push_strings_spec:
  "length (concat as) \<le> 4294967296 \<Longrightarrow>
   push_strings as sp m = (map (arg_addr sp as) [0..<length as], write_bytes m sp (concat as))"
proof (induction as arbitrary: sp m)
  case Nil
  then show ?case by (auto simp: write_bytes_def)
next
  case (Cons a as)
  have l: "length (concat as) \<le> 4294967296" using Cons.prems by simp
  have p: "map (arg_addr sp (a # as)) [0..<length (a # as)] =
      sp # map (arg_addr (sp + of_nat (length a)) as) [0..<length as]"
  proof (rule nth_equalityI)
    fix i assume i: "i < length (map (arg_addr sp (a # as)) [0..<length (a # as)])"
    then show "map (arg_addr sp (a # as)) [0..<length (a # as)] ! i =
        (sp # map (arg_addr (sp + of_nat (length a)) as) [0..<length as]) ! i"
      by (cases i) (simp_all add: arg_addr_def add.assoc del: upt_Suc)
  qed (simp del: upt_Suc)
  have w: "write_bytes (write_bytes m sp a) (sp + of_nat (length a)) (concat as) = write_bytes m sp (concat (a # as))"
    using write_bytes_append [of a "concat as" m sp] Cons.prems by simp
  show ?case using Cons.IH [OF l] p w by simp
qed

lemma write_bytes_prepend:
  assumes "length bs + length cs \<le> 4294967296" "length bs < 4294967296"
  shows "write_bytes (write_bytes m (a + of_nat (length bs)) cs) a bs = write_bytes m a (bs @ cs)"
proof
  fix x
  let ?i = "unat (x - a)" let ?n = "length bs"
  have e: "x - (a + of_nat ?n) = (x - a) - of_nat ?n" by simp
  note n = unat_of_nat_u32 [OF assms(2)]
  show "write_bytes (write_bytes m (a + of_nat ?n) cs) a bs x = write_bytes m a (bs @ cs) x"
  proof (cases "?n \<le> ?i")
    case True
    then have "unat ((x - a) - of_nat ?n) = ?i - ?n"
      using n by (subst unat_sub) (simp_all add: word_le_nat_alt)
    then show ?thesis unfolding write_bytes_def Let_def e using True by (auto simp: nth_append)
  next
    case False
    then show ?thesis by (simp add: write_bytes_def nth_append)
  qed
qed

lemma concat_nth:
  "i < length as \<Longrightarrow> j < length (as ! i) \<Longrightarrow>
   concat as ! (sum_list (map length (take i as)) + j) = as ! i ! j \<and>
   sum_list (map length (take i as)) + j < length (concat as)"
proof -
  assume i: "i < length as" and j: "j < length (as ! i)"
  have e: "concat as = concat (take i as) @ as ! i @ concat (drop (Suc i) as)"
    using id_take_nth_drop [OF i] by (metis concat.simps(2) concat_append)
  have "length (concat (take i as)) = sum_list (map length (take i as))" by (simp add: length_concat)
  then show ?thesis using j unfolding e by (simp add: nth_append)
qed

lemma unat_framedown: "unat (framedown a) = 4096 * (unat a div 4096)"
proof -
  have "unat FRAME_SIZE = 4096" by (simp add: FRAME_SIZE_def)
  moreover have "unat a div 4096 * 4096 < 4294967296"
    by (rule le_less_trans [OF _ unat_u32_less [of a]]) simp
  ultimately show ?thesis unfolding framedown_def
    by (subst unat_mult_u32) (simp_all add: unat_div mult.commute)
qed

text \<open>Where the parts of the stack lie: the strings from \<open>base\<close>, the pointers from \<open>argvpp\<close>.\<close>

lemma stack_layout:
  assumes small: "T + 4 * n + 12 + 4096 \<le> 0x6fffe000"
  defines "base \<equiv> exec_top - of_nat T" and "argvpp \<equiv> framedown (exec_top - of_nat T) - of_nat n * 4"
  shows "unat base = 0xefffe000 - T" "unat (argvpp - 12) + 12 + 4 * n = unat (framedown base)"
    "unat (framedown base) \<le> unat base" "0x80000000 \<le> unat (argvpp - 12)"
proof -
  have t: "unat (of_nat T :: u32) = T" using small by (intro unat_of_nat_u32) simp
  have top: "unat exec_top = 0xefffe000" by (simp add: exec_top_def)
  have "(of_nat T :: u32) \<le> exec_top" unfolding word_le_nat_alt t top using small by linarith
  then show b: "unat base = 0xefffe000 - T" unfolding base_def by (subst unat_sub) (simp_all only: t top)
  show fd: "unat (framedown base) \<le> unat base" by (simp add: unat_framedown)
  have lo: "0x80000000 + 4 * n + 12 \<le> unat (framedown base)"
  proof -
    have "unat base mod 4096 < 4096" by simp
    then have "unat base < unat (framedown base) + 4096" unfolding unat_framedown
      by (metis add.commute add_less_cancel_right mod_mult_div_eq mult.commute)
    then show ?thesis using b small by linarith
  qed
  have n4: "unat (of_nat n * 4 :: u32) = 4 * n"
  proof -
    have "unat (of_nat n :: u32) = n" using small by (intro unat_of_nat_u32) simp
    then show ?thesis using small by (subst unat_mult_u32) simp_all
  qed
  have a: "unat argvpp = unat (framedown base) - 4 * n"
    unfolding argvpp_def base_def [symmetric] using lo by (subst unat_sub) (simp_all add: word_le_nat_alt n4)
  then have "unat (argvpp - 12) = unat (framedown base) - 4 * n - 12"
    using lo by (subst unat_sub) (simp_all add: word_le_nat_alt)
  then show "unat (argvpp - 12) + 12 + 4 * n = unat (framedown base)" "0x80000000 \<le> unat (argvpp - 12)"
    using lo by linarith+
qed

lemma exec_stack_memory:
  assumes small: "sum_list (map length (a # as)) + 4 * length (a # as) + 12 + 4096 \<le> 0x6fffe000"
  defines "base \<equiv> exec_top - of_nat (sum_list (map length (a # as)))"
  defines "argvpp \<equiv> framedown base - of_nat (length (a # as)) * 4"
  shows "exec_stack junk (a # as) m = (argvpp - 12,
    write_bytes (write_bytes m base (concat as)) (argvpp - 12)
      (put_words ([of_nat (length as), argvpp, 0] @ map (arg_addr base as) [0..<length as] @ [junk])))"
proof -
  have l: "length (concat as) \<le> 4294967296" using small by (simp add: length_concat)
  let ?ptrs = "map (arg_addr base as) [0..<length as]"
  have tk: "take (length (a # as)) (?ptrs @ [junk]) = ?ptrs @ [junk]" by simp
  have pp: "argvpp - 12 + of_nat (length (put_words [of_nat (length as), argvpp, 0])) = argvpp" by simp
  have pw: "put_words (xs @ ys) = put_words xs @ put_words ys" for xs ys by (simp add: put_words_def)
  have w: "write_bytes (write_bytes m1 argvpp (put_words (?ptrs @ [junk]))) (argvpp - 12)
        (put_words [of_nat (length as), argvpp, 0]) =
      write_bytes m1 (argvpp - 12) (put_words ([of_nat (length as), argvpp, 0] @ ?ptrs @ [junk]))" for m1
    unfolding pw [of "[of_nat (length as), argvpp, 0]"]
    by (rule write_bytes_prepend [of "put_words [of_nat (length as), argvpp, 0]" _ m1 "argvpp - 12", unfolded pp])
       (use small in simp_all)
  show ?thesis
    unfolding exec_stack_def Let_def list.sel push_strings_spec [OF l] prod.case
      base_def [symmetric] argvpp_def [symmetric] tk
    using w by simp
qed

lemma clear_private_low: "memSize c \<le> 0x80000000 \<Longrightarrow> clear_private c 0x80000000 m = Some m"
proof -
  assume "memSize c \<le> 0x80000000"
  then have "\<not> 0x80000000 < memSize c" by (simp only: not_less)
  then show ?thesis by (subst clear_private.simps) simp
qed

section \<open>Sample processes\<close>

text \<open>The memory of a process whose stack pointer is \<open>esp\<close> and whose call has the arguments \<open>ws\<close>.\<close>

definition call_mem :: "u32 \<Rightarrow> u32 list \<Rightarrow> byte_mem" where
  "call_mem esp ws = write_bytes (\<lambda>_. 0) (esp + 4) (put_words ws)"

lemma call_mem_arg:
  assumes "i < length ws" "length ws \<le> 1073741824"
  shows "mem32 (call_mem esp ws) (esp + 4 * (of_nat i + 1)) = ws ! i"
proof -
  have e: "esp + 4 * (of_nat i + 1) = (esp + 4) + of_nat (4 * i)" by (simp add: algebra_simps)
  show ?thesis unfolding e call_mem_def by (rule mem32_put_words [OF assms])
qed

definition demo_proc :: "u32 list \<Rightarrow> proc" where
  "demo_proc ws = fst (pcb_new 0 (call_mem 0x90000000 ws) kstate_boot)"

definition demo_k :: kstate where
  "demo_k = snd (pcb_new 0 (\<lambda>_. 0) kstate_boot)"

lemma demo_proc_ok: "proc_ok demo_k (demo_proc ws)"
proof -
  have "snd (pcb_new 0 m kstate_boot) = demo_k" for m
    by (simp add: demo_k_def pcb_new_def new_desc_def new_future_def)
  moreover have "0 < k_fresh kstate_boot" by (simp add: kstate_boot_def)
  ultimately show ?thesis using pcb_new_ok [of kstate_boot 0 "call_mem 0x90000000 ws"]
    unfolding demo_proc_def by (metis prod.collapse)
qed

lemma demo_proc_arg:
  "i < length ws \<Longrightarrow> length ws \<le> 1073741824 \<Longrightarrow> user_arg (demo_proc ws) 0x90000000 (of_nat i + 1) = ws ! i"
  using call_mem_arg [of i ws "0x90000000"]
  by (simp add: user_arg_def demo_proc_def pcb_new_def new_desc_def new_future_def)

lemma demo_proc_fields:
  "p_fd (demo_proc ws) = [1, 2, 3, 0, 0, 0, 0, 0, 0, 0]" "p_sp (demo_proc ws) = replicate 10 0"
  "p_cp (demo_proc ws) = replicate 10 0" "p_future (demo_proc ws) = 4"
  by (simp_all add: demo_proc_def pcb_new_def new_desc_def new_future_def kstate_boot_def)

section \<open>Properties\<close>

text \<open>
  C6.  \<open>read\<close> delivers the next bytes of the file.  For an open file, a buffer in private space
  that does not end on a page of an interrupt controller and a request that does not wrap, the call
  returns the number of bytes left up to the request, copies exactly those bytes of the file to the
  buffer and moves the offset behind them.
\<close>

theorem read_delivers_file:
  assumes "length (p_fd p) = 10" and "user_arg p esp 1 \<le> 9"
    and f: "f = p_fd p ! unat (user_arg p esp 1)" "f \<noteq> 0" "\<not> fd_reserved (k_desc k f)"
    and nd: "fd_file (k_desc k f) = Some nd" "node_ok d nd"
    and off: "off = unat (fd_offset (k_desc k f))" "off \<le> unat (node_size nd)"
    and buf: "buf = user_arg p esp 2" "\<not> bad_buffer c buf"
    and n: "off + unat (user_arg p esp 3) < 2 ^ 32"
    and m: "m = min (unat (user_arg p esp 3)) (unat (node_size nd) - off)"
    and gap: "\<not> in_page (buf + of_nat m) (ioAPIC c)" "\<not> in_page (buf + of_nat m) (localAPIC c)"
  shows "sys_read c d esp p k = Some (Inr (Ret (of_nat m),
    p\<lparr>p_mem := write_bytes (p_mem p) buf (take m (drop off (node_bytes d nd)))\<rparr>,
    k\<lparr>k_desc := (k_desc k)(f := (k_desc k f)\<lparr>fd_offset := fd_offset (k_desc k f) + of_nat m\<rparr>)\<rparr>))"
  using assms by (rule sys_read_exact)

text \<open>A process that has the file \<open>hello\<close> open as handle 3.\<close>

definition demo_open :: kstate where
  "demo_open = demo_k\<lparr>k_desc := (k_desc demo_k)(5 := filedesc_new\<lparr>fd_file := Some demo_file\<rparr>)\<rparr>"

definition demo_reader :: proc where
  "demo_reader = (demo_proc [3, 0x90001000, 100])\<lparr>p_fd := [1, 2, 3, 5, 0, 0, 0, 0, 0, 0]\<rparr>"

lemma demo_reader_args:
  "user_arg demo_reader 0x90000000 1 = 3" "user_arg demo_reader 0x90000000 2 = 0x90001000"
  "user_arg demo_reader 0x90000000 3 = 100"
  using demo_proc_arg [of 0 "[3, 0x90001000, 100]"] demo_proc_arg [of 1 "[3, 0x90001000, 100]"]
    demo_proc_arg [of 2 "[3, 0x90001000, 100]"]
  by (simp_all add: demo_reader_def user_arg_def)

lemma demo_reader_fd: "p_fd demo_reader = [1, 2, 3, 5, 0, 0, 0, 0, 0, 0]"
  by (simp add: demo_reader_def)

lemma demo_open_desc: "k_desc demo_open 5 = filedesc_new\<lparr>fd_file := Some demo_file\<rparr>"
  by (simp add: demo_open_def)

lemma read_delivers_file_witness:
  "sys_read config_boot demo_disk 0x90000000 demo_reader demo_open = Some (Inr (Ret 5,
     demo_reader\<lparr>p_mem := write_bytes (p_mem demo_reader) 0x90001000 [104, 101, 108, 108, 111]\<rparr>,
     demo_open\<lparr>k_desc := (k_desc demo_open)(5 := filedesc_new\<lparr>fd_file := Some demo_file, fd_offset := 5\<rparr>)\<rparr>))"
proof -
  have f: "5 = p_fd demo_reader ! unat (user_arg demo_reader 0x90000000 1)" "(5 :: nat) \<noteq> 0"
    "\<not> fd_reserved (k_desc demo_open 5)" "fd_file (k_desc demo_open 5) = Some demo_file"
    "0 = unat (fd_offset (k_desc demo_open 5))" "length (p_fd demo_reader) = 10"
    "user_arg demo_reader 0x90000000 1 \<le> 9"
    by (simp_all add: demo_reader_args demo_reader_fd demo_open_desc filedesc_new_def)
  have b: "\<not> bad_buffer config_boot 0x90001000" "\<not> in_page (0x90001000 + of_nat 5) (ioAPIC config_boot)"
    "\<not> in_page (0x90001000 + of_nat 5) (localAPIC config_boot)"
    by (simp_all add: bad_buffer_def in_page_def config_boot_def)
  have m: "0 + unat (user_arg demo_reader 0x90000000 3) < 2 ^ 32"
    "5 = min (unat (user_arg demo_reader 0x90000000 3)) (unat (node_size demo_file) - 0)"
    "0 \<le> unat (node_size demo_file)"
    by (simp_all add: demo_reader_args demo_file_facts)
  from read_delivers_file [OF f(6,7) f(1,2,3,4) demo_node_ok(2) f(5) m(3) demo_reader_args(2) [symmetric] b(1) m(1,2) b(2,3)]
  show ?thesis unfolding demo_file_bytes demo_open_desc by (simp add: filedesc_new_def)
qed

end
