(* ===== verification/Sys_Props.thy ===== *)
theory Sys_Props
  imports Sys_Correct
begin

text \<open>
  Properties of the system calls of several processes and of whole programs: handing over the exit
  code, the stack of a new program, opening by path; and the calls that go wrong.
\<close>

section \<open>Handles\<close>

text \<open>The object a handle number stands for, 0 when there is none.\<close>

definition handle_obj :: "proc \<Rightarrow> u32 \<Rightarrow> obj" where
  "handle_obj p h =
     (if h < 10 then p_fd p ! unat h else if h < 20 then p_sp p ! unat (h - 10)
      else if h < 30 then p_cp p ! unat (h - 20) else 0)"

lemma handle_slots:
  assumes "proc_ok k p"
  shows "h < 10 \<Longrightarrow> slot_at (p_fd p) (unat h) = Inr (handle_obj p h)"
    "10 \<le> h \<Longrightarrow> h < 20 \<Longrightarrow> slot_at (p_sp p) (unat (h - 10)) = Inr (handle_obj p h)"
    "20 \<le> h \<Longrightarrow> h < 30 \<Longrightarrow> slot_at (p_cp p) (unat (h - 20)) = Inr (handle_obj p h)"
proof -
  have l: "length (p_fd p) = 10" "length (p_sp p) = 10" "length (p_cp p) = 10"
    using assms by (simp_all add: proc_ok_def handles_ok_def)
  show "h < 10 \<Longrightarrow> slot_at (p_fd p) (unat h) = Inr (handle_obj p h)"
    using l by (simp add: slot_at_def handle_obj_def word_less_nat_alt)
  show "10 \<le> h \<Longrightarrow> h < 20 \<Longrightarrow> slot_at (p_sp p) (unat (h - 10)) = Inr (handle_obj p h)"
  proof -
    assume h: "10 \<le> h" "h < 20"
    then have "unat (h - 10) < 10" "\<not> h < 10"
      by (simp_all add: unat_sub word_le_nat_alt word_less_nat_alt)
    then show ?thesis using l h by (simp add: slot_at_def handle_obj_def)
  qed
  show "20 \<le> h \<Longrightarrow> h < 30 \<Longrightarrow> slot_at (p_cp p) (unat (h - 20)) = Inr (handle_obj p h)"
  proof -
    assume h: "20 \<le> h" "h < 30"
    then have "unat (h - 20) < 10" "\<not> h < 10" "\<not> h < 20"
      by (simp_all add: unat_sub word_le_nat_alt word_less_nat_alt)
    then show ?thesis using l h by (simp add: slot_at_def handle_obj_def)
  qed
qed

lemma word_cmp: "(9 < h) = (\<not> h < 10)" "(19 < h) = (\<not> h < 20)" "(29 < h) = (\<not> h < 30)"
  "(h < 10) = (\<not> 10 \<le> h)" for h :: u32
  by (simp_all add: word_less_nat_alt word_le_nat_alt) linarith+

lemma with_file_bad:
  assumes "proc_ok k p" "9 < h \<or> handle_obj p h = 0"
  shows "with_file h p k body = ret minus_1 p k"
  using assms handle_slots(1) [OF assms(1), of h] by (auto simp: with_file_def word_cmp(1))

lemma with_sem_bad:
  assumes "proc_ok k p" "h < 10 \<or> 19 < h \<or> handle_obj p h = 0"
  shows "with_sem h p k body = ret minus_1 p k"
  using assms handle_slots(2) [OF assms(1), of h] by (auto simp: with_sem_def word_cmp not_less)

lemma sys_close_bad:
  assumes "proc_ok k p" "handle_obj p (user_arg p esp 1) = 0"
  shows "sys_close esp p k = ret minus_1 p k"
  using assms(2) handle_slots [OF assms(1), of "user_arg p esp 1"]
  by (auto simp: sys_close_def Let_def word_cmp(3) not_less)

text \<open>
  Bad handles are rejected.  When the number a call is given is outside the range of the handles
  of its kind or its slot is empty, \<open>len\<close>, \<open>read\<close>, \<open>seek\<close>, \<open>up\<close>, \<open>down\<close> and \<open>close\<close>
  return \<open>-1\<close> and change nothing.
\<close>

theorem bad_handle_rejected:
  assumes "proc_ok k p" and "h = user_arg p esp 1"
  shows "(9 < h \<or> handle_obj p h = 0 \<longrightarrow> sys_len esp p k = ret minus_1 p k \<and>
      sys_read c d esp p k = ret minus_1 p k \<and> sys_seek esp p k = ret minus_1 p k) \<and>
    (h < 10 \<or> 19 < h \<or> handle_obj p h = 0 \<longrightarrow>
      sys_up esp p k = ret minus_1 p k \<and> sys_down esp p k = ret minus_1 p k) \<and>
    (handle_obj p h = 0 \<longrightarrow> sys_close esp p k = ret minus_1 p k)"
  using with_file_bad [OF assms(1), of h] with_sem_bad [OF assms(1), of h] sys_close_bad [OF assms(1), of esp]
  by (simp add: assms(2) sys_len_def sys_read_def sys_seek_def sys_up_def sys_down_def Let_def)

lemma bad_handle_rejected_witness:
  "sys_close 0x90000000 (demo_proc [4]) demo_k = ret minus_1 (demo_proc [4]) demo_k"
proof -
  have a: "user_arg (demo_proc [4]) 0x90000000 1 = 4" using demo_proc_arg [of 0 "[4]"] by simp
  have "handle_obj (demo_proc [4]) 4 = 0" by (simp add: handle_obj_def demo_proc_fields)
  then show ?thesis using bad_handle_rejected [OF demo_proc_ok a [symmetric]] by simp
qed

text \<open>
  Two calls do not check their handle.  \<open>write\<close> reads its table at whatever index it is given,
  past the end from 10 on, and \<open>wait\<close> on an empty child slot follows the null pointer.
\<close>

theorem unchecked_handles:
  assumes "proc_ok k p" and "h = user_arg p esp 1"
  shows "(10 \<le> h \<longrightarrow> sys_write c esp p k = Some (Inl OutOfRange)) \<and>
    (20 \<le> h \<and> h < 30 \<and> handle_obj p h = 0 \<and> \<not> bad_buffer c (user_arg p esp 2) \<longrightarrow>
       sys_wait c esp p k = Some (Inl NullDeref))"
proof (intro conjI impI)
  assume "10 \<le> h"
  then have "\<not> unat h < length (p_fd p)"
    using assms(1) by (simp add: proc_ok_def handles_ok_def word_le_nat_alt)
  then show "sys_write c esp p k = Some (Inl OutOfRange)"
    by (simp add: sys_write_def Let_def slot_at_def assms(2) [symmetric])
next
  assume a: "20 \<le> h \<and> h < 30 \<and> handle_obj p h = 0 \<and> \<not> bad_buffer c (user_arg p esp 2)"
  then have "slot_at (p_cp p) (unat (h - 20)) = Inr 0" "\<not> h < 20" "\<not> 29 < h"
    using handle_slots(3) [OF assms(1), of h] by (auto simp: word_cmp)
  then show "sys_wait c esp p k = Some (Inl NullDeref)" using a
    by (simp add: sys_wait_def Let_def assms(2) [symmetric])
qed

lemma unchecked_handles_witness:
  "sys_write config_boot 0x90000000 (demo_proc [77]) demo_k = Some (Inl OutOfRange)"
proof -
  have a: "user_arg (demo_proc [77]) 0x90000000 1 = 77" using demo_proc_arg [of 0 "[77]"] by simp
  show ?thesis using unchecked_handles [OF demo_proc_ok a [symmetric]] by simp
qed

section \<open>Shared descriptors\<close>

text \<open>
  Closing standard input in a child breaks the parent.  Parent and child share their
  descriptors; \<open>close\<close> of handle 0, 1 or 2 by one of them clears the \<open>reserved\<close> mark of the
  descriptor itself, which has no file, and the next \<open>len\<close> of the other follows its null file.
\<close>

theorem close_breaks_sharer:
  assumes "proc_ok k p" and "proc_ok k q" and "p_fd q = p_fd p"
    and h: "user_arg q esp 1 = h" "user_arg p esp' 1 = h" "h < 3"
    and f: "handle_obj p h = f" "f \<noteq> 0" "fd_file (k_desc k f) = None"
  shows "\<exists>k'. sys_close esp q k = ret 0 (q\<lparr>p_fd := (p_fd q)[unat h := 0]\<rparr>) k' \<and>
    sys_len esp' p k' = Some (Inl NullDeref)"
proof -
  have h10: "h < 10" "\<not> 29 < h" "\<not> 9 < h" using h(3) by (simp_all add: word_less_nat_alt)
  have sl: "slot_at (p_fd p) (unat h) = Inr f" using handle_slots(1) [OF assms(1) h10(1)] f(1) by simp
  let ?k = "k\<lparr>k_desc := (k_desc k)(f := (k_desc k f)\<lparr>fd_offset := 0, fd_reserved := False\<rparr>)\<rparr>"
  have "sys_close esp q k = ret 0 (q\<lparr>p_fd := (p_fd q)[unat h := 0]\<rparr>) ?k"
    using h h10 sl f(2) assms(3) by (simp add: sys_close_def Let_def)
  moreover have "sys_len esp' p ?k = Some (Inl NullDeref)"
    using h h10 sl f by (simp add: sys_len_def with_file_def)
  ultimately show ?thesis by blast
qed

lemma close_breaks_sharer_witness:
  "\<exists>k'. sys_close 0x90000000 (demo_proc [0]) demo_k = ret 0 ((demo_proc [0])\<lparr>p_fd := (p_fd (demo_proc [0]))[unat 0 := 0]\<rparr>) k' \<and>
     sys_len 0x90000000 (demo_proc [0]) k' = Some (Inl NullDeref)"
proof -
  have a: "user_arg (demo_proc [0]) 0x90000000 1 = 0" using demo_proc_arg [of 0 "[0]"] by simp
  have "handle_obj (demo_proc [0]) 0 = 1" by (simp add: handle_obj_def demo_proc_fields)
  moreover have "fd_file (k_desc demo_k 1) = None"
    by (simp add: demo_k_def pcb_new_def new_desc_def new_future_def kstate_boot_def filedesc_new_def)
  ultimately show ?thesis
    using close_breaks_sharer [OF demo_proc_ok demo_proc_ok refl a a, of 1] by simp
qed

section \<open>Reading behind the end\<close>

text \<open>
  Reading behind the end of a file moves the offset back.  When \<open>seek\<close> has set the offset
  behind the end, \<open>read\<close> returns \<open>-1\<close>, copies nothing, and adds this \<open>-1\<close> to the offset.
\<close>

theorem read_behind_end:
  assumes "length (p_fd p) = 10" and "user_arg p esp 1 \<le> 9"
    and f: "f = p_fd p ! unat (user_arg p esp 1)" "f \<noteq> 0" "\<not> fd_reserved (k_desc k f)"
    and nd: "fd_file (k_desc k f) = Some nd"
    and off: "node_size nd < fd_offset (k_desc k f)"
    and n: "unat (fd_offset (k_desc k f)) + unat (user_arg p esp 3) < 2 ^ 32"
    and buf: "buf = user_arg p esp 2" "\<not> bad_buffer c buf"
    and gap: "\<not> in_page (buf + (node_size nd - fd_offset (k_desc k f))) (ioAPIC c)"
      "\<not> in_page (buf + (node_size nd - fd_offset (k_desc k f))) (localAPIC c)"
  shows "sys_read c d esp p k = Some (Inr (Ret minus_1, p,
    k\<lparr>k_desc := (k_desc k)(f := (k_desc k f)\<lparr>fd_offset := fd_offset (k_desc k f) - 1\<rparr>)\<rparr>))"
proof -
  let ?off = "fd_offset (k_desc k f)" let ?n = "user_arg p esp 3"
  have "unat (?off + ?n) = unat ?off + unat ?n" using n by (subst unat_add_lem [THEN iffD1]) simp_all
  then have "node_size nd \<le> ?off + ?n" using off by (simp add: word_le_nat_alt word_less_nat_alt)
  then have amount: "read_amount c ?off (node_size nd) buf ?n = node_size nd - ?off"
    using gap by (simp add: read_amount_def Let_def)
  have "0 < node_size nd - ?off" using off by (auto simp: word_gt_0)
  then have rd: "node_read_all d nd ?off (node_size nd - ?off) = Some (Inr (-1, []))"
    unfolding node_read_all_def bread_all_def using off
    by (subst bread_loop.simps) (simp add: bread_def)
  have w: "write_bytes m b [] = m" for m b by (simp add: write_bytes_def fun_eq_iff)
  show ?thesis
    unfolding sys_read_def Let_def buf(1) [symmetric]
      with_file_open [OF assms(1,2) f(2) [unfolded f(1)]] f(1) [symmetric]
    using f(3) buf(2) rd by (simp add: nd(1) amount ret_def minus_1_def w)
qed

lemma read_behind_end_witness:
  "\<exists>k. sys_read config_boot demo_disk 0x90000000 demo_reader k = Some (Inr (Ret minus_1, demo_reader,
     k\<lparr>k_desc := (k_desc k)(5 := filedesc_new\<lparr>fd_file := Some demo_file, fd_offset := 9\<rparr>)\<rparr>))"
proof -
  let ?k = "demo_open\<lparr>k_desc := (k_desc demo_open)(5 := filedesc_new\<lparr>fd_file := Some demo_file, fd_offset := 10\<rparr>)\<rparr>"
  have sz: "node_size demo_file = 5" using demo_file_facts(1) by (metis of_nat_numeral of_nat_unat_eq)
  have f: "5 = p_fd demo_reader ! unat (user_arg demo_reader 0x90000000 1)" "(5 :: nat) \<noteq> 0"
    "\<not> fd_reserved (k_desc ?k 5)" "fd_file (k_desc ?k 5) = Some demo_file"
    "length (p_fd demo_reader) = 10" "user_arg demo_reader 0x90000000 1 \<le> 9"
    by (simp_all add: demo_reader_args demo_reader_fd filedesc_new_def)
  have b: "node_size demo_file < fd_offset (k_desc ?k 5)"
    "unat (fd_offset (k_desc ?k 5)) + unat (user_arg demo_reader 0x90000000 3) < 2 ^ 32"
    "\<not> bad_buffer config_boot 0x90001000"
    "\<not> in_page (0x90001000 + (node_size demo_file - fd_offset (k_desc ?k 5))) (ioAPIC config_boot)"
    "\<not> in_page (0x90001000 + (node_size demo_file - fd_offset (k_desc ?k 5))) (localAPIC config_boot)"
    unfolding sz by (simp_all add: demo_reader_args bad_buffer_def in_page_def config_boot_def)
  from read_behind_end [OF f(5,6) f(1-4) b(1,2) demo_reader_args(2) [symmetric] b(3-5), of demo_disk]
  show ?thesis by (intro exI [of _ ?k]) (simp add: filedesc_new_def)
qed

section \<open>Exit codes\<close>

text \<open>
  C13.  \<open>fork\<close>, \<open>exit\<close> and \<open>wait\<close> hand over the exit code.  After \<open>fork\<close> has returned the
  handle of a child to its parent, \<open>wait\<close> on that handle blocks; once the child has called
  \<open>exit\<close>, which it can, \<open>wait\<close> stores the child's exit code at the status address and returns 0.
  The child starts with the parent's memory and handles.
\<close>

theorem fork_exit_wait:
  assumes ok: "proc_ok k p" and fork: "sys_fork eip esp p k = Some (Inr (r, p1, k1))"
    and parent: "p_cp p2 = p_cp p1" "user_arg p2 esp2 1 = v" "\<not> bad_buffer c (user_arg p2 esp2 2)"
    and r: "r = Forks v child a b"
  shows "p_mem child = p_mem p \<and> p_fd child = p_fd p \<and> p_sp child = p_sp p \<and> a = eip \<and> b = esp \<and>
    sys_wait c esp2 p2 k1 = Some (Inr (Blocks, p2, k1)) \<and>
    (\<exists>k2. sys_exit esp3 child k1 = Some (Inr (Exits, child, k2)) \<and>
      sys_wait c esp2 p2 k2 = ret 0 (p2\<lparr>p_mem := write_bytes (p_mem p2) (user_arg p2 esp2 2)
        (put32 (user_arg child esp3 1))\<rparr>) k2)"
proof (rule sys_fork_result [OF ok fork])
  fix pid ch
  assume c: "pid < 10" "r = Forks (of_nat pid + 20) ch eip esp" "p1 = p\<lparr>p_cp := (p_cp p)[pid := p_future ch]\<rparr>"
    "p_fd ch = p_fd p" "p_sp ch = p_sp p" "p_mem ch = p_mem p" "p_future ch = k_fresh k + 3"
    "k_fut k1 = (k_fut k)(k_fresh k + 3 := None)"
  have ch: "ch = child" "v = of_nat pid + 20" "a = eip" "b = esp" using r c(2) by auto
  have u: "unat (of_nat pid :: u32) = pid" using c(1) by (intro unat_of_nat_u32) simp
  then have u20: "unat (of_nat pid + 20 :: u32) = pid + 20"
    using c(1) by (subst unat_add_lem [THEN iffD1]) simp_all
  have v: "\<not> v < 20" "\<not> 29 < v" "v - 20 = of_nat pid"
    using u20 c(1) by (simp_all add: ch(2) word_less_nat_alt)
  have "length (p_cp p) = 10" using ok by (simp add: proc_ok_def handles_ok_def)
  then have s: "slot_at (p_cp p2) (unat (v - 20)) = Inr (p_future child)"
    using c(1,3) parent(1) ch(1) u by (simp add: slot_at_def v(3))
  have nz: "p_future child \<noteq> 0" using c(7) ch(1) by simp
  have none: "k_fut k1 (p_future child) = None" using c(7,8) ch(1) by simp
  let ?k2 = "k1\<lparr>k_fut := (k_fut k1)(p_future child := Some (user_arg child esp3 1))\<rparr>"
  have "sys_wait c esp2 p2 k1 = Some (Inr (Blocks, p2, k1))"
    using parent s nz none v by (simp add: sys_wait_def Let_def)
  moreover have "sys_exit esp3 child k1 = Some (Inr (Exits, child, ?k2))"
    using none by (simp add: sys_exit_def Let_def)
  moreover have "sys_wait c esp2 p2 ?k2 = ret 0 (p2\<lparr>p_mem := write_bytes (p_mem p2) (user_arg p2 esp2 2)
        (put32 (user_arg child esp3 1))\<rparr>) ?k2"
    using parent s nz v by (simp add: sys_wait_def Let_def)
  ultimately show ?thesis using c ch by blast
qed

lemma fork_exit_wait_witness:
  "\<exists>r p1 k1 child k2. sys_fork 0x80001000 0x90000000 (demo_proc [20, 0x90001000]) demo_k = Some (Inr (r, p1, k1)) \<and>
     sys_exit 0x90000000 child k1 = Some (Inr (Exits, child, k2)) \<and>
     sys_wait config_boot 0x90000000 p1 k2 = ret 0 (p1\<lparr>p_mem := write_bytes (p_mem p1) 0x90001000 (put32 20)\<rparr>) k2"
proof -
  let ?p = "demo_proc [20, 0x90001000]"
  have a: "user_arg ?p 0x90000000 1 = 20" "user_arg ?p 0x90000000 2 = 0x90001000"
    using demo_proc_arg [of 0 "[20, 0x90001000]"] demo_proc_arg [of 1 "[20, 0x90001000]"] by simp_all
  have slot: "child_slot (p_cp ?p) 0 = Inr 0" by (simp add: demo_proc_fields numeral_eq_Suc)
  then obtain r p1 k1 where f: "sys_fork 0x80001000 0x90000000 ?p demo_k = Some (Inr (r, p1, k1))"
    by (simp add: sys_fork_def Let_def case_prod_beta)
  obtain child x y where r: "r = Forks 20 child x y" "p_mem p1 = p_mem ?p" "p_mem child = p_mem ?p"
    by (rule sys_fork_result [OF demo_proc_ok f]) (use slot in auto)
  have m: "user_arg p1 0x90000000 1 = 20" "user_arg p1 0x90000000 2 = 0x90001000" "user_arg child 0x90000000 1 = 20"
    using a r(2,3) by (simp_all add: user_arg_def)
  have "\<not> bad_buffer config_boot (user_arg p1 0x90000000 2)"
    unfolding m by (simp add: bad_buffer_def in_page_def config_boot_def)
  from fork_exit_wait [OF demo_proc_ok f refl m(1) this r(1), of "0x90000000"] f
  show ?thesis unfolding m by blast
qed

section \<open>The stack of a new program\<close>

lemma exec_stack_spec:
  assumes small: "sum_list (map length (a # as)) + 4 * length (a # as) + 12 + 4096 \<le> 0x6fffe000"
    and ex: "exec_stack junk (a # as) m = (sp, m')"
  shows "(\<forall>i < 4 + length as. mem32 m' (sp + of_nat (4 * i)) =
      ([of_nat (length as), sp + 12, 0] @ map (arg_addr (exec_top - of_nat (sum_list (map length (a # as)))) as)
        [0..<length as] @ [junk]) ! i)"
    and "\<forall>i < length as. \<forall>j < length (as ! i).
      m' (arg_addr (exec_top - of_nat (sum_list (map length (a # as)))) as i + of_nat j) = as ! i ! j"
    and "0x80000000 \<le> unat sp"
proof -
  let ?T = "sum_list (map length (a # as))" let ?n = "length (a # as)"
  define base where "base = exec_top - of_nat ?T"
  define W where "W = [of_nat (length as), sp + 12, 0] @ map (arg_addr base as) [0..<length as] @ [junk]"
  note lay = stack_layout [OF small]
  define argvpp where "argvpp = framedown base - of_nat ?n * 4"
  have "(sp, m') = (argvpp - 12, write_bytes (write_bytes m base (concat as)) (argvpp - 12)
      (put_words ([of_nat (length as), argvpp, 0] @ map (arg_addr base as) [0..<length as] @ [junk])))"
    using exec_stack_memory [OF small, of junk m] unfolding ex base_def [symmetric] argvpp_def [symmetric] .
  then have sp0: "sp = argvpp - 12"
    and m': "m' = write_bytes (write_bytes m base (concat as)) sp (put_words W)"
    by (simp_all add: W_def)
  have sp: "sp = framedown base - of_nat ?n * 4 - 12" unfolding sp0 argvpp_def ..
  have lw: "length W = 3 + ?n" by (simp add: W_def)
  have "mem32 m' (sp + of_nat (4 * i)) = W ! i" if "i < 4 + length as" for i
    unfolding m' by (rule mem32_put_words) (use that small lw in simp_all)
  then show "\<forall>i < 4 + length as. mem32 m' (sp + of_nat (4 * i)) =
      ([of_nat (length as), sp + 12, 0] @ map (arg_addr (exec_top - of_nat ?T) as) [0..<length as] @ [junk]) ! i"
    unfolding base_def [symmetric] W_def [symmetric] by blast
  have l3: "unat base = 0xefffe000 - ?T" "unat sp + 12 + 4 * ?n \<le> unat base"
    using lay unfolding base_def [symmetric] sp [symmetric] by linarith+
  show "0x80000000 \<le> unat sp" using lay(4) unfolding base_def [symmetric] sp [symmetric] .
  have "m' (arg_addr base as i + of_nat j) = as ! i ! j" if i: "i < length as" "j < length (as ! i)" for i j
  proof -
    let ?o = "sum_list (map length (take i as)) + j"
    note cn = concat_nth [OF i]
    have T: "length (concat as) \<le> ?T" by (simp add: length_concat)
    have x: "arg_addr base as i + of_nat j = base + of_nat ?o" by (simp add: arg_addr_def add.assoc)
    have o: "unat (of_nat ?o :: u32) = ?o" using cn T small by (intro unat_of_nat_u32) linarith
    have "unat base + ?o < 4294967296" using l3(1) cn T small by linarith
    then have ux: "unat (base + of_nat ?o) = unat base + ?o"
      using unat_add_u32 [of base "of_nat ?o"] unfolding o by blast
    have "unat (base + of_nat ?o - sp) = unat base + ?o - unat sp"
      using l3(2) ux by (subst unat_sub) (simp_all add: word_le_nat_alt)
    then have "length (put_words W) \<le> unat (base + of_nat ?o - sp)" using l3(2) lw by simp
    then have "m' (base + of_nat ?o) = write_bytes m base (concat as) (base + of_nat ?o)"
      unfolding m' by (rule write_bytes_other)
    also have "\<dots> = concat as ! ?o" by (rule write_bytes_at) (use cn T small in linarith)+
    also have "\<dots> = as ! i ! j" using cn by (rule conjunct1)
    finally show ?thesis unfolding x .
  qed
  then show "\<forall>i < length as. \<forall>j < length (as ! i). m' (arg_addr (exec_top - of_nat ?T) as i + of_nat j) = as ! i ! j"
    unfolding base_def by blast
qed

text \<open>
  C7.  \<open>exec\<close> builds the stack of the new program.  For a path and arguments that fit, the new stack
  pointer lies in private space; above it are the number of arguments, the address of the argument
  vector and a zero; entry \<open>i\<close> of the vector points to a copy of the \<open>i\<close>-th argument.  The entry
  behind the last argument is the stack word that was never written, not a null pointer.
\<close>

theorem exec_builds_stack:
  assumes "sum_list (map length (path # args)) + 4 * length (path # args) + 12 + 4096 \<le> 0x6fffe000"
    and "exec_stack junk (path # args) m = (sp, m')"
  shows "0x80000000 \<le> unat sp \<and> mem32 m' sp = of_nat (length args) \<and> mem32 m' (sp + 4) = sp + 12 \<and>
    mem32 m' (sp + 8) = 0 \<and> mem32 m' (sp + 12 + 4 * of_nat (length args)) = junk \<and>
    (\<forall>i < length args. \<forall>j < length (args ! i). m' (mem32 m' (sp + 12 + 4 * of_nat i) + of_nat j) = args ! i ! j)"
proof -
  let ?ptr = "arg_addr (exec_top - of_nat (sum_list (map length (path # args)))) args"
  note spec = exec_stack_spec [OF assms]
  note w = spec(1) [rule_format]
  have e: "sp + of_nat (4 * (3 + i)) = sp + 12 + 4 * of_nat i" for i by (simp add: algebra_simps)
  have "mem32 m' (sp + 12 + 4 * of_nat i) = ?ptr i" if "i < length args" for i
    using w [of "3 + i"] that unfolding e by (simp add: nth_append)
  moreover have "mem32 m' (sp + 12 + 4 * of_nat (length args)) = junk"
    using w [of "3 + length args"] unfolding e by (simp add: nth_append)
  ultimately show ?thesis using w [of 0] w [of 1] w [of 2] spec(2,3) by simp
qed

lemma exec_builds_stack_witness:
  "\<exists>sp m'. exec_stack 9 [[47, 115, 0], [97, 0], [98, 99, 0]] (\<lambda>_. 0) = (sp, m') \<and>
     mem32 m' sp = 2 \<and> m' (mem32 m' (sp + 12 + 4 * of_nat 1) + of_nat 1) = 99 \<and> mem32 m' (sp + 12 + 4 * of_nat 2) = 9"
proof -
  obtain sp m' where e: "exec_stack 9 [[47, 115, 0], [97, 0], [98, 99, 0]] (\<lambda>_. 0) = (sp, m')" by fastforce
  note t = exec_builds_stack [OF _ e, simplified]
  have "mem32 m' sp = 2" "mem32 m' (sp + 12 + 4 * of_nat 2) = 9" using t by simp_all
  moreover have "m' (mem32 m' (sp + 12 + 4 * of_nat 1) + of_nat 1) = 99"
    using exec_builds_stack [OF _ e] by (auto dest!: spec [of _ 1])
  ultimately show ?thesis using e by blast
qed

section \<open>Opening by path\<close>

lemma find_user_path:
  assumes "0 \<notin> set cs" "\<forall>j < length cs. m (a + of_nat j) = cs ! j" "m (a + of_nat (length cs)) = 0"
  shows "ext2_find d e (Some root) (user_string m a) = walk d e root (components cs)"
proof -
  have "at_path (user_string m a) 0 cs" using assms by (auto simp: at_path_def user_string_def cstr_def)
  then show ?thesis unfolding ext2_find_def by (rule path_loop_walk)
qed

lemma sys_open_file:
  assumes "0x80000000 \<le> user_arg p esp 1" "0 \<notin> set cs"
    and "\<forall>j < length cs. p_mem p (user_arg p esp 1 + of_nat j) = cs ! j"
    and "p_mem p (user_arg p esp 1 + of_nat (length cs)) = 0"
    and "walk d e root (components cs) = Some (Inr (Some nd))" and "first_null (p_fd p) 0 = Some i"
  shows "sys_open d e root esp p k = ret (of_nat i) (p\<lparr>p_fd := (p_fd p)[i := k_fresh k]\<rparr>)
    (k\<lparr>k_desc := (k_desc k)(k_fresh k := filedesc_new\<lparr>fd_file := Some nd\<rparr>), k_fresh := k_fresh k + 1\<rparr>)"
proof -
  have "\<not> user_arg p esp 1 < 0x80000000" using assms(1) by (simp only: not_less)
  then show ?thesis using assms(5,6)
    by (simp add: sys_open_def Let_def find_user_path [OF assms(2-4)] new_desc_def)
qed

text \<open>
  C33.  Opening a path and reading delivers the file it names.  For a terminated path in private space
  that the walk through the directories leads to a node, \<open>open\<close> returns the smallest free handle,
  and the next \<open>read\<close> on it, by any process that shares the handles, copies the first bytes of that
  node to its buffer.
\<close>

theorem open_then_read:
  assumes ok: "proc_ok k p" and path: "0x80000000 \<le> user_arg p esp 1" "0 \<notin> set cs"
      "\<forall>j < length cs. p_mem p (user_arg p esp 1 + of_nat j) = cs ! j"
      "p_mem p (user_arg p esp 1 + of_nat (length cs)) = 0"
    and nd: "walk d e root (components cs) = Some (Inr (Some nd))" "node_ok d nd"
    and free: "0 \<in> set (p_fd p)"
  shows "\<exists>i p1 k1. sys_open d e root esp p k = ret (of_nat i) p1 k1 \<and>
    i < 10 \<and> p_fd p ! i = 0 \<and> (\<forall>j < i. p_fd p ! j \<noteq> 0) \<and>
    (\<forall>p2 esp2 buf m. p_fd p2 = p_fd p1 \<longrightarrow> user_arg p2 esp2 1 = of_nat i \<longrightarrow>
       buf = user_arg p2 esp2 2 \<longrightarrow> \<not> bad_buffer c buf \<longrightarrow>
       m = min (unat (user_arg p2 esp2 3)) (unat (node_size nd)) \<longrightarrow>
       \<not> in_page (buf + of_nat m) (ioAPIC c) \<longrightarrow> \<not> in_page (buf + of_nat m) (localAPIC c) \<longrightarrow>
       (\<exists>k2. sys_read c d esp2 p2 k1 =
          ret (of_nat m) (p2\<lparr>p_mem := write_bytes (p_mem p2) buf (take m (node_bytes d nd))\<rparr>) k2))"
proof -
  have len: "length (p_fd p) = 10" "0 < k_fresh k" using ok by (simp_all add: proc_ok_def handles_ok_def)
  obtain i where i: "first_null (p_fd p) 0 = Some i" using free first_null_none [of "p_fd p" 0] by fastforce
  note least = first_null_least [OF i]
  have i10: "i < 10" using least len by simp
  have ui: "unat (of_nat i :: u32) = i" using i10 by (intro unat_of_nat_u32) simp
  define p1 where "p1 = p\<lparr>p_fd := (p_fd p)[i := k_fresh k]\<rparr>"
  define k1 where "k1 = k\<lparr>k_desc := (k_desc k)(k_fresh k := filedesc_new\<lparr>fd_file := Some nd\<rparr>), k_fresh := k_fresh k + 1\<rparr>"
  have open1: "sys_open d e root esp p k = ret (of_nat i) p1 k1"
    unfolding p1_def k1_def by (rule sys_open_file [OF path nd(1) i])
  have desc: "k_desc k1 (k_fresh k) = filedesc_new\<lparr>fd_file := Some nd\<rparr>" by (simp add: k1_def)
  have fd: "fd_offset (k_desc k1 (k_fresh k)) = 0" "fd_file (k_desc k1 (k_fresh k)) = Some nd"
    "\<not> fd_reserved (k_desc k1 (k_fresh k))" unfolding desc by (simp_all add: filedesc_new_def)
  have "\<exists>k2. sys_read c d esp2 p2 k1 =
      ret (of_nat m) (p2\<lparr>p_mem := write_bytes (p_mem p2) buf (take m (node_bytes d nd))\<rparr>) k2"
    if p2: "p_fd p2 = p_fd p1" "user_arg p2 esp2 1 = of_nat i" and buf: "buf = user_arg p2 esp2 2" "\<not> bad_buffer c buf"
      and m: "m = min (unat (user_arg p2 esp2 3)) (unat (node_size nd))"
      and gap: "\<not> in_page (buf + of_nat m) (ioAPIC c)" "\<not> in_page (buf + of_nat m) (localAPIC c)"
    for p2 esp2 buf m
  proof -
    have l2: "length (p_fd p2) = 10" using len p2 by (simp add: p1_def)
    have h: "user_arg p2 esp2 1 \<le> 9" unfolding p2(2) using i10 ui by (simp add: word_le_nat_alt)
    have f: "k_fresh k = p_fd p2 ! unat (user_arg p2 esp2 1)" unfolding p2 ui using len i10 by (simp add: p1_def)
    have n0: "k_fresh k \<noteq> 0" "0 = unat (fd_offset (k_desc k1 (k_fresh k)))" "0 \<le> unat (node_size nd)"
      using len fd by simp_all
    have n: "0 + unat (user_arg p2 esp2 3) < 2 ^ 32" using unat_u32_less [of "user_arg p2 esp2 3"] by simp
    have m0: "m = min (unat (user_arg p2 esp2 3)) (unat (node_size nd) - 0)" using m by simp
    from sys_read_exact [OF l2 h f n0(1) fd(3,2) nd(2) n0(2,3) buf n m0 gap]
    show ?thesis by (auto simp: ret_def)
  qed
  then show ?thesis using open1 i10 least by blast
qed

text \<open>The file \<open>/f\<close> of the sample disk.\<close>

definition demo_opener :: proc where
  "demo_opener = (demo_proc [0x90000010, 0])\<lparr>p_mem := write_bytes (p_mem (demo_proc [0x90000010, 0])) 0x90000010 [47, 102, 0]\<rparr>"

lemma open_then_read_witness:
  "\<exists>i p1 k1. sys_open demo_disk demo_fs demo_root 0x90000000 demo_opener demo_k = ret (of_nat i) p1 k1 \<and>
     i < 10 \<and> p_fd demo_opener ! i = 0"
proof -
  let ?m0 = "p_mem (demo_proc [0x90000010, 0])"
  have m: "p_mem demo_opener = write_bytes ?m0 0x90000010 [47, 102, 0]" "p_fd demo_opener = p_fd (demo_proc [])"
    by (simp_all add: demo_opener_def demo_proc_fields)
  have "write_bytes ?m0 0x90000010 [47, 102, 0] x = ?m0 x" if "x \<in> {0x90000004, 0x90000005, 0x90000006, 0x90000007}" for x
    using that by (intro write_bytes_other) auto
  then have "user_arg demo_opener 0x90000000 1 = user_arg (demo_proc [0x90000010, 0]) 0x90000000 1"
    by (simp add: user_arg_def m mem32_def)
  also have "\<dots> = 0x90000010" using demo_proc_arg [of 0 "[0x90000010, 0]"] by simp
  finally have a: "user_arg demo_opener 0x90000000 1 = 0x90000010" .
  have c: "p_mem demo_opener (0x90000010 + of_nat j) = [47, 102, 0] ! j" if "j < 3" for j
    unfolding m by (rule write_bytes_at) (use that in simp_all)
  have ok: "proc_ok demo_k demo_opener"
    unfolding demo_opener_def by (rule proc_ok_fields(1) [OF demo_proc_ok])
  have w: "walk demo_disk demo_fs demo_root (components [47, 102]) = Some (Inr (Some demo_file))"
    by (simp add: slash_def demo_find demo_get)
  have s: "\<forall>j < length [47, 102 :: u8]. p_mem demo_opener (user_arg demo_opener 0x90000000 1 + of_nat j) = [47, 102] ! j"
    using c [of 0] c [of 1] unfolding a by (auto simp: less_Suc_eq)
  have z: "p_mem demo_opener (user_arg demo_opener 0x90000000 1 + of_nat (length [47, 102 :: u8])) = 0"
    using c [of 2] unfolding a by simp
  have "0 \<in> set (p_fd demo_opener)" by (simp add: m demo_proc_fields)
  from open_then_read [OF ok _ _ s z w demo_node_ok(2) this, of config_boot] show ?thesis
    unfolding a by auto
qed

end
