(* ===== verification/Fork.thy ===== *)
theory Fork
  imports Vmm_Correct
begin

text \<open>
  The copy of the private pages in \<open>fork\<close> (\<open>kernel/sys.cc\<close>, case 2 of \<open>sysHandler\<close>), on
  page tables in physical memory: the loops over the directory and the tables of the parent, a fresh
  frame with the contents of the parent's for each page, and the pages of the interrupt controllers
  mapped to themselves.  It is shown that the child ends with its own copy of every page, and that
  no frame of the parent changes.
\<close>

section \<open>Operations\<close>

text \<open>\<open>treeStart\<close>: the first directory entry that is looked at.\<close>

definition tree_start :: "config \<Rightarrow> nat" where
  "tree_start c = unat (memSize c div 4096 div 1024) + 1"

text \<open>The body of the inner loop, for the page at \<open>va\<close> whose entry in the parent is \<open>pte\<close>.\<close>

definition copy_pte :: "config \<Rightarrow> u32 \<Rightarrow> u32 \<Rightarrow> u32 \<Rightarrow> phys \<Rightarrow> phys res" where
  "copy_pte c cd va pte s =
     (if va = ioAPIC c then map_page cd (ioAPIC c) (ioAPIC c OR 7) s
      else if va = localAPIC c then map_page cd (localAPIC c) (localAPIC c OR 7) s
      else if pte AND 1 \<noteq> 0 then
        rbind (alloc_frame s) (\<lambda>(f, s1).
          let child_frame = f OR 7 in
          map_page cd va child_frame
            (s1\<lparr>mem := copy_words (child_frame AND 0xFFFFF000) (pte AND 0xFFFFF000) 1024 (mem s1)\<rparr>))
      else Inr s)"

definition page_va :: "u32 \<Rightarrow> u32 \<Rightarrow> u32" where
  "page_va pdi pti = push_bit 22 pdi OR push_bit 12 pti"

text \<open>The entries a loop runs over, from \<open>n\<close> to the last.\<close>

definition entries_from :: "nat \<Rightarrow> u32 list" where
  "entries_from n = map of_nat [n..<1024]"

fun copy_table :: "config \<Rightarrow> u32 \<Rightarrow> u32 \<Rightarrow> u32 \<Rightarrow> u32 list \<Rightarrow> phys \<Rightarrow> phys res" where
  "copy_table c cd pt pdi [] s = Inr s"
| "copy_table c cd pt pdi (pti # is) s =
     rbind (copy_pte c cd (page_va pdi pti) (mem s (slot pt pti)) s) (copy_table c cd pt pdi is)"

fun copy_dir :: "config \<Rightarrow> u32 \<Rightarrow> u32 \<Rightarrow> u32 list \<Rightarrow> phys \<Rightarrow> phys res" where
  "copy_dir c pd cd [] s = Inr s"
| "copy_dir c pd cd (pdi # is) s =
     (let pde = mem s (slot pd pdi) in
      rbind (if pde AND 1 \<noteq> 0
             then copy_table c cd (pde AND 0xFFFFF000) pdi (entries_from 0) s
             else Inr s)
        (copy_dir c pd cd is))"

text \<open>\<open>pd\<close> is the directory of the parent, \<open>cd\<close> that of the child.\<close>

definition fork_copy :: "config \<Rightarrow> u32 \<Rightarrow> u32 \<Rightarrow> phys \<Rightarrow> phys res" where
  "fork_copy c pd cd s = copy_dir c pd cd (entries_from (tree_start c)) s"

section \<open>Addresses of pages\<close>

lemma page_va_indices:
  assumes "uint i < 1024" "uint j < 1024"
  shows "pdi_of (page_va i j) = i" "pti_of (page_va i j) = j" "offset (page_va i j) = 0"
proof -
  have b: "bit i n \<Longrightarrow> n < 10" "bit j n \<Longrightarrow> n < 10" for n
  proof -
    have "take_bit 10 x = x" if "uint x < 1024" for x :: u32
    proof -
      have "uint (take_bit 10 x) = uint x"
        using that by (simp add: unsigned_take_bit_eq take_bit_int_eq_self)
      then show ?thesis by (rule uint_eqD)
    qed
    then have "take_bit 10 i = i" "take_bit 10 j = j" using assms by simp_all
    then show "bit i n \<Longrightarrow> n < 10" "bit j n \<Longrightarrow> n < 10" by (metis bit_take_bit_iff)+
  qed
  have m: "(0x3FF :: u32) = mask 10" "(0xFFF :: u32) = mask 12" by (simp_all add: mask_eq_decr_exp)
  show "pdi_of (page_va i j) = i"
    unfolding pdi_of_def page_va_def
    by (rule bit_word_eqI) (auto simp: bit_simps dest: b)
  show "pti_of (page_va i j) = j"
    unfolding pti_of_def page_va_def m
    by (rule bit_word_eqI) (auto simp: bit_simps dest: b)
  show "offset (page_va i j) = 0"
    unfolding offset_def page_va_def m
    by (rule bit_word_eqI) (auto simp: bit_simps dest: b)
qed

lemma page_va_same:
  assumes "uint i < 1024" "uint j < 1024"
  shows "ppn vb = ppn (page_va i j) \<longleftrightarrow> pdi_of vb = i \<and> pti_of vb = j"
  using page_indices [of vb "page_va i j"] page_va_indices [OF assms] by simp

lemma map_page_or7: "map_page pd va (x OR 7) s = map_page pd va x s"
  by (simp add: map_page_def or.assoc)

section \<open>Frames apart from an address space\<close>

text \<open>\<open>Q\<close> holds neither the directory nor one of its tables.\<close>

definition apart_from :: "u32 set \<Rightarrow> u32 \<Rightarrow> phys \<Rightarrow> bool" where
  "apart_from Q cd s \<longleftrightarrow> cd \<notin> Q \<and>
     (\<forall>i. uint i < 1024 \<longrightarrow> present (mem s (slot cd i)) \<longrightarrow> table_of (mem s (slot cd i)) \<notin> Q)"

definition same_frames :: "u32 set \<Rightarrow> (u32 \<Rightarrow> u32) \<Rightarrow> (u32 \<Rightarrow> u32) \<Rightarrow> bool" where
  "same_frames Q m m' \<longleftrightarrow> (\<forall>q\<in>Q. \<forall>a. in_frame q a \<longrightarrow> m' a = m a)"

lemma same_frames_trans: "same_frames Q m m' \<Longrightarrow> same_frames Q' m' m'' \<Longrightarrow> Q \<subseteq> Q' \<Longrightarrow> same_frames Q m m''"
  by (auto simp: same_frames_def)

lemma same_frames_slot:
  "same_frames Q m m' \<Longrightarrow> q \<in> Q \<Longrightarrow> offset q = 0 \<Longrightarrow> uint j < 1024 \<Longrightarrow> m' (slot q j) = m (slot q j)"
  using slot_in_frame by (auto simp: same_frames_def)

lemma new_table_fresh:
  assumes "pd_inv start s fl pd" "\<not> present (mem s (slot pd (pdi_of va)))"
    and "fl \<noteq> [] \<or> p_avail s \<noteq> p_limit s" and run: "map_page pd va pa s = Inr s'"
  shows "table_of (mem s' (slot pd (pdi_of va))) \<notin> in_use start s fl"
proof -
  have room: "present (mem s (slot pd (pdi_of va))) \<or> fl \<noteq> [] \<or> p_avail s \<noteq> p_limit s"
    using assms(3) by simp
  obtain e s1 fl1 where w: "with_table pd va s = Inr (e, s1)" "pd_inv start s1 fl1 pd"
    "mem s1 (slot pd (pdi_of va)) = e" "table_of e \<noteq> pd"
    "\<not> present (mem s (slot pd (pdi_of va))) \<Longrightarrow> table_of e \<notin> in_use start s fl"
    by (rule with_table_spec [OF assms(1) room]) blast
  have "slot pd (pdi_of va) \<noteq> slot (table_of e) (pti_of va)"
    using slot_ne [OF pd_inv_pd(2) [OF w(2)] table_of_offset w(4) [symmetric] pdi_less pti_less] .
  then have "mem s' (slot pd (pdi_of va)) = e" using run w(1,3) by (auto simp: map_page_eq)
  then show ?thesis using w(5) assms(2) by simp
qed

lemma map_page_apart:
  assumes inv: "pd_inv start s fl cd" and ap: "apart_from Q cd s" and Q: "Q \<subseteq> in_use start s fl"
    and pa: "offset pa = 0" and room: "1 \<le> free_frames s fl"
  obtains s' fl' where "map_page cd va pa s = Inr s'" "pd_inv start s' fl' cd" "apart_from Q cd s'"
    "in_use start s fl \<subseteq> in_use start s' fl'" "same_frames Q (mem s) (mem s')"
    "\<And>vb. translate (mem s') cd vb = (if ppn vb = ppn va then Some (pa OR offset vb) else translate (mem s) cd vb)"
    "free_frames s fl \<le> free_frames s' fl' + 1"
proof -
  have some: "fl \<noteq> [] \<or> p_avail s \<noteq> p_limit s" by (rule free_frames_some) (use room in simp)
  then have room': "present (mem s (slot cd (pdi_of va))) \<or> fl \<noteq> [] \<or> p_avail s \<noteq> p_limit s" by simp
  obtain s' fl' t where m: "map_page cd va pa s = Inr s'" "pd_inv start s' fl' cd"
    "in_use start s' fl' = insert t (in_use start s fl)"
    "\<And>vb. translate (mem s') cd vb = (if ppn vb = ppn va then Some (pa OR offset vb) else translate (mem s) cd vb)"
    "\<And>a. \<not> in_frame cd a \<Longrightarrow> \<not> in_frame t a \<Longrightarrow> mem s' a = mem s a"
    "t = table_of (mem s' (slot cd (pdi_of va)))"
    "present (mem s (slot cd (pdi_of va))) \<Longrightarrow> t \<in> in_use start s fl \<and> fl' = fl"
    "\<And>j. uint j < 1024 \<Longrightarrow> j \<noteq> pdi_of va \<Longrightarrow> mem s' (slot cd j) = mem s (slot cd j)"
    "free_frames s' fl' + (if present (mem s (slot cd (pdi_of va))) then 0 else 1) = free_frames s fl"
    by (rule map_page_spec [OF inv pa room']) blast
  have tQ: "t \<notin> Q"
  proof (cases "present (mem s (slot cd (pdi_of va)))")
    case True
    have "with_table cd va s = Inr (mem s (slot cd (pdi_of va)), s)"
      using True by (simp add: with_table_def present_def)
    then have "s' = s\<lparr>mem := (mem s)(slot (table_of (mem s (slot cd (pdi_of va)))) (pti_of va) := pa OR 7)\<rparr>"
      using m(1) by (simp add: map_page_eq)
    moreover have "slot cd (pdi_of va) \<noteq> slot (table_of (mem s (slot cd (pdi_of va)))) (pti_of va)"
      by (rule slot_ne [OF pd_inv_pd(2) [OF inv] table_of_offset _ pdi_less pti_less])
         (use pd_inv_table [OF inv pdi_less True] in auto)
    ultimately have "t = table_of (mem s (slot cd (pdi_of va)))" using m(6) by simp
    then show ?thesis using ap pdi_less True by (auto simp: apart_from_def)
  next
    case False
    then show ?thesis using new_table_fresh [OF inv False some m(1)] m(6) Q by blast
  qed
  have "apart_from Q cd s'"
    using ap m(6,8) tQ unfolding apart_from_def by metis
  moreover have "same_frames Q (mem s) (mem s')"
    unfolding same_frames_def
  proof (intro ballI allI impI)
    fix q a assume q: "q \<in> Q" "in_frame q a"
    have o: "offset q = 0" "offset cd = 0" "offset t = 0"
      using q(1) Q in_useD(1) pd_inv_pd(2) [OF inv] m(6) by auto
    have "q \<noteq> cd" "q \<noteq> t" using q(1) ap tQ by (auto simp: apart_from_def)
    then have "\<not> in_frame cd a" "\<not> in_frame t a" using in_frame_unique q(2) o by blast+
    then show "mem s' a = mem s a" by (rule m(5))
  qed
  moreover have "free_frames s fl \<le> free_frames s' fl' + 1" using m(9) by (simp split: if_splits)
  ultimately show ?thesis using that [OF m(1,2) _ _ _ m(4)] m(3) by blast
qed

section \<open>Copied pages\<close>

text \<open>A page of the parent: its address and its entry.\<close>

type_synonym page = "u32 \<times> u32"

definition special :: "config \<Rightarrow> page \<Rightarrow> bool" where
  "special c w \<longleftrightarrow> fst w = ioAPIC c \<or> fst w = localAPIC c"

definition private_page :: "config \<Rightarrow> page \<Rightarrow> bool" where
  "private_page c w \<longleftrightarrow> \<not> special c w \<and> present (snd w)"

definition acting :: "config \<Rightarrow> page list \<Rightarrow> page list" where
  "acting c W = filter (\<lambda>w. special c w \<or> present (snd w)) W"

text \<open>What has happened between \<open>s\<close> and \<open>s'\<close> once the pages \<open>W\<close> are copied: \<open>F\<close>
  gives the new frame of each private page; \<open>Q\<close> are the frames of parent and copies before,
  \<open>Q'\<close> after; \<open>m\<close> is the memory the contents are compared with.\<close>

definition pages_copied :: "config \<Rightarrow> u32 \<Rightarrow> (u32 \<Rightarrow> u32) \<Rightarrow> page list \<Rightarrow> (u32 \<Rightarrow> u32) \<Rightarrow>
    u32 set \<Rightarrow> (u32 \<Rightarrow> u32) \<Rightarrow> bool" where
  "pages_copied c cd m W F Q m' \<longleftrightarrow>
     inj_on F (fst ` {w \<in> set W. private_page c w}) \<and>
     (\<forall>w\<in>set W. special c w \<longrightarrow> (\<forall>vb. ppn vb = ppn (fst w) \<longrightarrow> translate m' cd vb = Some vb)) \<and>
     (\<forall>w\<in>set W. private_page c w \<longrightarrow> F (fst w) \<in> Q \<and> offset (F (fst w)) = 0 \<and>
        (\<forall>vb. ppn vb = ppn (fst w) \<longrightarrow> translate m' cd vb = Some (F (fst w) OR offset vb)) \<and>
        (\<forall>j. uint j < 1024 \<longrightarrow> m' (slot (F (fst w)) j) = m (slot (table_of (snd w)) j)))"

definition copy_result :: "config \<Rightarrow> u32 \<Rightarrow> (u32 \<Rightarrow> u32) \<Rightarrow> u32 \<Rightarrow> page list \<Rightarrow> u32 set \<Rightarrow> phys \<Rightarrow>
    u32 list \<Rightarrow> (u32 \<Rightarrow> u32) \<Rightarrow> u32 set \<Rightarrow> phys \<Rightarrow> u32 list \<Rightarrow> bool" where
  "copy_result c cd m start W Q s fl F Q' s' fl' \<longleftrightarrow>
     pd_inv start s' fl' cd \<and> apart_from Q' cd s' \<and> Q' \<subseteq> in_use start s' fl' \<and> Q \<subseteq> Q' \<and>
     in_use start s fl \<subseteq> in_use start s' fl' \<and> same_frames Q (mem s) (mem s') \<and>
     free_frames s fl \<le> free_frames s' fl' + 2 * length (acting c W) \<and>
     (\<forall>vb. (\<forall>w\<in>set (acting c W). ppn vb \<noteq> ppn (fst w)) \<longrightarrow>
        translate (mem s') cd vb = translate (mem s) cd vb) \<and>
     pages_copied c cd m W F (Q' - in_use start s fl) (mem s')"

lemma copy_resultD:
  assumes "copy_result c cd m start W Q s fl F Q' s' fl'"
  shows "pd_inv start s' fl' cd" "apart_from Q' cd s'" "Q' \<subseteq> in_use start s' fl'" "Q \<subseteq> Q'"
    "in_use start s fl \<subseteq> in_use start s' fl'" "same_frames Q (mem s) (mem s')"
    "free_frames s fl \<le> free_frames s' fl' + 2 * length (acting c W)"
    "\<And>vb. (\<forall>w\<in>set (acting c W). ppn vb \<noteq> ppn (fst w)) \<Longrightarrow>
        translate (mem s') cd vb = translate (mem s) cd vb"
    "pages_copied c cd m W F (Q' - in_use start s fl) (mem s')"
  using assms by (auto simp: copy_result_def)

lemma copy_nothing:
  assumes "pd_inv start s fl cd" "apart_from Q cd s" "Q \<subseteq> in_use start s fl" "acting c W = []"
  shows "copy_result c cd m start W Q s fl F Q s fl"
proof -
  have "\<not> special c w" "\<not> private_page c w" if "w \<in> set W" for w
    using assms(4) that by (auto simp: acting_def filter_empty_conv private_page_def)
  then have "pages_copied c cd m W F (Q - in_use start s fl) (mem s)"
    by (auto simp: pages_copied_def inj_on_def)
  then show ?thesis using assms by (simp add: copy_result_def same_frames_def)
qed

lemma pages_copied_mono:
  "pages_copied c cd m W F Q m' \<Longrightarrow> Q \<subseteq> Q' \<Longrightarrow> pages_copied c cd m W F Q' m'"
  unfolding pages_copied_def by blast

text \<open>Later copies of other pages keep what has been copied.\<close>

lemma pages_copied_keep:
  assumes pc: "pages_copied c cd m W F Q m1" and same: "same_frames Q m1 m2"
    and tr: "\<And>vb w. w \<in> set W \<Longrightarrow> ppn vb = ppn (fst w) \<Longrightarrow> translate m2 cd vb = translate m1 cd vb"
  shows "pages_copied c cd m W F Q m2"
  unfolding pages_copied_def
proof (intro conjI ballI impI allI)
  show "inj_on F (fst ` {w \<in> set W. private_page c w})" using pc by (simp add: pages_copied_def)
next
  fix w vb assume "w \<in> set W" "special c w" "ppn vb = ppn (fst w)"
  then show "translate m2 cd vb = Some vb" using pc tr by (simp add: pages_copied_def)
next
  fix w assume w: "w \<in> set W" "private_page c w"
  then show "F (fst w) \<in> Q" "offset (F (fst w)) = 0" using pc by (simp_all add: pages_copied_def)
  then show "m2 (slot (F (fst w)) j) = m (slot (table_of (snd w)) j)" if "uint j < 1024" for j
    using pc w same_frames_slot [OF same _ _ that] that by (simp add: pages_copied_def)
  show "translate m2 cd vb = Some (F (fst w) OR offset vb)" if "ppn vb = ppn (fst w)" for vb
    using pc w tr [OF w(1) that] that by (simp add: pages_copied_def)
qed

lemma pages_copied_append:
  assumes a: "pages_copied c cd m W1 F1 A m'" and b: "pages_copied c cd m W2 F2 B m'"
    and d: "fst ` set W1 \<inter> fst ` set W2 = {}" "A \<inter> B = {}"
  shows "pages_copied c cd m (W1 @ W2) (\<lambda>v. if v \<in> fst ` set W1 then F1 v else F2 v) (A \<union> B) m'"
proof -
  let ?F = "\<lambda>v. if v \<in> fst ` set W1 then F1 v else F2 v"
  have f1: "?F (fst w) = F1 (fst w)" if "w \<in> set W1" for w using that by auto
  have f2: "?F (fst w) = F2 (fst w)" if "w \<in> set W2" for w using that d(1) by auto
  have inA: "w \<in> set W1 \<Longrightarrow> private_page c w \<Longrightarrow> F1 (fst w) \<in> A"
    and inB: "w \<in> set W2 \<Longrightarrow> private_page c w \<Longrightarrow> F2 (fst w) \<in> B" for w
    using a b by (simp_all add: pages_copied_def)
  have i1: "inj_on F1 (fst ` {w \<in> set W1. private_page c w})"
    and i2: "inj_on F2 (fst ` {w \<in> set W2. private_page c w})"
    using a b by (simp_all add: pages_copied_def)
  have "inj_on ?F (fst ` {w \<in> set (W1 @ W2). private_page c w})"
  proof (rule inj_onI)
    fix x y assume "x \<in> fst ` {w \<in> set (W1 @ W2). private_page c w}"
      "y \<in> fst ` {w \<in> set (W1 @ W2). private_page c w}" and e: "?F x = ?F y"
    then obtain v w where v: "x = fst v" "v \<in> set W1 \<or> v \<in> set W2" "private_page c v"
      and w: "y = fst w" "w \<in> set W1 \<or> w \<in> set W2" "private_page c w" by auto
    consider "v \<in> set W1" "w \<in> set W1" | "v \<in> set W2" "w \<in> set W2" |
      "v \<in> set W1" "w \<in> set W2" | "v \<in> set W2" "w \<in> set W1" using v(2) w(2) by blast
    then show "x = y"
    proof cases
      case 1
      then show ?thesis using inj_onD [OF i1, of x y] e f1 [OF 1(1)] f1 [OF 1(2)] v w by auto
    next
      case 2
      then show ?thesis using inj_onD [OF i2, of x y] e f2 [OF 2(1)] f2 [OF 2(2)] v w by auto
    next
      case 3
      then show ?thesis using inA [OF 3(1) v(3)] inB [OF 3(2) w(3)] f1 [OF 3(1)] f2 [OF 3(2)] e v(1) w(1) d(2) by auto
    next
      case 4
      then show ?thesis using inB [OF 4(1) v(3)] inA [OF 4(2) w(3)] f2 [OF 4(1)] f1 [OF 4(2)] e v(1) w(1) d(2) by auto
    qed
  qed
  then show ?thesis
    using a b f1 f2 unfolding pages_copied_def by (simp add: ball_Un)
qed

lemma copy_result_append:
  assumes a: "copy_result c cd m start W1 Q s fl F1 Q1 s1 fl1"
    and b: "copy_result c cd m start W2 Q1 s1 fl1 F2 Q2 s2 fl2"
    and d: "(ppn \<circ> fst) ` set W1 \<inter> (ppn \<circ> fst) ` set W2 = {}"
  shows "copy_result c cd m start (W1 @ W2) Q s fl (\<lambda>v. if v \<in> fst ` set W1 then F1 v else F2 v) Q2 s2 fl2"
proof -
  note a' = copy_resultD [OF a] and b' = copy_resultD [OF b]
  have sub: "set (acting c W) \<subseteq> set W" for W by (auto simp: acting_def)
  have ne: "ppn (fst v) \<noteq> ppn (fst w)" if "v \<in> set W1" "w \<in> set W2" for v w
    using d that by (auto simp: image_iff)
  have keep: "translate (mem s2) cd vb = translate (mem s1) cd vb"
    if w: "w \<in> set W1" "ppn vb = ppn (fst w)" for vb w
  proof (rule b'(8), rule ballI)
    fix v assume "v \<in> set (acting c W2)"
    then show "ppn vb \<noteq> ppn (fst v)" using ne [OF w(1)] w(2) sub [of W2] by simp blast
  qed
  have pc1: "pages_copied c cd m W1 F1 (Q1 - in_use start s fl) (mem s2)"
    by (rule pages_copied_keep [OF a'(9) _ keep]) (use b'(6) in \<open>auto simp: same_frames_def\<close>)
  have pc: "pages_copied c cd m (W1 @ W2) (\<lambda>v. if v \<in> fst ` set W1 then F1 v else F2 v)
      ((Q1 - in_use start s fl) \<union> (Q2 - in_use start s1 fl1)) (mem s2)"
  proof (rule pages_copied_append [OF pc1 b'(9)])
    show "fst ` set W1 \<inter> fst ` set W2 = {}" using ne by fastforce
    show "(Q1 - in_use start s fl) \<inter> (Q2 - in_use start s1 fl1) = {}" using a'(3) by blast
  qed
  have "pages_copied c cd m (W1 @ W2) (\<lambda>v. if v \<in> fst ` set W1 then F1 v else F2 v)
      (Q2 - in_use start s fl) (mem s2)"
    by (rule pages_copied_mono [OF pc]) (use a'(5) b'(4) in blast)
  moreover have "acting c (W1 @ W2) = acting c W1 @ acting c W2" by (simp add: acting_def)
  ultimately show ?thesis
    unfolding copy_result_def
    using a' b' same_frames_trans [OF a'(6) b'(6) a'(4)] by (auto simp: ball_Un)
qed

section \<open>The loops\<close>

lemma copy_pte_result:
  assumes inv: "pd_inv start s fl cd" and ap: "apart_from Q cd s" and Q: "Q \<subseteq> in_use start s fl"
    and va: "offset va = 0" and own: "private_page c (va, pte) \<Longrightarrow> table_of pte \<in> Q"
    and eq: "same_frames P m (mem s)" "private_page c (va, pte) \<Longrightarrow> table_of pte \<in> P"
    and room: "2 * length (acting c [(va, pte)]) \<le> free_frames s fl"
  obtains s' F Q' fl' where "copy_pte c cd va pte s = Inr s'"
    "copy_result c cd m start [(va, pte)] Q s fl F Q' s' fl'"
proof (cases "special c (va, pte)")
  case True
  have run: "copy_pte c cd va pte s = map_page cd va va s"
    using True by (auto simp: copy_pte_def special_def map_page_or7)
  have one: "1 \<le> free_frames s fl" using room True by (simp add: acting_def)
  obtain s' fl' where m: "map_page cd va va s = Inr s'" "pd_inv start s' fl' cd" "apart_from Q cd s'"
    "in_use start s fl \<subseteq> in_use start s' fl'" "same_frames Q (mem s) (mem s')"
    "\<And>vb. translate (mem s') cd vb = (if ppn vb = ppn va then Some (va OR offset vb) else translate (mem s) cd vb)"
    "free_frames s fl \<le> free_frames s' fl' + 1"
    by (rule map_page_apart [OF inv ap Q va one, of va]) blast
  have "pages_copied c cd m [(va, pte)] F (Q - in_use start s fl) (mem s')" for F
    using True m(6) same_page_or [OF va] by (auto simp: pages_copied_def private_page_def inj_on_def)
  then have "copy_result c cd m start [(va, pte)] Q s fl (\<lambda>v. v) Q s' fl'"
    using m Q True by (auto simp: copy_result_def acting_def)
  from that [OF _ this] show ?thesis using run m(1) by simp
next
  case sp: False
  show ?thesis
  proof (cases "present pte")
    case False
    have "copy_pte c cd va pte s = Inr s"
      using sp False by (auto simp: copy_pte_def special_def present_def)
    moreover have "acting c [(va, pte)] = []" using sp False by (simp add: acting_def)
    ultimately show ?thesis using that copy_nothing [OF inv ap Q] by blast
  next
    case True
    have priv: "private_page c (va, pte)" using sp True by (simp add: private_page_def)
    let ?p = "table_of pte"
    have two: "2 \<le> free_frames s fl" using room True by (simp add: acting_def)
    have some: "fl \<noteq> [] \<or> p_avail s \<noteq> p_limit s" by (rule free_frames_some) (use two in simp)
    obtain f s1 where al: "alloc_frame s = Inr (f, s1)" "pd_inv start s1 (tl fl) cd"
      "f \<notin> in_use start s fl" "in_use start s1 (tl fl) = insert f (in_use start s fl)" "offset f = 0"
      "mem s1 = (\<lambda>a. if in_frame f a then 0 else mem s a)"
      "\<And>vb. translate (mem s1) cd vb = translate (mem s) cd vb"
      "\<And>j. uint j < 1024 \<Longrightarrow> mem s1 (slot cd j) = mem s (slot cd j)"
      "free_frames s1 (tl fl) + 1 = free_frames s fl"
      by (rule pd_inv_alloc [OF inv some]) blast
    let ?m2 = "copy_words f ?p 1024 (mem s1)"
    let ?s2 = "s1\<lparr>mem := ?m2\<rparr>"
    have pf: "?p \<noteq> f" "?p \<in> in_use start s fl" using own [OF priv] Q al(3) by auto
    note cw = copy_words_spec [OF al(5) table_of_offset [of pte] pf(1) [symmetric], of 1024 "mem s1"]
    have out: "?m2 a = mem s1 a" "?m2 a = mem s a" if "\<not> in_frame f a" for a
      using cw that al(6) by simp_all
    have far: "\<not> in_frame f (slot u j)" if "u \<in> in_use start s fl" "uint j < 1024" for u j
      using in_frame_unique [OF al(5) in_useD(1) [OF that(1)]]
        slot_in_frame [OF in_useD(1) [OF that(1)] that(2)] al(3) that(1) by blast
    have cdu: "cd \<in> in_use start s fl" by (rule pd_inv_pd(1) [OF inv])
    have dir: "?m2 (slot cd j) = mem s (slot cd j)" if "uint j < 1024" for j
      using out(2) far [OF cdu that] by blast
    have inv2: "pd_inv start ?s2 (tl fl) cd"
    proof -
      have "pool_inv start ?s2 (tl fl)"
        by (rule pool_inv_rewrite [OF pd_inv_pool [OF al(2)], of f]) (use al(4) out in auto)
      then show ?thesis using al(2,8) dir unfolding pd_inv_def by simp
    qed
    have tr2: "translate ?m2 cd vb = translate (mem s) cd vb" for vb
      using dir [OF pdi_less] far [OF _ pti_less] out(2) pd_inv_table [OF inv pdi_less]
      unfolding translate_eq Let_def by simp
    have ap2: "apart_from (insert f Q) cd ?s2"
      using ap dir pd_inv_table [OF inv] al(3) cdu by (auto simp: apart_from_def)
    have Q2: "insert f Q \<subseteq> in_use start ?s2 (tl fl)" using Q al(4) by auto
    have one: "1 \<le> free_frames ?s2 (tl fl)" using al(9) two by simp
    obtain s' fl' where mp: "map_page cd va f ?s2 = Inr s'" "pd_inv start s' fl' cd"
      "apart_from (insert f Q) cd s'" "in_use start ?s2 (tl fl) \<subseteq> in_use start s' fl'"
      "same_frames (insert f Q) ?m2 (mem s')"
      "\<And>vb. translate (mem s') cd vb = (if ppn vb = ppn va then Some (f OR offset vb) else translate ?m2 cd vb)"
      "free_frames ?s2 (tl fl) \<le> free_frames s' fl' + 1"
      by (rule map_page_apart [OF inv2 ap2 Q2 al(5) one, of va]) simp
    have run: "copy_pte c cd va pte s = Inr s'"
      using sp True al(1,5) mp(1) map_page_or7 [of cd va f ?s2]
      by (simp add: copy_pte_def special_def present_def Let_def table_of_def [symmetric])
    have same: "same_frames Q (mem s) (mem s')"
      unfolding same_frames_def
    proof (intro ballI allI impI)
      fix q a assume q: "q \<in> Q" "in_frame q a"
      have "\<not> in_frame f a"
        using in_frame_unique [OF al(5) in_useD(1) [of q start s fl]] q Q al(3) by blast
      then show "mem s' a = mem s a" using mp(5) q out(2) by (simp add: same_frames_def)
    qed
    have "mem s' (slot f j) = m (slot ?p j)" if j: "uint j < 1024" for j
    proof -
      have "mem s' (slot f j) = ?m2 (slot f j)" using same_frames_slot [OF mp(5) _ al(5) j] by simp
      also have "\<dots> = mem s1 (slot ?p j)" using cw j by simp
      also have "\<dots> = mem s (slot ?p j)" using al(6) far [OF pf(2) j] by simp
      also have "\<dots> = m (slot ?p j)"
        by (rule same_frames_slot [OF eq(1) eq(2) [OF priv] table_of_offset j])
      finally show ?thesis .
    qed
    then have "pages_copied c cd m [(va, pte)] (\<lambda>_. f) (insert f Q - in_use start s fl) (mem s')"
      using sp al(3,5) mp(6) by (auto simp: pages_copied_def inj_on_def)
    then have "copy_result c cd m start [(va, pte)] Q s fl (\<lambda>_. f) (insert f Q) s' fl'"
      using mp(2-4,6,7) Q2 al(4,9) same tr2 sp True by (auto simp: copy_result_def acting_def)
    then show ?thesis using that run by blast
  qed
qed

text \<open>One after the other.\<close>

lemma copy_result_bind:
  assumes r: "copy_result c cd m start W1 Q s fl F1 Q1 s1 fl1"
    and d: "(ppn \<circ> fst) ` set W1 \<inter> (ppn \<circ> fst) ` set W2 = {}"
    and P: "P \<subseteq> Q" "same_frames P m (mem s)"
    and room: "2 * length (acting c (W1 @ W2)) \<le> free_frames s fl"
    and more: "\<lbrakk>pd_inv start s1 fl1 cd; apart_from Q1 cd s1; Q1 \<subseteq> in_use start s1 fl1; P \<subseteq> Q1;
        same_frames P m (mem s1); 2 * length (acting c W2) \<le> free_frames s1 fl1\<rbrakk> \<Longrightarrow>
      \<exists>s2 F2 Q2 fl2. g s1 = Inr s2 \<and> copy_result c cd m start W2 Q1 s1 fl1 F2 Q2 s2 fl2"
  shows "\<exists>s2 F Q2 fl2. g s1 = Inr s2 \<and> copy_result c cd m start (W1 @ W2) Q s fl F Q2 s2 fl2"
proof -
  note r' = copy_resultD [OF r]
  have "acting c (W1 @ W2) = acting c W1 @ acting c W2" by (simp add: acting_def)
  then have "2 * length (acting c W2) \<le> free_frames s1 fl1" using room r'(7) by simp
  moreover have "same_frames P m (mem s1)"
    using P r'(6) by (auto simp: same_frames_def)
  ultimately show ?thesis
    using more [OF r'(1-3)] P(1) r'(4) copy_result_append [OF r _ d] by blast
qed

definition table_pages :: "(u32 \<Rightarrow> u32) \<Rightarrow> u32 \<Rightarrow> u32 \<Rightarrow> u32 list \<Rightarrow> page list" where
  "table_pages m pt pdi is = map (\<lambda>pti. (page_va pdi pti, m (slot pt pti))) is"

lemma copy_table_result:
  assumes "pd_inv start s fl cd" "apart_from Q cd s" "Q \<subseteq> in_use start s fl" "P \<subseteq> Q"
    and "same_frames P m (mem s)"
    and i: "uint pdi < 1024" "distinct is" "\<forall>pti\<in>set is. uint pti < 1024"
    and own: "pt \<in> P" "offset pt = 0" "\<forall>w\<in>set (table_pages m pt pdi is). private_page c w \<longrightarrow> table_of (snd w) \<in> P"
    and "2 * length (acting c (table_pages m pt pdi is)) \<le> free_frames s fl"
  shows "\<exists>s' F Q' fl'. copy_table c cd pt pdi is s = Inr s' \<and>
    copy_result c cd m start (table_pages m pt pdi is) Q s fl F Q' s' fl'"
  using assms
proof (induction "is" arbitrary: s fl Q)
  case Nil
  then have "copy_result c cd m start [] Q s fl F Q s fl" for F
    by (intro copy_nothing) (simp_all add: acting_def)
  then show ?case by (auto simp: table_pages_def)
next
  case (Cons pti ps)
  let ?va = "page_va pdi pti" and ?pte = "m (slot pt pti)"
  have j: "uint pti < 1024" using Cons.prems(8) by simp
  have pte: "mem s (slot pt pti) = ?pte"
    using same_frames_slot [OF Cons.prems(5,9,10) j] .
  have W: "table_pages m pt pdi (pti # ps) = [(?va, ?pte)] @ table_pages m pt pdi ps"
    by (simp add: table_pages_def)
  have own: "table_of ?pte \<in> P" if "private_page c (?va, ?pte)"
    using Cons.prems(11) that by (simp add: W)
  have room: "2 * length (acting c [(?va, ?pte)]) \<le> free_frames s fl"
    using Cons.prems(12) unfolding W by (simp add: acting_def split: if_splits)
  obtain s1 F1 Q1 fl1 where st: "copy_pte c cd ?va ?pte s = Inr s1"
    "copy_result c cd m start [(?va, ?pte)] Q s fl F1 Q1 s1 fl1"
    by (rule copy_pte_result [OF Cons.prems(1-3) page_va_indices(3) [OF Cons.prems(6) j] _ Cons.prems(5) _ room])
       (use own Cons.prems(4) in auto)
  have d: "(ppn \<circ> fst) ` set [(?va, ?pte)] \<inter> (ppn \<circ> fst) ` set (table_pages m pt pdi ps) = {}"
  proof -
    have "ppn ?va \<noteq> ppn (page_va pdi k)" if "k \<in> set ps" for k
      using page_va_same [OF Cons.prems(6), of k ?va] page_va_indices [OF Cons.prems(6) j] that
        Cons.prems(7,8) by auto
    then show ?thesis unfolding table_pages_def by fastforce
  qed
  have "\<exists>s2 F Q2 fl2. copy_table c cd pt pdi ps s1 = Inr s2 \<and>
    copy_result c cd m start ([(?va, ?pte)] @ table_pages m pt pdi ps) Q s fl F Q2 s2 fl2"
  proof (rule copy_result_bind [OF st(2) d Cons.prems(4,5)])
    show "2 * length (acting c ([(?va, ?pte)] @ table_pages m pt pdi ps)) \<le> free_frames s fl"
      using Cons.prems(12) unfolding W .
    show "\<exists>s2 F2 Q2 fl2. copy_table c cd pt pdi ps s1 = Inr s2 \<and>
        copy_result c cd m start (table_pages m pt pdi ps) Q1 s1 fl1 F2 Q2 s2 fl2"
      if h: "pd_inv start s1 fl1 cd" "apart_from Q1 cd s1" "Q1 \<subseteq> in_use start s1 fl1" "P \<subseteq> Q1"
        "same_frames P m (mem s1)" "2 * length (acting c (table_pages m pt pdi ps)) \<le> free_frames s1 fl1"
      by (rule Cons.IH [OF h(1-5)]) (use Cons.prems(6-11) h(6) in \<open>simp_all add: W\<close>)
  qed
  then show ?case unfolding W using st(1) pte by simp
qed

definition dir_pages :: "(u32 \<Rightarrow> u32) \<Rightarrow> u32 \<Rightarrow> u32 list \<Rightarrow> page list" where
  "dir_pages m pd is = concat (map (\<lambda>pdi.
     if present (m (slot pd pdi)) then table_pages m (table_of (m (slot pd pdi))) pdi (entries_from 0)
     else []) is)"

lemma dir_pages_simps:
  "dir_pages m pd [] = []"
  "dir_pages m pd (pdi # is) =
     (if present (m (slot pd pdi)) then table_pages m (table_of (m (slot pd pdi))) pdi (entries_from 0)
      else []) @ dir_pages m pd is"
  by (simp_all add: dir_pages_def)

lemma entries_from_ok:
  "distinct (entries_from n)" "\<forall>i\<in>set (entries_from n). uint i < 1024"
  "i \<in> set (entries_from n) \<longleftrightarrow> int n \<le> uint i \<and> uint i < 1024"
proof -
  have u: "uint (of_nat k :: u32) = int k" if "k < 1024" for k
    using uint_of_int_u32 [of "int k"] that by simp
  have "k = l" if "k < 1024" "l < 1024" "(of_nat k :: u32) = of_nat l" for k l
    using u [OF that(1)] u [OF that(2)] that(3) by (metis of_nat_eq_iff)
  then have "inj_on (of_nat :: nat \<Rightarrow> u32) (set [n..<1024])"
    unfolding inj_on_def set_upt by (meson atLeastLessThan_iff)
  then show "distinct (entries_from n)"
    unfolding entries_from_def distinct_map by (meson distinct_upt)
  have mem: "int n \<le> uint i \<and> uint i < 1024" if i: "i \<in> set (entries_from n)" for i
  proof -
    obtain k where "i = of_nat k" "n \<le> k" "k < 1024"
      using i unfolding entries_from_def set_map set_upt by (meson atLeastLessThan_iff imageE)
    then have "uint i = int k" "n \<le> k" "k < 1024" using u by blast+
    then show ?thesis by linarith
  qed
  then show "\<forall>i\<in>set (entries_from n). uint i < 1024" by blast
  have "i \<in> set (entries_from n)" if i: "int n \<le> uint i" "uint i < 1024"
  proof -
    have "n \<le> unat i" "unat i < 1024" using i unfolding unat_eq_nat_uint by linarith+
    then have "unat i \<in> set [n..<1024]" unfolding set_upt by (meson atLeastLessThan_iff)
    then have "of_nat (unat i) \<in> set (entries_from n)" unfolding entries_from_def set_map by (rule imageI)
    then show ?thesis by (simp only: of_nat_unat ucast_id)
  qed
  then show "i \<in> set (entries_from n) \<longleftrightarrow> int n \<le> uint i \<and> uint i < 1024" using mem by blast
qed

lemma pages_pdi:
  assumes "uint pdi < 1024" "\<forall>i\<in>set is. uint i < 1024" "w \<in> set (table_pages m pt pdi is)"
  shows "pdi_of (fst w) = pdi"
  using assms page_va_indices(1) by (auto simp: table_pages_def)

lemma dir_pages_pdi:
  assumes "\<forall>i\<in>set is. uint i < 1024" "w \<in> set (dir_pages m pd is)"
  shows "pdi_of (fst w) \<in> set is"
  using assms
proof (induction "is")
  case (Cons pdi "is")
  show ?case
  proof (cases "w \<in> set (dir_pages m pd is)")
    case True
    then show ?thesis using Cons by simp
  next
    case False
    then have "w \<in> set (table_pages m (table_of (m (slot pd pdi))) pdi (entries_from 0))"
      using Cons.prems(2) by (simp add: dir_pages_simps del: set_map split: if_splits)
    from pages_pdi [OF _ entries_from_ok(2) this] show ?thesis using Cons.prems(1) by simp
  qed
qed (simp add: dir_pages_simps)

lemma copy_dir_result:
  assumes "pd_inv start s fl cd" "apart_from Q cd s" "Q \<subseteq> in_use start s fl" "P \<subseteq> Q"
    and "same_frames P m (mem s)"
    and i: "distinct is" "\<forall>i\<in>set is. uint i < 1024" and pd: "pd \<in> P" "offset pd = 0"
    and own: "\<forall>i\<in>set is. present (m (slot pd i)) \<longrightarrow> table_of (m (slot pd i)) \<in> P"
      "\<forall>w\<in>set (dir_pages m pd is). private_page c w \<longrightarrow> table_of (snd w) \<in> P"
    and "2 * length (acting c (dir_pages m pd is)) \<le> free_frames s fl"
  shows "\<exists>s' F Q' fl'. copy_dir c pd cd is s = Inr s' \<and>
    copy_result c cd m start (dir_pages m pd is) Q s fl F Q' s' fl'"
  using assms
proof (induction "is" arbitrary: s fl Q)
  case Nil
  then have "copy_result c cd m start [] Q s fl F Q s fl" for F
    by (intro copy_nothing) (simp_all add: acting_def)
  then show ?case by (auto simp: dir_pages_simps)
next
  case (Cons pdi ps)
  let ?e = "m (slot pd pdi)"
  let ?W = "if present ?e then table_pages m (table_of ?e) pdi (entries_from 0) else []"
  have i: "uint pdi < 1024" using Cons.prems(7) by simp
  have e: "mem s (slot pd pdi) = ?e" using same_frames_slot [OF Cons.prems(5,8,9) i] .
  have W: "dir_pages m pd (pdi # ps) = ?W @ dir_pages m pd ps" by (simp add: dir_pages_simps)
  let ?body = "if ?e AND 1 \<noteq> 0 then copy_table c cd (table_of ?e) pdi (entries_from 0) s else Inr s"
  have "\<exists>s1 F1 Q1 fl1. ?body = Inr s1 \<and> copy_result c cd m start ?W Q s fl F1 Q1 s1 fl1"
  proof (cases "present ?e")
    case True
    have room: "2 * length (acting c ?W) \<le> free_frames s fl"
      using Cons.prems(12) unfolding W by (simp add: acting_def)
    have "\<exists>s1 F1 Q1 fl1. copy_table c cd (table_of ?e) pdi (entries_from 0) s = Inr s1 \<and>
      copy_result c cd m start (table_pages m (table_of ?e) pdi (entries_from 0)) Q s fl F1 Q1 s1 fl1"
    proof (rule copy_table_result [OF Cons.prems(1-5) i entries_from_ok(1,2) _ table_of_offset])
      show "table_of ?e \<in> P" using Cons.prems(10) True by simp
      show "\<forall>w\<in>set (table_pages m (table_of ?e) pdi (entries_from 0)). private_page c w \<longrightarrow>
          table_of (snd w) \<in> P"
        using Cons.prems(11) True unfolding W by (simp add: ball_Un)
      show "2 * length (acting c (table_pages m (table_of ?e) pdi (entries_from 0))) \<le> free_frames s fl"
        using room True by simp
    qed
    then show ?thesis using True by (simp add: present_def)
  next
    case False
    then have "copy_result c cd m start [] Q s fl F Q s fl" for F
      using Cons.prems(1-3) by (intro copy_nothing) (simp_all add: acting_def)
    then show ?thesis using False by (auto simp: present_def)
  qed
  then obtain s1 F1 Q1 fl1 where st: "?body = Inr s1" "copy_result c cd m start ?W Q s fl F1 Q1 s1 fl1"
    by blast
  have d: "(ppn \<circ> fst) ` set ?W \<inter> (ppn \<circ> fst) ` set (dir_pages m pd ps) = {}"
  proof -
    have "ppn (fst v) \<noteq> ppn (fst w)" if vw: "v \<in> set ?W" "w \<in> set (dir_pages m pd ps)" for v w
    proof -
      have "v \<in> set (table_pages m (table_of ?e) pdi (entries_from 0))"
        using vw(1) by (simp split: if_splits)
      then have "pdi_of (fst v) = pdi" by (rule pages_pdi [OF i entries_from_ok(2)])
      moreover have "pdi_of (fst w) \<in> set ps" using dir_pages_pdi [OF _ vw(2)] Cons.prems(7) by simp
      ultimately have "pdi_of (fst v) \<noteq> pdi_of (fst w)" using Cons.prems(6) by auto
      then show ?thesis using page_indices [of "fst v" "fst w"] by simp
    qed
    then show ?thesis by fastforce
  qed
  have rest: "\<exists>s2 F Q2 fl2. copy_dir c pd cd ps s1 = Inr s2 \<and>
    copy_result c cd m start (?W @ dir_pages m pd ps) Q s fl F Q2 s2 fl2"
  proof (rule copy_result_bind [OF st(2) d Cons.prems(4,5)])
    show "2 * length (acting c (?W @ dir_pages m pd ps)) \<le> free_frames s fl"
      using Cons.prems(12) unfolding W .
    show "\<exists>s2 F2 Q2 fl2. copy_dir c pd cd ps s1 = Inr s2 \<and>
        copy_result c cd m start (dir_pages m pd ps) Q1 s1 fl1 F2 Q2 s2 fl2"
      if h: "pd_inv start s1 fl1 cd" "apart_from Q1 cd s1" "Q1 \<subseteq> in_use start s1 fl1" "P \<subseteq> Q1"
        "same_frames P m (mem s1)" "2 * length (acting c (dir_pages m pd ps)) \<le> free_frames s1 fl1"
      by (rule Cons.IH [OF h(1-5)]) (use Cons.prems(6-11) h(6) in \<open>simp_all add: W ball_Un\<close>)
  qed
  have "copy_dir c pd cd (pdi # ps) s = rbind ?body (copy_dir c pd cd ps)"
    by (simp only: copy_dir.simps Let_def table_of_def e)
  then have "copy_dir c pd cd (pdi # ps) s = copy_dir c pd cd ps s1" unfolding st(1) by simp
  then show ?case unfolding W using rest by simp
qed

section \<open>The child's copy\<close>

text \<open>The frames \<open>fork\<close> reads: the directory of the parent, the tables it goes through and the
  private pages.\<close>

definition fork_pages :: "config \<Rightarrow> u32 \<Rightarrow> (u32 \<Rightarrow> u32) \<Rightarrow> page list" where
  "fork_pages c pd m = dir_pages m pd (entries_from (tree_start c))"

definition parent_frames :: "config \<Rightarrow> u32 \<Rightarrow> (u32 \<Rightarrow> u32) \<Rightarrow> u32 set" where
  "parent_frames c pd m = insert pd (tables m pd (set (entries_from (tree_start c))) \<union>
     table_of ` snd ` {w \<in> set (fork_pages c pd m). private_page c w})"

text \<open>The addresses of the part that is copied.\<close>

definition forked :: "config \<Rightarrow> u32 \<Rightarrow> bool" where
  "forked c vb \<longleftrightarrow> int (tree_start c) \<le> uint (pdi_of vb) \<and>
     ppn vb \<noteq> ppn (ioAPIC c) \<and> ppn vb \<noteq> ppn (localAPIC c)"

lemma fork_page_va:
  assumes "w \<in> set (fork_pages c pd m)"
  shows "offset (fst w) = 0 \<and> int (tree_start c) \<le> uint (pdi_of (fst w))"
proof -
  have ok: "i \<in> set (entries_from n) \<Longrightarrow> int n \<le> uint i \<and> uint i < 1024" for i n
    using entries_from_ok(3) by blast
  show ?thesis
    using assms ok page_va_indices
    by (auto simp: fork_pages_def dir_pages_def table_pages_def split: if_splits)
qed

lemma fork_page_of:
  assumes "translate m pd vb = Some p" "int (tree_start c) \<le> uint (pdi_of vb)"
  obtains w where "w \<in> set (fork_pages c pd m)" "ppn vb = ppn (fst w)" "present (snd w)"
    "p = table_of (snd w) OR offset vb"
proof -
  let ?e = "m (slot pd (pdi_of vb))"
  let ?w = "(page_va (pdi_of vb) (pti_of vb), m (slot (table_of ?e) (pti_of vb)))"
  have t: "present ?e" "present (snd ?w)" "p = table_of (snd ?w) OR offset vb"
    using assms(1) by (auto simp: translate_eq Let_def split: if_splits)
  have "pdi_of vb \<in> set (entries_from (tree_start c))" "pti_of vb \<in> set (entries_from 0)"
    using assms(2) pdi_less [of vb] pti_less [of vb] by (simp_all add: entries_from_ok(3))
  then have "?w \<in> set (fork_pages c pd m)"
    using t(1) by (auto simp: fork_pages_def dir_pages_def table_pages_def)
  moreover have "ppn vb = ppn (fst ?w)" using page_va_same [OF pdi_less pti_less, of vb vb vb] by simp
  ultimately show ?thesis using that t(2,3) by blast
qed

lemma fork_page_mapped:
  assumes "w \<in> set (fork_pages c pd m)" "present (snd w)" "ppn vb = ppn (fst w)"
  shows "translate m pd vb = Some (table_of (snd w) OR offset vb)"
proof -
  obtain i j where ij: "i \<in> set (entries_from (tree_start c))" "j \<in> set (entries_from 0)"
    "present (m (slot pd i))" "w = (page_va i j, m (slot (table_of (m (slot pd i))) j))"
    using assms(1) by (auto simp: fork_pages_def dir_pages_def table_pages_def split: if_splits)
  have l: "uint i < 1024" "uint j < 1024" using ij(1,2) entries_from_ok(2) by blast+
  have "pdi_of vb = i" "pti_of vb = j" using assms(3) ij(4) page_va_same [OF l, of vb] by auto
  then show ?thesis using ij(3,4) assms(2) by (simp add: translate_eq Let_def)
qed

text \<open>An aligned word of a frame.\<close>

lemma aligned_slot:
  assumes "offset f = 0" "vb AND 3 = 0"
  obtains j where "f OR offset vb = slot f j" "uint j < 1024"
proof -
  let ?j = "drop_bit 2 (offset vb)"
  have m: "(0xFFF :: u32) = mask 12" "(3 :: u32) = mask 2" by (simp_all add: mask_eq_decr_exp)
  have low: "\<not> bit vb n" if "n < 2" for n
  proof -
    have "bit (vb AND 3) n = bit vb n" unfolding m using that by (simp add: bit_simps)
    then show ?thesis using assms(2) by simp
  qed
  have fl: "\<not> bit f n" if "n < 12" for n
  proof -
    have "bit (f AND 0xFFF) n = bit f n" unfolding m using that by (simp add: bit_simps)
    then show ?thesis using assms(1) by (simp add: offset_def)
  qed
  have "4 * ?j = push_bit 2 ?j" by (simp add: push_bit_eq_mult)
  also have "\<dots> = offset vb"
  proof -
    have two: "bit vb n \<Longrightarrow> 2 \<le> n" "2 \<le> n \<Longrightarrow> Suc (Suc (n - 2)) = n" for n
      using low [of n] by (meson not_less, simp)
    show ?thesis unfolding offset_def m
      by (rule bit_word_eqI) (auto simp: bit_simps two dest: two(1))
  qed
  finally have "slot f ?j = f + offset vb" by (simp add: slot_def)
  also have "\<dots> = f OR offset vb"
    by (rule disjunctive_add_eq_or, rule bit_word_eqI) (use fl in \<open>auto simp: offset_def m bit_simps\<close>)
  finally have "f OR offset vb = slot f ?j" by simp
  moreover have "uint ?j < 1024"
  proof -
    have "uint (offset vb) < 4096" by (simp add: offset_uint)
    then show ?thesis by (simp add: drop_bit_eq_div uint_div)
  qed
  ultimately show ?thesis using that by blast
qed

lemma frame_of_or: "offset f = 0 \<Longrightarrow> framedown (f OR offset vb) = f"
proof -
  assume f: "offset f = 0"
  have "ppn (f OR offset vb) = ppn f"
  proof -
    have m: "(0xFFF :: u32) = mask 12" by (simp add: mask_eq_decr_exp)
    show ?thesis unfolding ppn_def offset_def m
      by (rule bit_word_eqI) (auto simp: bit_simps)
  qed
  then show ?thesis using ppn_framedown [OF f] by simp
qed

lemma fork_copy_result:
  assumes inv: "pd_inv start s fl cd"
    and own: "parent_frames c pd (mem s) \<subseteq> in_use start s fl" "apart_from (parent_frames c pd (mem s)) cd s"
    and room: "2 * length (acting c (fork_pages c pd (mem s))) \<le> free_frames s fl"
  obtains s' F Q' fl' where "fork_copy c pd cd s = Inr s'"
    "copy_result c cd (mem s) start (fork_pages c pd (mem s)) (parent_frames c pd (mem s)) s fl F Q' s' fl'"
proof -
  let ?P = "parent_frames c pd (mem s)"
  have pd: "pd \<in> ?P" "offset pd = 0" using own(1) in_useD(1) by (auto simp: parent_frames_def)
  have t: "\<forall>i\<in>set (entries_from (tree_start c)). present (mem s (slot pd i)) \<longrightarrow> table_of (mem s (slot pd i)) \<in> ?P"
    by (auto simp: parent_frames_def tables_def)
  have l: "\<forall>w\<in>set (fork_pages c pd (mem s)). private_page c w \<longrightarrow> table_of (snd w) \<in> ?P"
    by (auto simp: parent_frames_def)
  have "\<exists>s' F Q' fl'. copy_dir c pd cd (entries_from (tree_start c)) s = Inr s' \<and>
    copy_result c cd (mem s) start (dir_pages (mem s) pd (entries_from (tree_start c))) ?P s fl F Q' s' fl'"
    by (rule copy_dir_result [OF inv own(2,1) subset_refl _ entries_from_ok(1,2) pd t])
       (use l room in \<open>simp_all add: fork_pages_def same_frames_def\<close>)
  then show ?thesis using that by (auto simp: fork_copy_def fork_pages_def)
qed

text \<open>A private page of the parent as the loop has copied it.\<close>

lemma forked_page:
  assumes r: "pages_copied c cd m (fork_pages c pd m) F Q m'"
    and h: "forked c vb" "translate m pd vb = Some p"
  obtains w where "w \<in> set (fork_pages c pd m)" "private_page c w" "ppn vb = ppn (fst w)"
    "translate m' cd vb = Some (F (fst w) OR offset vb)" "offset (F (fst w)) = 0"
    "p = table_of (snd w) OR offset vb" "vb AND 3 = 0 \<Longrightarrow> m' (F (fst w) OR offset vb) = m p"
proof -
  obtain w where w: "w \<in> set (fork_pages c pd m)" "ppn vb = ppn (fst w)" "present (snd w)"
    "p = table_of (snd w) OR offset vb"
    by (rule fork_page_of [OF h(2)]) (use h(1) in \<open>auto simp: forked_def\<close>)
  have pp: "private_page c w" using w(2,3) h(1) by (auto simp: private_page_def special_def forked_def)
  have o5: "offset (F (fst w)) = 0" and tr: "translate m' cd vb = Some (F (fst w) OR offset vb)"
    using w(1,2) pp r by (simp_all add: pages_copied_def)
  have word: "m' (F (fst w) OR offset vb) = m p" if al: "vb AND 3 = 0"
    proof -
      obtain j where j: "F (fst w) OR offset vb = slot (F (fst w)) j" "uint j < 1024"
        by (rule aligned_slot [OF o5 al])
      have o: "table_of (snd w) OR offset vb = slot (table_of (snd w)) j"
      proof -
        obtain k where k: "table_of (snd w) OR offset vb = slot (table_of (snd w)) k" "uint k < 1024"
          by (rule aligned_slot [OF table_of_offset al])
        have e: "g OR offset vb = g + offset vb" if "offset g = 0" for g
        proof -
          have "g AND offset vb = 0"
          proof -
            have "g AND offset vb = (g AND 0xFFF) AND vb" by (simp add: offset_def ac_simps)
            then show ?thesis using that by (simp add: offset_def)
          qed
          then show ?thesis by (simp add: disjunctive_add_eq_or)
        qed
        have "4 * j = 4 * k" using j(1) k(1) e [OF o5] e [OF table_of_offset, of "snd w"]
          by (simp add: slot_def)
        then show ?thesis using k(1) by (simp add: slot_def)
      qed
      show ?thesis using r w(1,4) pp j o by (simp add: pages_copied_def)
    qed
  show ?thesis by (rule that [OF w(1) pp w(2) tr o5 w(4) word])
qed


text \<open>A parent with one private page and an empty directory for the child.\<close>

definition fork_space :: phys where
  "fork_space = \<lparr>mem = mem page_space, firstFree = 0, p_avail = 0x604000, p_limit = 0x608000\<rparr>"

lemma distinct_pages:
  "distinct is \<Longrightarrow> \<forall>i\<in>set is. uint i < 1024 \<Longrightarrow> distinct (dir_pages m pd is)"
proof (induction "is")
  case (Cons i ps)
  have i: "uint i < 1024" using Cons.prems(2) by simp
  have "inj_on (\<lambda>j. (page_va i j, m (slot t j))) (set (entries_from 0))" for t
  proof (rule inj_onI)
    fix j k assume jk: "j \<in> set (entries_from 0)" "k \<in> set (entries_from 0)"
      "(page_va i j, m (slot t j)) = (page_va i k, m (slot t k))"
    have "uint j < 1024" "uint k < 1024" using jk(1,2) entries_from_ok(2) by blast+
    then show "j = k" using page_va_indices(2) [OF i] jk(3) by (metis fst_conv)
  qed
  then have "distinct (table_pages m t i (entries_from 0))" for t
    using entries_from_ok(1) by (simp add: table_pages_def distinct_map)
  moreover have "w \<notin> set (dir_pages m pd ps)" if "w \<in> set (table_pages m t i (entries_from 0))" for w t
    using pages_pdi [OF i entries_from_ok(2) that] dir_pages_pdi [of ps w m pd] Cons.prems by auto
  ultimately show ?case using Cons by (auto simp: dir_pages_simps)
qed (simp add: dir_pages_simps)

lemma fork_space_pages:
  assumes "w \<in> set (fork_pages demo_config 0x600000 (mem fork_space))"
    and "special demo_config w \<or> present (snd w)"
  shows "w = (0x80000000, 0x602007)"
proof -
  have t: "table_of 0x601007 = 0x601000" by (simp add: table_of_def)
  have o: "offset 0x600000 = 0" "offset 0x601000 = 0" by (simp_all add: offset_def)
  obtain i where i: "i \<in> set (entries_from (tree_start demo_config))" "present (mem page_space (slot 0x600000 i))"
    "w \<in> set (table_pages (mem page_space) (table_of (mem page_space (slot 0x600000 i))) i (entries_from 0))"
    using assms(1) by (auto simp: fork_pages_def dir_pages_def fork_space_def split: if_splits)
  have l: "uint i < 1024" using i(1) entries_from_ok(2) by blast
  have i5: "i = 512" using i(2) page_space_dir [OF l] by (auto split: if_splits)
  obtain j where j: "uint j < 1024" "w = (page_va 512 j, mem page_space (slot 0x601000 j))"
    using i(3) entries_from_ok(2) unfolding i5 by (auto simp: table_pages_def page_space_dir t)
  have "pdi_of (fst w) = 512" using page_va_indices(1) [of 512 j] j by simp
  then have "\<not> special demo_config w"
    by (auto simp: special_def demo_config_def pdi_of_def)
  then have p: "present (snd w)" using assms(2) by simp
  have "slot 0x601000 j \<noteq> slot 0x600000 512" by (rule slot_ne [OF o(2,1)]) (use j(1) in simp_all)
  moreover have "slot 0x601000 j = slot 0x601000 0 \<longleftrightarrow> j = 0" by (rule slot_inj [OF o(2) j(1)]) simp
  ultimately have "j = 0" using p j(2) by (auto simp: page_space_def split: if_splits)
  then show ?thesis using j(2) \<open>slot 0x601000 j \<noteq> _\<close> by (simp add: page_va_def page_space_def)
qed

lemma fork_space_ok:
  "pd_inv 0x600000 fork_space [] 0x603000"
  "parent_frames demo_config 0x600000 (mem fork_space) \<subseteq> {0x600000, 0x601000, 0x602000}"
  "{0x600000, 0x601000, 0x602000, 0x603000} \<subseteq> in_use 0x600000 fork_space []"
  "apart_from (parent_frames demo_config 0x600000 (mem fork_space)) 0x603000 fork_space"
  "2 * length (acting demo_config (fork_pages demo_config 0x600000 (mem fork_space))) \<le> free_frames fork_space []"
proof -
  show u: "{0x600000, 0x601000, 0x602000, 0x603000} \<subseteq> in_use 0x600000 fork_space []"
    by (simp add: in_use_def fork_space_def offset_def)
  have pool: "pool_inv 0x600000 fork_space []"
    by (simp add: pool_inv_def fork_space_def offset_def)
  have z: "mem fork_space a = 0" if "in_frame 0x603000 a" for a
  proof -
    have "a \<noteq> slot 0x600000 512" "a \<noteq> slot 0x601000 0" using that by (auto simp: in_frame_def slot_def)
    then show ?thesis by (simp add: fork_space_def page_space_def)
  qed
  show "pd_inv 0x600000 fork_space [] 0x603000" by (rule fresh_pd [OF pool _ z]) (use u in auto)
  have t: "table_of 0x601007 = 0x601000" "table_of 0x602007 = 0x602000" by (simp_all add: table_of_def)
  show pf: "parent_frames demo_config 0x600000 (mem fork_space) \<subseteq> {0x600000, 0x601000, 0x602000}"
  proof -
    have "tables (mem fork_space) 0x600000 (set (entries_from n)) \<subseteq> {0x601000}" for n
      using entries_from_ok(2) [of n] page_space_dir t(1)
      by (auto simp: tables_def fork_space_def split: if_splits)
    moreover have "table_of (snd w) = 0x602000"
      if "w \<in> set (fork_pages demo_config 0x600000 (mem fork_space))" "private_page demo_config w" for w
      using fork_space_pages [OF that(1)] that(2) t(2) by (simp add: private_page_def)
    ultimately show ?thesis unfolding parent_frames_def by blast
  qed
  have "\<not> present (mem fork_space (slot 0x603000 i))" if "uint i < 1024" for i
    using fresh_pd(3) [OF pool _ z that] u by auto
  then show "apart_from (parent_frames demo_config 0x600000 (mem fork_space)) 0x603000 fork_space"
    using pf by (auto simp: apart_from_def)
  have "set (acting demo_config (fork_pages demo_config 0x600000 (mem fork_space))) \<subseteq> {(0x80000000, 0x602007)}"
    using fork_space_pages by (auto simp: acting_def)
  moreover have "distinct (acting demo_config (fork_pages demo_config 0x600000 (mem fork_space)))"
    unfolding acting_def fork_pages_def by (rule distinct_filter [OF distinct_pages [OF entries_from_ok(1,2)]])
  ultimately have "length (acting demo_config (fork_pages demo_config 0x600000 (mem fork_space))) \<le> 1"
    using distinct_card card_mono [OF _ \<open>set _ \<subseteq> _\<close>] by fastforce
  moreover have "free_frames fork_space [] = 4" by (simp add: free_frames_def fork_space_def)
  ultimately show "2 * length (acting demo_config (fork_pages demo_config 0x600000 (mem fork_space))) \<le>
      free_frames fork_space []" by simp
qed


text \<open>The first entry looked at lies behind the one that holds the end of physical memory, also when
  physical memory ends at an entry's boundary; with 2 GB of it the first 4 MB of private space are
  never copied.\<close>

lemma tree_start_skips:
  "memSize c = 0x80000000 \<Longrightarrow> uint (pdi_of 0x80000000) < int (tree_start c)"
  by (simp add: tree_start_def pdi_of_def)

end
