(* ===== verification/Address_Space.thy ===== *)
theory Address_Space
  imports Fork
begin

text \<open>
  The address space of a process as a program sees it: one word at every aligned private address,
  zero until it is first written.  The page tables with frames that are handed out on the first
  fault implement it: a page fault changes nothing a program can see, a store changes the word it
  goes to and no other, \<open>unmap\<close> makes a page zero, and \<open>fork\<close> gives the child the words of the
  parent.  This is the view of memory that the theories on processes and system calls start from.
\<close>

section \<open>The view of a program\<close>

text \<open>Private addresses, the pages of the interrupt controllers left out.\<close>

definition private_va :: "config \<Rightarrow> u32 \<Rightarrow> bool" where
  "private_va c va \<longleftrightarrow> 0x80000000 \<le> uint va \<and> ppn va \<noteq> ppn (ioAPIC c) \<and> ppn va \<noteq> ppn (localAPIC c)"

definition view :: "(u32 \<Rightarrow> u32) \<Rightarrow> u32 \<Rightarrow> u32 \<Rightarrow> u32" where
  "view m pd va = (case translate m pd va of None \<Rightarrow> 0 | Some p \<Rightarrow> m p)"

text \<open>The frames of the private pages that are mapped.\<close>

definition page_frames :: "config \<Rightarrow> (u32 \<Rightarrow> u32) \<Rightarrow> u32 \<Rightarrow> u32 set" where
  "page_frames c m pd = {framedown p | va p. private_va c va \<and> translate m pd va = Some p}"

definition space_inv :: "config \<Rightarrow> u32 \<Rightarrow> phys \<Rightarrow> u32 list \<Rightarrow> u32 \<Rightarrow> bool" where
  "space_inv c start s fl pd \<longleftrightarrow>
     pd_inv start s fl pd \<and> page_frames c (mem s) pd \<subseteq> in_use start s fl \<and>
     apart_from (page_frames c (mem s) pd) pd s \<and>
     (\<forall>va vb p q. private_va c va \<longrightarrow> private_va c vb \<longrightarrow> translate (mem s) pd va = Some p \<longrightarrow>
        translate (mem s) pd vb = Some q \<longrightarrow> framedown p = framedown q \<longrightarrow> ppn va = ppn vb)"

text \<open>An access of a program: a word is loaded or stored through the page tables; when the page is not
  mapped the processor enters the page fault handler first and tries again.\<close>

definition touch :: "u32 \<Rightarrow> u32 \<Rightarrow> phys \<Rightarrow> phys res" where
  "touch pd va s = (if translate (mem s) pd va = None then vmm_pageFault pd pd pd va s else Inr s)"

definition user_load :: "u32 \<Rightarrow> u32 \<Rightarrow> phys \<Rightarrow> (u32 \<times> phys) res" where
  "user_load pd va s =
     rbind (touch pd va s) (\<lambda>s1.
       case translate (mem s1) pd va of None \<Rightarrow> Inl Panic | Some p \<Rightarrow> Inr (mem s1 p, s1))"

definition user_store :: "u32 \<Rightarrow> u32 \<Rightarrow> u32 \<Rightarrow> phys \<Rightarrow> phys res" where
  "user_store pd va v s =
     rbind (touch pd va s) (\<lambda>s1.
       case translate (mem s1) pd va of None \<Rightarrow> Inl Panic
       | Some p \<Rightarrow> Inr (s1\<lparr>mem := (mem s1)(p := v)\<rparr>))"

section \<open>Facts about the mapping\<close>

lemma space_invD:
  assumes "space_inv c start s fl pd"
  shows "pd_inv start s fl pd" "page_frames c (mem s) pd \<subseteq> in_use start s fl"
    "apart_from (page_frames c (mem s) pd) pd s"
    "\<And>va vb p q. private_va c va \<Longrightarrow> private_va c vb \<Longrightarrow> translate (mem s) pd va = Some p \<Longrightarrow>
        translate (mem s) pd vb = Some q \<Longrightarrow> framedown p = framedown q \<Longrightarrow> ppn va = ppn vb"
  using assms unfolding space_inv_def by blast+

lemma translate_form:
  assumes "translate m pd va = Some p"
  obtains f where "offset f = 0" "p = f OR offset va" "framedown p = f" "\<And>vb. ppn vb = ppn va \<Longrightarrow>
    translate m pd vb = Some (f OR offset vb)"
proof -
  let ?e = "m (slot (table_of (m (slot pd (pdi_of va)))) (pti_of va))"
  have t: "present (m (slot pd (pdi_of va)))" "present ?e" "p = table_of ?e OR offset va"
    using assms by (auto simp: translate_eq Let_def split: if_splits)
  have same: "translate m pd vb = Some (table_of ?e OR offset vb)" if "ppn vb = ppn va" for vb
  proof -
    have "pdi_of vb = pdi_of va" "pti_of vb = pti_of va" using page_indices [of vb va] that by simp_all
    then show ?thesis using t(1,2) by (simp add: translate_eq Let_def)
  qed
  show ?thesis using that [OF table_of_offset t(3) _ same] frame_of_or [OF table_of_offset] t(3) by blast
qed

lemma private_page_eq: "ppn vb = ppn va \<Longrightarrow> private_va c va \<Longrightarrow> private_va c vb"
proof -
  assume h: "ppn vb = ppn va" "private_va c va"
  have "uint va div 4096 = uint vb div 4096" using h(1) ppn_uint by metis
  moreover have h8: "0x80000000 \<le> uint va" using h(2) by (simp add: private_va_def)
  have "524288 \<le> uint va div 4096" using zdiv_mono1 [OF h8, of 4096] by simp
  moreover have "4096 * (uint vb div 4096) \<le> uint vb" by simp
  ultimately have "0x80000000 \<le> uint vb" by linarith
  then show ?thesis using h by (simp add: private_va_def)
qed

lemma in_frame_or:
  assumes "offset f = 0"
  shows "in_frame f (f OR offset va)"
proof -
  let ?p = "f OR offset va"
  have "framedown ?p = f" by (rule frame_of_or [OF assms])
  then have "uint f = 4096 * (uint ?p div 4096)" using framedown_uint [of ?p] by simp
  then show ?thesis by (simp add: in_frame_def) linarith
qed

lemma or_offset_inj:
  assumes "offset f = 0" "offset g = 0" "f OR offset va = g OR offset vb" "ppn va = ppn vb"
  shows "va = vb"
proof -
  have off: "offset (h OR offset v) = offset v" if "offset h = 0" for h v
    using that by (simp add: offset_def bit.conj_disj_distrib2 and.assoc)
  have "offset va = offset vb" using off [OF assms(1), of va] off [OF assms(2), of vb] assms(3) by simp
  then show ?thesis using table_of_or_offset [of va] table_of_or_offset [of vb] assms(4)
    by (simp add: table_of_ppn)
qed

section \<open>Page faults are invisible\<close>

lemma fault_space:
  assumes inv: "space_inv c start s fl pd" and fa: "private_va c fa" "translate (mem s) pd fa = None"
    and room: "2 \<le> free_frames s fl"
  obtains s' fl' where "vmm_pageFault pd pd pd fa s = Inr s'" "space_inv c start s' fl' pd"
    "translate (mem s') pd fa \<noteq> None" "\<And>va. private_va c va \<Longrightarrow> va AND 3 = 0 \<Longrightarrow> view (mem s') pd va = view (mem s) pd va"
    "in_use start s fl \<subseteq> in_use start s' fl'" "free_frames s fl \<le> free_frames s' fl' + 2"
proof -
  note d = space_invD [OF inv]
  let ?Q = "page_frames c (mem s) pd" and ?va = "framedown fa"
  have some: "fl \<noteq> [] \<or> p_avail s \<noteq> p_limit s" by (rule free_frames_some) (use room in simp)
  obtain f s1 where al: "alloc_frame s = Inr (f, s1)" "pd_inv start s1 (tl fl) pd"
    "f \<notin> in_use start s fl" "in_use start s1 (tl fl) = insert f (in_use start s fl)" "offset f = 0"
    "mem s1 = (\<lambda>a. if in_frame f a then 0 else mem s a)"
    "\<And>vb. translate (mem s1) pd vb = translate (mem s) pd vb"
    "\<And>j. uint j < 1024 \<Longrightarrow> mem s1 (slot pd j) = mem s (slot pd j)"
    "free_frames s1 (tl fl) + 1 = free_frames s fl"
    by (rule pd_inv_alloc [OF d(1) some]) blast
  have pdu: "pd \<in> in_use start s fl" by (rule pd_inv_pd(1) [OF d(1)])
  have ap: "apart_from (insert f ?Q) pd s1"
    using d(3) al(3,8) pd_inv_table [OF d(1)] pdu by (auto simp: apart_from_def)
  have Q: "insert f ?Q \<subseteq> in_use start s1 (tl fl)" using d(2) al(4) by auto
  have one: "1 \<le> free_frames s1 (tl fl)" using al(9) room by simp
  obtain s' fl' where mp: "map_page pd ?va f s1 = Inr s'" "pd_inv start s' fl' pd"
    "apart_from (insert f ?Q) pd s'" "in_use start s1 (tl fl) \<subseteq> in_use start s' fl'"
    "same_frames (insert f ?Q) (mem s1) (mem s')"
    "\<And>vb. translate (mem s') pd vb = (if ppn vb = ppn ?va then Some (f OR offset vb) else translate (mem s1) pd vb)"
    "free_frames s1 (tl fl) \<le> free_frames s' fl' + 1"
    by (rule map_page_apart [OF al(2) ap Q al(5) one, of ?va]) blast
  have tr: "translate (mem s') pd vb = (if ppn vb = ppn fa then Some (f OR offset vb) else translate (mem s) pd vb)" for vb
    using mp(6) [of vb] al(7) by simp
  have "0x80000000 \<le> uint ?va"
  proof -
    have "0x80000000 \<le> uint fa" using fa(1) by (simp add: private_va_def)
    then show ?thesis by (simp add: framedown_uint)
  qed
  then have "0x80000000 \<le> ?va" by (simp add: word_le_def)
  then have run: "vmm_pageFault pd pd pd fa s = Inr s'"
    using al(1) mp(1) by (simp add: vmm_pageFault_def)
  have unmapped: "translate (mem s) pd vb = None" if "ppn vb = ppn fa" for vb
    using translate_form [of "mem s" pd vb] fa(2) that by (metis not_None_eq)
  have pf: "page_frames c (mem s') pd \<subseteq> insert f ?Q"
  proof
    fix g assume "g \<in> page_frames c (mem s') pd"
    then obtain va p where g: "g = framedown p" "private_va c va" "translate (mem s') pd va = Some p"
      by (auto simp: page_frames_def)
    show "g \<in> insert f ?Q"
    proof (cases "ppn va = ppn fa")
      case True
      then show ?thesis using g(1,3) tr frame_of_or [OF al(5)] by auto
    next
      case False
      then show ?thesis using g tr by (auto simp: page_frames_def)
    qed
  qed
  have inj: "ppn va = ppn vb"
    if h: "private_va c va" "private_va c vb" "translate (mem s') pd va = Some p"
      "translate (mem s') pd vb = Some q" "framedown p = framedown q" for va vb p q
  proof -
    have own: "framedown r \<noteq> f" if "private_va c v" "translate (mem s) pd v = Some r" for v r
      using that d(2) al(3) by (auto simp: page_frames_def)
    show ?thesis
      using h d(4) [of va vb p q] own [of va p] own [of vb q] tr [of va] tr [of vb]
        frame_of_or [OF al(5), of va] frame_of_or [OF al(5), of vb]
      by (auto split: if_splits)
  qed
  have inv': "space_inv c start s' fl' pd"
    unfolding space_inv_def
  proof (intro conjI allI impI)
    show "page_frames c (mem s') pd \<subseteq> in_use start s' fl'" using pf Q mp(4) by blast
    show "apart_from (page_frames c (mem s') pd) pd s'" using mp(3) pf by (auto simp: apart_from_def)
  qed (use mp(2) inj in blast)+
  have vw: "view (mem s') pd va = view (mem s) pd va" if va: "private_va c va" "va AND 3 = 0" for va
  proof (cases "ppn va = ppn fa")
    case True
    have "in_frame f (f OR offset va)" by (rule in_frame_or [OF al(5)])
    then have "mem s' (f OR offset va) = 0" using mp(5) al(6) by (simp add: same_frames_def)
    then show ?thesis using tr [of va] True unmapped [OF True] by (simp add: view_def)
  next
    case False
    show ?thesis
    proof (cases "translate (mem s) pd va")
      case None
      then show ?thesis using tr [of va] False by (simp add: view_def)
    next
      case (Some p)
      obtain g where g: "offset g = 0" "p = g OR offset va" "framedown p = g"
        by (rule translate_form [OF Some])
      have gQ: "g \<in> ?Q" using Some va(1) g(3) by (auto simp: page_frames_def)
      have fr: "in_frame g p" using in_frame_or [OF g(1)] g(2) by simp
      have "g \<noteq> f" using gQ d(2) al(3) by blast
      then have "\<not> in_frame f p" using in_frame_unique [OF al(5) g(1)] fr by blast
      then have "mem s' p = mem s p" using mp(5) gQ fr al(6) by (simp add: same_frames_def)
      then show ?thesis using tr [of va] False Some by (simp add: view_def)
    qed
  qed
  have tn: "translate (mem s') pd fa \<noteq> None" using tr [of fa] by simp
  have sub: "in_use start s fl \<subseteq> in_use start s' fl'" using al(4) mp(4) by blast
  have fr: "free_frames s fl \<le> free_frames s' fl' + 2" using al(9) mp(7) by linarith
  show ?thesis by (rule that [OF run inv' tn _ sub fr]) (rule vw)
qed

lemma touch_space:
  assumes inv: "space_inv c start s fl pd" and va: "private_va c va" and room: "2 \<le> free_frames s fl"
  obtains s' fl' where "touch pd va s = Inr s'" "space_inv c start s' fl' pd" "translate (mem s') pd va \<noteq> None"
    "\<And>vb. private_va c vb \<Longrightarrow> vb AND 3 = 0 \<Longrightarrow> view (mem s') pd vb = view (mem s) pd vb"
    "in_use start s fl \<subseteq> in_use start s' fl'" "free_frames s fl \<le> free_frames s' fl' + 2"
proof (cases "translate (mem s) pd va")
  case None
  show ?thesis
    by (rule fault_space [OF inv va None room]) (use that None in \<open>simp add: touch_def\<close>)
next
  case (Some p)
  show ?thesis by (rule that [of s fl]) (use Some inv in \<open>simp_all add: touch_def\<close>)
qed

section \<open>Loads and stores\<close>

text \<open>
  C9.  A store goes where it should and nowhere else.  In a well-formed address space with two free
  frames, a store to an aligned private address succeeds, through a page fault when the page is not
  there yet, keeps the address space well-formed, and is an update of one word of the program's view;
  a load after it gives the word back, and loads and faults change the view of no address.
\<close>

theorem store_updates_view:
  assumes inv: "space_inv c start s fl pd" and va: "private_va c va" "va AND 3 = 0"
    and room: "2 \<le> free_frames s fl"
  shows "\<exists>s' fl'. user_store pd va v s = Inr s' \<and> space_inv c start s' fl' pd \<and>
    (\<forall>vb. private_va c vb \<and> vb AND 3 = 0 \<longrightarrow>
       view (mem s') pd vb = (if vb = va then v else view (mem s) pd vb)) \<and>
    user_load pd va s' = Inr (v, s')"
proof -
  obtain s1 fl1 where t: "touch pd va s = Inr s1" "space_inv c start s1 fl1 pd"
    "translate (mem s1) pd va \<noteq> None"
    "\<And>vb. private_va c vb \<Longrightarrow> vb AND 3 = 0 \<Longrightarrow> view (mem s1) pd vb = view (mem s) pd vb"
    by (rule touch_space [OF inv va(1) room]) blast
  obtain p where p: "translate (mem s1) pd va = Some p" using t(3) by blast
  note d = space_invD [OF t(2)]
  obtain f where f: "offset f = 0" "p = f OR offset va" "framedown p = f" by (rule translate_form [OF p])
  have fQ: "f \<in> page_frames c (mem s1) pd" using p va(1) f(3) by (auto simp: page_frames_def)
  then have fu: "f \<in> in_use start s1 fl1" and apart: "f \<noteq> pd"
    "\<And>i. uint i < 1024 \<Longrightarrow> present (mem s1 (slot pd i)) \<Longrightarrow> table_of (mem s1 (slot pd i)) \<noteq> f"
    using d(2,3) by (auto simp: apart_from_def)
  have pf: "in_frame f p" using in_frame_or [OF f(1)] f(2) by simp
  let ?s' = "s1\<lparr>mem := (mem s1)(p := v)\<rparr>"
  have keep: "mem ?s' (slot u j) = mem s1 (slot u j)" if "offset u = 0" "u \<noteq> f" "uint j < 1024" for u j
  proof -
    have "\<not> in_frame f (slot u j)" using in_frame_unique [OF f(1) that(1)] slot_in_frame [OF that(1,3)] that(2) by blast
    then show ?thesis using pf by auto
  qed
  have pdo: "offset pd = 0" by (rule pd_inv_pd(2) [OF d(1)])
  have dir: "mem ?s' (slot pd j) = mem s1 (slot pd j)" if "uint j < 1024" for j
    using keep [OF pdo _ that] apart(1) by blast
  have tr: "translate (mem ?s') pd vb = translate (mem s1) pd vb" for vb
    using dir [OF pdi_less] keep [OF table_of_offset _ pti_less] apart(2) [OF pdi_less]
    unfolding translate_eq Let_def by simp
  have "pool_inv start ?s' fl1" by (rule pool_inv_write [OF pd_inv_pool [OF d(1)] fu pf])
  then have inv1: "pd_inv start ?s' fl1 pd" using d(1) dir unfolding pd_inv_def by simp
  have "page_frames c (mem ?s') pd = page_frames c (mem s1) pd" by (simp only: page_frames_def tr)
  then have inv': "space_inv c start ?s' fl1 pd"
  proof -
    have "apart_from (page_frames c (mem s1) pd) pd ?s'"
      using d(3) dir unfolding apart_from_def by metis
    moreover have "in_use start ?s' fl1 = in_use start s1 fl1" by (simp add: in_use_def)
    ultimately show ?thesis
      using inv1 d(2) d(4) \<open>page_frames c (mem ?s') pd = _\<close>
      unfolding space_inv_def tr by (intro conjI allI impI) (blast | simp only:)+
  qed
  have "view (mem ?s') pd vb = (if vb = va then v else view (mem s1) pd vb)"
    if vb: "private_va c vb" "vb AND 3 = 0" for vb
  proof (cases "translate (mem s1) pd vb")
    case None
    then show ?thesis using tr [of vb] p by (auto simp: view_def)
  next
    case (Some q)
    have "q = p \<longleftrightarrow> vb = va"
    proof
      assume "q = p"
      then have "ppn va = ppn vb" using d(4) [OF va(1) vb(1) p Some] by simp
      obtain g where "offset g = 0" "q = g OR offset vb" by (rule translate_form [OF Some])
      then show "vb = va" using or_offset_inj [of f g va vb] f(1,2) \<open>q = p\<close> \<open>ppn va = ppn vb\<close> by simp
    qed (use p Some in simp)
    then show ?thesis using tr [of vb] Some by (simp add: view_def)
  qed
  then have "view (mem ?s') pd vb = (if vb = va then v else view (mem s) pd vb)"
    if "private_va c vb" "vb AND 3 = 0" for vb using t(4) that by simp
  moreover have "user_store pd va v s = Inr ?s'" using t(1) p by (simp add: user_store_def)
  moreover have "user_load pd va ?s' = Inr (v, ?s')" using tr [of va] p by (simp add: user_load_def touch_def)
  ultimately show ?thesis using inv' by blast
qed

lemma load_reads_view:
  assumes "space_inv c start s fl pd" and "private_va c va" "va AND 3 = 0" and "2 \<le> free_frames s fl"
  shows "\<exists>s' fl'. user_load pd va s = Inr (view (mem s) pd va, s') \<and> space_inv c start s' fl' pd \<and>
    (\<forall>vb. private_va c vb \<and> vb AND 3 = 0 \<longrightarrow> view (mem s') pd vb = view (mem s) pd vb)"
proof -
  obtain s1 fl1 where t: "touch pd va s = Inr s1" "space_inv c start s1 fl1 pd"
    "translate (mem s1) pd va \<noteq> None"
    "\<And>vb. private_va c vb \<Longrightarrow> vb AND 3 = 0 \<Longrightarrow> view (mem s1) pd vb = view (mem s) pd vb"
    by (rule touch_space [OF assms(1,2,4)]) blast
  obtain p where p: "translate (mem s1) pd va = Some p" using t(3) by blast
  have "user_load pd va s = Inr (mem s1 p, s1)" using t(1) p by (simp add: user_load_def)
  moreover have "mem s1 p = view (mem s) pd va" using t(4) [OF assms(2,3)] p by (simp add: view_def)
  ultimately show ?thesis using t(2,4) by auto
qed

lemma empty_space_view: "space_inv demo_config 0x600000 empty_space [] 0x600000"
proof -
  have "\<not> present (mem empty_space (slot 0x600000 i))" if "uint i < 1024" for i
    using slot_in_frame [of "0x600000" i] that by (simp add: empty_space_def offset_def)
  then have "translate (mem empty_space) 0x600000 va = None" for va
    using pdi_less [of va] by (simp add: translate_eq)
  then have "page_frames demo_config (mem empty_space) 0x600000 = {}" by (simp add: page_frames_def)
  then show ?thesis
    using empty_space_inv(1) \<open>\<And>va. translate _ _ va = None\<close>
    by (simp add: space_inv_def apart_from_def)
qed

lemma store_updates_view_witness:
  "\<exists>s'. user_store 0x600000 0x80000004 77 empty_space = Inr s' \<and>
     view (mem s') 0x600000 0x80000004 = 77 \<and> user_load 0x600000 0x80000004 s' = Inr (77, s')"
proof -
  have va: "private_va demo_config 0x80000004" "(0x80000004 :: u32) AND 3 = 0"
    by (simp_all add: private_va_def demo_config_def ppn_def)
  obtain s' where s': "user_store 0x600000 0x80000004 77 empty_space = Inr s'"
    "\<forall>vb. private_va demo_config vb \<and> vb AND 3 = 0 \<longrightarrow>
       view (mem s') 0x600000 vb = (if vb = 0x80000004 then 77 else view (mem empty_space) 0x600000 vb)"
    "user_load 0x600000 0x80000004 s' = Inr (77, s')"
    using store_updates_view [OF empty_space_view va, of 77] empty_space_inv(2) by auto
  moreover have "view (mem s') 0x600000 0x80000004 = 77" using s'(2) va by simp
  ultimately show ?thesis by blast
qed

section \<open>fork\<close>

text \<open>When the child has no private page of its own before, its view after \<open>fork\<close> is the parent's.\<close>

lemma fork_same_view:
  assumes inv: "pd_inv start s fl cd"
    and own: "parent_frames c pd (mem s) \<subseteq> in_use start s fl" "apart_from (parent_frames c pd (mem s)) cd s"
    and room: "2 * length (acting c (fork_pages c pd (mem s))) \<le> free_frames s fl"
    and fresh: "\<And>va. forked c va \<Longrightarrow> translate (mem s) cd va = None"
  shows "\<exists>s' fl'. fork_copy c pd cd s = Inr s' \<and> pd_inv start s' fl' cd \<and>
    (\<forall>va. forked c va \<and> va AND 3 = 0 \<longrightarrow> view (mem s') cd va = view (mem s) pd va)"
proof -
  obtain s' F Q' fl' where r: "fork_copy c pd cd s = Inr s'"
    "copy_result c cd (mem s) start (fork_pages c pd (mem s)) (parent_frames c pd (mem s)) s fl F Q' s' fl'"
    by (rule fork_copy_result [OF inv own room])
  note r' = copy_resultD [OF r(2)]
  have "view (mem s') cd va = view (mem s) pd va" if va: "forked c va" "va AND 3 = 0" for va
  proof (cases "translate (mem s) pd va")
    case None
    have "translate (mem s') cd va = translate (mem s) cd va"
    proof (rule r'(8), rule ballI, rule notI)
      fix w assume w: "w \<in> set (acting c (fork_pages c pd (mem s)))" and e: "ppn va = ppn (fst w)"
      then have "w \<in> set (fork_pages c pd (mem s))" "present (snd w)"
        using va(1) by (auto simp: acting_def special_def forked_def)
      then show False using fork_page_mapped e None by fastforce
    qed
    then show ?thesis using None fresh [OF va(1)] by (simp add: view_def)
  next
    case (Some p)
    show ?thesis by (rule forked_page [OF r'(9) va(1) Some]) (use Some va(2) in \<open>simp add: view_def\<close>)
  qed
  then show ?thesis using r(1) r'(1) by blast
qed

end
