(* ===== verification/Locks.thy ===== *)
theory Locks
  imports Prelude
begin

text \<open>
  The locks of \<open>kernel/atomic.h\<close>: the interrupt flag of a core, atomic variables, and the three
  spinning locks built from them, \<open>SpinLock\<close>, \<open>InterruptSafeLock\<close> and \<open>ISL\<close>.  Any number
  of cores run; a step is one access to a shared variable or to the core's own flags, in any
  interleaving.  A core that holds a lock keeps its interrupts as the lock left them.
\<close>

section \<open>Interrupts and atomic variables\<close>

text \<open>Bit 9 of the flags register.\<close>

definition is_disabled :: "u32 \<Rightarrow> bool" where
  "is_disabled flags \<longleftrightarrow> flags AND 0x200 = 0"

definition cli :: "u32 \<Rightarrow> u32" where
  "cli flags = flags AND NOT 0x200"

definition sti :: "u32 \<Rightarrow> u32" where
  "sti flags = flags OR 0x200"

definition disable_irq :: "u32 \<Rightarrow> bool \<times> u32" where
  "disable_irq flags =
     (let wasDisabled = is_disabled flags in (wasDisabled, if \<not> wasDisabled then cli flags else flags))"

definition restore_irq :: "bool \<Rightarrow> u32 \<Rightarrow> u32" where
  "restore_irq wasDisabled flags = (if \<not> wasDisabled then sti flags else flags)"

definition exchange :: "'a \<Rightarrow> 'a \<Rightarrow> 'a \<times> 'a" where
  "exchange v x = (x, v)"

definition fetch_add :: "u32 \<Rightarrow> u32 \<Rightarrow> u32 \<times> u32" where
  "fetch_add inc x = (x, x + inc)"

definition add_fetch :: "u32 \<Rightarrow> u32 \<Rightarrow> u32 \<times> u32" where
  "add_fetch inc x = (x + inc, x + inc)"

text \<open>\<open>Interrupts::protect\<close>: the work runs with interrupts off.\<close>

definition protect :: "('s \<Rightarrow> 's) \<Rightarrow> u32 \<times> 's \<Rightarrow> u32 \<times> 's" where
  "protect work = (\<lambda>(flags, s). case disable_irq flags of (was, f1) \<Rightarrow> (restore_irq was f1, work s))"

section \<open>The locks\<close>

datatype spin_pc = P_out | P_xchg | P_in | P_free

record 't spin =
  sp_taken :: bool
  sp_pc :: "'t \<Rightarrow> spin_pc"

definition spin_init :: "'t spin" where
  "spin_init = \<lparr>sp_taken = False, sp_pc = (\<lambda>_. P_out)\<rparr>"

definition spin_step :: "'t \<Rightarrow> 't spin \<Rightarrow> 't spin option" where
  "spin_step t s =
     (case sp_pc s t of
        P_xchg \<Rightarrow> (case exchange True (sp_taken s) of (old, new) \<Rightarrow>
          Some (s\<lparr>sp_taken := new, sp_pc := (sp_pc s)(t := if old then P_xchg else P_in)\<rparr>))
      | P_free \<Rightarrow> Some (s\<lparr>sp_taken := False, sp_pc := (sp_pc s)(t := P_out)\<rparr>)
      | _ \<Rightarrow> None)"

text \<open>\<open>InterruptSafeLock\<close> keeps what it found in the member \<open>was\<close>.\<close>

datatype safe_pc = S_out | S_disable | S_xchg bool | S_retry bool | S_store bool | S_in
  | S_read | S_free bool | S_restore bool

record 't safe =
  sl_taken :: bool
  sl_was :: bool
  sl_flags :: "'t \<Rightarrow> u32"
  sl_pc :: "'t \<Rightarrow> safe_pc"

definition safe_init :: "('t \<Rightarrow> u32) \<Rightarrow> 't safe" where
  "safe_init fl = \<lparr>sl_taken = False, sl_was = False, sl_flags = fl, sl_pc = (\<lambda>_. S_out)\<rparr>"

definition safe_at :: "'t \<Rightarrow> safe_pc \<Rightarrow> 't safe \<Rightarrow> 't safe" where
  "safe_at t p s = s\<lparr>sl_pc := (sl_pc s)(t := p)\<rparr>"

definition safe_step :: "'t \<Rightarrow> 't safe \<Rightarrow> 't safe option" where
  "safe_step t s =
     (case sl_pc s t of
        S_disable \<Rightarrow> (case disable_irq (sl_flags s t) of (wasDisabled, f) \<Rightarrow>
          Some (safe_at t (S_xchg wasDisabled) (s\<lparr>sl_flags := (sl_flags s)(t := f)\<rparr>)))
      | S_xchg w \<Rightarrow> (case exchange True (sl_taken s) of (old, new) \<Rightarrow>
          Some (safe_at t (if old then S_retry w else S_store w) (s\<lparr>sl_taken := new\<rparr>)))
      | S_retry w \<Rightarrow> Some (safe_at t S_disable (s\<lparr>sl_flags := (sl_flags s)(t := restore_irq w (sl_flags s t))\<rparr>))
      | S_store w \<Rightarrow> Some (safe_at t S_in (s\<lparr>sl_was := w\<rparr>))
      | S_read \<Rightarrow> Some (safe_at t (S_free (sl_was s)) s)
      | S_free w \<Rightarrow> Some (safe_at t (S_restore w) (s\<lparr>sl_taken := False\<rparr>))
      | S_restore w \<Rightarrow> Some (safe_at t S_out (s\<lparr>sl_flags := (sl_flags s)(t := restore_irq w (sl_flags s t))\<rparr>))
      | _ \<Rightarrow> None)"

text \<open>\<open>ISL\<close> returns what it found, and \<open>unlock\<close> is told how to leave the flag.\<close>

datatype isl_pc = I_out | I_disable | I_xchg bool | I_retry bool | I_in bool | I_free bool | I_flag bool

record 't isl =
  il_taken :: bool
  il_flags :: "'t \<Rightarrow> u32"
  il_pc :: "'t \<Rightarrow> isl_pc"

definition isl_init :: "('t \<Rightarrow> u32) \<Rightarrow> 't isl" where
  "isl_init fl = \<lparr>il_taken = False, il_flags = fl, il_pc = (\<lambda>_. I_out)\<rparr>"

definition isl_at :: "'t \<Rightarrow> isl_pc \<Rightarrow> 't isl \<Rightarrow> 't isl" where
  "isl_at t p s = s\<lparr>il_pc := (il_pc s)(t := p)\<rparr>"

definition isl_step :: "'t \<Rightarrow> 't isl \<Rightarrow> 't isl option" where
  "isl_step t s =
     (case il_pc s t of
        I_disable \<Rightarrow> (case disable_irq (il_flags s t) of (wasDisabled, f) \<Rightarrow>
          Some (isl_at t (I_xchg wasDisabled) (s\<lparr>il_flags := (il_flags s)(t := f)\<rparr>)))
      | I_xchg w \<Rightarrow> (case exchange True (il_taken s) of (old, new) \<Rightarrow>
          Some (isl_at t (if old then I_retry w else I_in w) (s\<lparr>il_taken := new\<rparr>)))
      | I_retry w \<Rightarrow> Some (isl_at t I_disable (s\<lparr>il_flags := (il_flags s)(t := restore_irq w (il_flags s t))\<rparr>))
      | I_free d \<Rightarrow> Some (isl_at t (I_flag d) (s\<lparr>il_taken := False\<rparr>))
      | I_flag d \<Rightarrow> Some (isl_at t I_out
          (s\<lparr>il_flags := (il_flags s)(t := if d then cli (il_flags s t) else sti (il_flags s t))\<rparr>))
      | _ \<Rightarrow> None)"

section \<open>Mutual exclusion\<close>

text \<open>What the three have in common: a step changes only the stepping core's side, a core gets in
  only by finding the lock free and marking it taken, and frees it on its way out.\<close>

locale lock_protocol =
  fixes step :: "'t \<Rightarrow> 's \<Rightarrow> 's option"
    and taken :: "'s \<Rightarrow> bool"
    and inside :: "'s \<Rightarrow> 't \<Rightarrow> bool"
  assumes others: "step t s = Some s' \<Longrightarrow> u \<noteq> t \<Longrightarrow> inside s' u = inside s u"
    and moves: "step t s = Some s' \<Longrightarrow>
      inside s' t = inside s t \<and> taken s' = taken s \<or>
      \<not> inside s t \<and> \<not> taken s \<and> inside s' t \<and> taken s' \<or>
      inside s t \<and> \<not> inside s' t \<and> \<not> taken s'"
begin

definition exclusive :: "'s \<Rightarrow> bool" where
  "exclusive s \<longleftrightarrow> (\<forall>t u. inside s t \<longrightarrow> inside s u \<longrightarrow> t = u) \<and> (taken s \<longleftrightarrow> (\<exists>t. inside s t))"

lemma exclusive_step:
  assumes "exclusive s" "step t s = Some s'"
  shows "exclusive s'"
proof -
  have o: "inside s' u = inside s u" if "u \<noteq> t" for u by (rule others [OF assms(2) that])
  show ?thesis
    using moves [OF assms(2)] assms(1) o unfolding exclusive_def by metis
qed

lemma exclusive_cong:
  "exclusive s \<Longrightarrow> taken s' = taken s \<Longrightarrow> (\<And>u. inside s' u = inside s u) \<Longrightarrow> exclusive s'"
  by (simp add: exclusive_def)

lemma exclusive_init: "\<not> taken s \<Longrightarrow> (\<And>t. \<not> inside s t) \<Longrightarrow> exclusive s"
  by (simp add: exclusive_def)

end

definition spin_inside :: "'t spin \<Rightarrow> 't \<Rightarrow> bool" where
  "spin_inside s t \<longleftrightarrow> sp_pc s t \<in> {P_in, P_free}"

fun safe_owns :: "safe_pc \<Rightarrow> bool" where
  "safe_owns (S_store w) = True" | "safe_owns S_in = True" | "safe_owns S_read = True"
| "safe_owns (S_free w) = True" | "safe_owns p = False"

definition safe_inside :: "'t safe \<Rightarrow> 't \<Rightarrow> bool" where
  "safe_inside s t \<longleftrightarrow> safe_owns (sl_pc s t)"

fun isl_owns :: "isl_pc \<Rightarrow> bool" where
  "isl_owns (I_in w) = True" | "isl_owns (I_free d) = True" | "isl_owns p = False"

definition isl_inside :: "'t isl \<Rightarrow> 't \<Rightarrow> bool" where
  "isl_inside s t \<longleftrightarrow> isl_owns (il_pc s t)"

interpretation spin: lock_protocol spin_step sp_taken spin_inside
  by unfold_locales (auto simp: spin_step_def spin_inside_def exchange_def split: spin_pc.splits if_splits)

interpretation safe: lock_protocol safe_step sl_taken safe_inside
  by unfold_locales
     (auto simp: safe_step_def safe_inside_def exchange_def safe_at_def split: safe_pc.splits prod.splits if_splits)

interpretation isl: lock_protocol isl_step il_taken isl_inside
  by unfold_locales
     (auto simp: isl_step_def isl_inside_def exchange_def isl_at_def split: isl_pc.splits prod.splits if_splits)

section \<open>The flag of the core\<close>

lemma or_back: "(\<And>n. bit c n \<Longrightarrow> bit f n) \<Longrightarrow> (f AND NOT c) OR c = f" for c f :: u32
  by (rule bit_word_eqI) (auto simp: bit_simps)

lemma irq_simps:
  "is_disabled (cli f)" "\<not> is_disabled (sti f)" "is_disabled (snd (disable_irq f))"
  "fst (disable_irq f) = is_disabled f" "restore_irq (is_disabled f) (snd (disable_irq f)) = f"
proof -
  show c: "is_disabled (cli f)" for f by (simp add: is_disabled_def cli_def and.assoc)
  have "(f OR 0x200) AND 0x200 = 0x200" by (simp add: bit.conj_disj_distrib2)
  then show "\<not> is_disabled (sti f)" by (simp add: is_disabled_def sti_def)
  show "is_disabled (snd (disable_irq f))" using c by (simp add: disable_irq_def Let_def)
  show "fst (disable_irq f) = is_disabled f" by (simp add: disable_irq_def Let_def)
  show "restore_irq (is_disabled f) (snd (disable_irq f)) = f"
  proof (cases "is_disabled f")
    case True
    then show ?thesis by (simp add: restore_irq_def disable_irq_def)
  next
    case False
    have b9: "bit (0x200 :: u32) n \<longleftrightarrow> n = 9" for n
    proof -
      have e: "(0x200 :: u32) = push_bit 9 1" by simp
      show ?thesis unfolding e by (simp only: bit_push_bit_iff bit_1_iff possible_bit_word) auto
    qed
    have b: "bit f 9"
    proof -
      have "f AND push_bit 9 1 \<noteq> 0" using False by (simp add: is_disabled_def)
      then show ?thesis unfolding bit_iff_and_push_bit_not_eq_0 .
    qed
    have "sti (cli f) = f"
      unfolding sti_def cli_def by (rule or_back) (metis b b9)
    then show ?thesis using False by (simp add: restore_irq_def disable_irq_def)
  qed
qed

lemma protect_restores: "fst (protect work (f, s)) = f"
  using irq_simps(4,5) [of f] by (cases "disable_irq f") (simp add: protect_def)

section \<open>InterruptSafeLock\<close>

text \<open>The states that can be reached; \<open>g t\<close> is what the flags of the core \<open>t\<close> were when it last
  called \<open>lock\<close>.  Outside the lock a core changes its flags as it likes.\<close>

inductive safe_reach :: "('t \<Rightarrow> u32) \<Rightarrow> 't safe \<Rightarrow> bool" where
  init: "safe_reach g (safe_init fl)"
| flags: "safe_reach g s \<Longrightarrow> sl_pc s t = S_out \<Longrightarrow> safe_reach g (s\<lparr>sl_flags := (sl_flags s)(t := f)\<rparr>)"
| lock: "safe_reach g s \<Longrightarrow> sl_pc s t = S_out \<Longrightarrow> safe_reach (g(t := sl_flags s t)) (safe_at t S_disable s)"
| unlock: "safe_reach g s \<Longrightarrow> sl_pc s t = S_in \<Longrightarrow> safe_reach g (safe_at t S_read s)"
| step: "safe_reach g s \<Longrightarrow> safe_step t s = Some s' \<Longrightarrow> safe_reach g s'"

definition off :: "u32 \<Rightarrow> u32" where
  "off f = snd (disable_irq f)"

fun safe_point :: "u32 \<Rightarrow> bool \<Rightarrow> u32 \<Rightarrow> safe_pc \<Rightarrow> bool" where
  "safe_point g was f S_out = True"
| "safe_point g was f S_disable = (f = g)"
| "safe_point g was f (S_xchg w) = (f = off g \<and> w = is_disabled g)"
| "safe_point g was f (S_retry w) = (f = off g \<and> w = is_disabled g)"
| "safe_point g was f (S_store w) = (f = off g \<and> w = is_disabled g)"
| "safe_point g was f S_in = (f = off g \<and> was = is_disabled g)"
| "safe_point g was f S_read = (f = off g \<and> was = is_disabled g)"
| "safe_point g was f (S_free w) = (f = off g \<and> w = is_disabled g)"
| "safe_point g was f (S_restore w) = (f = off g \<and> w = is_disabled g)"

definition safe_inv :: "('t \<Rightarrow> u32) \<Rightarrow> 't safe \<Rightarrow> bool" where
  "safe_inv g s \<longleftrightarrow> safe.exclusive s \<and> (\<forall>t. safe_point (g t) (sl_was s) (sl_flags s t) (sl_pc s t))"

lemma safe_point_was: "\<not> safe_owns p \<Longrightarrow> safe_point g w f p = safe_point g w' f p"
  by (cases p) auto

lemma safe_at_simps [simp]:
  "sl_pc (safe_at t p s) = (sl_pc s)(t := p)" "sl_flags (safe_at t p s) = sl_flags s"
  "sl_was (safe_at t p s) = sl_was s" "sl_taken (safe_at t p s) = sl_taken s"
  by (simp_all add: safe_at_def)

lemma off_simps: "is_disabled (off f)" "restore_irq (is_disabled f) (off f) = f"
  "disable_irq f = (is_disabled f, off f)"
  using irq_simps(3-5) [of f] by (simp_all add: off_def prod_eq_iff)

lemma safe_inv_step:
  assumes inv: "safe_inv g s" and st: "safe_step t s = Some s'"
  shows "safe_inv g s' \<and> (sl_pc s' t = S_out \<longrightarrow> sl_flags s' t = g t)"
proof -
  have ex: "safe.exclusive s'" using inv st safe.exclusive_step by (auto simp: safe_inv_def)
  have p: "safe_point (g t) (sl_was s) (sl_flags s t) (sl_pc s t)" using inv by (simp add: safe_inv_def)
  have pt: "safe_point (g t) (sl_was s') (sl_flags s' t) (sl_pc s' t) \<and> (sl_pc s' t = S_out \<longrightarrow> sl_flags s' t = g t)"
    using st p by (auto simp: safe_step_def exchange_def off_simps split: safe_pc.splits if_splits)
  have same: "sl_flags s' u = sl_flags s u \<and> sl_pc s' u = sl_pc s u" if "u \<noteq> t" for u
    using st that by (auto simp: safe_step_def exchange_def split: safe_pc.splits prod.splits)
  have was: "sl_was s' = sl_was s \<or> safe_owns (sl_pc s t)"
    using st by (auto simp: safe_step_def exchange_def split: safe_pc.splits prod.splits)
  have "safe_point (g u) (sl_was s') (sl_flags s' u) (sl_pc s' u)" for u
  proof (cases "u = t")
    case False
    have pu: "safe_point (g u) (sl_was s) (sl_flags s u) (sl_pc s u)" using inv by (simp add: safe_inv_def)
    have "sl_was s' = sl_was s \<or> \<not> safe_owns (sl_pc s u)"
      using was inv False by (auto simp: safe_inv_def safe.exclusive_def safe_inside_def)
    then show ?thesis
    proof
      assume "sl_was s' = sl_was s"
      then show ?thesis using pu same [OF False] by simp
    next
      assume "\<not> safe_owns (sl_pc s u)"
      then show ?thesis using pu same [OF False] safe_point_was [of "sl_pc s u" "g u" "sl_was s'" _ "sl_was s"] by simp
    qed
  qed (use pt in simp)
  then show ?thesis using ex pt by (simp add: safe_inv_def)
qed

lemma safe_reach_inv: "safe_reach g s \<Longrightarrow> safe_inv g s"
proof (induction rule: safe_reach.induct)
  case (init g fl)
  then show ?case by (simp add: safe_inv_def safe_init_def safe.exclusive_def safe_inside_def)
next
  case (flags g s t f)
  then have "safe.exclusive s" by (simp add: safe_inv_def)
  then have "safe.exclusive (s\<lparr>sl_flags := (sl_flags s)(t := f)\<rparr>)"
    by (rule safe.exclusive_cong) (simp_all add: safe_inside_def)
  then show ?case using flags by (simp add: safe_inv_def)
next
  case (lock g s t)
  then have "safe.exclusive s" by (simp add: safe_inv_def)
  then have "safe.exclusive (safe_at t S_disable s)"
    by (rule safe.exclusive_cong) (use lock in \<open>simp_all add: safe_inside_def\<close>)
  then show ?case using lock by (simp add: safe_inv_def)
next
  case (unlock g s t)
  then have "safe.exclusive s" by (simp add: safe_inv_def)
  then have "safe.exclusive (safe_at t S_read s)"
    by (rule safe.exclusive_cong) (use unlock in \<open>simp_all add: safe_inside_def\<close>)
  moreover have "safe_point (g t) (sl_was s) (sl_flags s t) (sl_pc s t)" using unlock(3) by (simp add: safe_inv_def)
  then have "sl_flags s t = off (g t) \<and> sl_was s = is_disabled (g t)" using unlock(2) by simp
  ultimately show ?case using unlock by (simp add: safe_inv_def)
next
  case (step g s t s')
  show ?case by (rule conjunct1 [OF safe_inv_step [OF step.IH step.hyps(2)]])
qed

text \<open>
  C23.  \<open>InterruptSafeLock\<close> is correct, whatever the interleaving.  At most one core is between
  \<open>lock\<close> and \<open>unlock\<close>; the core that holds the lock has its interrupts off; and when \<open>unlock\<close>
  returns, the flags of the core are what they were when it called \<open>lock\<close>: the member \<open>was\<close> is
  never overwritten by a core that waits.
\<close>

theorem interrupt_safe_lock:
  assumes "safe_reach g s"
  shows "(\<forall>t u. sl_pc s t = S_in \<and> sl_pc s u = S_in \<longrightarrow> t = u) \<and>
    (\<forall>t. sl_pc s t = S_in \<longrightarrow> is_disabled (sl_flags s t)) \<and>
    (\<forall>t s'. safe_step t s = Some s' \<and> sl_pc s' t = S_out \<longrightarrow> sl_flags s' t = g t)"
proof -
  have inv: "safe_inv g s" by (rule safe_reach_inv [OF assms])
  have "is_disabled (sl_flags s t)" if "sl_pc s t = S_in" for t
  proof -
    have "safe_point (g t) (sl_was s) (sl_flags s t) (sl_pc s t)" using inv by (simp add: safe_inv_def)
    then show ?thesis using off_simps(1) that by simp
  qed
  moreover have "t = u" if "sl_pc s t = S_in" "sl_pc s u = S_in" for t u
    using inv that by (auto simp: safe_inv_def safe.exclusive_def safe_inside_def)
  ultimately show ?thesis using safe_inv_step [OF inv] by blast
qed

text \<open>A core alone gets through, and a second one that comes meanwhile stays out.\<close>

fun safe_exec :: "'t list \<Rightarrow> 't safe \<Rightarrow> 't safe option" where
  "safe_exec [] s = Some s"
| "safe_exec (t # ts) s = Option.bind (safe_step t s) (safe_exec ts)"

lemma safe_exec_reach: "safe_exec ts s = Some s' \<Longrightarrow> safe_reach g s \<Longrightarrow> safe_reach g s'"
  by (induction ts arbitrary: s) (auto simp: Option.bind_eq_Some_conv intro: safe_reach.step)

definition safe_demo :: "bool safe" where
  "safe_demo = safe_at True S_disable (safe_at False S_disable (safe_init (\<lambda>_. 0x202)))"

lemma interrupt_safe_lock_witness:
  "\<exists>s'. safe_exec [True, True, True, False, False, False] safe_demo = Some s' \<and> sl_pc s' True = S_in \<and>
     sl_pc s' False = S_disable \<and> is_disabled (sl_flags s' True)"
proof -
  have fl: "sl_flags (safe_init (\<lambda>_. 0x202)) = (\<lambda>_. 0x202)" by (simp add: safe_init_def)
  have r0: "safe_reach (\<lambda>_. 0x202) (safe_init (\<lambda>_. 0x202))" by (rule safe_reach.init)
  have r1: "safe_reach ((\<lambda>_. 0x202)(False := 0x202)) (safe_at False S_disable (safe_init (\<lambda>_. 0x202)))"
    using safe_reach.lock [OF r0, of False] by (simp add: fl) (simp add: safe_init_def)
  have "safe_reach (((\<lambda>_. 0x202)(False := 0x202))(True := 0x202)) safe_demo"
    using safe_reach.lock [OF r1, of True] by (simp add: safe_demo_def fl) (simp add: safe_init_def)
  then have r: "safe_exec ts safe_demo = Some s' \<Longrightarrow> sl_pc s' True = S_in \<Longrightarrow> is_disabled (sl_flags s' True)"
    for ts s' using interrupt_safe_lock safe_exec_reach by blast
  have "safe_exec [True, True, True, False, False, False] safe_demo = Some s' \<Longrightarrow>
      sl_pc s' True = S_in \<and> sl_pc s' False = S_disable" for s'
    by (auto simp: safe_step_def safe_demo_def safe_init_def safe_at_def exchange_def disable_irq_def Let_def)
  moreover have "\<exists>s'. safe_exec [True, True, True, False, False, False] safe_demo = Some s'"
    by (simp add: safe_step_def safe_demo_def safe_init_def safe_at_def exchange_def disable_irq_def Let_def)
  ultimately show ?thesis using r by blast
qed

end
