(* ===== verification/Shared_Ptr.thy ===== *)
theory Shared_Ptr
  imports Locks
begin

text \<open>
  The intrusive reference counts of \<open>kernel/shared.h\<close>: a \<open>Shared\<close> variable holds a pointer (0:
  null), the object it points to a counter.  Every constructor, assignment and the destructor is an
  operation on a state with any finite number of variables; \<open>None\<close> is the result of an operation
  that touches an object that has been deleted.  The destructor of the object itself is taken to
  touch no \<open>Shared\<close> variable of the state.
\<close>

section \<open>Operations\<close>

record 'v shared =
  sh_ptr :: "'v \<Rightarrow> nat option"
  sh_count :: "nat \<Rightarrow> u32"
  sh_live :: "nat \<Rightarrow> bool"

definition shared_boot :: "'v shared" where
  "shared_boot = \<lparr>sh_ptr = (\<lambda>_. None), sh_count = (\<lambda>_. 0), sh_live = (\<lambda>_. False)\<rparr>"

definition put_ptr :: "'v \<Rightarrow> nat option \<Rightarrow> 'v shared \<Rightarrow> 'v shared" where
  "put_ptr v p s = s\<lparr>sh_ptr := (sh_ptr s)(v := p)\<rparr>"

definition sh_drop :: "'v \<Rightarrow> 'v shared \<Rightarrow> 'v shared option" where
  "sh_drop v s =
     (case sh_ptr s v of
        None \<Rightarrow> None
      | Some p \<Rightarrow>
         if p = 0 then Some s
         else if \<not> sh_live s p then None
         else (case add_fetch (- 1) (sh_count s p) of (new_count, c) \<Rightarrow>
           let s1 = s\<lparr>sh_count := (sh_count s)(p := c)\<rparr> in
           if new_count = 0 then Some (put_ptr v (Some 0) (s1\<lparr>sh_live := (sh_live s1)(p := False)\<rparr>))
           else Some s1))"

definition sh_add :: "'v \<Rightarrow> 'v shared \<Rightarrow> 'v shared option" where
  "sh_add v s =
     (case sh_ptr s v of
        None \<Rightarrow> None
      | Some p \<Rightarrow>
         if p = 0 then Some s
         else if \<not> sh_live s p then None
         else Some (s\<lparr>sh_count := (sh_count s)(p := snd (add_fetch 1 (sh_count s p)))\<rparr>))"

text \<open>\<open>Alloc p\<close> is \<open>new T\<close> giving \<open>p\<close>; then the constructors, the destructor and the
  assignments in the order of the file.\<close>

datatype 'v sh_op = Alloc nat | New_ptr 'v nat | New_null 'v | New_copy 'v 'v | New_move 'v 'v | Del 'v
  | Set_ptr 'v nat | Set_copy 'v 'v | Set_move 'v 'v

fun sh_exec :: "'v sh_op \<Rightarrow> 'v shared \<Rightarrow> 'v shared option" where
  "sh_exec (Alloc p) s = Some (s\<lparr>sh_live := (sh_live s)(p := True), sh_count := (sh_count s)(p := 0)\<rparr>)"
| "sh_exec (New_ptr v p) s = sh_add v (put_ptr v (Some p) s)"
| "sh_exec (New_null v) s = Some (put_ptr v (Some 0) s)"
| "sh_exec (New_copy v w) s = sh_add v (put_ptr v (sh_ptr s w) s)"
| "sh_exec (New_move v w) s = Some (put_ptr w (Some 0) (put_ptr v (sh_ptr s w) s))"
| "sh_exec (Del v) s = map_option (put_ptr v None) (sh_drop v s)"
| "sh_exec (Set_ptr v p) s =
     (if sh_ptr s v \<noteq> Some p then Option.bind (sh_drop v s) (\<lambda>s1. sh_add v (put_ptr v (Some p) s1)) else Some s)"
| "sh_exec (Set_copy v w) s =
     (let other = sh_ptr s w in
      if sh_ptr s v \<noteq> other then Option.bind (sh_drop v s) (\<lambda>s1. sh_add v (put_ptr v other s1)) else Some s)"
| "sh_exec (Set_move v w) s =
     Option.bind (sh_drop v s) (\<lambda>s1. Some (put_ptr w (Some 0) (put_ptr v (sh_ptr s1 w) s1)))"

text \<open>What a client keeps to: variables are constructed once and before their use, and a raw pointer
  is null or that of a live object.\<close>

fun op_ok :: "'v shared \<Rightarrow> 'v sh_op \<Rightarrow> bool" where
  "op_ok s (Alloc p) = (p \<noteq> 0 \<and> \<not> sh_live s p)"
| "op_ok s (New_ptr v p) = (sh_ptr s v = None \<and> (p = 0 \<or> sh_live s p))"
| "op_ok s (New_null v) = (sh_ptr s v = None)"
| "op_ok s (New_copy v w) = (sh_ptr s v = None \<and> sh_ptr s w \<noteq> None)"
| "op_ok s (New_move v w) = (sh_ptr s v = None \<and> sh_ptr s w \<noteq> None)"
| "op_ok s (Del v) = (sh_ptr s v \<noteq> None)"
| "op_ok s (Set_ptr v p) = (sh_ptr s v \<noteq> None \<and> (p = 0 \<or> sh_live s p))"
| "op_ok s (Set_copy v w) = (sh_ptr s v \<noteq> None \<and> sh_ptr s w \<noteq> None)"
| "op_ok s (Set_move v w) = (sh_ptr s v \<noteq> None \<and> sh_ptr s w \<noteq> None)"

inductive sh_reach :: "'v shared \<Rightarrow> bool" where
  boot: "sh_reach shared_boot"
| step: "sh_reach s \<Longrightarrow> op_ok s a \<Longrightarrow> sh_exec a s = Some s' \<Longrightarrow> sh_reach s'"

section \<open>The counts\<close>

text \<open>The variables outside \<open>X\<close> that point to an object.\<close>

definition refs_but :: "'v set \<Rightarrow> 'v shared \<Rightarrow> nat \<Rightarrow> 'v set" where
  "refs_but X s p = {v. v \<notin> X \<and> sh_ptr s v = Some p}"

definition refs :: "'v shared \<Rightarrow> nat \<Rightarrow> 'v set" where
  "refs s p = {v. sh_ptr s v = Some p}"

text \<open>Every counter is the number of variables that point to its object, those in \<open>X\<close> left out,
  and no such variable points to a deleted object.\<close>

definition counts :: "'v::finite set \<Rightarrow> 'v shared \<Rightarrow> bool" where
  "counts X s \<longleftrightarrow> (\<forall>p. p \<noteq> 0 \<longrightarrow>
     (if sh_live s p then unat (sh_count s p) = card (refs_but X s p) else refs_but X s p = {}))"

lemma countsD:
  assumes "counts X s" "p \<noteq> 0"
  shows "sh_live s p \<Longrightarrow> unat (sh_count s p) = card (refs_but X s p)"
    "\<not> sh_live s p \<Longrightarrow> refs_but X s p = {}"
  using assms by (auto simp: counts_def)

lemma countsI:
  assumes "\<And>p. p \<noteq> 0 \<Longrightarrow> sh_live s p \<Longrightarrow> unat (sh_count s p) = card (refs_but X s p)"
    and "\<And>p. p \<noteq> 0 \<Longrightarrow> \<not> sh_live s p \<Longrightarrow> refs_but X s p = {}"
  shows "counts X s"
  using assms by (simp add: counts_def)

lemma put_simps [simp]:
  "sh_ptr (put_ptr v x s) u = (if u = v then x else sh_ptr s u)"
  "sh_live (put_ptr v x s) = sh_live s" "sh_count (put_ptr v x s) = sh_count s"
  by (simp_all add: put_ptr_def)

lemma refs_simps [simp]:
  "refs_but {} s p = refs s p" "refs_but {v} (put_ptr v x s) p = refs_but {v} s p"
  "refs_but X (s\<lparr>sh_count := c\<rparr>) p = refs_but X s p" "refs_but X (s\<lparr>sh_live := l\<rparr>) p = refs_but X s p"
  by (auto simp: refs_but_def refs_def)

lemma refs_unset: "sh_ptr s v \<noteq> Some p \<Longrightarrow> refs_but {v} s p = refs s p"
  by (auto simp: refs_but_def refs_def)

lemma refs_set: "sh_ptr s v = Some p \<Longrightarrow> refs s p = insert v (refs_but {v} s p) \<and> v \<notin> refs_but {v} s p"
  by (auto simp: refs_but_def refs_def)

lemma counts_put: "counts {v} s \<Longrightarrow> counts {v} (put_ptr v x s)"
  by (simp add: counts_def)

lemma counts_move:
  assumes "\<And>p. p \<noteq> 0 \<Longrightarrow> refs_but X s p = refs_but Y s p"
  shows "counts X s = counts Y s"
  using assms by (simp add: counts_def)

lemma counts_card:
  fixes s :: "'v::finite shared"
  assumes "counts X s" "sh_live s' = sh_live s" "sh_count s' = sh_count s"
    and "\<And>q. q \<noteq> 0 \<Longrightarrow> card (refs_but Y s' q) = card (refs_but X s q)"
  shows "counts Y s'"
proof (rule countsI)
  fix q :: nat assume q: "q \<noteq> 0"
  show "sh_live s' q \<Longrightarrow> unat (sh_count s' q) = card (refs_but Y s' q)"
    using countsD(1) [OF assms(1) q] assms(2-4) q by simp
  assume "\<not> sh_live s' q"
  then have "card (refs_but Y s' q) = 0" using countsD(2) [OF assms(1) q] assms(2,4) q by simp
  then show "refs_but Y s' q = {}" by simp
qed

lemma counts_unset: "sh_ptr s v = None \<or> sh_ptr s v = Some 0 \<Longrightarrow> counts {v} s = counts {} s"
  by (rule counts_move) (auto simp: refs_unset)

lemma drop_counts:
  fixes s :: "'v::finite shared"
  assumes c: "counts {} s" and v: "sh_ptr s v = Some p"
  obtains s' where "sh_drop v s = Some s'" "counts {v} s'" "\<And>u. u \<noteq> v \<Longrightarrow> sh_ptr s' u = sh_ptr s u"
    "sh_ptr s' v = Some p \<or> sh_ptr s' v = Some 0"
    "\<And>q. q \<noteq> 0 \<Longrightarrow> sh_live s' q \<longleftrightarrow> sh_live s q \<and> (refs s q = {} \<or> refs_but {v} s q \<noteq> {})"
proof (cases "p = 0")
  case True
  then have "counts {v} s" using c v counts_unset by blast
  moreover have "refs_but {v} s q = refs s q" if "q \<noteq> 0" for q using v True that by (simp add: refs_unset)
  ultimately show ?thesis using that [of s] v True by (simp add: sh_drop_def)
next
  case False
  note r = refs_set [OF v]
  have other: "refs_but {v} s q = refs s q" if "q \<noteq> p" for q using v that by (simp add: refs_unset)
  have live: "sh_live s p" using countsD(2) [OF c False] r by auto
  have n: "unat (sh_count s p) = Suc (card (refs_but {v} s p))"
    using countsD(1) [OF c False live] r by simp
  then have ne: "sh_count s p \<noteq> 0" by auto
  have n1: "unat (sh_count s p - 1) = card (refs_but {v} s p)"
    using n ne by (simp add: unat_minus_one)
  have z: "sh_count s p - 1 = 0 \<longleftrightarrow> refs_but {v} s p = {}"
  proof -
    have "sh_count s p - 1 = 0 \<longleftrightarrow> unat (sh_count s p - 1) = 0" by (simp add: unat_eq_0)
    then show ?thesis unfolding n1 by simp
  qed
  let ?s1 = "s\<lparr>sh_count := (sh_count s)(p := sh_count s p - 1)\<rparr>"
  show ?thesis
  proof (cases "sh_count s p - 1 = 0")
    case zero: True
    let ?s2 = "?s1\<lparr>sh_live := (sh_live s)(p := False)\<rparr>"
    have run: "sh_drop v s = Some (put_ptr v (Some 0) ?s2)"
      using v False live zero by (simp add: sh_drop_def add_fetch_def Let_def)
    have "counts {v} ?s2"
      by (rule countsI) (use countsD [OF c] other z zero in \<open>auto split: if_splits\<close>)
    then have "counts {v} (put_ptr v (Some 0) ?s2)" by (rule counts_put)
    then show ?thesis using that [OF run] z zero other r by auto
  next
    case nz: False
    have run: "sh_drop v s = Some ?s1"
      using v False live nz by (simp add: sh_drop_def add_fetch_def Let_def)
    have "counts {v} ?s1"
    proof (rule countsI)
      fix q :: nat assume q: "q \<noteq> 0"
      show "sh_live ?s1 q \<Longrightarrow> unat (sh_count ?s1 q) = card (refs_but {v} ?s1 q)"
        using countsD(1) [OF c q] other [of q] n1 by (cases "q = p") simp_all
      show "\<not> sh_live ?s1 q \<Longrightarrow> refs_but {v} ?s1 q = {}"
        using countsD(2) [OF c q] other [of q] live by (cases "q = p") simp_all
    qed
    moreover have "refs s q = {} \<or> refs_but {v} s q \<noteq> {}" for q
      using z nz other [of q] by (cases "q = p") auto
    ultimately show ?thesis using that [OF run] v by simp
  qed
qed

lemma add_counts:
  fixes s :: "'v::finite shared"
  assumes c: "counts {v} s" and v: "sh_ptr s v = Some p" "p = 0 \<or> sh_live s p" and few: "CARD('v) < 2 ^ 32"
  obtains s' where "sh_add v s = Some s'" "counts {} s'" "sh_ptr s' = sh_ptr s" "sh_live s' = sh_live s"
proof (cases "p = 0")
  case True
  then have "counts {} s" using counts_unset c v(1) by blast
  then show ?thesis using that [of s] v True by (simp add: sh_add_def)
next
  case False
  then have live: "sh_live s p" using v by simp
  note r = refs_set [OF v(1)]
  have n: "unat (sh_count s p) = card (refs_but {v} s p)" by (rule countsD(1) [OF c False live])
  have "card (refs s p) \<le> CARD('v)" by (rule card_mono) auto
  then have lt: "Suc (card (refs_but {v} s p)) < 2 ^ 32" using few r by simp
  have n1: "unat (sh_count s p + 1) = card (refs s p)"
    using lt n r by (subst unat_add_lem [THEN iffD1]) simp_all
  let ?s' = "s\<lparr>sh_count := (sh_count s)(p := sh_count s p + 1)\<rparr>"
  have other: "refs_but {v} s q = refs s q" if "q \<noteq> p" for q using v(1) that by (simp add: refs_unset)
  have "counts {} ?s'"
  proof (rule countsI)
    fix q :: nat assume q: "q \<noteq> 0"
    show "sh_live ?s' q \<Longrightarrow> unat (sh_count ?s' q) = card (refs_but {} ?s' q)"
      using countsD(1) [OF c q] other [of q] n1 by (cases "q = p") simp_all
    show "\<not> sh_live ?s' q \<Longrightarrow> refs_but {} ?s' q = {}"
      using countsD(2) [OF c q] other [of q] live by (cases "q = p") simp_all
  qed
  then show ?thesis using that [of ?s'] v False live by (simp add: sh_add_def add_fetch_def)
qed

section \<open>Every operation\<close>

text \<open>What an operation does to the objects: an object that had references lives on exactly as long as
  it has one.\<close>

definition alive_ok :: "'v shared \<Rightarrow> 'v shared \<Rightarrow> bool" where
  "alive_ok s s' \<longleftrightarrow> (\<forall>p. p \<noteq> 0 \<longrightarrow> (sh_live s' p \<longleftrightarrow> sh_live s p \<and> (refs s p = {} \<or> refs s' p \<noteq> {})))"

lemma live_target:
  assumes "counts {} s" "sh_ptr s w = Some p"
  shows "p = 0 \<or> sh_live s p"
  using countsD(2) [OF assms(1)] refs_set [OF assms(2)] by (cases "p = 0") auto

text \<open>Pointing a fresh variable somewhere.\<close>

lemma new_counts:
  fixes s :: "'v::finite shared"
  assumes "counts {} s" "sh_ptr s v = None" "p = 0 \<or> sh_live s p" "CARD('v) < 2 ^ 32"
  shows "\<exists>s'. sh_add v (put_ptr v (Some p) s) = Some s' \<and> counts {} s' \<and> alive_ok s s'"
proof -
  have c: "counts {v} s" using counts_unset assms(1,2) by blast
  obtain s' where s': "sh_add v (put_ptr v (Some p) s) = Some s'" "counts {} s'"
    "sh_ptr s' = sh_ptr (put_ptr v (Some p) s)" "sh_live s' = sh_live (put_ptr v (Some p) s)"
    by (rule add_counts [OF counts_put [OF c, of "Some p"], of p]) (use assms(3,4) in simp_all)
  have "refs s q \<subseteq> refs s' q" for q using assms(2) s'(3) by (auto simp: refs_def)
  then have "alive_ok s s'" using s'(4) by (auto simp: alive_ok_def)
  then show ?thesis using s'(1,2) by blast
qed

text \<open>Pointing a variable elsewhere.\<close>

lemma set_counts:
  fixes s :: "'v::finite shared"
  assumes "counts {} s" "sh_ptr s v = Some o1" "p \<noteq> o1" "p = 0 \<or> sh_live s p" "CARD('v) < 2 ^ 32"
  shows "\<exists>s'. Option.bind (sh_drop v s) (\<lambda>s1. sh_add v (put_ptr v (Some p) s1)) = Some s' \<and>
    counts {} s' \<and> alive_ok s s'"
proof -
  obtain s1 where s1: "sh_drop v s = Some s1" "counts {v} s1" "\<And>u. u \<noteq> v \<Longrightarrow> sh_ptr s1 u = sh_ptr s u"
    "\<And>q. q \<noteq> 0 \<Longrightarrow> sh_live s1 q \<longleftrightarrow> sh_live s q \<and> (refs s q = {} \<or> refs_but {v} s q \<noteq> {})"
    by (rule drop_counts [OF assms(1,2)]) blast
  have pv: "refs_but {v} s p = refs s p" using assms(2,3) by (simp add: refs_unset)
  have pl: "p = 0 \<or> sh_live s1 p" using assms(4) s1(4) [of p] pv by (cases "p = 0") auto
  obtain s' where s': "sh_add v (put_ptr v (Some p) s1) = Some s'" "counts {} s'"
    "sh_ptr s' = sh_ptr (put_ptr v (Some p) s1)" "sh_live s' = sh_live (put_ptr v (Some p) s1)"
    by (rule add_counts [OF counts_put [OF s1(2), of "Some p"], of p]) (use pl assms(5) in simp_all)
  have "refs s' q = (if q = p then insert v (refs_but {v} s q) else refs_but {v} s q)" for q
    using s'(3) s1(3) by (auto simp: refs_def refs_but_def)
  then have "alive_ok s s'" using s'(4) s1(4) pv by (auto simp: alive_ok_def)
  then show ?thesis using s1(1) s'(1,2) by simp
qed

lemma del_counts:
  fixes s :: "'v::finite shared"
  assumes "counts {} s" "sh_ptr s v = Some p" "x = None \<or> x = Some 0"
  shows "\<exists>s1. sh_drop v s = Some s1 \<and> counts {} (put_ptr v x s1) \<and> alive_ok s (put_ptr v x s1)"
proof -
  obtain s1 where s1: "sh_drop v s = Some s1" "counts {v} s1" "\<And>u. u \<noteq> v \<Longrightarrow> sh_ptr s1 u = sh_ptr s u"
    "\<And>q. q \<noteq> 0 \<Longrightarrow> sh_live s1 q \<longleftrightarrow> sh_live s q \<and> (refs s q = {} \<or> refs_but {v} s q \<noteq> {})"
    by (rule drop_counts [OF assms(1,2)]) blast
  have "counts {} (put_ptr v x s1)"
    using counts_unset [of "put_ptr v x s1" v] counts_put [OF s1(2)] assms(3) by auto
  moreover have "refs (put_ptr v x s1) q = refs_but {v} s q" if "q \<noteq> 0" for q
    using s1(3) assms(3) that by (auto simp: refs_def refs_but_def)
  ultimately show ?thesis using s1(1,4) by (auto simp: alive_ok_def)
qed

lemma op_counts:
  fixes s :: "'v::finite shared"
  assumes c: "counts {} s" and ok: "op_ok s a" and few: "CARD('v) < 2 ^ 32"
  shows "\<exists>s'. sh_exec a s = Some s' \<and> counts {} s' \<and> ((\<forall>p. a \<noteq> Alloc p) \<longrightarrow> alive_ok s s')"
proof (cases a)
  case (Alloc p)
  then have "refs s p = {}" using ok countsD(2) [OF c, of p] by simp
  let ?s' = "s\<lparr>sh_live := (sh_live s)(p := True), sh_count := (sh_count s)(p := 0)\<rparr>"
  have "counts {} ?s'"
  proof (rule countsI)
    fix q :: nat assume q: "q \<noteq> 0"
    show "sh_live ?s' q \<Longrightarrow> unat (sh_count ?s' q) = card (refs_but {} ?s' q)"
      using countsD(1) [OF c q] \<open>refs s p = {}\<close> by (cases "q = p") (simp_all add: refs_def)
    show "\<not> sh_live ?s' q \<Longrightarrow> refs_but {} ?s' q = {}"
      using countsD(2) [OF c q] by (cases "q = p") (simp_all add: refs_def)
  qed
  then show ?thesis using Alloc by simp
next
  case (New_ptr v p)
  then show ?thesis using new_counts [OF c _ _ few, of v p] ok by auto
next
  case (New_null v)
  then have "counts {v} s" "sh_ptr s v = None" using ok c counts_unset by auto
  then have "counts {} (put_ptr v (Some 0) s)"
    using counts_unset [of "put_ptr v (Some 0) s" v] counts_put by auto
  moreover have "refs (put_ptr v (Some 0) s) q = refs s q" if "q \<noteq> 0" for q
    using \<open>sh_ptr s v = None\<close> that by (auto simp: refs_def)
  then have "alive_ok s (put_ptr v (Some 0) s)" by (auto simp: alive_ok_def)
  ultimately show ?thesis using New_null by simp
next
  case (New_copy v w)
  then obtain p where "sh_ptr s w = Some p" using ok by auto
  then show ?thesis using New_copy new_counts [OF c _ live_target [OF c] few, of v w p] ok by auto
next
  case (New_move v w)
  then obtain p where p: "sh_ptr s w = Some p" "v \<noteq> w" "sh_ptr s v = None"
    using ok by (cases "v = w") auto
  let ?s' = "put_ptr w (Some 0) (put_ptr v (sh_ptr s w) s)"
  have r: "refs ?s' q = (if q = p then insert v (refs s q) - {w} else refs s q)" if "q \<noteq> 0" for q
    using p that by (auto simp: refs_def)
  have v: "w \<in> refs s p" "v \<notin> refs s p" using p by (auto simp: refs_def)
  have "card (insert v (refs s p) - {w}) = card (refs s p)"
    using v by (simp add: card_Diff_singleton)
  then have "counts {} ?s'" by (intro counts_card [OF c]) (simp_all add: r)
  moreover have "alive_ok s ?s'" using r v p(2) by (auto simp: alive_ok_def)
  ultimately show ?thesis using New_move by simp
next
  case (Del v)
  then obtain p where "sh_ptr s v = Some p" using ok by auto
  then show ?thesis using Del del_counts [OF c, of v p None] by auto
next
  case (Set_ptr v p)
  then obtain o1 where o: "sh_ptr s v = Some o1" using ok by auto
  have "alive_ok s s" by (auto simp: alive_ok_def)
  then show ?thesis using Set_ptr set_counts [OF c o _ _ few, of p] ok c o by (cases "p = o1") auto
next
  case (Set_copy v w)
  then obtain o1 p where o: "sh_ptr s v = Some o1" "sh_ptr s w = Some p" using ok by auto
  have "alive_ok s s" by (auto simp: alive_ok_def)
  then show ?thesis
    using Set_copy set_counts [OF c o(1) _ live_target [OF c o(2)] few] c o by (cases "p = o1") auto
next
  case (Set_move v w)
  then obtain o1 p where o: "sh_ptr s v = Some o1" "sh_ptr s w = Some p" using ok by auto
  obtain s1 where s1: "sh_drop v s = Some s1" "counts {v} s1" "\<And>u. u \<noteq> v \<Longrightarrow> sh_ptr s1 u = sh_ptr s u"
    "\<And>q. q \<noteq> 0 \<Longrightarrow> sh_live s1 q \<longleftrightarrow> sh_live s q \<and> (refs s q = {} \<or> refs_but {v} s q \<noteq> {})"
    by (rule drop_counts [OF c o(1)]) blast
  let ?s' = "put_ptr w (Some 0) (put_ptr v (sh_ptr s1 w) s1)"
  show ?thesis
  proof (cases "v = w")
    case True
    then have "?s' = put_ptr v (Some 0) s1" by (simp add: put_ptr_def)
    moreover obtain s2 where "sh_drop v s = Some s2" "counts {} (put_ptr v (Some 0) s2)"
      "alive_ok s (put_ptr v (Some 0) s2)" using del_counts [OF c o(1), of "Some 0"] by blast
    ultimately show ?thesis using Set_move True s1(1) by simp
  next
    case False
    have w1: "sh_ptr s1 w = Some p" using s1(3) False o(2) by simp
    have r: "refs ?s' q = (if q = p then insert v (refs_but {v} s q) - {w} else refs_but {v} s q)" if "q \<noteq> 0" for q
      using w1 s1(3) False that o by (auto simp: refs_def refs_but_def)
    have r1: "refs_but {v} s1 q = refs_but {v} s q" for q using s1(3) by (auto simp: refs_but_def)
    have wv: "w \<in> refs_but {v} s p" "v \<notin> refs_but {v} s p" using o(2) False by (auto simp: refs_but_def)
    have "card (insert v (refs_but {v} s p) - {w}) = card (refs_but {v} s p)"
      using wv by (simp add: card_Diff_singleton)
    then have "counts {} ?s'" by (intro counts_card [OF s1(2)]) (simp_all add: r r1)
    moreover have "alive_ok s ?s'" using r s1(4) wv False by (auto simp: alive_ok_def)
    ultimately show ?thesis using Set_move s1(1) by simp
  qed
qed

lemma reach_counts:
  fixes s :: "'v::finite shared"
  assumes "sh_reach s" "CARD('v) < 2 ^ 32"
  shows "counts {} s"
  using assms(1)
proof (induction rule: sh_reach.induct)
  case boot
  then show ?case by (simp add: counts_def shared_boot_def refs_def)
next
  case (step s a s')
  then show ?case using op_counts [OF step.IH step.hyps(2) assms(2)] by auto
qed

text \<open>
  C24.  Reference counting.  After any history of constructions, copies, moves, assignments and
  destructions the next operation never touches a deleted object; every live object's counter is the
  number of variables that point to it, and every variable points to a live object or is null; and
  an object that had a reference is deleted exactly when it loses the last one.
\<close>

theorem shared_counts:
  fixes s :: "'v::finite shared"
  assumes "sh_reach s" and "op_ok s a" and "CARD('v) < 2 ^ 32"
  shows "\<exists>s'. sh_exec a s = Some s' \<and>
    (\<forall>p. p \<noteq> 0 \<longrightarrow> (if sh_live s' p then unat (sh_count s' p) = card (refs s' p) else refs s' p = {})) \<and>
    ((\<forall>p. a \<noteq> Alloc p) \<longrightarrow> (\<forall>p. p \<noteq> 0 \<longrightarrow>
       (sh_live s' p \<longleftrightarrow> sh_live s p \<and> (refs s p = {} \<or> refs s' p \<noteq> {}))))"
  using op_counts [OF reach_counts [OF assms(1,3)] assms(2,3)]
  unfolding counts_def alive_ok_def refs_simps(1) .

text \<open>Two variables share an object; the first goes, the object stays, the second moves on to null.\<close>

definition shared_demo :: "bool shared" where
  "shared_demo = put_ptr False None (put_ptr True (Some 7)
     (shared_boot\<lparr>sh_live := (\<lambda>_. False)(7 := True), sh_count := (\<lambda>_. 0)(7 := 1)\<rparr>))"

lemma shared_counts_witness:
  "\<exists>s'. sh_exec (Set_ptr True 0) shared_demo = Some s' \<and> \<not> sh_live s' 7 \<and> refs s' 7 = {}"
proof -
  let ?s1 = "shared_boot\<lparr>sh_live := (\<lambda>_. False)(7 := True), sh_count := (\<lambda>_. 0)(7 := 0)\<rparr> :: bool shared"
  have "sh_reach ?s1"
    by (rule sh_reach.step [OF sh_reach.boot, of "Alloc 7"]) (simp_all add: shared_boot_def)
  then have r: "sh_reach shared_demo"
    by (rule sh_reach.step [of _ "New_ptr True 7"])
       (simp_all add: shared_boot_def shared_demo_def put_ptr_def sh_add_def add_fetch_def fun_eq_iff)
  have ok: "op_ok shared_demo (Set_ptr True 0)" by (simp add: shared_demo_def)
  have t: "refs shared_demo 7 = {True}" "sh_live shared_demo 7"
    by (auto simp: shared_demo_def refs_def shared_boot_def)
  obtain s' where s': "sh_exec (Set_ptr True 0) shared_demo = Some s'"
    "\<forall>p. p \<noteq> 0 \<longrightarrow> (if sh_live s' p then unat (sh_count s' p) = card (refs s' p) else refs s' p = {})"
    using shared_counts [OF r ok] by auto
  have "sh_exec (Set_ptr True 0) shared_demo = Some (put_ptr True (Some 0) (put_ptr True (Some 0)
      (shared_demo\<lparr>sh_count := (sh_count shared_demo)(7 := 0), sh_live := (sh_live shared_demo)(7 := False)\<rparr>)))"
    by (simp add: shared_demo_def sh_drop_def sh_add_def add_fetch_def shared_boot_def Let_def)
  then have e: "s' = put_ptr True (Some 0) (put_ptr True (Some 0)
      (shared_demo\<lparr>sh_count := (sh_count shared_demo)(7 := 0), sh_live := (sh_live shared_demo)(7 := False)\<rparr>))"
    using s'(1) by simp
  have "sh_ptr s' b \<noteq> Some 7" for b unfolding e by (cases b) (simp_all add: shared_demo_def)
  then have "refs s' 7 = {}" by (simp add: refs_def)
  moreover have "\<not> sh_live s' 7" unfolding e by simp
  ultimately show ?thesis using s'(1) by blast
qed

end
