(* ===== verification/Condition.thy ===== *)
theory Condition
  imports Prelude
begin

text \<open>
  The condition variable of \<open>kernel/condition.h\<close> and the reusable barrier of \<open>kernel/barrier.h\<close>
  that is built on it.  A condition is an epoch and a queue of waiting threads; a thread remembers
  the epoch, gives the lock up and, once it runs no more, queues itself only if the epoch is still
  the same.  Threads are interleaved at every point where the lock is taken or given up; what
  happens under the lock is one step, and the lock is the one shown to be exclusive in \<open>Locks\<close>.  The
  assertions of \<open>wait\<close> on the interrupt flag and on the owner of the lock are not modelled.
\<close>

section \<open>The condition\<close>

record 't cond =
  c_epoch :: u64
  c_queue :: "'t list"

definition cond_init :: "'t cond" where
  "cond_init = \<lparr>c_epoch = 0, c_queue = []\<rparr>"

text \<open>What a thread that gives up the processor does under the lock: \<open>True\<close>, it waits; \<open>False\<close>,
  the epoch has moved on and it is scheduled again.\<close>

definition cond_block :: "'t \<Rightarrow> u64 \<Rightarrow> 't cond \<Rightarrow> (bool \<times> 't cond) res" where
  "cond_block me old_epoch c =
     (if c_epoch c = old_epoch then Inr (True, c\<lparr>c_queue := c_queue c @ [me]\<rparr>)
      else rbind (assert_that (c_epoch c > old_epoch)) (\<lambda>_. Inr (False, c)))"

text \<open>\<open>notify\<close> gives the threads it schedules.\<close>

definition notify :: "u64 \<Rightarrow> 't cond \<Rightarrow> 't list \<times> 't cond" where
  "notify limit c =
     (take (unat limit) (c_queue c),
      c\<lparr>c_epoch := c_epoch c + 1, c_queue := drop (unat limit) (c_queue c)\<rparr>)"

definition notifyOne :: "'t cond \<Rightarrow> 't list \<times> 't cond" where
  "notifyOne c = notify 1 c"

definition notifyAll :: "'t cond \<Rightarrow> 't list \<times> 't cond" where
  "notifyAll c = notify (NOT 0) c"

section \<open>The barrier\<close>

text \<open>The points of \<open>sync\<close>; \<open>r\<close> is its local variable \<open>t\<close>, \<open>old\<close> that of \<open>wait\<close>.\<close>

datatype rpoint = R_out | R_lock | R_body | R_check u64 | R_block u64 u64 | R_sleep u64 | R_relock u64
  | R_unlock u64

record 't rbar =
  r_holder :: "'t option"
  r_cond :: "'t cond"
  r_initial :: u32
  r_count :: u32
  r_epoch :: u64
  r_pc :: "'t \<Rightarrow> rpoint"

definition rbar_init :: "u32 \<Rightarrow> 't rbar" where
  "rbar_init n = \<lparr>r_holder = None, r_cond = cond_init, r_initial = n, r_count = n, r_epoch = 0, r_pc = (\<lambda>_. R_out)\<rparr>"

datatype revent = Moves | Arrives | Faults fault

fun r_wake :: "rpoint \<Rightarrow> rpoint" where
  "r_wake (R_sleep r) = R_relock r"
| "r_wake p = p"

definition r_at :: "'t \<Rightarrow> rpoint \<Rightarrow> 't rbar \<Rightarrow> 't rbar" where
  "r_at t p s = s\<lparr>r_pc := (r_pc s)(t := p)\<rparr>"

definition wake_all :: "'t list \<Rightarrow> 't rbar \<Rightarrow> 't rbar" where
  "wake_all ws s = s\<lparr>r_pc := (\<lambda>u. if u \<in> set ws then r_wake (r_pc s u) else r_pc s u)\<rparr>"

text \<open>The part of \<open>sync\<close> under the lock, up to the loop.\<close>

definition sync_body :: "'t \<Rightarrow> 't rbar \<Rightarrow> 't rbar res" where
  "sync_body t s =
     rbind (assert_that (r_count s \<noteq> 0)) (\<lambda>_.
       let r = r_epoch s;
           s1 = s\<lparr>r_count := r_count s - 1\<rparr>
       in if r_count s1 = 0
          then (case notifyAll (r_cond s1) of (ws, c) \<Rightarrow>
            Inr (r_at t (R_unlock r) (wake_all ws
              (s1\<lparr>r_epoch := r_epoch s1 + 1, r_count := r_initial s1, r_cond := c\<rparr>))))
          else Inr (r_at t (R_check r) s1))"

definition rbar_step :: "'t \<Rightarrow> 't rbar \<Rightarrow> (revent \<times> 't rbar) option" where
  "rbar_step t s =
     (case r_pc s t of
        R_lock \<Rightarrow> if r_holder s = None then Some (Moves, r_at t R_body (s\<lparr>r_holder := Some t\<rparr>)) else None
      | R_body \<Rightarrow> (case sync_body t s of Inl e \<Rightarrow> Some (Faults e, s) | Inr s' \<Rightarrow> Some (Arrives, s'))
      | R_check r \<Rightarrow>
          if r_epoch s \<le> r then Some (Moves, r_at t (R_block r (c_epoch (r_cond s))) (s\<lparr>r_holder := None\<rparr>))
          else Some (Moves, r_at t (R_unlock r) s)
      | R_block r old \<Rightarrow>
          if r_holder s = None then
            (case cond_block t old (r_cond s) of
               Inl e \<Rightarrow> Some (Faults e, s)
             | Inr (waits, c) \<Rightarrow> Some (Moves, r_at t (if waits then R_sleep r else R_relock r) (s\<lparr>r_cond := c\<rparr>)))
          else None
      | R_relock r \<Rightarrow> if r_holder s = None then Some (Moves, r_at t (R_check r) (s\<lparr>r_holder := Some t\<rparr>)) else None
      | R_unlock r \<Rightarrow> Some (Moves, r_at t R_out (s\<lparr>r_holder := None\<rparr>))
      | _ \<Rightarrow> None)"

text \<open>The states of a barrier for \<open>n\<close> threads after \<open>a\<close> arrivals.\<close>

inductive rbar_reach :: "u32 \<Rightarrow> nat \<Rightarrow> 't rbar \<Rightarrow> bool" where
  init: "rbar_reach n 0 (rbar_init n)"
| sync: "rbar_reach n a s \<Longrightarrow> r_pc s t = R_out \<Longrightarrow> rbar_reach n a (r_at t R_lock s)"
| move: "rbar_reach n a s \<Longrightarrow> rbar_step t s = Some (Moves, s') \<Longrightarrow> rbar_reach n a s'"
| arrive: "rbar_reach n a s \<Longrightarrow> rbar_step t s = Some (Arrives, s') \<Longrightarrow> rbar_reach n (Suc a) s'"

section \<open>The invariant\<close>

text \<open>In a barrier for \<open>n\<close> after \<open>a\<close> arrivals: the rounds completed so far.\<close>

definition rounds :: "u32 \<Rightarrow> nat \<Rightarrow> nat" where
  "rounds n a = a div unat n"

fun in_lock :: "rpoint \<Rightarrow> bool" where
  "in_lock R_body = True" | "in_lock (R_check r) = True" | "in_lock (R_unlock r) = True"
| "in_lock p = False"

fun is_asleep :: "rpoint \<Rightarrow> bool" where
  "is_asleep (R_sleep r) = True" | "is_asleep p = False"

text \<open>What is known of the local variables when \<open>e\<close> rounds are complete.\<close>

fun r_local :: "nat \<Rightarrow> rpoint \<Rightarrow> bool" where
  "r_local e (R_check r) = (unat r \<le> e)"
| "r_local e (R_block r old) = (old = r \<and> unat r \<le> e)"
| "r_local e (R_sleep r) = (unat r = e)"
| "r_local e (R_relock r) = (unat r \<le> e)"
| "r_local e (R_unlock r) = (unat r < e)"
| "r_local e p = True"

definition rbar_inv :: "u32 \<Rightarrow> nat \<Rightarrow> 't rbar \<Rightarrow> bool" where
  "rbar_inv n a s \<longleftrightarrow>
     r_initial s = n \<and> unat (r_count s) = unat n - a mod unat n \<and>
     unat (r_epoch s) = rounds n a \<and> c_epoch (r_cond s) = r_epoch s \<and>
     (\<forall>t. in_lock (r_pc s t) \<longleftrightarrow> r_holder s = Some t) \<and>
     distinct (c_queue (r_cond s)) \<and> (\<forall>t. t \<in> set (c_queue (r_cond s)) \<longleftrightarrow> is_asleep (r_pc s t)) \<and>
     (\<forall>t. r_local (rounds n a) (r_pc s t))"

lemma rbar_invD:
  assumes "rbar_inv n a s"
  shows "r_initial s = n" "unat (r_count s) = unat n - a mod unat n" "unat (r_epoch s) = rounds n a"
    "c_epoch (r_cond s) = r_epoch s" "in_lock (r_pc s t) \<longleftrightarrow> r_holder s = Some t"
    "t \<in> set (c_queue (r_cond s)) \<longleftrightarrow> is_asleep (r_pc s t)" "r_local (rounds n a) (r_pc s t)"
    "distinct (c_queue (r_cond s))"
  using assms by (simp_all add: rbar_inv_def)

lemma r_at_simps [simp]:
  "r_pc (r_at t p s) = (r_pc s)(t := p)" "r_holder (r_at t p s) = r_holder s" "r_cond (r_at t p s) = r_cond s"
  "r_initial (r_at t p s) = r_initial s" "r_count (r_at t p s) = r_count s" "r_epoch (r_at t p s) = r_epoch s"
  by (simp_all add: r_at_def)

lemma wake_all_simps [simp]:
  "r_pc (wake_all ws s) u = (if u \<in> set ws then r_wake (r_pc s u) else r_pc s u)"
  "r_holder (wake_all ws s) = r_holder s" "r_cond (wake_all ws s) = r_cond s"
  "r_initial (wake_all ws s) = r_initial s" "r_count (wake_all ws s) = r_count s"
  "r_epoch (wake_all ws s) = r_epoch s"
  by (simp_all add: wake_all_def)

text \<open>Moving one thread, with the lock and the queue adjusted to match.\<close>

lemma rbar_inv_move:
  assumes inv: "rbar_inv n a s"
    and same: "r_initial s' = r_initial s" "r_count s' = r_count s" "r_epoch s' = r_epoch s"
      "c_epoch (r_cond s') = c_epoch (r_cond s)" "r_pc s' = (r_pc s)(t := p)"
    and p: "r_local (rounds n a) p"
    and h: "r_holder s' = (if in_lock p then Some t else if in_lock (r_pc s t) then None else r_holder s)"
      "in_lock p \<Longrightarrow> r_holder s = None \<or> r_holder s = Some t"
    and q: "set (c_queue (r_cond s')) = (if is_asleep p then insert t (set (c_queue (r_cond s)))
      else set (c_queue (r_cond s)) - {t})" "distinct (c_queue (r_cond s'))"
  shows "rbar_inv n a s'"
proof -
  note d = rbar_invD [OF inv]
  have "in_lock (r_pc s' u) \<longleftrightarrow> r_holder s' = Some u" for u
    using d(5) [of u] d(5) [of t] h same(5) by (cases "u = t") auto
  moreover have "u \<in> set (c_queue (r_cond s')) \<longleftrightarrow> is_asleep (r_pc s' u)" for u
    using d(6) [of u] q(1) same(5) by (cases "u = t") auto
  moreover have "r_local (rounds n a) (r_pc s' u)" for u
    using d(7) [of u] p same(5) by (cases "u = t") auto
  ultimately show ?thesis using d(1-4) same q(2) unfolding rbar_inv_def by auto
qed

lemma notifyAll_queue:
  fixes c :: "'t cond"
  assumes "length (c_queue c) < 2 ^ 64"
  shows "notifyAll c = (c_queue c, c\<lparr>c_epoch := c_epoch c + 1, c_queue := []\<rparr>)"
proof -
  have "unat (NOT 0 :: u64) = 2 ^ 64 - 1" by (simp add: unsigned_minus_1_eq_mask mask_eq_exp_minus_1)
  then show ?thesis using assms by (simp add: notifyAll_def notify_def)
qed

lemma rounds_Suc:
  assumes "0 < unat n"
  shows "rounds n (Suc a) = (if Suc (a mod unat n) = unat n then Suc (rounds n a) else rounds n a)"
    "Suc a mod unat n = (if Suc (a mod unat n) = unat n then 0 else Suc (a mod unat n))"
  using assms by (auto simp: rounds_def mod_Suc div_Suc)

lemma r_local_mono: "r_local e p \<Longrightarrow> \<not> is_asleep p \<Longrightarrow> r_local (Suc e) p"
  by (cases p) auto

lemma queue_short:
  fixes s :: "'t::finite rbar"
  assumes "rbar_inv n a s" "CARD('t) < 2 ^ 64"
  shows "length (c_queue (r_cond s)) < 2 ^ 64"
proof -
  have "length (c_queue (r_cond s)) = card (set (c_queue (r_cond s)))"
    using rbar_invD(8) [OF assms(1)] by (simp add: distinct_card)
  also have "\<dots> \<le> CARD('t)" by (rule card_mono) auto
  finally show ?thesis using assms(2) by simp
qed

lemma move_inv:
  assumes inv: "rbar_inv n a s" and st: "rbar_step t s = Some (ev, s')" and not_body: "r_pc s t \<noteq> R_body"
  shows "ev = Moves \<and> rbar_inv n a s'"
proof -
  note d = rbar_invD [OF inv]
  have l: "r_local (rounds n a) (r_pc s t)" by (rule d(7))
  have hq: "in_lock (r_pc s t) \<longleftrightarrow> r_holder s = Some t" "t \<in> set (c_queue (r_cond s)) \<longleftrightarrow> is_asleep (r_pc s t)"
    by (rule d(5), rule d(6))
  show ?thesis
  proof (cases "r_pc s t")
    case R_out
    then show ?thesis using st by (simp add: rbar_step_def)
  next
    case R_lock
    then have s': "ev = Moves" "s' = r_at t R_body (s\<lparr>r_holder := Some t\<rparr>)" "r_holder s = None"
      using st by (auto simp: rbar_step_def split: if_splits)
    show ?thesis unfolding s'(1,2)
      by (rule conjI [OF refl], rule rbar_inv_move [OF inv]) (use s'(3) hq R_lock d(8) in auto)
  next
    case R_body
    then show ?thesis using not_body by simp
  next
    case (R_check r)
    have le: "unat r \<le> unat (r_epoch s)" using l R_check d(3) by simp
    show ?thesis
    proof (cases "r_epoch s \<le> r")
      case True
      then have "r_epoch s = r" using le by (intro order.antisym) (simp_all add: word_le_nat_alt)
      moreover from True have "ev = Moves" "s' = r_at t (R_block r (c_epoch (r_cond s))) (s\<lparr>r_holder := None\<rparr>)"
        using st R_check by (auto simp: rbar_step_def)
      ultimately show ?thesis
        using d(3,4,8) hq R_check by (auto intro!: rbar_inv_move [OF inv])
    next
      case False
      then have "unat r < rounds n a" using le d(3) by (simp add: word_le_nat_alt)
      moreover from False have "ev = Moves" "s' = r_at t (R_unlock r) s"
        using st R_check by (auto simp: rbar_step_def)
      ultimately show ?thesis
        using d(8) hq R_check by (auto intro!: rbar_inv_move [OF inv])
    qed
  next
    case (R_block r old)
    have l': "old = r" "unat r \<le> unat (c_epoch (r_cond s))" using l R_block d(3,4) by simp_all
    have free: "r_holder s = None" using st R_block by (simp add: rbar_step_def split: if_splits)
    show ?thesis
    proof (cases "c_epoch (r_cond s) = old")
      case True
      then have s': "ev = Moves"
        "s' = r_at t (R_sleep r) (s\<lparr>r_cond := (r_cond s)\<lparr>c_queue := c_queue (r_cond s) @ [t]\<rparr>\<rparr>)"
        using st R_block free by (auto simp: rbar_step_def cond_block_def)
      have "unat r = rounds n a" using True l'(1) d(3,4) by simp
      then show ?thesis unfolding s'
        using d(8) hq R_block by (auto intro!: rbar_inv_move [OF inv])
    next
      case False
      then have "unat r \<noteq> unat (c_epoch (r_cond s))" using l'(1) by (simp add: word_unat_eq_iff)
      then have "old < c_epoch (r_cond s)" using l' by (simp add: word_less_nat_alt)
      then have s': "ev = Moves" "s' = r_at t (R_relock r) (s\<lparr>r_cond := r_cond s\<rparr>)"
        using st R_block free False by (auto simp: rbar_step_def cond_block_def)
      show ?thesis unfolding s'
        using d(3,4,8) l'(2) hq R_block by (auto intro!: rbar_inv_move [OF inv])
    qed
  next
    case (R_sleep r)
    then show ?thesis using st by (simp add: rbar_step_def)
  next
    case (R_relock r)
    then have s': "ev = Moves" "s' = r_at t (R_check r) (s\<lparr>r_holder := Some t\<rparr>)" "r_holder s = None"
      using st by (auto simp: rbar_step_def split: if_splits)
    show ?thesis unfolding s'(1,2)
      using s'(3) hq R_relock d(8) l by (auto intro!: rbar_inv_move [OF inv])
  next
    case (R_unlock r)
    then have s': "ev = Moves" "s' = r_at t R_out (s\<lparr>r_holder := None\<rparr>)"
      using st by (auto simp: rbar_step_def)
    show ?thesis unfolding s'
      using hq R_unlock d(8) by (auto intro!: rbar_inv_move [OF inv])
  qed
qed

lemma body_inv:
  fixes s :: "'t::finite rbar"
  assumes inv: "rbar_inv n a s" and at: "r_pc s t = R_body" and n: "0 < unat n" and few: "CARD('t) < 2 ^ 64"
    and bound: "rounds n (Suc a) < 2 ^ 64"
  shows "\<exists>s'. rbar_step t s = Some (Arrives, s') \<and> rbar_inv n (Suc a) s'"
proof -
  note d = rbar_invD [OF inv]
  have m: "a mod unat n < unat n" using n by simp
  then have c: "unat (r_count s) \<noteq> 0" "r_count s \<noteq> 0" using d(2) by auto
  have c1: "unat (r_count s - 1) = unat n - Suc (a mod unat n)"
    using c d(2) by (simp add: unat_minus_one)
  have others: "\<not> in_lock (r_pc s u)" if "u \<noteq> t" for u
    using d(5) [of u] d(5) [of t] at that by auto
  have held: "r_holder s = Some t" using d(5) [of t] at by simp
  have tq: "t \<notin> set (c_queue (r_cond s))" using d(6) [of t] at by simp
  show ?thesis
  proof (cases "Suc (a mod unat n) = unat n")
    case True
    then have z: "r_count s - 1 = 0" using c1 by (metis diff_self_eq_0 unat_eq_zero)
    have e1: "unat (r_epoch s + 1) = Suc (rounds n a)"
      using bound rounds_Suc(1) [OF n] True d(3) by (subst unat_add_lem [THEN iffD1]) simp_all
    have na: "notifyAll (r_cond s) =
        (c_queue (r_cond s), (r_cond s)\<lparr>c_epoch := c_epoch (r_cond s) + 1, c_queue := []\<rparr>)"
      by (rule notifyAll_queue [OF queue_short [OF inv few]])
    define s' where "s' = r_at t (R_unlock (r_epoch s)) (wake_all (c_queue (r_cond s))
      (s\<lparr>r_epoch := r_epoch s + 1, r_count := r_initial s,
         r_cond := (r_cond s)\<lparr>c_epoch := c_epoch (r_cond s) + 1, c_queue := []\<rparr>\<rparr>))"
    have run: "rbar_step t s = Some (Arrives, s')"
      using at c(2) z na by (simp add: rbar_step_def sync_body_def Let_def s'_def)
    have pc: "r_pc s' u = (if u = t then R_unlock (r_epoch s) else if is_asleep (r_pc s u) then r_wake (r_pc s u)
        else r_pc s u)" for u
      using d(6) [of u] by (simp add: s'_def)
    have wk: "\<not> in_lock (r_wake p)" "\<not> is_asleep (r_wake p)" if "is_asleep p" for p
      using that by (cases p; simp)+
    have loc: "r_local (Suc e) (r_wake p)" if "is_asleep p" "r_local e p" for p e
      using that by (cases p) auto
    have rl: "r_local (Suc (rounds n a)) (r_pc s' u)" for u
      using d(7) [of u] r_local_mono loc d(3) by (simp add: pc)
    have "in_lock (r_pc s' u) \<longleftrightarrow> r_holder s' = Some u" for u
      using others [of u] wk(1) [of "r_pc s u"] held d(6) [of u] by (auto simp: pc s'_def)
    moreover have "\<not> is_asleep (r_pc s' u)" for u using wk by (simp add: pc)
    moreover have "Suc a mod unat n = 0" "rounds n (Suc a) = Suc (rounds n a)"
      using rounds_Suc [OF n, of a] True by simp_all
    ultimately have "rbar_inv n (Suc a) s'"
      using rl d(1,4) e1 unfolding rbar_inv_def by (simp add: s'_def)
    then show ?thesis using run by blast
  next
    case False
    then have nz: "r_count s - 1 \<noteq> 0"
      using c1 m by (metis Suc_lessI diff_is_0_eq not_le unat_0)
    define s' where "s' = r_at t (R_check (r_epoch s)) (s\<lparr>r_count := r_count s - 1\<rparr>)"
    have run: "rbar_step t s = Some (Arrives, s')"
      using at c(2) nz by (simp add: rbar_step_def sync_body_def Let_def s'_def)
    have "in_lock (r_pc s' u) \<longleftrightarrow> r_holder s' = Some u" for u
      using d(5) [of u] held by (auto simp: s'_def)
    moreover have "is_asleep (r_pc s' u) \<longleftrightarrow> u \<in> set (c_queue (r_cond s'))" for u
      using d(6) [of u] tq by (auto simp: s'_def)
    moreover have "r_local (rounds n a) (r_pc s' u)" for u
      using d(3) d(7) [of u] by (auto simp: s'_def)
    moreover have "Suc a mod unat n = Suc (a mod unat n)" "rounds n (Suc a) = rounds n a"
      using rounds_Suc [OF n, of a] False by simp_all
    ultimately have "rbar_inv n (Suc a) s'"
      using d(1,3,4,8) c1 unfolding rbar_inv_def by (simp add: s'_def)
    then show ?thesis using run by blast
  qed
qed

lemma rbar_reach_inv:
  fixes s :: "'t::finite rbar"
  assumes "rbar_reach n a s" "0 < unat n" "CARD('t) < 2 ^ 64" "rounds n a < 2 ^ 64"
  shows "rbar_inv n a s"
  using assms
proof (induction rule: rbar_reach.induct)
  case (init n)
  then show ?case by (simp add: rbar_inv_def rbar_init_def rounds_def cond_init_def)
next
  case (sync n a s t)
  then have inv: "rbar_inv n a s" by simp
  note d = rbar_invD [OF inv]
  show ?case
    by (rule rbar_inv_move [OF inv]) (use sync.hyps(2) d(5) [of t] d(6) [of t] d(8) in auto)
next
  case (move n a s t s')
  then have inv: "rbar_inv n a s" by simp
  show ?case
  proof (cases "r_pc s t = R_body")
    case True
    then show ?thesis using move.hyps(2) by (auto simp: rbar_step_def split: sum.splits)
  next
    case False
    show ?thesis using move_inv [OF inv move.hyps(2) False] by simp
  qed
next
  case (arrive n a s t s')
  have le: "rounds n a \<le> rounds n (Suc a)" by (simp add: rounds_def div_le_mono)
  then have inv: "rbar_inv n a s" using arrive by simp
  show ?case
  proof (cases "r_pc s t = R_body")
    case True
    show ?thesis using body_inv [OF inv True arrive.prems] arrive.hyps(2) by auto
  next
    case False
    show ?thesis using move_inv [OF inv arrive.hyps(2) False] by simp
  qed
qed

text \<open>
  C27.  The reusable barrier.  With fewer than \<open>2^64\<close> rounds, in any interleaving: a thread comes out
  of round \<open>r\<close> only after \<open>n\<close> threads have arrived in each of the rounds up to \<open>r\<close>; no wake-up is
  lost, a thread sleeps only in the round that is not complete yet; no step panics; and as long as
  some thread is inside and not asleep, some thread can make a step.
\<close>

theorem reusable_barrier:
  fixes s :: "'t::finite rbar"
  assumes "rbar_reach n a s" and "0 < unat n" and "CARD('t) < 2 ^ 64" and "rounds n (Suc a) < 2 ^ 64"
  shows "(\<forall>t r. r_pc s t = R_unlock r \<longrightarrow> Suc (unat r) * unat n \<le> a) \<and>
    (\<forall>t r. r_pc s t = R_sleep r \<longrightarrow> a < Suc (unat r) * unat n) \<and>
    (\<forall>t e s'. rbar_step t s \<noteq> Some (Faults e, s')) \<and>
    (\<forall>t. r_pc s t \<noteq> R_out \<and> \<not> is_asleep (r_pc s t) \<longrightarrow> (\<exists>u ev s'. rbar_step u s = Some (ev, s')))"
proof -
  have "rounds n a \<le> rounds n (Suc a)" by (simp add: rounds_def div_le_mono)
  then have inv: "rbar_inv n a s" using rbar_reach_inv [OF assms(1-3)] assms(4) by simp
  note d = rbar_invD [OF inv]
  have rn: "rounds n a * unat n \<le> a" "a < Suc (rounds n a) * unat n"
    using assms(2) by (simp_all add: rounds_def dividend_less_div_times)
  have "Suc (unat r) * unat n \<le> a" if "r_pc s t = R_unlock r" for t r
  proof -
    have "Suc (unat r) \<le> rounds n a" using d(7) [of t] that by simp
    then have "Suc (unat r) * unat n \<le> rounds n a * unat n" by (rule mult_le_mono1)
    then show ?thesis using rn(1) by (rule le_trans)
  qed
  moreover have "a < Suc (unat r) * unat n" if "r_pc s t = R_sleep r" for t r
    using d(7) [of t] that rn(2) by simp
  moreover have "rbar_step t s \<noteq> Some (Faults e, s')" for t e s'
  proof (cases "r_pc s t = R_body")
    case True
    then show ?thesis using body_inv [OF inv True assms(2-4)] by auto
  next
    case False
    then show ?thesis using move_inv [OF inv _ False] by blast
  qed
  moreover have "\<exists>u ev s'. rbar_step u s = Some (ev, s')" if t: "r_pc s t \<noteq> R_out" "\<not> is_asleep (r_pc s t)" for t
  proof (cases "r_holder s")
    case None
    have "\<not> in_lock (r_pc s t)" using d(5) [of t] None by simp
    then have "rbar_step t s \<noteq> None"
      using None t by (cases "r_pc s t") (auto simp: rbar_step_def split: sum.splits)
    then show ?thesis by (metis not_None_eq surj_pair)
  next
    case (Some u)
    have "in_lock (r_pc s u)" using d(5) [of u] Some by simp
    then have "rbar_step u s \<noteq> None"
      by (cases "r_pc s u") (auto simp: rbar_step_def split: sum.splits)
    then show ?thesis by (metis not_None_eq surj_pair)
  qed
  ultimately show ?thesis by blast
qed

text \<open>Two threads: the first arrives and sleeps, the second arrives and both come out.\<close>

fun rbar_exec :: "'t list \<Rightarrow> nat \<times> 't rbar \<Rightarrow> (nat \<times> 't rbar) option" where
  "rbar_exec [] x = Some x"
| "rbar_exec (t # ts) (a, s) =
     (case rbar_step t s of
        Some (Moves, s') \<Rightarrow> rbar_exec ts (a, s')
      | Some (Arrives, s') \<Rightarrow> rbar_exec ts (Suc a, s')
      | _ \<Rightarrow> None)"

lemma rbar_exec_reach:
  "rbar_exec ts (a, s) = Some (b, s') \<Longrightarrow> rbar_reach n a s \<Longrightarrow> rbar_reach n b s'"
proof (induction ts arbitrary: a s)
  case (Cons t ts)
  obtain ev s1 where st: "rbar_step t s = Some (ev, s1)" using Cons.prems(1) by (auto split: option.splits)
  show ?case
  proof (cases ev)
    case Moves
    then have "rbar_exec ts (a, s1) = Some (b, s')" "rbar_reach n a s1"
      using Cons.prems st rbar_reach.move by auto
    then show ?thesis by (rule Cons.IH)
  next
    case Arrives
    then have "rbar_exec ts (Suc a, s1) = Some (b, s')" "rbar_reach n (Suc a) s1"
      using Cons.prems st rbar_reach.arrive by auto
    then show ?thesis by (rule Cons.IH)
  next
    case (Faults e)
    then show ?thesis using Cons.prems(1) st by simp
  qed
qed simp

definition rbar_demo :: "bool rbar" where
  "rbar_demo = r_at True R_lock (r_at False R_lock (rbar_init 2))"

lemma rbar_demo_reach: "rbar_reach 2 0 rbar_demo"
proof -
  have "rbar_reach 2 0 (r_at False R_lock (rbar_init 2))"
    by (rule rbar_reach.sync [OF rbar_reach.init]) (simp add: rbar_init_def)
  then show ?thesis unfolding rbar_demo_def by (rule rbar_reach.sync) (simp add: rbar_init_def)
qed

lemma reusable_barrier_witness:
  "\<exists>s'. rbar_exec [True, True, True, True, False, False] (0, rbar_demo) = Some (2, s') \<and>
     (\<forall>r. r_pc s' False = R_unlock r \<longrightarrow> Suc (unat r) * 2 \<le> 2) \<and> r_pc s' False = R_unlock 0 \<and>
     r_pc s' True = R_relock 0"
proof -
  have n: "unat (NOT 0 :: u64) = 2 ^ 64 - 1" by (simp add: unsigned_minus_1_eq_mask mask_eq_exp_minus_1)
  have run: "\<exists>s'. rbar_exec [True, True, True, True, False, False] (0, rbar_demo) = Some (2, s') \<and>
      r_pc s' False = R_unlock 0 \<and> r_pc s' True = R_relock 0"
    by (simp add: rbar_step_def rbar_demo_def rbar_init_def r_at_def sync_body_def cond_block_def Let_def
        cond_init_def notifyAll_def notify_def wake_all_def unsigned_minus_1_eq_mask mask_eq_exp_minus_1)
  then obtain s' where s': "rbar_exec [True, True, True, True, False, False] (0, rbar_demo) = Some (2, s')"
    "r_pc s' False = R_unlock 0" "r_pc s' True = R_relock 0" by blast
  have r: "rbar_reach 2 2 s'" by (rule rbar_exec_reach [OF s'(1) rbar_demo_reach])
  have "\<forall>r. r_pc s' False = R_unlock r \<longrightarrow> Suc (unat r) * 2 \<le> 2"
    using reusable_barrier [OF r] by (simp add: rounds_def)
  then show ?thesis using s' by blast
qed

end
