(* ===== verification/Threads.thy ===== *)
theory Threads
  imports Locks
begin

text \<open>
  The scheduler of \<open>kernel/threads.h\<close> and \<open>kernel/threads.cc\<close>: the ready queue, the queue of
  threads to delete, and what each core runs.  \<open>block\<close> takes the next thread off the ready queue,
  makes it the active one and switches stacks; only then, on the stack of the next thread, is the
  action run that puts the previous thread somewhere.  In between the previous thread is on no queue
  and still the business of its core.  Any number of cores take these steps in any order; the queues
  have a lock of their own and one operation on a queue is one step.  The flag \<open>no_preempt\<close>, which keeps
  the timer from switching in between, is not modelled: steps of any core may come at any time anyway.  A thread that waits for an
  event, or that its creator has not scheduled yet, is \<open>held\<close>.
\<close>

section \<open>Operations\<close>

datatype block_act = Act_schedule | Act_zombie | Act_wait

record 'c sched =
  readyQ :: "nat list"
  zombies :: "nat list"
  activeThreads :: "'c \<Rightarrow> nat"
  idleThreads :: "'c \<Rightarrow> nat"
  leaving :: "'c \<Rightarrow> (nat \<times> block_act) option"
  held :: "nat list"
  deleted :: "nat list"
  next_id :: u32

definition isIdle :: "'c sched \<Rightarrow> nat \<Rightarrow> bool" where
  "isIdle s t \<longleftrightarrow> (\<exists>c. idleThreads s c = t)"

definition current :: "'c \<Rightarrow> 'c sched \<Rightarrow> nat" where
  "current c s = activeThreads s c"

definition schedule :: "nat \<Rightarrow> 'c sched \<Rightarrow> 'c sched" where
  "schedule t s = (if \<not> isIdle s t then s\<lparr>readyQ := readyQ s @ [t]\<rparr> else s)"

text \<open>The first half of \<open>block\<close> on the core \<open>c\<close>: it returns, it goes around again (an idle
  thread with nothing to run), or the switch to the next thread has begun.\<close>

datatype 'c blocking = Returned | Again | Switched "'c sched"

definition switch_to :: "nat \<Rightarrow> 'c \<Rightarrow> block_act \<Rightarrow> 'c sched \<Rightarrow> 'c sched" where
  "switch_to n c act s =
     s\<lparr>activeThreads := (activeThreads s)(c := n), leaving := (leaving s)(c := Some (current c s, act))\<rparr>"

definition block :: "bool \<Rightarrow> block_act \<Rightarrow> 'c \<Rightarrow> 'c sched \<Rightarrow> 'c blocking" where
  "block canReturn act c s =
     (case readyQ s of
        [] \<Rightarrow> if canReturn then Returned
              else if isIdle s (current c s) then Again
              else Switched (switch_to (idleThreads s c) c act s)
      | n # rest \<Rightarrow> Switched (switch_to n c act (s\<lparr>readyQ := rest\<rparr>)))"

text \<open>The action, on the stack of the next thread.\<close>

definition act_on :: "block_act \<Rightarrow> nat \<Rightarrow> 'c sched \<Rightarrow> 'c sched" where
  "act_on act me s =
     (case act of
        Act_schedule \<Rightarrow> schedule me s
      | Act_zombie \<Rightarrow> if \<not> isIdle s me then s\<lparr>zombies := zombies s @ [me]\<rparr> else s
      | Act_wait \<Rightarrow> s\<lparr>held := held s @ [me]\<rparr>)"

definition finish :: "'c \<Rightarrow> 'c sched \<Rightarrow> 'c sched option" where
  "finish c s =
     (case leaving s c of
        None \<Rightarrow> None
      | Some (me, act) \<Rightarrow> Some (act_on act me (s\<lparr>leaving := (leaving s)(c := None)\<rparr>)))"

definition yield :: "'c \<Rightarrow> 'c sched \<Rightarrow> 'c blocking" where
  "yield = block True Act_schedule"

definition stop :: "'c \<Rightarrow> 'c sched \<Rightarrow> 'c blocking" where
  "stop = block False Act_zombie"

text \<open>One round of the loop of \<open>delete_zombies\<close>.\<close>

definition reap :: "'c sched \<Rightarrow> 'c sched option" where
  "reap s =
     (case zombies s of [] \<Rightarrow> None | it # rest \<Rightarrow> Some (s\<lparr>zombies := rest, deleted := it # deleted s\<rparr>))"

definition get_thread :: "'c sched \<Rightarrow> nat \<times> 'c sched" where
  "get_thread s =
     (case fetch_add 1 (next_id s) of (t, n) \<Rightarrow> (unat t, s\<lparr>next_id := n, held := held s @ [unat t]\<rparr>))"

text \<open>A held thread is scheduled by its creator or by the event it waits for.\<close>

definition release :: "nat \<Rightarrow> 'c sched \<Rightarrow> 'c sched" where
  "release t s = schedule t (s\<lparr>held := remove1 t (held s)\<rparr>)"

text \<open>The whole loop, and \<open>thread\<close>, when no other core comes in between.\<close>

function delete_zombies :: "'c sched \<Rightarrow> 'c sched" where
  "delete_zombies s = (case reap s of None \<Rightarrow> s | Some s1 \<Rightarrow> delete_zombies s1)"
  by pat_completeness auto
termination
  by (relation "measure (\<lambda>s. length (zombies s))") (auto simp: reap_def split: list.splits)

declare delete_zombies.simps [simp del]

definition thread :: "'c sched \<Rightarrow> nat \<times> 'c sched" where
  "thread s = (case get_thread (delete_zombies s) of (t, s1) \<Rightarrow> (t, release t s1))"

definition threadsInit :: "('c \<Rightarrow> nat) \<Rightarrow> u32 \<Rightarrow> 'c sched" where
  "threadsInit idle n =
     \<lparr>readyQ = [], zombies = [], activeThreads = idle, idleThreads = idle, leaving = (\<lambda>_. None),
      held = [], deleted = [], next_id = n\<rparr>"

text \<open>\<open>sched_reach idle n0 k s\<close>: \<open>s\<close> can be reached with the idle threads \<open>idle\<close>, whose
  numbers are below \<open>n0\<close>, when \<open>k\<close> more threads have been created.\<close>

inductive sched_reach :: "('c \<Rightarrow> nat) \<Rightarrow> u32 \<Rightarrow> nat \<Rightarrow> 'c sched \<Rightarrow> bool" where
  init: "inj idle \<Longrightarrow> (\<forall>c. idle c < unat n0) \<Longrightarrow> sched_reach idle n0 0 (threadsInit idle n0)"
| block: "sched_reach idle n0 k s \<Longrightarrow> leaving s c = None \<Longrightarrow> act = Act_wait \<longrightarrow> \<not> isIdle s (current c s) \<Longrightarrow>
    block r act c s = Switched s' \<Longrightarrow> sched_reach idle n0 k s'"
| finish: "sched_reach idle n0 k s \<Longrightarrow> finish c s = Some s' \<Longrightarrow> sched_reach idle n0 k s'"
| reap: "sched_reach idle n0 k s \<Longrightarrow> reap s = Some s' \<Longrightarrow> sched_reach idle n0 k s'"
| create: "sched_reach idle n0 k s \<Longrightarrow> unat n0 + Suc k < 2 ^ 32 \<Longrightarrow> get_thread s = (t, s') \<Longrightarrow>
    sched_reach idle n0 (Suc k) s'"
| release: "sched_reach idle n0 k s \<Longrightarrow> t \<in> set (held s) \<Longrightarrow> sched_reach idle n0 k (release t s)"

section \<open>Counting places\<close>

definition hits :: "('c::finite \<Rightarrow> 'x) \<Rightarrow> 'x \<Rightarrow> nat" where
  "hits f x = card {c. f c = x}"

definition one :: "bool \<Rightarrow> nat" where
  "one b = (if b then 1 else 0)"

lemma one_simps [simp]: "one True = 1" "one False = 0"
  by (simp_all add: one_def)

lemma hits_upd: "hits (f(c := y)) x + one (f c = x) = hits f x + one (y = x)"
proof -
  let ?A = "{d. d \<noteq> c \<and> f d = x}"
  have "{d. f d = x} = (if f c = x then insert c ?A else ?A)" by auto
  moreover have "{d. (f(c := y)) d = x} = (if y = x then insert c ?A else ?A)" by auto
  moreover have "c \<notin> ?A" "finite ?A" by auto
  ultimately show ?thesis by (simp add: hits_def one_def)
qed

text \<open>The thread a core is in the middle of leaving.\<close>

definition leaves :: "'c sched \<Rightarrow> 'c \<Rightarrow> nat option" where
  "leaves s c = map_option fst (leaving s c)"

text \<open>In how many places a thread is.\<close>

definition places :: "'c::finite sched \<Rightarrow> nat \<Rightarrow> nat" where
  "places s t =
     hits (activeThreads s) t + hits (leaves s) (Some t) +
     count_list (readyQ s) t + count_list (zombies s) t + count_list (held s) t + count_list (deleted s) t"

definition sched_inv :: "('c::finite \<Rightarrow> nat) \<Rightarrow> u32 \<Rightarrow> nat \<Rightarrow> 'c sched \<Rightarrow> bool" where
  "sched_inv idle n0 k s \<longleftrightarrow>
     idleThreads s = idle \<and> inj idle \<and> unat (next_id s) = unat n0 + k \<and> (\<forall>c. idle c < unat n0) \<and>
     (\<forall>t. t \<notin> range idle \<longrightarrow> places s t = one (unat n0 \<le> t \<and> t < unat n0 + k)) \<and>
     (\<forall>c d. activeThreads s c = idle d \<longrightarrow> c = d) \<and>
     (\<forall>c d act. leaving s c = Some (idle d, act) \<longrightarrow> c = d \<and> act \<noteq> Act_wait) \<and>
     (\<forall>c. idle c \<notin> set (readyQ s) \<and> idle c \<notin> set (zombies s) \<and> idle c \<notin> set (held s))"

lemma sched_invD:
  assumes "sched_inv idle n0 k s"
  shows "idleThreads s = idle" "inj idle" "unat (next_id s) = unat n0 + k" "idle c < unat n0"
    "t \<notin> range idle \<Longrightarrow> places s t = one (unat n0 \<le> t \<and> t < unat n0 + k)"
    "activeThreads s c = idle d \<Longrightarrow> c = d" "leaving s c = Some (idle d, act) \<Longrightarrow> c = d \<and> act \<noteq> Act_wait"
    "idle c \<notin> set (readyQ s)" "idle c \<notin> set (zombies s)" "idle c \<notin> set (held s)"
  using assms by (auto simp: sched_inv_def)

lemma isIdle_iff: "sched_inv idle n0 k s \<Longrightarrow> isIdle s t \<longleftrightarrow> t \<in> range idle"
  by (auto simp: isIdle_def sched_inv_def)

lemma leaves_simps [simp]:
  "leaves (s\<lparr>leaving := (leaving s)(c := x)\<rparr>) = (leaves s)(c := map_option fst x)"
  "leaves (s\<lparr>readyQ := q\<rparr>) = leaves s" "leaves (s\<lparr>zombies := q\<rparr>) = leaves s" "leaves (s\<lparr>held := q\<rparr>) = leaves s"
  "leaves (s\<lparr>deleted := q\<rparr>) = leaves s" "leaves (s\<lparr>next_id := n\<rparr>) = leaves s"
  "leaves (s\<lparr>activeThreads := a\<rparr>) = leaves s"
  "leaves (s\<lparr>activeThreads := a, leaving := (leaving s)(c := x)\<rparr>) = (leaves s)(c := map_option fst x)"
  by (simp_all add: leaves_def fun_eq_iff)

lemma count_list_snoc: "count_list (xs @ [x]) y = count_list xs y + one (x = y)"
  by (induction xs) (auto simp: one_def)

lemma count_list_Cons_one: "count_list (x # xs) y = count_list xs y + one (x = y)"
  by (simp add: one_def)

lemma count_list_remove1: "x \<in> set xs \<Longrightarrow> count_list xs y = count_list (remove1 x xs) y + one (x = y)"
  by (induction xs) (auto simp: one_def)

lemma places_schedule:
  "places (schedule t s) u = places s u + (if isIdle s t then 0 else one (t = u))"
  by (simp add: places_def schedule_def count_list_snoc)

lemma places_switch:
  assumes "leaving s c = None"
  shows "places (switch_to n c act s) u = places s u + one (n = u)"
proof -
  have "hits ((activeThreads s)(c := n)) u + one (activeThreads s c = u) = hits (activeThreads s) u + one (n = u)"
    by (rule hits_upd)
  moreover have "hits ((leaves s)(c := Some (activeThreads s c))) (Some u) =
      hits (leaves s) (Some u) + one (activeThreads s c = u)"
    using hits_upd [of "leaves s" c "Some (activeThreads s c)" "Some u"] assms by (simp add: leaves_def one_def)
  ultimately show ?thesis
    by (simp add: places_def switch_to_def current_def)
qed

lemma places_leave:
  assumes "leaving s c = Some (me, act)"
  shows "places (s\<lparr>leaving := (leaving s)(c := None)\<rparr>) u + one (me = u) = places s u"
  using hits_upd [of "leaves s" c None "Some u"] assms
  by (simp add: places_def leaves_def one_def)

text \<open>Threads other than the idle ones stay where they are counted once.\<close>

lemma sched_inv_step:
  assumes inv: "sched_inv idle n0 k s"
    and p: "\<And>t. t \<notin> range idle \<Longrightarrow> places s' t = places s t"
    and same: "idleThreads s' = idleThreads s" "next_id s' = next_id s"
    and a: "\<And>c d. activeThreads s' c = idle d \<Longrightarrow> c = d"
    and l: "\<And>c d act. leaving s' c = Some (idle d, act) \<Longrightarrow> c = d \<and> act \<noteq> Act_wait"
    and q: "\<And>c. idle c \<notin> set (readyQ s') \<and> idle c \<notin> set (zombies s') \<and> idle c \<notin> set (held s')"
  shows "sched_inv idle n0 k s'"
  unfolding sched_inv_def using sched_invD [OF inv] p same a l q by metis

lemma block_inv:
  assumes inv: "sched_inv idle n0 k s" and run: "block r act c s = Switched s'" and free: "leaving s c = None"
    and wait: "act = Act_wait \<longrightarrow> \<not> isIdle s (current c s)"
  shows "sched_inv idle n0 k s'"
proof -
  note d = sched_invD [OF inv]
  have me: "activeThreads s c = idle d \<Longrightarrow> c = d \<and> act \<noteq> Act_wait" for d
    using d(6) [of c d] wait d(1) by (auto simp: current_def isIdle_def)
  show ?thesis
  proof (cases "readyQ s")
    case Nil
    then have s': "s' = switch_to (idle c) c act s"
      using run d(1) by (simp add: block_def split: if_splits)
    show ?thesis
    proof (rule sched_inv_step [OF inv])
      show "places s' t = places s t" if "t \<notin> range idle" for t
        using places_switch [OF free] that unfolding s' by (auto simp: one_def)
      show "activeThreads s' u = idle v \<Longrightarrow> u = v" for u v
        using d(6) [of u v] d(2) unfolding s' by (auto simp: switch_to_def inj_eq split: if_splits)
      show "leaving s' u = Some (idle v, b) \<Longrightarrow> u = v \<and> b \<noteq> Act_wait" for u v b
        using d(7) [of u v b] me [of v] unfolding s' by (auto simp: switch_to_def current_def split: if_splits)
    qed (use d(8-10) in \<open>simp_all add: s' switch_to_def\<close>)
  next
    case (Cons n rest)
    then have s': "s' = switch_to n c act (s\<lparr>readyQ := rest\<rparr>)"
      using run by (simp add: block_def)
    have n: "n \<notin> range idle" "idle u \<notin> set rest" for u using d(8) Cons by auto
    show ?thesis
    proof (rule sched_inv_step [OF inv])
      show "places s' t = places s t" for t
      proof -
        have "places s' t = places (s\<lparr>readyQ := rest\<rparr>) t + one (n = t)"
          unfolding s' by (rule places_switch) (simp add: free)
        then show ?thesis using Cons by (simp add: places_def count_list_Cons_one)
      qed
      show "activeThreads s' u = idle v \<Longrightarrow> u = v" for u v
        using d(6) [of u v] n(1) unfolding s' by (auto simp: switch_to_def split: if_splits)
      show "leaving s' u = Some (idle v, b) \<Longrightarrow> u = v \<and> b \<noteq> Act_wait" for u v b
        using d(7) [of u v b] me [of v] unfolding s' by (auto simp: switch_to_def current_def split: if_splits)
    qed (use d(9,10) n(2) in \<open>simp_all add: s' switch_to_def\<close>)
  qed
qed

lemma finish_inv:
  assumes inv: "sched_inv idle n0 k s" and run: "finish c s = Some s'"
  shows "sched_inv idle n0 k s'"
proof -
  note d = sched_invD [OF inv]
  obtain me act where l: "leaving s c = Some (me, act)" and s': "s' = act_on act me (s\<lparr>leaving := (leaving s)(c := None)\<rparr>)"
    using run by (auto simp: finish_def split: option.splits)
  let ?s1 = "s\<lparr>leaving := (leaving s)(c := None)\<rparr>"
  have idle: "isIdle ?s1 me \<longleftrightarrow> me \<in> range idle" using d(1) by (auto simp: isIdle_def)
  have nw: "me \<in> range idle \<Longrightarrow> act \<noteq> Act_wait" using d(7) [of c _ act] l by auto
  have pl: "places s' t = places s t" if t: "t \<notin> range idle" for t
  proof -
    have "places s' t = places ?s1 t + one (me = t)"
    proof (cases act)
      case Act_schedule
      then show ?thesis using places_schedule [of me ?s1 t] idle t by (auto simp: s' act_on_def one_def)
    next
      case Act_zombie
      then show ?thesis using idle t by (auto simp: s' act_on_def places_def count_list_snoc one_def)
    next
      case Act_wait
      then show ?thesis by (simp add: s' act_on_def places_def count_list_snoc)
    qed
    then show ?thesis using places_leave [OF l, of t] by simp
  qed
  show ?thesis
  proof (rule sched_inv_step [OF inv pl])
    show "idle u \<notin> set (readyQ s') \<and> idle u \<notin> set (zombies s') \<and> idle u \<notin> set (held s')" for u
      using d(8-10) [of u] idle nw unfolding s'
      by (cases act) (auto simp: act_on_def schedule_def isIdle_def)
    show "leaving s' u = Some (idle v, b) \<Longrightarrow> u = v \<and> b \<noteq> Act_wait" for u v b
      using d(7) [of u v b] unfolding s' by (cases act) (auto simp: act_on_def schedule_def split: if_splits)
    show "activeThreads s' u = idle v \<Longrightarrow> u = v" for u v
      using d(6) [of u v] unfolding s' by (cases act) (auto simp: act_on_def schedule_def split: if_splits)
  qed (cases act; simp add: s' act_on_def schedule_def)+
qed

lemma sched_reach_inv: "sched_reach idle n0 k s \<Longrightarrow> sched_inv idle n0 k s"
proof (induction rule: sched_reach.induct)
  case (init idle n0)
  have "hits idle t = 0" if "t \<notin> range idle" for t using that by (auto simp: hits_def)
  then show ?case using init
    by (auto simp: sched_inv_def threadsInit_def places_def hits_def one_def inj_eq leaves_def)
next
  case (block idle n0 k s c act r s')
  then show ?case using block_inv by blast
next
  case (finish idle n0 k s c s')
  then show ?case using finish_inv by blast
next
  case (reap idle n0 k s s')
  then obtain it rest where r: "zombies s = it # rest" "s' = s\<lparr>zombies := rest, deleted := it # deleted s\<rparr>"
    by (auto simp: reap_def split: list.splits)
  note d = sched_invD [OF reap.IH]
  show ?case
  proof (rule sched_inv_step [OF reap.IH])
    show "places s' t = places s t" for t using r by (simp add: places_def count_list_Cons_one)
  qed (use r d(6-10) in \<open>auto simp del: set_simps(2)\<close>, (use d(9) in force)+)
next
  case (create idle n0 k s t s')
  note d = sched_invD [OF create.IH]
  have s': "t = unat (next_id s)" "s' = s\<lparr>next_id := next_id s + 1, held := held s @ [t]\<rparr>"
    using create.hyps(3) by (auto simp: get_thread_def fetch_add_def)
  have n: "unat (next_id s + 1) = unat n0 + Suc k"
    using create.hyps(2) d(3) by (subst unat_add_lem [THEN iffD1]) simp_all
  have t: "t = unat n0 + k" using s'(1) d(3) by simp
  have new: "idle c \<noteq> t" for c using d(4) [of c] t by simp
  have "places s' u = one (unat n0 \<le> u \<and> u < unat n0 + Suc k)" if "u \<notin> range idle" for u
  proof -
    have "places s' u = places s u + one (t = u)" by (simp add: s'(2) places_def count_list_snoc)
    then show ?thesis using d(5) [OF that] t by (auto simp: one_def)
  qed
  then show ?case
    using d(1,2,4,6-10) n new unfolding sched_inv_def by (auto simp: s'(2))
next
  case (release idle n0 k s t)
  note d = sched_invD [OF release.IH]
  have t: "t \<notin> range idle" using release.hyps(2) d(10) by auto
  then have ni: "\<not> isIdle (s\<lparr>held := remove1 t (held s)\<rparr>) t" using d(1) by (auto simp: isIdle_def)
  show ?case
  proof (rule sched_inv_step [OF release.IH])
    show "places (release t s) u = places s u" for u
      using places_schedule [of t "s\<lparr>held := remove1 t (held s)\<rparr>" u] ni
        count_list_remove1 [OF release.hyps(2), of u]
      by (simp add: release_def) (simp add: places_def)
    show "idle c \<notin> set (readyQ (release t s)) \<and> idle c \<notin> set (zombies (release t s)) \<and>
        idle c \<notin> set (held (release t s))" for c
      using d(8-10) [of c] t ni set_remove1_subset [of t "held s"] by (auto simp: release_def schedule_def)
  qed (use d(6,7) ni in \<open>auto simp: release_def schedule_def\<close>)
qed

text \<open>\<open>thread\<close> deletes every stopped thread and puts a new one at the end of the ready queue.\<close>

lemma delete_zombies_reach:
  assumes "sched_reach idle n0 k s"
  shows "sched_reach idle n0 k (delete_zombies s) \<and>
    delete_zombies s = s\<lparr>zombies := [], deleted := rev (zombies s) @ deleted s\<rparr>"
  using assms
proof (induction s rule: delete_zombies.induct)
  case (1 s)
  show ?case
  proof (cases "zombies s")
    case Nil
    then show ?thesis using "1.prems" by (subst (1 2) delete_zombies.simps) (simp add: reap_def)
  next
    case (Cons it rest)
    then have r: "reap s = Some (s\<lparr>zombies := rest, deleted := it # deleted s\<rparr>)" by (simp add: reap_def)
    then have "delete_zombies s = delete_zombies (s\<lparr>zombies := rest, deleted := it # deleted s\<rparr>)"
      by (subst delete_zombies.simps) simp
    with "1.IH" [OF r sched_reach.reap [OF "1.prems" r]] Cons show ?thesis by auto
  qed
qed

lemma thread_reach:
  fixes s :: "'c::finite sched"
  assumes "sched_reach idle n0 k s" "unat n0 + Suc k < 2 ^ 32" "thread s = (t, s')"
  shows "sched_reach idle n0 (Suc k) s'" "zombies s' = []" "readyQ s' = readyQ s @ [t]" "t = unat n0 + k"
proof -
  note dz = delete_zombies_reach [OF assms(1)]
  obtain s1 where g: "get_thread (delete_zombies s) = (t, s1)" and s': "s' = release t s1"
    using assms(3) by (auto simp: thread_def split: prod.splits)
  have r1: "sched_reach idle n0 (Suc k) s1" using sched_reach.create [OF conjunct1 [OF dz] assms(2) g] .
  have s1: "t = unat (next_id s)" "s1 = (delete_zombies s)\<lparr>next_id := next_id s + 1, held := held s @ [t]\<rparr>"
    using g dz by (auto simp: get_thread_def fetch_add_def)
  then have h: "t \<in> set (held s1)" by simp
  show "sched_reach idle n0 (Suc k) s'" unfolding s' by (rule sched_reach.release [OF r1 h])
  note d = sched_invD [OF sched_reach_inv [OF assms(1)]]
  show t: "t = unat n0 + k" using s1(1) d(3) by simp
  have "idle c \<noteq> t" for c using d(4) [of c] t by simp
  then have "\<not> isIdle s1 t" using d(1) dz by (simp add: isIdle_def s1(2))
  then show "zombies s' = []" "readyQ s' = readyQ s @ [t]"
    using dz by (auto simp: s' release_def schedule_def isIdle_def s1(2))
qed

lemma hits_pos: "f c = x \<Longrightarrow> 0 < hits f x"
  by (auto simp: hits_def card_gt_0_iff)

lemma hits_two: "f c = x \<Longrightarrow> f d = x \<Longrightarrow> c \<noteq> d \<Longrightarrow> 2 \<le> hits f x"
proof -
  assume h: "f c = x" "f d = x" "c \<noteq> d"
  have "card {c, d} \<le> card {e. f e = x}" by (rule card_mono) (use h in auto)
  then show ?thesis using h(3) by (simp add: hits_def)
qed

text \<open>
  C21.  No thread is ever in two places.  In every state of the scheduler, whatever the cores did and
  in which order: two cores never run the same thread; a thread on the ready queue is there once and
  neither runs nor is still being left by a core; and a thread that waits to be deleted, or has been,
  is not running, not ready and not being left.  Every created thread is in exactly one place.
\<close>

theorem threads_in_one_place:
  fixes s :: "'c::finite sched"
  assumes "sched_reach idle n0 k s"
  shows "(\<forall>c d. activeThreads s c = activeThreads s d \<longrightarrow> c = d) \<and>
    (\<forall>t \<in> set (readyQ s). count_list (readyQ s) t = 1 \<and> (\<forall>c. activeThreads s c \<noteq> t \<and> leaves s c \<noteq> Some t)) \<and>
    (\<forall>t \<in> set (zombies s) \<union> set (deleted s). t \<notin> range idle \<longrightarrow> t \<notin> set (readyQ s) \<and> t \<notin> set (held s) \<and>
       (\<forall>c. activeThreads s c \<noteq> t \<and> leaves s c \<noteq> Some t)) \<and>
    (\<forall>t. unat n0 \<le> t \<and> t < unat n0 + k \<longrightarrow> places s t = 1)"
proof -
  have inv: "sched_inv idle n0 k s" by (rule sched_reach_inv [OF assms])
  note d = sched_invD [OF inv]
  have le: "places s t \<le> 1" if "t \<notin> range idle" for t
    using d(5) [OF that] by (simp add: one_def)
  have "c = e" if h: "activeThreads s c = activeThreads s e" for c e
  proof (cases "activeThreads s c \<in> range idle")
    case True
    then obtain f where "activeThreads s c = idle f" by auto
    then have "c = f" "e = f" using d(6) [of c f] d(6) [of e f] h by simp_all
    then show ?thesis by simp
  next
    case False
    show ?thesis
    proof (rule ccontr)
      assume "c \<noteq> e"
      then have "2 \<le> hits (activeThreads s) (activeThreads s c)" by (intro hits_two [OF refl h [symmetric]])
      then have "2 \<le> places s (activeThreads s c)" unfolding places_def by linarith
      then show False using le [OF False] by linarith
    qed
  qed
  moreover have "count_list (readyQ s) t = 1 \<and> (\<forall>c. activeThreads s c \<noteq> t \<and> leaves s c \<noteq> Some t)"
    if t: "t \<in> set (readyQ s)" for t
  proof -
    have ni: "t \<notin> range idle" using d(8) t by auto
    have "0 < count_list (readyQ s) t" using t by (simp add: count_list_0_iff flip: neq0_conv)
    then have "count_list (readyQ s) t = 1 \<and> hits (activeThreads s) t = 0 \<and> hits (leaves s) (Some t) = 0"
      using le [OF ni] unfolding places_def by linarith
    then show ?thesis by (auto simp: hits_def)
  qed
  moreover have "t \<notin> set (readyQ s) \<and> t \<notin> set (held s) \<and> (\<forall>c. activeThreads s c \<noteq> t \<and> leaves s c \<noteq> Some t)"
    if t: "t \<in> set (zombies s) \<union> set (deleted s)" and ni: "t \<notin> range idle" for t
  proof -
    have "0 < count_list (zombies s) t + count_list (deleted s) t"
      using t by (auto simp: count_list_0_iff neq0_conv [symmetric])
    then have "count_list (readyQ s) t = 0 \<and> count_list (held s) t = 0 \<and>
        hits (activeThreads s) t = 0 \<and> hits (leaves s) (Some t) = 0"
      using le [OF ni] unfolding places_def by linarith
    then show ?thesis by (auto simp: hits_def count_list_0_iff)
  qed
  moreover have "places s t = 1" if t: "unat n0 \<le> t" "t < unat n0 + k" for t
  proof -
    have "t \<notin> range idle" using d(4) t(1) by (metis imageE not_le)
    then show ?thesis using d(5) t by simp
  qed
  ultimately show ?thesis by blast
qed

text \<open>One core: a thread is created, scheduled, runs in place of the idle thread and stops.\<close>

definition sched_demo :: "unit sched" where
  "sched_demo = (threadsInit (\<lambda>_. 0) 1)
     \<lparr>next_id := 2, activeThreads := (\<lambda>_. 0)(() := 1), leaving := (\<lambda>_. None)(() := Some (0, Act_schedule))\<rparr>"

lemma sched_demo_reach: "sched_reach (\<lambda>_. 0) 1 1 sched_demo"
proof -
  let ?s0 = "threadsInit (\<lambda>_. 0) 1 :: unit sched"
  let ?s1 = "?s0\<lparr>next_id := 2, held := [1]\<rparr>"
  let ?s2 = "?s0\<lparr>next_id := 2, readyQ := [1]\<rparr>"
  have "sched_reach (\<lambda>_. 0) 1 0 ?s0" by (rule sched_reach.init) (simp_all add: inj_def)
  then have "sched_reach (\<lambda>_. 0) 1 (Suc 0) ?s1"
    by (rule sched_reach.create [where t = 1]) (simp_all add: get_thread_def fetch_add_def threadsInit_def)
  then have "sched_reach (\<lambda>_. 0) 1 1 (release 1 ?s1)"
    using sched_reach.release [of "\<lambda>_. 0" 1 1 ?s1 1] by simp
  moreover have "release 1 ?s1 = ?s2"
    by (simp add: release_def schedule_def isIdle_def threadsInit_def)
  ultimately have r: "sched_reach (\<lambda>_. 0) 1 1 ?s2" by simp
  show ?thesis
    by (rule sched_reach.block [OF r, of "()" Act_schedule True])
       (simp_all add: block_def switch_to_def current_def sched_demo_def threadsInit_def)
qed

lemma threads_in_one_place_witness:
  "activeThreads sched_demo () = 1 \<and> places sched_demo 1 = 1"
  using threads_in_one_place [OF sched_demo_reach] by (simp add: sched_demo_def)

end
