(* ===== verification/Audio.thy ===== *)
theory Audio
  imports Prelude "HOL-Library.Signed_Division"
begin

text \<open>
  The sound driver of \<open>kernel/audio.cc\<close> and \<open>kernel/audio.h\<close>: an Intel HDA controller
  with its command ring (CORB) and response ring (RIRB), the walk over the widgets of the codecs, the
  stream descriptor, volume, rate, channels and the interrupt handler.

  All the driver touches besides its own structure are memory accesses, to registers, to the page of
  the rings, and through the pointers it reads from there.  They are a parameter, a \<open>mem_bus\<close>
  of functions on an unknown state \<open>'w\<close> of memory and hardware; an access may fault.  The
  structure \<open>hda_audio_device\<close> comes from \<open>malloc\<close> and is not cleared, so its contents
  are an argument.  A polling loop may run for ever: \<open>None\<close> is a run that never returns.
\<close>

section \<open>Memory and driver state\<close>

record 'w mem_bus =
  rd8 :: "u32 \<Rightarrow> 'w \<Rightarrow> (u8 \<times> 'w) res"
  rd16 :: "u32 \<Rightarrow> 'w \<Rightarrow> (u16 \<times> 'w) res"
  rd32 :: "u32 \<Rightarrow> 'w \<Rightarrow> (u32 \<times> 'w) res"
  wr8 :: "u32 \<Rightarrow> u8 \<Rightarrow> 'w \<Rightarrow> 'w res"
  wr16 :: "u32 \<Rightarrow> u16 \<Rightarrow> 'w \<Rightarrow> 'w res"
  wr32 :: "u32 \<Rightarrow> u32 \<Rightarrow> 'w \<Rightarrow> 'w res"

record audio_stream =
  num_buffers :: u32
  buffer_size :: u32
  sample_format :: u32

record hda_audio_output =
  out_stream :: "audio_stream option"
  out_codec :: u8
  out_node :: u16
  sample_rate :: u32
  amp_gain :: int
  num_channels :: u32

text \<open>\<open>outp\<close> (\<open>output\<close> in the source) is \<open>None\<close> while the pointer has not been set, \<open>mmio\<close> the virtual
  address of the registers (\<open>None\<close> for a null \<open>mem_area\<close>).\<close>

record hda =
  outp :: "hda_audio_output option"
  mmio :: "u32 option"
  rings_pa :: u32
  corb :: u32
  rirb :: u32
  bdl :: u32
  dma_pos :: u32
  corb_entries :: u32
  rirb_entries :: u32
  rirb_rp :: u16
  completed_pa :: u32
  num_buffs_completed :: int

definition BDL_SIZE :: u32 where "BDL_SIZE = 4"
definition BUFFER_SIZE :: u32 where "BUFFER_SIZE = 0x10000"
definition sizeof_bdl_entry :: u32 where "sizeof_bdl_entry = 12"
definition ROUNDED_BDL_BYTES :: u32 where
  "ROUNDED_BDL_BYTES = (BDL_SIZE * sizeof_bdl_entry + 127) AND NOT 127"

text \<open>A step of the driver.\<close>

type_synonym ('a, 'w) act = "hda \<times> 'w \<Rightarrow> ('a \<times> hda \<times> 'w) res option"

definition ret :: "'a \<Rightarrow> ('a, 'w) act" where
  "ret x = (\<lambda>s. Some (Inr (x, s)))"

definition abind :: "('a, 'w) act \<Rightarrow> ('a \<Rightarrow> ('b, 'w) act) \<Rightarrow> ('b, 'w) act" where
  "abind m f = (\<lambda>s. obind (m s) (\<lambda>(x, s'). f x s'))"

definition fail_with :: "fault \<Rightarrow> ('a, 'w) act" where
  "fail_with e = (\<lambda>s. Some (Inl e))"

definition dev :: "(hda, 'w) act" where
  "dev = (\<lambda>(h, w). Some (Inr (h, h, w)))"

definition upd :: "(hda \<Rightarrow> hda) \<Rightarrow> (unit, 'w) act" where
  "upd f = (\<lambda>(h, w). Some (Inr ((), f h, w)))"

definition load :: "(u32 \<Rightarrow> 'w \<Rightarrow> ('a \<times> 'w) res) \<Rightarrow> u32 \<Rightarrow> ('a, 'w) act" where
  "load rd a = (\<lambda>(h, w). Some (rbind (rd a w) (\<lambda>(x, w'). Inr (x, h, w'))))"

definition store :: "(u32 \<Rightarrow> 'a \<Rightarrow> 'w \<Rightarrow> 'w res) \<Rightarrow> u32 \<Rightarrow> 'a \<Rightarrow> (unit, 'w) act" where
  "store wr a x = (\<lambda>(h, w). Some (rbind (wr a x w) (\<lambda>w'. Inr ((), h, w'))))"

text \<open>A pointer member that is followed: \<open>device->output\<close>, \<open>device->mmio\<close>.\<close>

definition follow :: "(hda \<Rightarrow> 'p option) \<Rightarrow> ('p, 'w) act" where
  "follow p = abind dev (\<lambda>h. case p h of None \<Rightarrow> fail_with NullDeref | Some x \<Rightarrow> ret x)"

fun act_each :: "('x \<Rightarrow> (unit, 'w) act) \<Rightarrow> 'x list \<Rightarrow> (unit, 'w) act" where
  "act_each f [] = ret ()"
| "act_each f (x # xs) = abind (f x) (\<lambda>_. act_each f xs)"

section \<open>Registers\<close>

definition REG_GCTL :: u32 where "REG_GCTL = 0x08"
definition REG_WAKEEN :: u32 where "REG_WAKEEN = 0x0c"
definition REG_STATESTS :: u32 where "REG_STATESTS = 0x0e"
definition REG_INTCTL :: u32 where "REG_INTCTL = 0x20"
definition REG_INTSTS :: u32 where "REG_INTSTS = 0x24"
definition REG_CORBLBASE :: u32 where "REG_CORBLBASE = 0x40"
definition REG_CORBUBASE :: u32 where "REG_CORBUBASE = 0x44"
definition REG_CORBWP :: u32 where "REG_CORBWP = 0x48"
definition REG_CORBRP :: u32 where "REG_CORBRP = 0x4a"
definition REG_CORBCTL :: u32 where "REG_CORBCTL = 0x4c"
definition REG_CORBSIZE :: u32 where "REG_CORBSIZE = 0x4e"
definition REG_RIRBLBASE :: u32 where "REG_RIRBLBASE = 0x50"
definition REG_RIRBUBASE :: u32 where "REG_RIRBUBASE = 0x54"
definition REG_RIRBWP :: u32 where "REG_RIRBWP = 0x58"
definition REG_RINTCNT :: u32 where "REG_RINTCNT = 0x5a"
definition REG_RIRBCTL :: u32 where "REG_RIRBCTL = 0x5c"
definition REG_RIRBSTS :: u32 where "REG_RIRBSTS = 0x5d"
definition REG_RIRBSIZE :: u32 where "REG_RIRBSIZE = 0x5e"
definition REG_DPLBASE :: u32 where "REG_DPLBASE = 0x70"
definition REG_DPUBASE :: u32 where "REG_DPUBASE = 0x74"
definition REG_O0_CTLU :: u32 where "REG_O0_CTLU = 0x102"
definition REG_O0_STS :: u32 where "REG_O0_STS = 0x103"
definition REG_O0_CBL :: u32 where "REG_O0_CBL = 0x108"
definition REG_O0_STLVI :: u32 where "REG_O0_STLVI = 0x10c"
definition REG_O0_FMT :: u32 where "REG_O0_FMT = 0x112"
definition REG_O0_BDLPL :: u32 where "REG_O0_BDLPL = 0x118"
definition REG_O0_BDLPU :: u32 where "REG_O0_BDLPU = 0x11c"
definition GCTL_RESET :: u32 where "GCTL_RESET = 1"
definition CORBCTL_CORBRUN :: u32 where "CORBCTL_CORBRUN = 2"
definition RIRBCTL_RIRBRUN :: u32 where "RIRBCTL_RIRBRUN = 2"

lemmas register_defs =
  REG_GCTL_def REG_WAKEEN_def REG_STATESTS_def REG_INTCTL_def REG_INTSTS_def REG_CORBLBASE_def
  REG_CORBUBASE_def REG_CORBWP_def REG_CORBRP_def REG_CORBCTL_def REG_CORBSIZE_def REG_RIRBLBASE_def
  REG_RIRBUBASE_def REG_RIRBWP_def REG_RINTCNT_def REG_RIRBCTL_def REG_RIRBSTS_def REG_RIRBSIZE_def
  REG_DPLBASE_def REG_DPUBASE_def REG_O0_CTLU_def REG_O0_STS_def REG_O0_CBL_def REG_O0_STLVI_def
  REG_O0_FMT_def REG_O0_BDLPL_def REG_O0_BDLPU_def GCTL_RESET_def CORBCTL_CORBRUN_def RIRBCTL_RIRBRUN_def

definition REG_OUTL :: "'w mem_bus \<Rightarrow> u32 \<Rightarrow> u32 \<Rightarrow> (unit, 'w) act" where
  "REG_OUTL b reg val = abind (follow mmio) (\<lambda>va. store (wr32 b) (va + reg) val)"

definition REG_INL :: "'w mem_bus \<Rightarrow> u32 \<Rightarrow> (u32, 'w) act" where
  "REG_INL b reg = abind (follow mmio) (\<lambda>va. load (rd32 b) (va + reg))"

definition REG_OUTW :: "'w mem_bus \<Rightarrow> u32 \<Rightarrow> u16 \<Rightarrow> (unit, 'w) act" where
  "REG_OUTW b reg val = abind (follow mmio) (\<lambda>va. store (wr16 b) (va + reg) val)"

definition REG_INW :: "'w mem_bus \<Rightarrow> u32 \<Rightarrow> (u16, 'w) act" where
  "REG_INW b reg = abind (follow mmio) (\<lambda>va. load (rd16 b) (va + reg))"

definition REG_OUTB :: "'w mem_bus \<Rightarrow> u32 \<Rightarrow> u8 \<Rightarrow> (unit, 'w) act" where
  "REG_OUTB b reg val = abind (follow mmio) (\<lambda>va. store (wr8 b) (va + reg) val)"

definition REG_INB :: "'w mem_bus \<Rightarrow> u32 \<Rightarrow> (u8, 'w) act" where
  "REG_INB b reg = abind (follow mmio) (\<lambda>va. load (rd8 b) (va + reg))"

text \<open>A polling loop: the condition is evaluated until it is false.\<close>

partial_function (option) poll :: "(bool, 'w) act \<Rightarrow> (unit, 'w) act" where
  "poll c s =
     (case c s of None \<Rightarrow> None | Some r \<Rightarrow>
       (case r of Inl e \<Rightarrow> Some (Inl e) | Inr (again, s1) \<Rightarrow>
         if again then poll c s1 else Some (Inr ((), s1))))"

declare poll.simps [code]

section \<open>The rings\<close>

text \<open>The upper half of an address, as the driver computes it.\<close>

definition hi32 :: "u32 \<Rightarrow> u32" where
  "hi32 x = ucast (drop_bit 32 (ucast x :: u64))"

text \<open>Remainders of the source on the width of its operands: a division by zero traps.\<close>

definition urem :: "u32 \<Rightarrow> u32 \<Rightarrow> (u32, 'w) act" where
  "urem x y = (if y = 0 then fail_with DivByZero else ret (x mod y))"

definition ring_size :: "u8 \<Rightarrow> u32 \<Rightarrow> u32 \<times> u8" where
  "ring_size reg old =
     (if reg AND 0x40 \<noteq> 0 then (256, reg OR 2)
      else if reg AND 0x20 \<noteq> 0 then (16, reg OR 1)
      else if reg AND 0x10 \<noteq> 0 then (2, reg OR 0)
      else (old, reg))"

definition init_corb :: "'w mem_bus \<Rightarrow> (unit, 'w) act" where
  "init_corb b =
     abind (REG_OUTB b REG_CORBSIZE 255) (\<lambda>_.
     abind (REG_INB b REG_CORBSIZE) (\<lambda>reg.
     abind dev (\<lambda>h.
     case ring_size reg (corb_entries h) of (n, reg1) \<Rightarrow>
     abind (upd (\<lambda>h. h\<lparr>corb_entries := n\<rparr>)) (\<lambda>_.
     abind (REG_OUTB b REG_CORBSIZE reg1) (\<lambda>_.
     abind (load (rd32 b) (rings_pa h)) (\<lambda>corb_base_addr.
     abind (REG_OUTL b REG_CORBLBASE (corb_base_addr AND 0xFFFFFFFF)) (\<lambda>_.
     abind (REG_OUTL b REG_CORBUBASE (hi32 corb_base_addr)) (\<lambda>_.
     REG_OUTB b REG_CORBCTL 0x02))))))))"

definition init_rirb :: "'w mem_bus \<Rightarrow> (unit, 'w) act" where
  "init_rirb b =
     abind (REG_OUTB b REG_RIRBSIZE 255) (\<lambda>_.
     abind (REG_INB b REG_RIRBSIZE) (\<lambda>reg.
     abind dev (\<lambda>h.
     case ring_size reg (rirb_entries h) of (n, reg1) \<Rightarrow>
     abind (upd (\<lambda>h. h\<lparr>rirb_entries := n\<rparr>)) (\<lambda>_.
     abind (REG_OUTB b REG_RIRBSIZE reg1) (\<lambda>_.
     abind (load (rd32 b) (rings_pa h)) (\<lambda>base.
     let rirb_base_addr = base + 1024 in
     abind (REG_OUTL b REG_RIRBLBASE (rirb_base_addr AND 0xFFFFFFFF)) (\<lambda>_.
     abind (REG_OUTL b REG_RIRBUBASE (hi32 rirb_base_addr)) (\<lambda>_.
     abind (REG_OUTB b REG_RINTCNT 0x42) (\<lambda>_.
     REG_OUTB b REG_RIRBCTL 0x02)))))))))"

definition corb_write :: "'w mem_bus \<Rightarrow> u32 \<Rightarrow> (unit, 'w) act" where
  "corb_write b verb =
     abind (REG_INW b REG_CORBWP) (\<lambda>wp.
     abind dev (\<lambda>h.
     abind (urem (ucast (wp AND 0xFF) + 1) (corb_entries h)) (\<lambda>n.
     let nxt = ucast n :: u16 in
     abind (poll (abind (REG_INW b REG_CORBRP) (\<lambda>rp. ret (nxt = rp AND 0xFF)))) (\<lambda>_.
     abind (store (wr32 b) (corb h + 4 * ucast nxt) verb) (\<lambda>_.
     REG_OUTW b REG_CORBWP nxt)))))"

definition rirb_read :: "'w mem_bus \<Rightarrow> (u64, 'w) act" where
  "rirb_read b =
     abind dev (\<lambda>h.
     abind (poll (abind (REG_INW b REG_RIRBWP) (\<lambda>wp. ret (wp AND 0xFF = rirb_rp h)))) (\<lambda>_.
     abind (urem (ucast (rirb_rp h) + 1) (rirb_entries h)) (\<lambda>n.
     let read_pointer = ucast n :: u16 in
     abind (upd (\<lambda>h. h\<lparr>rirb_rp := read_pointer\<rparr>)) (\<lambda>_.
     abind (load (rd32 b) (rirb h + 4 * ucast read_pointer)) (\<lambda>x.
     abind (REG_OUTB b REG_RIRBSTS 0x5) (\<lambda>_.
     ret (ucast x)))))))"

definition verb_of :: "u32 \<Rightarrow> u32 \<Rightarrow> u32 \<Rightarrow> u32" where
  "verb_of codec widget_id payload =
     push_bit 28 (codec AND 0xf) OR push_bit 20 (widget_id AND 0xff) OR (payload AND 0xfffff)"

definition codec_transmission :: "'w mem_bus \<Rightarrow> u32 \<Rightarrow> u32 \<Rightarrow> u32 \<Rightarrow> (u32, 'w) act" where
  "codec_transmission b codec widget_id payload =
     abind (corb_write b (verb_of codec widget_id payload)) (\<lambda>_.
     abind (rirb_read b) (\<lambda>read. ret (ucast (read AND 0xffffffff))))"

section \<open>Codecs and widgets\<close>

definition VERB_GET_PARAMETER :: u32 where "VERB_GET_PARAMETER = 0xf0000"
definition VERB_SET_STREAM_CHANNEL :: u32 where "VERB_SET_STREAM_CHANNEL = 0x70600"
definition VERB_SET_FORMAT :: u32 where "VERB_SET_FORMAT = 0x20000"
definition VERB_GET_AMP_GAIN_MUTE :: u32 where "VERB_GET_AMP_GAIN_MUTE = 0xb0000"
definition VERB_SET_AMP_GAIN_MUTE :: u32 where "VERB_SET_AMP_GAIN_MUTE = 0x30000"
definition VERB_GET_CONN_LIST :: u32 where "VERB_GET_CONN_LIST = 0xf0200"
definition VERB_GET_CONN_SELECT :: u32 where "VERB_GET_CONN_SELECT = 0xf0100"
definition VERB_GET_PIN_CONTROL :: u32 where "VERB_GET_PIN_CONTROL = 0xf0700"
definition VERB_SET_PIN_CONTROL :: u32 where "VERB_SET_PIN_CONTROL = 0x70700"
definition VERB_GET_EAPD_BTL :: u32 where "VERB_GET_EAPD_BTL = 0xf0c00"
definition VERB_SET_EAPD_BTL :: u32 where "VERB_SET_EAPD_BTL = 0x70c00"
definition VERB_SET_POWER_STATE :: u32 where "VERB_SET_POWER_STATE = 0x70500"

definition PARAM_NODE_COUNT :: u32 where "PARAM_NODE_COUNT = 0x04"
definition PARAM_FN_GROUP_TYPE :: u32 where "PARAM_FN_GROUP_TYPE = 0x05"
definition PARAM_AUDIO_WID_CAP :: u32 where "PARAM_AUDIO_WID_CAP = 0x09"
definition PARAM_PIN_CAP :: u32 where "PARAM_PIN_CAP = 0x0c"
definition PARAM_CONN_LIST_LEN :: u32 where "PARAM_CONN_LIST_LEN = 0x0e"
definition PARAM_OUT_AMP_CAP :: u32 where "PARAM_OUT_AMP_CAP = 0x12"

definition GROUP_AUDIO :: u32 where "GROUP_AUDIO = 1"
definition WIDGET_OUTPUT :: u32 where "WIDGET_OUTPUT = 0"
definition WIDGET_PIN :: u32 where "WIDGET_PIN = 4"
definition WIDGET_CAP_POWER_CNTRL :: u32 where "WIDGET_CAP_POWER_CNTRL = 0x400"
definition PIN_CAP_OUTPUT :: u32 where "PIN_CAP_OUTPUT = 0x10"
definition PIN_CTL_ENABLE_OUTPUT :: u32 where "PIN_CTL_ENABLE_OUTPUT = 0x40"
definition SR_48_KHZ :: u32 where "SR_48_KHZ = 0"
definition SR_44_KHZ :: u32 where "SR_44_KHZ = 0x4000"
definition BITS_16 :: u32 where "BITS_16 = 0x10"

definition widget_type :: "u32 \<Rightarrow> u32" where
  "widget_type cap = drop_bit 20 (cap AND 0xf00000)"

text \<open>The pair printed for a connection: is it a range, and the node.\<close>

definition conn_pos :: "u32 \<Rightarrow> u32 \<Rightarrow> u32 \<times> nat" where
  "conn_pos num i =
     (if num AND 0x80 \<noteq> 0 then (i AND NOT 3, 8 * unat (i AND 3)) else (i AND NOT 1, 8 * unat (i AND 1)))"

definition conn_entry :: "u32 \<Rightarrow> u32 \<Rightarrow> bool \<times> u32" where
  "conn_entry num cur =
     (if num AND 0x80 \<noteq> 0 then (cur AND 0x8000 \<noteq> 0, cur AND 0x7FFF) else (cur AND 0x80 \<noteq> 0, cur AND 0x7F))"

primrec connections :: "'w mem_bus \<Rightarrow> u32 \<Rightarrow> u32 \<Rightarrow> u32 \<Rightarrow> u32 list \<Rightarrow> ((bool \<times> u32) list, 'w) act" where
  "connections b codec node num [] = ret []"
| "connections b codec node num (i # is) =
     (case conn_pos num i of (index, shift) \<Rightarrow>
        abind (codec_transmission b codec node (VERB_GET_CONN_LIST OR index)) (\<lambda>cur.
        abind (connections b codec node num is) (\<lambda>es.
        ret (conn_entry num (drop_bit shift cur) # es))))"

definition debug_widget_connections :: "'w mem_bus \<Rightarrow> u32 \<Rightarrow> u32 \<Rightarrow> ((bool \<times> u32) list, 'w) act" where
  "debug_widget_connections b codec node =
     abind (codec_transmission b codec node (VERB_GET_PARAMETER OR PARAM_CONN_LIST_LEN)) (\<lambda>num.
     if num = 0 then ret []
     else abind (connections b codec node num (map of_nat [0..<unat (num AND 0x7F)])) (\<lambda>es.
          abind (codec_transmission b codec node VERB_GET_CONN_SELECT) (\<lambda>selected. ret es)))"

definition power_up :: "'w mem_bus \<Rightarrow> u32 \<Rightarrow> u32 \<Rightarrow> u32 \<Rightarrow> (unit, 'w) act" where
  "power_up b codec node cap =
     (if cap AND WIDGET_CAP_POWER_CNTRL \<noteq> 0
      then abind (codec_transmission b codec node (VERB_SET_POWER_STATE OR 0)) (\<lambda>_. ret ())
      else ret ())"

text \<open>The choice of an output widget: the first one with a node number other than zero stays.\<close>

definition choose_output :: "u32 \<Rightarrow> u32 \<Rightarrow> u32 \<Rightarrow> hda_audio_output \<Rightarrow> hda_audio_output" where
  "choose_output codec node amp o1 =
     (if out_node o1 = 0
      then o1\<lparr>out_codec := ucast codec, out_node := ucast node,
              amp_gain := uint (drop_bit 8 amp AND 0x7F)\<rparr>
      else o1)"

definition init_output :: "'w mem_bus \<Rightarrow> u32 \<Rightarrow> u32 \<Rightarrow> u32 \<Rightarrow> u32 \<Rightarrow> (unit, 'w) act" where
  "init_output b codec node amp eapd =
     abind (follow outp) (\<lambda>o1.
     abind (upd (\<lambda>h. h\<lparr>outp := Some (choose_output codec node amp o1)\<rparr>)) (\<lambda>_.
     abind (codec_transmission b codec node (VERB_SET_EAPD_BTL OR eapd OR 2)) (\<lambda>_. ret ())))"

definition init_pin :: "'w mem_bus \<Rightarrow> u32 \<Rightarrow> u32 \<Rightarrow> u32 \<Rightarrow> u32 \<Rightarrow> (unit, 'w) act" where
  "init_pin b codec node eapd cap =
     abind (codec_transmission b codec node (VERB_GET_PARAMETER OR PARAM_PIN_CAP)) (\<lambda>pin_capability.
     if pin_capability AND PIN_CAP_OUTPUT = 0 then ret ()
     else
       abind (codec_transmission b codec node VERB_GET_PIN_CONTROL) (\<lambda>c.
       abind (codec_transmission b codec node (VERB_SET_PIN_CONTROL OR (c OR PIN_CTL_ENABLE_OUTPUT))) (\<lambda>_.
       abind (codec_transmission b codec node (VERB_SET_EAPD_BTL OR eapd OR 2)) (\<lambda>_.
       power_up b codec node cap))))"

definition init_widget :: "'w mem_bus \<Rightarrow> u32 \<Rightarrow> u32 \<Rightarrow> (unit, 'w) act" where
  "init_widget b codec node =
     abind (codec_transmission b codec node (VERB_GET_PARAMETER OR PARAM_AUDIO_WID_CAP)) (\<lambda>cap.
     if cap = 0 then ret ()
     else
       abind (codec_transmission b codec node (VERB_GET_PARAMETER OR PARAM_OUT_AMP_CAP)) (\<lambda>amp.
       abind (codec_transmission b codec node VERB_GET_EAPD_BTL) (\<lambda>eapd.
       abind (codec_transmission b codec node (VERB_GET_AMP_GAIN_MUTE OR 0x8000)) (\<lambda>gain0.
       abind (codec_transmission b codec node (VERB_GET_AMP_GAIN_MUTE OR 0xA000)) (\<lambda>gain1.
       abind (debug_widget_connections b codec node) (\<lambda>_.
       if widget_type cap = WIDGET_OUTPUT
       then abind (init_output b codec node amp eapd) (\<lambda>_. power_up b codec node cap)
       else if widget_type cap = WIDGET_PIN then init_pin b codec node eapd cap
       else ret ()))))))"

definition init_group :: "'w mem_bus \<Rightarrow> u32 \<Rightarrow> u32 \<Rightarrow> (unit, 'w) act" where
  "init_group b codec node =
     abind (codec_transmission b codec node (VERB_GET_PARAMETER OR PARAM_NODE_COUNT)) (\<lambda>parameter.
     let num_widgets = unat (parameter AND 0xFF); widget_start = drop_bit 16 parameter AND 0xFF in
     abind (codec_transmission b codec node (VERB_GET_PARAMETER OR PARAM_FN_GROUP_TYPE)) (\<lambda>t.
     if t AND 0x7F \<noteq> GROUP_AUDIO then ret ()
     else
       abind (codec_transmission b codec node (VERB_SET_POWER_STATE OR 0)) (\<lambda>_.
       act_each (\<lambda>j. init_widget b codec (widget_start + of_nat j)) [0..<num_widgets])))"

definition codec_init_widgets :: "'w mem_bus \<Rightarrow> u32 \<Rightarrow> (int, 'w) act" where
  "codec_init_widgets b codec =
     abind (codec_transmission b codec 0 (VERB_GET_PARAMETER OR PARAM_NODE_COUNT)) (\<lambda>parameter.
     let num_func_groups = unat (parameter AND 0xFF); func_group_start = drop_bit 16 parameter AND 0xFF in
     abind (act_each (\<lambda>i. init_group b codec (func_group_start + of_nat i)) [0..<num_func_groups]) (\<lambda>_.
     abind (follow outp) (\<lambda>o1. ret (if out_node o1 \<noteq> 0 then 0 else - 1))))"

primrec init_codecs :: "'w mem_bus \<Rightarrow> u16 \<Rightarrow> nat list \<Rightarrow> (unit, 'w) act" where
  "init_codecs b state_status [] = ret ()"
| "init_codecs b state_status (i # is) =
     (if state_status AND push_bit i 1 \<noteq> 0
      then abind (codec_init_widgets b (of_nat i)) (\<lambda>r.
           if r \<noteq> 0 then ret () else init_codecs b state_status is)
      else init_codecs b state_status is)"

definition audio_init_codec :: "'w mem_bus \<Rightarrow> (unit, 'w) act" where
  "audio_init_codec b =
     abind (REG_INW b REG_STATESTS) (\<lambda>state_status. init_codecs b state_status [0..<15])"

section \<open>Reset and streams\<close>

definition rings_running :: "'w mem_bus \<Rightarrow> (bool, 'w) act" where
  "rings_running b =
     abind (REG_INL b REG_CORBCTL) (\<lambda>c.
     if c AND CORBCTL_CORBRUN \<noteq> 0 then ret True
     else abind (REG_INL b REG_RIRBCTL) (\<lambda>r. ret (r AND RIRBCTL_RIRBRUN \<noteq> 0)))"

definition audio_reset :: "'w mem_bus \<Rightarrow> (unit, 'w) act" where
  "audio_reset b =
     abind (REG_OUTL b REG_CORBCTL 0) (\<lambda>_.
     abind (REG_OUTL b REG_RIRBCTL 0) (\<lambda>_.
     abind (poll (rings_running b)) (\<lambda>_.
     abind (REG_OUTL b REG_GCTL 0) (\<lambda>_.
     abind (poll (abind (REG_INL b REG_GCTL) (\<lambda>g. ret (g AND GCTL_RESET \<noteq> 0)))) (\<lambda>_.
     abind (REG_OUTL b REG_GCTL GCTL_RESET) (\<lambda>_.
     abind (poll (abind (REG_INL b REG_GCTL) (\<lambda>g. ret (g AND GCTL_RESET = 0)))) (\<lambda>_.
     abind (REG_OUTW b REG_WAKEEN 0xFFFF) (\<lambda>_.
     abind (REG_OUTL b REG_INTCTL 0x800000FF) (\<lambda>_.
     abind (init_corb b) (\<lambda>_.
     abind (init_rirb b) (\<lambda>_.
     audio_init_codec b)))))))))))"

definition output_format :: "hda_audio_output \<Rightarrow> u16" where
  "output_format o1 = ucast (BITS_16 OR sample_rate o1 OR (num_channels o1 - 1))"

definition output_widget_config :: "'w mem_bus \<Rightarrow> (unit, 'w) act" where
  "output_widget_config b =
     abind (follow outp) (\<lambda>o1.
     let format = ucast (output_format o1) :: u32 in
     abind (codec_transmission b (ucast (out_codec o1)) (ucast (out_node o1)) (VERB_SET_FORMAT OR format)) (\<lambda>_.
     REG_OUTL b REG_O0_FMT format))"

definition new_output :: hda_audio_output where
  "new_output = \<lparr>out_stream = None, out_codec = 0, out_node = 0, sample_rate = 0, amp_gain = 0, num_channels = 0\<rparr>"

definition init_output_widget :: "'w mem_bus \<Rightarrow> (unit, 'w) act" where
  "init_output_widget b =
     abind (upd (\<lambda>h. h\<lparr>outp := Some (new_output\<lparr>out_stream :=
       Some \<lparr>num_buffers = BDL_SIZE, buffer_size = BUFFER_SIZE div 2, sample_format = 0\<rparr>\<rparr>)\<rparr>)) (\<lambda>_.
     abind (follow outp) (\<lambda>o1.
     abind (codec_transmission b (ucast (out_codec o1)) (ucast (out_node o1)) (VERB_SET_STREAM_CHANNEL OR 0x10)) (\<lambda>_.
     abind (upd (\<lambda>h. h\<lparr>outp := map_option (\<lambda>o1. o1\<lparr>sample_rate := SR_48_KHZ, num_channels := 2\<rparr>) (outp h)\<rparr>)) (\<lambda>_.
     output_widget_config b))))"

definition bdl_entry :: "'w mem_bus \<Rightarrow> nat \<Rightarrow> (unit, 'w) act" where
  "bdl_entry b i =
     abind dev (\<lambda>h.
     let p = bdl h + 4 * of_nat i in
     abind (load (rd32 b) (completed_pa h)) (\<lambda>buf.
     abind (load (rd32 b) p) (\<lambda>e. abind (store (wr32 b) e (buf + of_nat i * BUFFER_SIZE)) (\<lambda>_.
     abind (load (rd32 b) p) (\<lambda>e. abind (store (wr32 b) (e + 4) BUFFER_SIZE) (\<lambda>_.
     abind (load (rd32 b) p) (\<lambda>e. store (wr32 b) (e + 8) 1)))))))"

definition stream_descriptor_init :: "'w mem_bus \<Rightarrow> (unit, 'w) act" where
  "stream_descriptor_init b =
     abind dev (\<lambda>h.
     abind (REG_OUTB b REG_O0_CTLU 0x10) (\<lambda>_.
     abind (REG_OUTL b REG_O0_CBL (BDL_SIZE * BUFFER_SIZE)) (\<lambda>_.
     abind (REG_OUTW b REG_O0_STLVI (ucast (BDL_SIZE - 1))) (\<lambda>_.
     abind (load (rd32 b) (rings_pa h)) (\<lambda>base.
     let bld_b = base + 3072 in
     abind (REG_OUTL b REG_O0_BDLPL (bld_b AND 0xFFFFFFFF)) (\<lambda>_.
     abind (REG_OUTL b REG_O0_BDLPU (hi32 bld_b)) (\<lambda>_.
     abind (act_each (bdl_entry b) [0..<unat BDL_SIZE]) (\<lambda>_.
     abind (act_each (\<lambda>i. store (wr32 b) (dma_pos h + 4 * of_nat i) 0) [0..<8]) (\<lambda>_.
     abind (load (rd32 b) (rings_pa h)) (\<lambda>base.
     let dma = base + 3072 + ROUNDED_BDL_BYTES in
     abind (REG_OUTL b REG_DPLBASE ((dma AND 0xffffffff) OR 1)) (\<lambda>_.
     REG_OUTL b REG_DPUBASE (hi32 dma))))))))))))"

section \<open>Operations on a stream\<close>

definition scaled_volume :: "u8 \<Rightarrow> int \<Rightarrow> u8" where
  "scaled_volume volume gain =
     (if volume = 0 then 0x80 else of_int ((uint volume * gain) sdiv 255))"

definition audio_set_volume :: "'w mem_bus \<Rightarrow> u8 \<Rightarrow> (unit, 'w) act" where
  "audio_set_volume b volume =
     abind (upd (\<lambda>h. h\<lparr>outp := Some new_output\<rparr>)) (\<lambda>_.
     abind (follow outp) (\<lambda>o1.
     abind (codec_transmission b (ucast (out_codec o1)) (ucast (out_node o1))
       (VERB_SET_AMP_GAIN_MUTE OR 0xB000 OR ucast (scaled_volume volume (amp_gain o1)))) (\<lambda>_. ret ())))"

definition set_output :: "(hda_audio_output \<Rightarrow> hda_audio_output) \<Rightarrow> (unit, 'w) act" where
  "set_output f = abind (follow outp) (\<lambda>o1. upd (\<lambda>h. h\<lparr>outp := Some (f o1)\<rparr>))"

definition audio_set_sample_rate :: "'w mem_bus \<Rightarrow> int \<Rightarrow> (int, 'w) act" where
  "audio_set_sample_rate b sr =
     (if sr = 44100
      then abind (set_output (\<lambda>o1. o1\<lparr>sample_rate := SR_44_KHZ\<rparr>)) (\<lambda>_.
           abind (output_widget_config b) (\<lambda>_. ret sr))
      else abind (set_output (\<lambda>o1. o1\<lparr>sample_rate := SR_48_KHZ\<rparr>)) (\<lambda>_.
           abind (output_widget_config b) (\<lambda>_. ret 48000)))"

definition audio_set_chnl_ct :: "'w mem_bus \<Rightarrow> int \<Rightarrow> (int, 'w) act" where
  "audio_set_chnl_ct b channels =
     (let n = (if channels < 1 \<or> 2 < channels then 2 else channels) in
      abind (set_output (\<lambda>o1. o1\<lparr>num_channels := of_int n\<rparr>)) (\<lambda>_.
      abind (output_widget_config b) (\<lambda>_. ret n)))"

text \<open>The buffer and the frame inside it that are being played.\<close>

definition audio_position :: "u32 \<Rightarrow> u32 \<times> u32" where
  "audio_position position = (position div BUFFER_SIZE, (position mod BUFFER_SIZE) div 2)"

definition get_audio_pos :: "'w mem_bus \<Rightarrow> (u32 \<times> u32, 'w) act" where
  "get_audio_pos b =
     abind dev (\<lambda>h. abind (load (rd32 b) (dma_pos h + 4 * 4)) (\<lambda>position.
     ret (audio_position (position AND 0xffffffff))))"

definition handle_interrupt :: "'w mem_bus \<Rightarrow> (unit, 'w) act" where
  "handle_interrupt b =
     abind (REG_INL b REG_INTSTS) (\<lambda>curr_int_sts.
     abind (REG_INB b REG_O0_STS) (\<lambda>curr_out_sts.
     abind (if curr_out_sts AND 4 \<noteq> 0
            then upd (\<lambda>h. h\<lparr>num_buffs_completed := (num_buffs_completed h + 1) smod uint BDL_SIZE\<rparr>)
            else ret ()) (\<lambda>_.
     abind (REG_OUTL b REG_INTSTS curr_int_sts) (\<lambda>_.
     REG_OUTB b REG_O0_STS curr_out_sts))))"

text \<open>
  \<open>init_dev\<close>.  \<open>frame\<close> is the frame for the rings that \<open>PhysMem::alloc_frame\<close> returns; the
  pages at the two fixed addresses are part of the memory.  At the end \<open>stream->device\<close> is a new
  \<open>audio_device\<close>, three words that are zero, which \<open>audio_set_volume\<close> takes for the
  driver's structure: its second and third word stand where \<open>output\<close> and \<open>mmio\<close> are, and
  \<open>behind\<close> is what the heap has after it.  The pointers that \<open>new\<close> returns are never null, so
  the two tests for it do nothing.
\<close>

definition as_hda :: "hda \<Rightarrow> hda" where
  "as_hda behind = behind\<lparr>outp := None, mmio := None\<rparr>"

definition init_dev :: "'w mem_bus \<Rightarrow> u32 \<Rightarrow> hda \<Rightarrow> hda \<Rightarrow> 'w \<Rightarrow> (u32 \<times> hda \<times> 'w) res option" where
  "init_dev b frame garbage behind w =
     (let va = 0xFEC01000;
          h = garbage\<lparr>rings_pa := frame OR 7, corb := va, rirb := va + 1024, bdl := va + 3072,
                dma_pos := va + 3072 + ROUNDED_BDL_BYTES, completed_pa := 0, mmio := Some 0xFED01000\<rparr> in
      obind (audio_reset b (h, w)) (\<lambda>(_, s1).
      obind (init_output_widget b s1) (\<lambda>(_, s2).
      obind (stream_descriptor_init b s2) (\<lambda>(_, h3, w3).
      obind (audio_set_volume b 255 (as_hda behind, w3)) (\<lambda>(_, _, w4).
      Some (Inr (0, h3\<lparr>outp := Some (new_output\<lparr>out_stream := Some
        \<lparr>num_buffers = 0, buffer_size = 0, sample_format = 0\<rparr>\<rparr>)\<rparr>, w4)))))))"

end
