(* ===== verification/Audio_Correct.thy ===== *)
theory Audio_Correct
  imports Audio
begin

text \<open>
  What the sound driver does on a controller that keeps the protocol of the rings, and what it does as
  it is put together.  A transmission asks the codec exactly the verb and waits for its response; every
  walk over the widgets ends; but the reset looks at the output widget before there is one, and the last
  step of \<open>init_dev\<close> takes an \<open>audio_device\<close> for the driver's structure, so that no
  initialisation ever succeeds.
\<close>

section \<open>Steps of the driver\<close>

lemma act_simps [simp]:
  "ret x s = Some (Inr (x, s))"
  "dev (h, w) = Some (Inr (h, h, w))"
  "upd f (h, w) = Some (Inr ((), f h, w))"
  "fail_with e s = Some (Inl e)"
  by (simp_all add: ret_def dev_def upd_def fail_with_def)

lemma abind_Inr: "m s = Some (Inr (x, s')) \<Longrightarrow> abind m f s = f x s'"
  by (simp add: abind_def)

lemma abind_Inl: "m s = Some (Inl e) \<Longrightarrow> abind m f s = Some (Inl e)"
  by (simp add: abind_def)

lemma abind_None: "m s = None \<Longrightarrow> abind m f s = None"
  by (simp add: abind_def)

lemma abind_eq:
  "abind m f s = (case m s of None \<Rightarrow> None | Some (Inl e) \<Rightarrow> Some (Inl e) | Some (Inr (x, s')) \<Rightarrow> f x s')"
  by (auto simp: abind_def obind_def split: option.split sum.split)

lemma abind_pure [simp]:
  "abind (ret x) g' = g' x"
  "abind dev f (h, w) = f h (h, w)"
  "abind (upd g) k (h, w) = k () (g h, w)"
  "abind (fail_with e) k' = fail_with e"
  by (simp_all add: abind_def fun_eq_iff)

lemma abind_success:
  assumes "abind m f s = Some (Inr y)"
  obtains x s' where "m s = Some (Inr (x, s'))" "f x s' = Some (Inr y)"
  using assms by (auto simp: abind_eq split: option.splits sum.splits prod.splits)

lemma follow_simps [simp]:
  "p h = Some x \<Longrightarrow> follow p (h, w) = Some (Inr (x, h, w))"
  "p h = None \<Longrightarrow> follow p (h, w) = Some (Inl NullDeref)"
  by (simp_all add: follow_def)

lemma registers:
  assumes "mmio h = Some io"
  shows "REG_INL b r (h, w) = load (rd32 b) (io + r) (h, w)"
    "REG_INW b r (h, w) = load (rd16 b) (io + r) (h, w)"
    "REG_INB b r (h, w) = load (rd8 b) (io + r) (h, w)"
    "REG_OUTL b r x (h, w) = store (wr32 b) (io + r) x (h, w)"
    "REG_OUTW b r y (h, w) = store (wr16 b) (io + r) y (h, w)"
    "REG_OUTB b r z (h, w) = store (wr8 b) (io + r) z (h, w)"
  using assms
  by (simp_all add: REG_INL_def REG_INW_def REG_INB_def REG_OUTL_def REG_OUTW_def REG_OUTB_def abind_eq)

lemma no_registers:
  assumes "mmio h = None"
  shows "REG_INW b r (h, w) = Some (Inl NullDeref)"
  using assms by (simp add: REG_INW_def abind_eq)

lemma load_Inr: "rd a w = Inr (x, w') \<Longrightarrow> load rd a (h, w) = Some (Inr (x, h, w'))"
  by (simp add: load_def)

lemma store_Inr: "wr a x w = Inr w' \<Longrightarrow> store wr a x (h, w) = Some (Inr ((), h, w'))"
  by (simp add: store_def)

lemma poll_again: "c s = Some (Inr (True, s1)) \<Longrightarrow> poll c s = poll c s1"
  by (subst poll.simps) simp

lemma poll_done: "c s = Some (Inr (False, s1)) \<Longrightarrow> poll c s = Some (Inr ((), s1))"
  by (subst poll.simps) simp

section \<open>The controller\<close>

text \<open>
  The protocol of the rings, for a codec with state \<open>'c\<close> that answers a verb by \<open>step\<close>.
  \<open>quiet c n r\<close>: all commands up to entry \<open>n\<close> are consumed, the last response is entry \<open>r\<close>.
  \<open>busy k v c n r\<close>: entry \<open>n\<close> holds the verb \<open>v\<close>; the response shows after \<open>k\<close> more looks
  at the write pointer.  \<open>answered a c n r\<close>: the response \<open>a\<close> is entry \<open>r\<close>.  A response
  entry has \<open>stride\<close> words; the other words the driver reads in the ring may hold anything.
\<close>

definition hda_contract ::
    "'w mem_bus \<Rightarrow> u32 \<Rightarrow> hda \<Rightarrow> nat \<Rightarrow> ('c \<Rightarrow> u32 \<Rightarrow> u32 \<times> 'c) \<Rightarrow> ('c \<Rightarrow> u16 \<Rightarrow> u16 \<Rightarrow> 'w \<Rightarrow> bool) \<Rightarrow>
     (nat \<Rightarrow> u32 \<Rightarrow> 'c \<Rightarrow> u16 \<Rightarrow> u16 \<Rightarrow> 'w \<Rightarrow> bool) \<Rightarrow> (u32 \<Rightarrow> 'c \<Rightarrow> u16 \<Rightarrow> u16 \<Rightarrow> 'w \<Rightarrow> bool) \<Rightarrow> bool" where
  "hda_contract b io h stride step quiet busy answered \<longleftrightarrow>
     (\<forall>c n r w. quiet c n r w \<longrightarrow> (\<exists>x w'. rd16 b (io + REG_CORBWP) w = Inr (x, w') \<and> x AND 0xFF = n \<and> quiet c n r w')) \<and>
     (\<forall>c n r w. quiet c n r w \<longrightarrow> (\<exists>x w'. rd16 b (io + REG_CORBRP) w = Inr (x, w') \<and> x AND 0xFF = n \<and> quiet c n r w')) \<and>
     (\<forall>c n r w v n'. quiet c n r w \<longrightarrow> n' = ucast ((ucast n + 1) mod corb_entries h) \<longrightarrow>
        (\<exists>w1 w2 k. wr32 b (corb h + 4 * ucast n') v w = Inr w1 \<and> wr16 b (io + REG_CORBWP) n' w1 = Inr w2 \<and>
           busy k v c n' r w2)) \<and>
     (\<forall>k v c n r w. busy (Suc k) v c n r w \<longrightarrow>
        (\<exists>x w'. rd16 b (io + REG_RIRBWP) w = Inr (x, w') \<and> x AND 0xFF = r \<and> busy k v c n r w')) \<and>
     (\<forall>v c n r w r'. busy 0 v c n r w \<longrightarrow> r' = ucast ((ucast r + 1) mod rirb_entries h) \<longrightarrow>
        (\<exists>x w'. rd16 b (io + REG_RIRBWP) w = Inr (x, w') \<and> x AND 0xFF = r' \<and> r' \<noteq> r \<and>
           answered (fst (step c v)) (snd (step c v)) n r' w')) \<and>
     (\<forall>a c n r w j. answered a c n r w \<longrightarrow>
        (\<exists>x w'. rd32 b (rirb h + 4 * ucast (j :: u16)) w = Inr (x, w') \<and> answered a c n r w' \<and>
           (unat j = stride * unat r \<longrightarrow> x = a))) \<and>
     (\<forall>a c n r w. answered a c n r w \<longrightarrow> (\<exists>w'. wr8 b (io + REG_RIRBSTS) 5 w = Inr w' \<and> quiet c n r w'))"

lemma hda_contractD:
  assumes "hda_contract b io h stride step quiet busy answered"
  shows "\<And>c n r w. quiet c n r w \<Longrightarrow> \<exists>x w'. rd16 b (io + REG_CORBWP) w = Inr (x, w') \<and> x AND 0xFF = n \<and> quiet c n r w'"
    "\<And>c n r w. quiet c n r w \<Longrightarrow> \<exists>x w'. rd16 b (io + REG_CORBRP) w = Inr (x, w') \<and> x AND 0xFF = n \<and> quiet c n r w'"
    "\<And>c n r w v n'. quiet c n r w \<Longrightarrow> n' = ucast ((ucast n + 1) mod corb_entries h) \<Longrightarrow>
        \<exists>w1 w2 k. wr32 b (corb h + 4 * ucast n') v w = Inr w1 \<and> wr16 b (io + REG_CORBWP) n' w1 = Inr w2 \<and>
           busy k v c n' r w2"
    "\<And>k v c n r w. busy (Suc k) v c n r w \<Longrightarrow>
        \<exists>x w'. rd16 b (io + REG_RIRBWP) w = Inr (x, w') \<and> x AND 0xFF = r \<and> busy k v c n r w'"
    "\<And>v c n r w r'. busy 0 v c n r w \<Longrightarrow> r' = ucast ((ucast r + 1) mod rirb_entries h) \<Longrightarrow>
        \<exists>x w'. rd16 b (io + REG_RIRBWP) w = Inr (x, w') \<and> x AND 0xFF = r' \<and> r' \<noteq> r \<and>
           answered (fst (step c v)) (snd (step c v)) n r' w'"
    "\<And>a c n r w j. answered a c n r w \<Longrightarrow>
        \<exists>x w'. rd32 b (rirb h + 4 * ucast (j :: u16)) w = Inr (x, w') \<and> answered a c n r w' \<and>
           (unat j = stride * unat r \<longrightarrow> x = a)"
    "\<And>a c n r w. answered a c n r w \<Longrightarrow> \<exists>w'. wr8 b (io + REG_RIRBSTS) 5 w = Inr w' \<and> quiet c n r w'"
proof -
  note c = assms [unfolded hda_contract_def]
  show "\<exists>x w'. rd16 b (io + REG_CORBWP) w = Inr (x, w') \<and> x AND 0xFF = n \<and> quiet c n r w'"
    if "quiet c n r w" for c n r w
    by (rule conjunct1 [OF c, rule_format, OF that])
  show "\<exists>x w'. rd16 b (io + REG_CORBRP) w = Inr (x, w') \<and> x AND 0xFF = n \<and> quiet c n r w'"
    if "quiet c n r w" for c n r w
    by (rule conjunct1 [OF conjunct2 [OF c], rule_format, OF that])
  show "\<exists>w1 w2 k. wr32 b (corb h + 4 * ucast n') v w = Inr w1 \<and> wr16 b (io + REG_CORBWP) n' w1 = Inr w2 \<and> busy k v c n' r w2"
    if "quiet c n r w" "n' = ucast ((ucast n + 1) mod corb_entries h)" for c n r w v n'
    by (rule conjunct1 [OF conjunct2 [OF conjunct2 [OF c]], rule_format, OF that])
  show "\<exists>x w'. rd16 b (io + REG_RIRBWP) w = Inr (x, w') \<and> x AND 0xFF = r \<and> busy k v c n r w'"
    if "busy (Suc k) v c n r w" for k v c n r w
    by (rule conjunct1 [OF conjunct2 [OF conjunct2 [OF conjunct2 [OF c]]], rule_format, OF that])
  show "\<exists>x w'. rd16 b (io + REG_RIRBWP) w = Inr (x, w') \<and> x AND 0xFF = r' \<and> r' \<noteq> r \<and> answered (fst (step c v)) (snd (step c v)) n r' w'"
    if "busy 0 v c n r w" "r' = ucast ((ucast r + 1) mod rirb_entries h)" for v c n r w r'
    by (rule conjunct1 [OF conjunct2 [OF conjunct2 [OF conjunct2 [OF conjunct2 [OF c]]]], rule_format, OF that])
  show "\<exists>x w'. rd32 b (rirb h + 4 * ucast (j :: u16)) w = Inr (x, w') \<and> answered a c n r w' \<and> (unat j = stride * unat r \<longrightarrow> x = a)"
    if "answered a c n r w" for a c n r w j
    by (rule conjunct1 [OF conjunct2 [OF conjunct2 [OF conjunct2 [OF conjunct2 [OF conjunct2 [OF c]]]]], rule_format, OF that])
  show "\<exists>w'. wr8 b (io + REG_RIRBSTS) 5 w = Inr w' \<and> quiet c n r w'"
    if "answered a c n r w" for a c n r w
    by (rule conjunct2 [OF conjunct2 [OF conjunct2 [OF conjunct2 [OF conjunct2 [OF conjunct2 [OF c]]]]], rule_format, OF that])
qed

text \<open>The entry after \<open>n\<close>.\<close>

definition next_entry :: "u32 \<Rightarrow> u16 \<Rightarrow> u16" where
  "next_entry N n = ucast ((ucast n + 1 :: u32) mod N)"


lemma next_entry_unat:
  assumes "unat n \<le> 255"
  shows "unat (next_entry N n) = (unat n + 1) mod unat N"
proof -
  have "unat (ucast n :: u32) = unat n" "unat (1 :: u32) = 1"
    using assms by (simp_all add: unsigned_ucast_eq take_bit_nat_eq_self)
  then have n1: "unat (ucast n + 1 :: u32) = unat n + 1"
    using assms by (subst unat_add_lem [THEN iffD1]) simp_all
  have "(unat n + 1) mod unat N \<le> unat n + 1" by (rule mod_less_eq_dividend)
  then have "(unat n + 1) mod unat N < 65536" using assms by linarith
  then show ?thesis
    using n1 unfolding next_entry_def by (simp add: unsigned_ucast_eq unat_mod take_bit_nat_eq_self)
qed

lemma next_entry_ne:
  assumes "2 \<le> unat N" "unat n \<le> 255"
  shows "next_entry N n \<noteq> n"
proof
  assume "next_entry N n = n"
  then have m: "(unat n + 1) mod unat N = unat n" using next_entry_unat [OF assms(2), of N] by simp
  moreover have "unat n < unat N" using m assms(1) mod_less_divisor [of "unat N" "unat n + 1"] by simp
  ultimately show False
    using assms(1) by (cases "unat n + 1 < unat N") (simp, simp add: le_less_Suc_eq not_less_eq)
qed

text \<open>The driver's view of the rings between transmissions.\<close>

definition rings_ok :: "u32 \<Rightarrow> hda \<Rightarrow> hda \<Rightarrow> bool" where
  "rings_ok io h0 h \<longleftrightarrow> mmio h = Some io \<and> corb h = corb h0 \<and> rirb h = rirb h0 \<and>
     corb_entries h = corb_entries h0 \<and> rirb_entries h = rirb_entries h0 \<and>
     2 \<le> unat (corb_entries h0) \<and> 2 \<le> unat (rirb_entries h0)"

lemma ring_size_pos: "2 \<le> unat N \<Longrightarrow> (N :: u32) \<noteq> 0"
  by auto

lemma corb_write_quiet:
  assumes c: "hda_contract b io h0 stride step quiet busy answered" and h: "rings_ok io h0 h"
    and q: "quiet st n r w"
  obtains w' k where "corb_write b v (h, w) = Some (Inr ((), h, w'))"
    "busy k v st (next_entry (corb_entries h0) n) r w'"
proof -
  note hs = h [unfolded rings_ok_def] and reg = registers [OF conjunct1 [OF h [unfolded rings_ok_def]]]
  let ?n = "next_entry (corb_entries h0) n"
  obtain x w1 where a: "rd16 b (io + REG_CORBWP) w = Inr (x, w1)" "x AND 0xFF = n" "quiet st n r w1"
    using hda_contractD(1) [OF c q] by blast
  obtain y w2 where d: "rd16 b (io + REG_CORBRP) w1 = Inr (y, w2)" "y AND 0xFF = n" "quiet st n r w2"
    using hda_contractD(2) [OF c a(3)] by blast
  obtain w3 w4 k where e: "wr32 b (corb h0 + 4 * ucast ?n) v w2 = Inr w3"
    "wr16 b (io + REG_CORBWP) ?n w3 = Inr w4" "busy k v st ?n r w4"
    using hda_contractD(3) [OF c d(3) next_entry_def] by blast
  have nz: "corb_entries h \<noteq> 0" using hs ring_size_pos by auto
  have "unat n \<le> 255"
    using word_and_le1 [of x "0xFF"] a(2) by (simp add: word_le_nat_alt and.commute)
  then have ne: "?n \<noteq> n" using hs by (intro next_entry_ne) simp_all
  have nx: "ucast ((ucast n + 1 :: u32) mod corb_entries h) = ?n" using hs by (simp add: next_entry_def)
  have "abind (REG_INW b REG_CORBRP) (\<lambda>rp. ret (?n = rp AND 0xFF)) (h, w1) = Some (Inr (False, h, w2))"
    using d(1,2) ne by (simp add: abind_eq reg load_def)
  then have po: "poll (abind (REG_INW b REG_CORBRP) (\<lambda>rp. ret (?n = rp AND 0xFF))) (h, w1) = Some (Inr ((), h, w2))"
    by (rule poll_done)
  have "corb_write b v (h, w) = Some (Inr ((), h, w4))"
    using a(1,2) e(1,2) hs nz nx po
    unfolding corb_write_def abind_eq [of "REG_INW b REG_CORBWP"]
    by (simp add: reg load_def store_def urem_def Let_def abind_Inr abind_eq [of "poll c" for c])
  then show ?thesis using that e(3) by blast
qed

lemma poll_answer:
  assumes c: "hda_contract b io h0 stride step quiet busy answered" and h: "rings_ok io h0 h"
  shows "busy k v st n r w \<Longrightarrow> \<exists>w'.
    poll (abind (REG_INW b REG_RIRBWP) (\<lambda>wp. ret (wp AND 0xFF = r))) (h, w) = Some (Inr ((), h, w')) \<and>
    answered (fst (step st v)) (snd (step st v)) n (next_entry (rirb_entries h0) r) w'"
proof (induction k arbitrary: w)
  note reg = registers [OF conjunct1 [OF h [unfolded rings_ok_def]]]
  case 0
  obtain x w1 where a: "rd16 b (io + REG_RIRBWP) w = Inr (x, w1)" "x AND 0xFF = next_entry (rirb_entries h0) r"
    "next_entry (rirb_entries h0) r \<noteq> r"
    "answered (fst (step st v)) (snd (step st v)) n (next_entry (rirb_entries h0) r) w1"
    using hda_contractD(5) [OF c 0 next_entry_def] by blast
  have "abind (REG_INW b REG_RIRBWP) (\<lambda>wp. ret (wp AND 0xFF = r)) (h, w) = Some (Inr (False, h, w1))"
    using a(1,2,3) by (simp add: abind_eq reg load_def)
  then have "poll (abind (REG_INW b REG_RIRBWP) (\<lambda>wp. ret (wp AND 0xFF = r))) (h, w) = Some (Inr ((), h, w1))"
    by (rule poll_done)
  then show ?case using a(4) by blast
next
  note reg = registers [OF conjunct1 [OF h [unfolded rings_ok_def]]]
  case (Suc k)
  obtain x w1 where a: "rd16 b (io + REG_RIRBWP) w = Inr (x, w1)" "x AND 0xFF = r" "busy k v st n r w1"
    using hda_contractD(4) [OF c Suc.prems] by blast
  have "abind (REG_INW b REG_RIRBWP) (\<lambda>wp. ret (wp AND 0xFF = r)) (h, w) = Some (Inr (True, h, w1))"
    using a(1,2) by (simp add: abind_eq reg load_def)
  then have "poll (abind (REG_INW b REG_RIRBWP) (\<lambda>wp. ret (wp AND 0xFF = r))) (h, w) =
      poll (abind (REG_INW b REG_RIRBWP) (\<lambda>wp. ret (wp AND 0xFF = r))) (h, w1)"
    by (rule poll_again)
  then show ?case using Suc.IH [OF a(3)] by (simp only:)
qed

lemma transmission:
  assumes c: "hda_contract b io h0 stride step quiet busy answered" and h: "rings_ok io h0 h"
    and q: "quiet st n (rirb_rp h) w"
  obtains x w' where "codec_transmission b codec node payload (h, w) =
      Some (Inr (x, h\<lparr>rirb_rp := next_entry (rirb_entries h0) (rirb_rp h)\<rparr>, w'))"
    "quiet (snd (step st (verb_of codec node payload))) (next_entry (corb_entries h0) n)
      (next_entry (rirb_entries h0) (rirb_rp h)) w'"
    "stride = 1 \<Longrightarrow> x = fst (step st (verb_of codec node payload))"
proof -
  let ?v = "verb_of codec node payload" and ?r = "next_entry (rirb_entries h0) (rirb_rp h)"
    and ?n = "next_entry (corb_entries h0) n"
  note hs = h [unfolded rings_ok_def] and reg = registers [OF conjunct1 [OF h [unfolded rings_ok_def]]]
  obtain w1 k where cw: "corb_write b ?v (h, w) = Some (Inr ((), h, w1))" "busy k ?v st ?n (rirb_rp h) w1"
    by (rule corb_write_quiet [OF c h q])
  obtain w2 where p: "poll (abind (REG_INW b REG_RIRBWP) (\<lambda>wp. ret (wp AND 0xFF = rirb_rp h))) (h, w1) =
      Some (Inr ((), h, w2))" "answered (fst (step st ?v)) (snd (step st ?v)) ?n ?r w2"
    using poll_answer [OF c h cw(2)] by blast
  obtain x w3 where x: "rd32 b (rirb h0 + 4 * ucast ?r) w2 = Inr (x, w3)"
    "answered (fst (step st ?v)) (snd (step st ?v)) ?n ?r w3" "unat ?r = stride * unat ?r \<longrightarrow> x = fst (step st ?v)"
    using hda_contractD(6) [OF c p(2)] by blast
  obtain w4 where w4: "wr8 b (io + REG_RIRBSTS) 5 w3 = Inr w4" "quiet (snd (step st ?v)) ?n ?r w4"
    using hda_contractD(7) [OF c x(2)] by blast
  have nz: "rirb_entries h \<noteq> 0" using hs ring_size_pos by auto
  have nx: "ucast ((ucast (rirb_rp h) + 1 :: u32) mod rirb_entries h) = ?r" using hs by (simp add: next_entry_def)
  let ?h = "h\<lparr>rirb_rp := ?r\<rparr>"
  have reg': "REG_OUTB b a z (?h, u) = store (wr8 b) (io + a) z (?h, u)" for a z u
    by (rule registers(6)) (use hs in simp)
  have "rirb_read b (h, w1) = Some (Inr (ucast x, ?h, w4))"
    using x(1) w4(1) hs nz nx
    unfolding rirb_read_def abind_pure(2) abind_eq [of "poll c" for c] p(1)
    by (simp add: reg' load_def store_def urem_def Let_def abind_Inr)
  moreover have "ucast ((ucast x :: u64) AND 0xffffffff) = x"
  proof -
    have m: "(0xffffffff :: u64) = mask 32" by (simp add: mask_eq_decr_exp)
    show ?thesis unfolding m by (rule bit_word_eqI) (auto simp: bit_simps)
  qed
  ultimately have "codec_transmission b codec node payload (h, w) = Some (Inr (x, ?h, w4))"
    using cw(1) by (simp add: codec_transmission_def abind_eq)
  then show ?thesis using that w4(2) x(3) by simp
qed

section \<open>Sequences of requests\<close>

text \<open>A codec, a node and a payload.\<close>

type_synonym request = "u32 \<times> u32 \<times> u32"

definition verb_for :: "request \<Rightarrow> u32" where
  "verb_for q = verb_of (fst q) (fst (snd q)) (snd (snd q))"

primrec transmit_all :: "'w mem_bus \<Rightarrow> request list \<Rightarrow> (u32 list, 'w) act" where
  "transmit_all b [] = ret []"
| "transmit_all b (q # qs) =
     abind (codec_transmission b (fst q) (fst (snd q)) (snd (snd q))) (\<lambda>x.
     abind (transmit_all b qs) (\<lambda>xs. ret (x # xs)))"

text \<open>What the codec answers, and the state it ends in.\<close>

primrec answers :: "('c \<Rightarrow> u32 \<Rightarrow> u32 \<times> 'c) \<Rightarrow> 'c \<Rightarrow> u32 list \<Rightarrow> u32 list \<times> 'c" where
  "answers step st [] = ([], st)"
| "answers step st (v # vs) =
     (case step st v of (x, st1) \<Rightarrow> case answers step st1 vs of (xs, st2) \<Rightarrow> (x # xs, st2))"

lemma verb_fields:
  "drop_bit 28 (verb_of codec node payload) = codec AND 0xf"
  "drop_bit 20 (verb_of codec node payload) AND 0xff = node AND 0xff"
  "verb_of codec node payload AND 0xfffff = payload AND 0xfffff"
proof -
  have m: "(0xf :: u32) = mask 4" "(0xff :: u32) = mask 8" "(0xfffff :: u32) = mask 20"
    by (simp_all add: mask_eq_decr_exp)
  show "drop_bit 28 (verb_of codec node payload) = codec AND 0xf"
    unfolding verb_of_def m by (rule bit_word_eqI) (auto simp: bit_simps)
  show "drop_bit 20 (verb_of codec node payload) AND 0xff = node AND 0xff"
    unfolding verb_of_def m by (rule bit_word_eqI) (auto simp: bit_simps)
  show "verb_of codec node payload AND 0xfffff = payload AND 0xfffff"
    unfolding verb_of_def m by (rule bit_word_eqI) (auto simp: bit_simps)
qed

text \<open>
  C14.  The driver talks to the codec.  On a controller that keeps the protocol of the rings, any
  sequence of requests returns, whatever the delay of each response; the codec sees exactly the verbs of
  the requests in order, each once, with the codec, the node and the payload in their bit fields; and
  when the responses are one word apart, as the driver takes them to be, the values returned are the
  answers of the codec in order.
\<close>

theorem requests_are_answered:
  assumes c: "hda_contract b io h0 stride step quiet busy answered" and h: "rings_ok io h0 h"
    and q: "quiet st n (rirb_rp h) w"
  shows "\<exists>xs h' w' n'. transmit_all b qs (h, w) = Some (Inr (xs, h', w')) \<and> length xs = length qs \<and>
    rings_ok io h0 h' \<and> outp h' = outp h \<and>
    quiet (snd (answers step st (map verb_for qs))) n' (rirb_rp h') w' \<and>
    (stride = 1 \<longrightarrow> xs = fst (answers step st (map verb_for qs))) \<and>
    (\<forall>q\<in>set qs. drop_bit 28 (verb_for q) = fst q AND 0xf \<and>
       drop_bit 20 (verb_for q) AND 0xff = fst (snd q) AND 0xff \<and>
       verb_for q AND 0xfffff = snd (snd q) AND 0xfffff)"
  using h q
proof (induction qs arbitrary: h w st n)
  case Nil
  then show ?case by auto
next
  case (Cons q qs)
  let ?v = "verb_for q"
  obtain x w1 where t: "codec_transmission b (fst q) (fst (snd q)) (snd (snd q)) (h, w) =
      Some (Inr (x, h\<lparr>rirb_rp := next_entry (rirb_entries h0) (rirb_rp h)\<rparr>, w1))"
    "quiet (snd (step st ?v)) (next_entry (corb_entries h0) n) (next_entry (rirb_entries h0) (rirb_rp h)) w1"
    "stride = 1 \<Longrightarrow> x = fst (step st ?v)"
    using transmission [OF c Cons.prems] unfolding verb_for_def by metis
  let ?h = "h\<lparr>rirb_rp := next_entry (rirb_entries h0) (rirb_rp h)\<rparr>"
  have "rings_ok io h0 ?h" using Cons.prems(1) by (simp add: rings_ok_def)
  from Cons.IH [OF this, of "snd (step st ?v)" "next_entry (corb_entries h0) n" w1] t(2)
  obtain xs h' w' n' where r: "transmit_all b qs (?h, w1) = Some (Inr (xs, h', w'))" "length xs = length qs"
    "rings_ok io h0 h'" "outp h' = outp h"
    "quiet (snd (answers step (snd (step st ?v)) (map verb_for qs))) n' (rirb_rp h') w'"
    "stride = 1 \<longrightarrow> xs = fst (answers step (snd (step st ?v)) (map verb_for qs))"
    by auto
  have "transmit_all b (q # qs) (h, w) = Some (Inr (x # xs, h', w'))"
    using t(1) r(1) by (simp add: abind_eq)
  moreover have "answers step st (map verb_for (q # qs)) =
      (fst (step st ?v) # fst (answers step (snd (step st ?v)) (map verb_for qs)),
       snd (answers step (snd (step st ?v)) (map verb_for qs)))"
    by (simp add: case_prod_beta)
  ultimately show ?case
    using r(2-6) t(3) verb_fields unfolding verb_for_def
    by (intro exI [of _ "x # xs"] exI [of _ h'] exI [of _ w'] exI [of _ n']) simp
qed

section \<open>A controller\<close>

text \<open>A controller that answers at once, with the verb plus one; \<open>stride\<close> words per response.\<close>

record hda_world =
  hw_n :: u16
  hw_r :: u16
  hw_mem :: "u32 \<Rightarrow> u32"

definition demo_io :: u32 where "demo_io = 0xFED01000"

definition demo_hda :: hda where
  "demo_hda = \<lparr>outp = None, mmio = Some demo_io, rings_pa = 0x600007, corb = 0xFEC01000, rirb = 0xFEC01400,
     bdl = 0xFEC01C00, dma_pos = 0xFEC01C80, corb_entries = 256, rirb_entries = 256, rirb_rp = 0,
     completed_pa = 0, num_buffs_completed = 0\<rparr>"

definition response_at :: "nat \<Rightarrow> u16 \<Rightarrow> u32" where
  "response_at stride r = rirb demo_hda + 4 * of_nat (stride * unat r)"

definition hda_answer :: "nat \<Rightarrow> u16 \<Rightarrow> hda_world \<Rightarrow> hda_world" where
  "hda_answer stride n w =
     (let r = next_entry 256 (hw_r w); v = hw_mem w (corb demo_hda + 4 * ucast n) in
      \<lparr>hw_n = n, hw_r = r, hw_mem = (hw_mem w)(response_at stride r := v + 1)\<rparr>)"

definition hda_bus :: "nat \<Rightarrow> hda_world mem_bus" where
  "hda_bus stride =
     \<lparr>rd8 = (\<lambda>a w. Inr (0, w)),
      rd16 = (\<lambda>a w. Inr (if a = demo_io + REG_CORBWP \<or> a = demo_io + REG_CORBRP then hw_n w
                         else if a = demo_io + REG_RIRBWP then hw_r w
                         else if a = demo_io + REG_STATESTS then 1 else 0, w)),
      rd32 = (\<lambda>a w. Inr (hw_mem w a, w)),
      wr8 = (\<lambda>a x w. Inr w),
      wr16 = (\<lambda>a x w. Inr (if a = demo_io + REG_CORBWP then hda_answer stride x w else w)),
      wr32 = (\<lambda>a x w. Inr (w\<lparr>hw_mem := (hw_mem w)(a := x)\<rparr>))\<rparr>"

definition hw_quiet :: "unit \<Rightarrow> u16 \<Rightarrow> u16 \<Rightarrow> hda_world \<Rightarrow> bool" where
  "hw_quiet st n r w \<longleftrightarrow> hw_n w = n \<and> hw_r w = r \<and> unat n \<le> 255 \<and> unat r \<le> 255"

definition hw_answered :: "nat \<Rightarrow> u32 \<Rightarrow> unit \<Rightarrow> u16 \<Rightarrow> u16 \<Rightarrow> hda_world \<Rightarrow> bool" where
  "hw_answered stride a st n r w \<longleftrightarrow> hw_quiet st n r w \<and> hw_mem w (response_at stride r) = a"

definition hw_busy :: "nat \<Rightarrow> nat \<Rightarrow> u32 \<Rightarrow> unit \<Rightarrow> u16 \<Rightarrow> u16 \<Rightarrow> hda_world \<Rightarrow> bool" where
  "hw_busy stride k v st n r w \<longleftrightarrow> k = 0 \<and> unat r \<le> 255 \<and> hw_answered stride (v + 1) st n (next_entry 256 r) w"

lemma byte_mask_u16: "unat (x :: u16) \<le> 255 \<Longrightarrow> x AND 0xFF = x"
proof -
  assume "unat x \<le> 255"
  then have "take_bit 8 x = x"
    by (simp add: word_unat_eq_iff unsigned_take_bit_eq take_bit_nat_eq_self)
  then show ?thesis by (simp add: take_bit_eq_mask mask_eq_decr_exp)
qed

lemma next_entry_256: "unat n \<le> 255 \<Longrightarrow> unat (next_entry 256 n) \<le> 255"
  using mod_less_divisor [of 256 "unat n + 1"] by (simp add: next_entry_unat)

lemma hda_bus_contract:
  "hda_contract (hda_bus stride) demo_io demo_hda stride (\<lambda>st v. (v + 1, st)) hw_quiet (hw_busy stride) (hw_answered stride)"
  unfolding hda_contract_def
proof (intro conjI allI impI)
  note defs = hda_bus_def hw_quiet_def hw_answered_def hw_busy_def register_defs demo_io_def byte_mask_u16
  have e: "corb_entries demo_hda = 256" "rirb_entries demo_hda = 256" by (simp_all add: demo_hda_def)
  fix st :: unit and n r :: u16 and w
  { assume "hw_quiet st n r w"
    then show "\<exists>x w'. rd16 (hda_bus stride) (demo_io + REG_CORBWP) w = Inr (x, w') \<and> x AND 0xFF = n \<and> hw_quiet st n r w'"
      by (simp add: defs) }
  { assume "hw_quiet st n r w"
    then show "\<exists>x w'. rd16 (hda_bus stride) (demo_io + REG_CORBRP) w = Inr (x, w') \<and> x AND 0xFF = n \<and> hw_quiet st n r w'"
      by (simp add: defs) }
  { fix v :: u32 and n' :: u16 assume q: "hw_quiet st n r w" and n': "n' = ucast ((ucast n + 1) mod corb_entries demo_hda)"
    have "n' = next_entry 256 n" using n' e by (simp add: next_entry_def)
    then have b: "unat n' \<le> 255" "unat (next_entry 256 r) \<le> 255"
      using q next_entry_256 by (simp_all add: hw_quiet_def)
    let ?w1 = "w\<lparr>hw_mem := (hw_mem w)(corb demo_hda + 4 * ucast n' := v)\<rparr>"
    have "hw_busy stride 0 v st n' r (hda_answer stride n' ?w1)"
      using q b by (simp add: hw_busy_def hw_answered_def hw_quiet_def hda_answer_def Let_def)
    then show "\<exists>w1 w2 k. wr32 (hda_bus stride) (corb demo_hda + 4 * ucast n') v w = Inr w1 \<and>
        wr16 (hda_bus stride) (demo_io + REG_CORBWP) n' w1 = Inr w2 \<and> hw_busy stride k v st n' r w2"
      by (auto simp: hda_bus_def) }
  { fix k v assume "hw_busy stride (Suc k) v st n r w"
    then show "\<exists>x w'. rd16 (hda_bus stride) (demo_io + REG_RIRBWP) w = Inr (x, w') \<and> x AND 0xFF = r \<and>
        hw_busy stride k v st n r w'" by (simp add: hw_busy_def) }
  { fix v :: u32 and r' :: u16 assume b: "hw_busy stride 0 v st n r w" and r': "r' = ucast ((ucast r + 1) mod rirb_entries demo_hda)"
    have r'': "r' = next_entry 256 r" using r' e by (simp add: next_entry_def)
    moreover have "next_entry 256 r \<noteq> r" using b by (intro next_entry_ne) (simp_all add: hw_busy_def)
    ultimately show "\<exists>x w'. rd16 (hda_bus stride) (demo_io + REG_RIRBWP) w = Inr (x, w') \<and> x AND 0xFF = r' \<and>
        r' \<noteq> r \<and> hw_answered stride (fst (v + 1, st)) (snd (v + 1, st)) n r' w'"
      using b by (simp add: defs) }
  { fix a and j :: u16 assume an: "hw_answered stride a st n r w"
    have "rirb demo_hda + 4 * ucast j = response_at stride r" if "unat j = stride * unat r"
    proof -
      have "(ucast j :: u32) = of_nat (unat j)" by (rule unat_eqD) (simp add: unsigned_ucast_eq unsigned_of_nat)
      then show ?thesis using that by (simp add: response_at_def)
    qed
    then show "\<exists>x w'. rd32 (hda_bus stride) (rirb demo_hda + 4 * ucast j) w = Inr (x, w') \<and>
        hw_answered stride a st n r w' \<and> (unat j = stride * unat r \<longrightarrow> x = a)"
      using an by (auto simp: hda_bus_def hw_answered_def) }
  { fix a assume "hw_answered stride a st n r w"
    then show "\<exists>w'. wr8 (hda_bus stride) (demo_io + REG_RIRBSTS) 5 w = Inr w' \<and> hw_quiet st n r w'"
      by (simp add: hda_bus_def hw_answered_def) }
qed

definition demo_hw :: hda_world where
  "demo_hw = \<lparr>hw_n = 0, hw_r = 0, hw_mem = (\<lambda>a. 0)\<rparr>"

lemma demo_hw_ok: "hw_quiet () 0 (rirb_rp demo_hda) demo_hw" "rings_ok demo_io demo_hda demo_hda"
  by (simp_all add: hw_quiet_def demo_hw_def demo_hda_def rings_ok_def)

lemma requests_are_answered_witness:
  "\<exists>h' w'. transmit_all (hda_bus 1) [(0, 2, 0xF0009), (1, 3, 0x70C02)] (demo_hda, demo_hw) =
     Some (Inr ([0x002F000A, 0x10370C03], h', w'))"
  using requests_are_answered [OF hda_bus_contract demo_hw_ok(2,1), of 1 "[(0, 2, 0xF0009), (1, 3, 0x70C02)]"]
  by (auto simp: verb_for_def verb_of_def)

text \<open>The entries of the HDA specification have two words, the response and its source.  Then the
  first response is at word 2, and the driver reads word 1.\<close>

lemma two_word_responses:
  "\<exists>s'. codec_transmission (hda_bus 2) 0 2 0xF0009 (demo_hda, demo_hw) = Some (Inr (0, s'))"
proof -
  have "poll (abind (REG_INW (hda_bus 2) r) (\<lambda>x. ret (f x))) (h, w) = Some (Inr ((), h, w))"
    if "mmio h = Some demo_io" "rd16 (hda_bus 2) (demo_io + r) w = Inr (y, w)" "\<not> f y" for r f h w y
    using that by (intro poll_done) (simp add: abind_eq registers load_def)
  then show ?thesis
    by (simp add: codec_transmission_def corb_write_def rirb_read_def abind_eq registers [of _ demo_io] load_def
        store_def urem_def Let_def demo_hda_def hda_bus_def demo_hw_def demo_io_def register_defs
        hda_answer_def next_entry_def response_at_def verb_of_def)
qed

section \<open>The walk over the widgets\<close>

text \<open>A step of the driver between transmissions: it returns, or it stops at the output widget that
  is not there.  \<open>P\<close> is what is known of the pointer to the output.\<close>

definition at_rest :: "u32 \<Rightarrow> hda \<Rightarrow> ('c \<Rightarrow> u16 \<Rightarrow> u16 \<Rightarrow> 'w \<Rightarrow> bool) \<Rightarrow> bool \<Rightarrow> hda \<times> 'w \<Rightarrow> bool" where
  "at_rest io h0 quiet there s \<longleftrightarrow>
     rings_ok io h0 (fst s) \<and> (\<exists>st n. quiet st n (rirb_rp (fst s)) (snd s)) \<and> (outp (fst s) \<noteq> None \<longleftrightarrow> there)"

definition ends :: "(hda \<times> 'w \<Rightarrow> bool) \<Rightarrow> bool \<Rightarrow> ('a, 'w) act \<Rightarrow> bool" where
  "ends I there m \<longleftrightarrow> (\<forall>s. I s \<longrightarrow>
     (\<not> there \<and> m s = Some (Inl NullDeref)) \<or> (\<exists>x s'. m s = Some (Inr (x, s')) \<and> I s'))"

lemma ends_ret: "ends I t (ret x)"
  by (simp add: ends_def)

lemma ends_bind:
  assumes "ends I t m" "\<And>x. ends I t (f x)"
  shows "ends I t (abind m f)"
  unfolding ends_def
proof (intro allI impI)
  fix s assume "I s"
  then consider "\<not> t" "m s = Some (Inl NullDeref)" | x s' where "m s = Some (Inr (x, s'))" "I s'"
    using assms(1) unfolding ends_def by blast
  then show "\<not> t \<and> abind m f s = Some (Inl NullDeref) \<or> (\<exists>x s'. abind m f s = Some (Inr (x, s')) \<and> I s')"
  proof cases
    case 1
    then show ?thesis by (simp add: abind_Inl)
  next
    case (2 x s')
    have "abind m f s = f x s'" using 2(1) by (rule abind_Inr)
    moreover have "\<not> t \<and> f x s' = Some (Inl NullDeref) \<or> (\<exists>y s''. f x s' = Some (Inr (y, s'')) \<and> I s'')"
      using assms(2) [of x] 2(2) unfolding ends_def by blast
    ultimately show ?thesis by (simp only:)
  qed
qed

lemma ends_if: "ends I t m \<Longrightarrow> ends I t m' \<Longrightarrow> ends I t (if c then m else m')"
  by simp

lemma ends_each: "(\<And>x. ends I t (f x)) \<Longrightarrow> ends I t (act_each f xs)"
  by (induction xs) (auto intro: ends_ret ends_bind simp del: act_simps)

lemma ends_transmission:
  assumes c: "hda_contract b io h0 stride step quiet busy answered"
  shows "ends (at_rest io h0 quiet there) there (codec_transmission b codec node payload)"
  unfolding ends_def
proof (intro allI impI disjI2)
  fix s assume r: "at_rest io h0 quiet there s"
  obtain h w where s: "s = (h, w)" by fastforce
  have h: "rings_ok io h0 h" and p: "outp h \<noteq> None \<longleftrightarrow> there" using r s by (simp_all add: at_rest_def)
  obtain st n where q: "quiet st n (rirb_rp h) w" using r s by (auto simp: at_rest_def)
  obtain x w' where t: "codec_transmission b codec node payload (h, w) =
      Some (Inr (x, h\<lparr>rirb_rp := next_entry (rirb_entries h0) (rirb_rp h)\<rparr>, w'))"
    "quiet (snd (step st (verb_of codec node payload))) (next_entry (corb_entries h0) n)
      (next_entry (rirb_entries h0) (rirb_rp h)) w'"
    by (rule transmission [OF c h q])
  have "at_rest io h0 quiet there (h\<lparr>rirb_rp := next_entry (rirb_entries h0) (rirb_rp h)\<rparr>, w')"
    using h p t(2) by (auto simp: at_rest_def rings_ok_def)
  then show "\<exists>x s'. codec_transmission b codec node payload s = Some (Inr (x, s')) \<and> at_rest io h0 quiet there s'"
    using t(1) s by blast
qed

lemma ends_connections:
  assumes c: "hda_contract b io h0 stride step quiet busy answered"
  shows "ends (at_rest io h0 quiet there) there (connections b codec node num is)"
  by (induction "is") (auto intro!: ends_ret ends_bind ends_transmission [OF c] split: prod.split simp del: act_simps)

lemma ends_output:
  assumes c: "hda_contract b io h0 stride step quiet busy answered"
  shows "ends (at_rest io h0 quiet there) there (init_output b codec node amp eapd)"
  unfolding ends_def
proof (intro allI impI)
  fix s assume r: "at_rest io h0 quiet there s"
  obtain h w where s: "s = (h, w)" by fastforce
  show "\<not> there \<and> init_output b codec node amp eapd s = Some (Inl NullDeref) \<or>
      (\<exists>x s'. init_output b codec node amp eapd s = Some (Inr (x, s')) \<and> at_rest io h0 quiet there s')"
  proof (cases "outp h")
    case None
    then show ?thesis using r s by (simp add: init_output_def abind_Inl at_rest_def)
  next
    case (Some o1)
    let ?h = "h\<lparr>outp := Some (choose_output codec node amp o1)\<rparr>"
    let ?m = "abind (codec_transmission b codec node (VERB_SET_EAPD_BTL OR eapd OR 2)) (\<lambda>_. ret ())"
    have "at_rest io h0 quiet there (?h, w)" using r s Some by (auto simp: at_rest_def rings_ok_def)
    moreover have "ends (at_rest io h0 quiet there) there ?m" by (intro ends_bind ends_ret ends_transmission [OF c])
    moreover have "init_output b codec node amp eapd s = ?m (?h, w)"
      using Some s by (simp add: init_output_def abind_eq [of "follow outp"])
    ultimately show ?thesis unfolding ends_def by (metis (no_types))
  qed
qed

lemma ends_widget:
  assumes c: "hda_contract b io h0 stride step quiet busy answered"
  shows "ends (at_rest io h0 quiet there) there (init_widget b codec node)"
  unfolding init_widget_def debug_widget_connections_def init_pin_def power_up_def
  by (intro ends_bind ends_if ends_ret ends_transmission [OF c] ends_connections [OF c] ends_output [OF c])

lemma ends_group:
  assumes c: "hda_contract b io h0 stride step quiet busy answered"
  shows "ends (at_rest io h0 quiet there) there (init_group b codec node)"
  unfolding init_group_def Let_def
  by (intro ends_bind ends_if ends_ret ends_transmission [OF c] ends_each ends_widget [OF c])

lemma ends_follow: "ends (at_rest io h0 quiet there) there (follow outp)"
proof -
  have "(\<not> there \<and> follow outp (h, w) = Some (Inl NullDeref)) \<or>
      (\<exists>x s'. follow outp (h, w) = Some (Inr (x, s')) \<and> at_rest io h0 quiet there s')"
    if "at_rest io h0 quiet there (h, w)" for h w
    using that by (cases "outp h") (auto simp: at_rest_def)
  then show ?thesis by (simp add: ends_def)
qed

lemma ends_codec:
  assumes c: "hda_contract b io h0 stride step quiet busy answered"
  shows "ends (at_rest io h0 quiet there) there (codec_init_widgets b codec)"
  unfolding codec_init_widgets_def Let_def
  by (intro ends_bind ends_ret ends_transmission [OF c] ends_each ends_group [OF c] ends_follow)

lemma ends_codecs:
  assumes c: "hda_contract b io h0 stride step quiet busy answered"
  shows "ends (at_rest io h0 quiet there) there (init_codecs b state is)"
  by (induction "is") (auto intro!: ends_bind ends_ret ends_codec [OF c] split: if_splits simp del: act_simps)

text \<open>Without an output widget the walk over a codec stops.\<close>

lemma codec_without_output:
  assumes c: "hda_contract b io h0 stride step quiet busy answered"
    and s: "at_rest io h0 quiet there s" and t: "\<not> there"
  shows "codec_init_widgets b codec s = Some (Inl NullDeref)"
proof -
  let ?I = "at_rest io h0 quiet there"
  have stop: "abind m (\<lambda>_. abind (follow outp) g) s = Some (Inl NullDeref)"
    if en: "ends ?I there m" "?I s" for m and s and g
  proof -
    consider "m s = Some (Inl NullDeref)" | x s' where "m s = Some (Inr (x, s'))" "?I s'"
      using en unfolding ends_def by blast
    then show ?thesis
    proof cases
      case (2 x s')
      obtain h w where s': "s' = (h, w)" by fastforce
      then have "outp h = None" using 2(2) t by (simp add: at_rest_def)
      then show ?thesis using 2(1) s' by (simp add: abind_eq [of m] abind_Inl)
    qed (simp add: abind_Inl)
  qed
  consider "codec_transmission b codec 0 (VERB_GET_PARAMETER OR PARAM_NODE_COUNT) s = Some (Inl NullDeref)" |
    x s' where "codec_transmission b codec 0 (VERB_GET_PARAMETER OR PARAM_NODE_COUNT) s = Some (Inr (x, s'))" "?I s'"
    using ends_transmission [OF c] s unfolding ends_def by metis
  then show ?thesis
  proof cases
    case (2 x s')
    then show ?thesis
      unfolding codec_init_widgets_def Let_def 2(1) option.case sum.case prod.case
        abind_eq [of "codec_transmission b codec 0 (VERB_GET_PARAMETER OR PARAM_NODE_COUNT)"]
      by (intro stop ends_each ends_group [OF c])
  qed (simp add: codec_init_widgets_def abind_Inl)
qed

lemma codecs_without_output:
  assumes c: "hda_contract b io h0 stride step quiet busy answered"
    and "at_rest io h0 quiet there s" "\<not> there"
  shows "init_codecs b x is s =
    (if \<forall>i\<in>set is. x AND push_bit i 1 = 0 then Some (Inr ((), s)) else Some (Inl NullDeref))"
  using codec_without_output [OF assms] by (induction "is") (auto simp: abind_Inl)

lemma codec_bits: "(\<forall>i\<in>set [0..<15]. x AND push_bit i 1 = 0) \<longleftrightarrow> (x :: u16) AND 0x7FFF = 0"
proof -
  have m: "(0x7FFF :: u16) = mask 15" by (simp add: mask_eq_decr_exp)
  have b: "x AND push_bit i 1 = 0 \<longleftrightarrow> \<not> bit x i" for i
    by (simp add: bit_iff_and_push_bit_not_eq_0)
  have "x AND mask 15 = 0 \<longleftrightarrow> (\<forall>i<15. \<not> bit x i)"
  proof
    assume z: "x AND mask 15 = 0"
    have "bit (x AND mask 15) i \<longleftrightarrow> bit x i" if "i < 15" for i using that by (simp add: bit_simps)
    then show "\<forall>i<15. \<not> bit x i" unfolding z by simp
  next
    assume "\<forall>i<15. \<not> bit x i"
    then show "x AND mask 15 = 0" by (intro bit_word_eqI) (auto simp: bit_simps)
  qed
  then show ?thesis unfolding m b by (auto simp: atLeast0LessThan)
qed

text \<open>
  C16.  The walk over the codecs needs an output widget to look at.  On a controller that keeps the
  protocol of the rings, with any codecs behind it, the walk returns when there is one already; when
  there is none, as in \<open>audio_reset\<close>, which runs before \<open>init_output_widget\<close>, it returns only
  if no codec reports itself and otherwise stops at the pointer that is not set.
\<close>

theorem codec_walk:
  assumes c: "hda_contract b io h0 stride step quiet busy answered" and h: "rings_ok io h0 h"
    and st: "rd16 b (io + REG_STATESTS) w = Inr (x, w')" and q: "quiet st n (rirb_rp h) w'"
  shows "(outp h \<noteq> None \<longrightarrow> (\<exists>h' w''. audio_init_codec b (h, w) = Some (Inr ((), h', w'')) \<and> outp h' \<noteq> None)) \<and>
    (outp h = None \<longrightarrow> audio_init_codec b (h, w) =
       (if x AND 0x7FFF = 0 then Some (Inr ((), h, w')) else Some (Inl NullDeref)))"
proof -
  have io: "mmio h = Some io" using h by (simp add: rings_ok_def)
  have run: "audio_init_codec b (h, w) = init_codecs b x [0..<15] (h, w')"
    unfolding audio_init_codec_def by (rule abind_Inr) (simp add: registers [OF io] load_def st)
  have rest: "at_rest io h0 quiet (outp h \<noteq> None) (h, w')" using h q by (auto simp: at_rest_def)
  have "init_codecs b x [0..<15] (h, w') = (if x AND 0x7FFF = 0 then Some (Inr ((), h, w')) else Some (Inl NullDeref))"
    if "outp h = None"
    using codecs_without_output [OF c rest, of x "[0..<15]"] that unfolding codec_bits by simp
  moreover have "\<exists>h' w''. init_codecs b x [0..<15] (h, w') = Some (Inr ((), h', w'')) \<and> outp h' \<noteq> None"
    if "outp h \<noteq> None"
    using ends_codecs [OF c, of "outp h \<noteq> None" x "[0..<15]"] rest that
    unfolding ends_def at_rest_def by fastforce
  ultimately show ?thesis using run by simp
qed

lemma codec_walk_witness:
  "audio_init_codec (hda_bus 1) (demo_hda, demo_hw) = Some (Inl NullDeref) \<and>
   (\<exists>h' w'. audio_init_codec (hda_bus 1) (demo_hda\<lparr>outp := Some new_output\<rparr>, demo_hw) = Some (Inr ((), h', w')))"
proof -
  have r: "rd16 (hda_bus 1) (demo_io + REG_STATESTS) demo_hw = Inr (1, demo_hw)"
    by (simp add: hda_bus_def register_defs)
  have o: "rings_ok demo_io demo_hda (demo_hda\<lparr>outp := Some new_output\<rparr>)"
    "hw_quiet () 0 (rirb_rp (demo_hda\<lparr>outp := Some new_output\<rparr>)) demo_hw"
    using demo_hw_ok by (simp_all add: rings_ok_def)
  show ?thesis
    using codec_walk [OF hda_bus_contract demo_hw_ok(2) r demo_hw_ok(1)] codec_walk [OF hda_bus_contract o(1) r o(2)]
    by (auto simp: demo_hda_def)
qed

section \<open>Registers that are plain memory\<close>

text \<open>\<open>init_dev\<close> does not look for a controller: the page it maps for the registers is a frame of
  memory.  The first page is not mapped.\<close>

definition ram_rd :: "u32 \<Rightarrow> (u32 \<Rightarrow> u8) \<Rightarrow> u8 res" where
  "ram_rd a m = (if uint a < 4096 then Inl NullDeref else Inr (m a))"

definition ram_bus :: "(u32 \<Rightarrow> u8) mem_bus" where
  "ram_bus =
     \<lparr>rd8 = (\<lambda>a m. rbind (ram_rd a m) (\<lambda>x. Inr (x, m))),
      rd16 = (\<lambda>a m. rbind (ram_rd a m) (\<lambda>_. Inr (word_cat (m (a + 1)) (m a), m))),
      rd32 = (\<lambda>a m. rbind (ram_rd a m) (\<lambda>_.
        Inr (word_cat (word_cat (m (a + 3)) (m (a + 2)) :: u16) (word_cat (m (a + 1)) (m a) :: u16), m))),
      wr8 = (\<lambda>a x m. rbind (ram_rd a m) (\<lambda>_. Inr (m(a := x)))),
      wr16 = (\<lambda>a x m. rbind (ram_rd a m) (\<lambda>_. Inr (m(a := ucast x, a + 1 := ucast (drop_bit 8 x))))),
      wr32 = (\<lambda>a x m. rbind (ram_rd a m) (\<lambda>_.
        Inr (m(a := ucast x, a + 1 := ucast (drop_bit 8 x), a + 2 := ucast (drop_bit 16 x),
               a + 3 := ucast (drop_bit 24 x)))))\<rparr>"

lemma poll_hangs:
  assumes step: "\<And>s. I s \<Longrightarrow> \<exists>s'. c s = Some (Inr (True, s')) \<and> I s'" and s: "I s"
  shows "poll c s = None"
proof (rule ccontr)
  assume "poll c s \<noteq> None"
  then obtain y where y: "poll c s = Some y" by blast
  have "c = c \<longrightarrow> \<not> I s"
  proof (rule poll.raw_induct [where P = "\<lambda>c' s y. c' = c \<longrightarrow> \<not> I s", OF _ y], intro impI notI)
    fix loop :: "(bool, 'a) act \<Rightarrow> (unit, 'a) act" and c' :: "(bool, 'a) act" and s y
    assume ih: "\<And>c' s y. loop c' s = Some y \<Longrightarrow> c' = c \<longrightarrow> \<not> I s" and e: "c' = c" and i: "I s"
      and run: "(case c' s of None \<Rightarrow> None | Some r \<Rightarrow>
          (case r of Inl e \<Rightarrow> Some (Inl e) | Inr (again, s1) \<Rightarrow>
             if again then loop c' s1 else Some (Inr ((), s1)))) = Some y"
    obtain s1 where "c s = Some (Inr (True, s1))" "I s1" using step [OF i] by blast
    then show False using run ih [of c s1 y] e by simp
  qed
  then show False using s by simp
qed

lemma low_byte: "(word_cat (hi :: u8) (lo :: u8) :: u16) AND 0xFF = ucast lo"
proof -
  have m: "(0xFF :: u16) = mask 8" by (simp add: mask_eq_decr_exp)
  show ?thesis unfolding m by (rule bit_word_eqI) (auto simp: bit_simps dest: bit_imp_le_length)
qed

text \<open>The four bytes of a word.\<close>

definition ram_word :: "(u32 \<Rightarrow> u8) \<Rightarrow> u32 \<Rightarrow> u32" where
  "ram_word m a = word_cat (word_cat (m (a + 3)) (m (a + 2)) :: u16) (word_cat (m (a + 1)) (m a) :: u16)"

lemma ram_high: "4096 \<le> uint a \<Longrightarrow> ram_rd a m = Inr (m a)"
  by (simp add: ram_rd_def)

lemma next_entry_range:
  assumes "0 < uint N" "uint N \<le> 256"
  shows "uint (ucast (next_entry N n) :: u32) < 256"
proof -
  have "uint ((ucast n + 1 :: u32) mod N) < 256"
    unfolding uint_mod using assms pos_mod_bound [of "uint N" "uint (ucast n + 1 :: u32)"] by linarith
  then show ?thesis by (simp add: next_entry_def unsigned_ucast_eq unsigned_take_bit_eq take_bit_int_eq_self)
qed

text \<open>The bytes of a word of a ring.\<close>

lemma ring_address:
  assumes "uint n < 256" "uint base \<le> 0xFEC01400" "uint k < 4"
  shows "uint (base + 4 * n + k) = uint base + 4 * uint (n :: u32) + uint k"
proof -
  have "uint (4 * n) = 4 * uint n" using assms(1) by (subst uint_mult_lem [THEN iffD1]) simp_all
  moreover from this have "uint (base + 4 * n) = uint base + 4 * uint n"
    using assms(1,2) by (subst uint_add_lem [THEN iffD1]) simp_all
  ultimately show ?thesis using assms by (subst uint_add_lem [THEN iffD1]) simp_all
qed

text \<open>A polling loop on a register ends at once or never: nothing changes the register.\<close>

lemma ram_poll:
  assumes "mmio h = Some 0xFED01000" and "uint r < 4096"
  shows "poll (abind (REG_INW ram_bus r) (\<lambda>x. ret (P (x AND 0xFF)))) (h, m) =
    (if P (ucast (m (0xFED01000 + r))) then None else Some (Inr ((), h, m)))"
proof -
  have "uint (0xFED01000 + r) = 0xFED01000 + uint r"
    using assms(2) by (subst uint_add_lem [THEN iffD1]) simp_all
  then have "4096 \<le> uint (0xFED01000 + r)" using uint_nonnegative [of r] by linarith
  then have look: "abind (REG_INW ram_bus r) (\<lambda>x. ret (P (x AND 0xFF))) (h, m) =
      Some (Inr (P (ucast (m (0xFED01000 + r))), h, m))"
    by (simp add: abind_eq registers [OF assms(1)] load_def ram_bus_def ram_high low_byte)
  show ?thesis
  proof (cases "P (ucast (m (0xFED01000 + r)))")
    case True
    have "poll (abind (REG_INW ram_bus r) (\<lambda>x. ret (P (x AND 0xFF)))) (h, m) = None"
      by (rule poll_hangs [where I = "\<lambda>s. s = (h, m)"]) (use look True in simp_all)
    then show ?thesis using True by simp
  next
    case False
    have "poll (abind (REG_INW ram_bus r) (\<lambda>x. ret (P (x AND 0xFF)))) (h, m) = Some (Inr ((), h, m))"
      by (rule poll_done) (use look False in simp)
    then show ?thesis using False by simp
  qed
qed

text \<open>A request is written to the frame of the rings and to the pointer of its end; nothing else is touched.\<close>

lemma ram_corb_write:
  assumes at: "mmio h = Some 0xFED01000" "corb h = 0xFEC01000"
    and n: "0 < uint (corb_entries h)" "uint (corb_entries h) \<le> 256"
  shows "if next_entry (corb_entries h) (ucast (m 0xFED01048)) = ucast (m 0xFED0104A)
    then corb_write ram_bus v (h, m) = None
    else \<exists>m'. corb_write ram_bus v (h, m) = Some (Inr ((), h, m')) \<and>
      (\<forall>a. 0xFEC01400 \<le> uint a \<and> a \<noteq> 0xFED01048 \<and> a \<noteq> 0xFED01049 \<longrightarrow> m' a = m a)"
proof -
  note reg = registers [OF at(1)]
  let ?n = "next_entry (corb_entries h) (ucast (m 0xFED01048))"
  let ?p = "poll (abind (REG_INW ram_bus REG_CORBRP) (\<lambda>rp. ret (?n = rp AND 0xFF)))"
  have nz: "corb_entries h \<noteq> 0" using n(1) by auto
  have first: "corb_write ram_bus v (h, m) = abind ?p
      (\<lambda>_. abind (store (wr32 ram_bus) (corb h + 4 * ucast ?n) v) (\<lambda>_. REG_OUTW ram_bus REG_CORBWP ?n)) (h, m)"
    using nz unfolding corb_write_def abind_eq [of "REG_INW ram_bus REG_CORBWP"]
    by (simp add: reg load_def urem_def Let_def REG_CORBWP_def ram_bus_def ram_high low_byte next_entry_def)
  have p: "?p (h, m) = (if ?n = ucast (m 0xFED0104A) then None else Some (Inr ((), h, m)))"
    using ram_poll [OF at(1), where r = REG_CORBRP and P = "\<lambda>x. ?n = x" and m = m] by (simp add: REG_CORBRP_def)
  show ?thesis
  proof (cases "?n = ucast (m 0xFED0104A)")
    case True
    then show ?thesis using p unfolding first by (simp add: abind_None)
  next
    case False
    let ?a = "corb h + 4 * ucast ?n"
    have a: "uint (?a + k) = 0xFEC01000 + 4 * uint (ucast ?n :: u32) + uint k" if "uint k < 4" for k
      unfolding at(2) using ring_address [OF next_entry_range [OF n], of "0xFEC01000" k] that by simp
    have top: "uint (ucast ?n :: u32) < 256" by (rule next_entry_range [OF n])
    have low: "uint (?a + k) < 0xFEC01400" if "uint k < 4" for k using a [OF that] top that by linarith
    have ne: "b \<noteq> ?a \<and> b \<noteq> ?a + 1 \<and> b \<noteq> ?a + 2 \<and> b \<noteq> ?a + 3" if "0xFEC01400 \<le> uint b" for b
      using that low [of 0] low [of 1] low [of 2] low [of 3] by auto
    have "4096 \<le> uint ?a" using a [of 0] uint_nonnegative [of "ucast ?n :: u32"] by simp
    then have "\<exists>m1. wr32 ram_bus ?a v m = Inr m1 \<and> (\<forall>b. 0xFEC01400 \<le> uint b \<longrightarrow> m1 b = m b)"
      using ne by (simp add: ram_bus_def ram_high)
    then obtain m1 where m1: "wr32 ram_bus ?a v m = Inr m1" "\<And>b. 0xFEC01400 \<le> uint b \<Longrightarrow> m1 b = m b" by blast
    have "\<exists>m2. wr16 ram_bus (0xFED01000 + REG_CORBWP) ?n m1 = Inr m2 \<and>
        (\<forall>b. b \<noteq> 0xFED01048 \<and> b \<noteq> 0xFED01049 \<longrightarrow> m2 b = m1 b)"
      by (simp add: ram_bus_def ram_high REG_CORBWP_def)
    then obtain m2 where m2: "wr16 ram_bus (0xFED01000 + REG_CORBWP) ?n m1 = Inr m2"
      "\<And>b. b \<noteq> 0xFED01048 \<and> b \<noteq> 0xFED01049 \<Longrightarrow> m2 b = m1 b" by blast
    have "corb_write ram_bus v (h, m) = Some (Inr ((), h, m2))"
      using p False m1(1) m2(1) unfolding first abind_eq [of ?p] by (simp add: abind_eq reg store_def)
    then show ?thesis using False m1(2) m2(2) by auto
  qed
qed

lemma ram_rirb_read:
  assumes at: "mmio h = Some 0xFED01000" "rirb h = 0xFEC01400"
    and n: "0 < uint (rirb_entries h)" "uint (rirb_entries h) \<le> 256"
  shows "if rirb_rp h = ucast (m 0xFED01058) then rirb_read ram_bus (h, m) = None
    else \<exists>m'. rirb_read ram_bus (h, m) =
      Some (Inr (ucast (ram_word m (0xFEC01400 + 4 * ucast (next_entry (rirb_entries h) (rirb_rp h)))),
        h\<lparr>rirb_rp := next_entry (rirb_entries h) (rirb_rp h)\<rparr>, m'))"
proof -
  let ?n = "next_entry (rirb_entries h) (rirb_rp h)"
  let ?h = "h\<lparr>rirb_rp := ?n\<rparr>"
  let ?p = "poll (abind (REG_INW ram_bus REG_RIRBWP) (\<lambda>wp. ret (wp AND 0xFF = rirb_rp h)))"
  have reg: "mmio (h\<lparr>rirb_rp := x\<rparr>) = Some 0xFED01000" for x using at(1) by simp
  have nz: "rirb_entries h \<noteq> 0" using n(1) by auto
  have p: "?p (h, m) = (if rirb_rp h = ucast (m 0xFED01058) then None else Some (Inr ((), h, m)))"
    using ram_poll [OF at(1), where r = REG_RIRBWP and P = "\<lambda>x. x = rirb_rp h" and m = m] by (auto simp: REG_RIRBWP_def)
  show ?thesis
  proof (cases "rirb_rp h = ucast (m 0xFED01058)")
    case True
    then show ?thesis using p by (simp add: rirb_read_def abind_pure(2) abind_None)
  next
    case False
    let ?a = "0xFEC01400 + 4 * ucast ?n :: u32"
    have "uint ?a = 0xFEC01400 + 4 * uint (ucast ?n :: u32)"
      using ring_address [OF next_entry_range [OF n], of "0xFEC01400" 0] by simp
    then have "4096 \<le> uint ?a" using uint_nonnegative [of "ucast ?n :: u32"] by linarith
    then have word: "rd32 ram_bus ?a m = Inr (ram_word m ?a, m)"
      by (simp add: ram_bus_def ram_high ram_word_def)
    have out: "\<exists>m'. wr8 ram_bus (0xFED01000 + REG_RIRBSTS) 5 m = Inr m'"
      by (simp add: ram_bus_def ram_high REG_RIRBSTS_def)
    show ?thesis
      using False p word out nz at(2)
      unfolding rirb_read_def abind_pure(2) abind_eq [of ?p]
      by (auto simp: urem_def Let_def abind_eq load_def store_def registers [OF reg] next_entry_def)
  qed
qed

text \<open>
  C17.  The driver on registers that are plain memory, as the page \<open>init_dev\<close> maps for them is.  A
  transmission waits for ever if the ring of commands looks full (the entry behind the write pointer is
  the read pointer) or the ring of responses looks empty (the low byte of its write pointer is the
  driver's read pointer, as for a cleared frame and a structure that happens to hold 0).  Else it
  returns at once with the word that was in memory behind the read pointer, whatever the codec, the node
  and the payload: nothing ever answers.
\<close>

theorem plain_memory_never_answers:
  assumes at: "mmio h = Some 0xFED01000" "corb h = 0xFEC01000" "rirb h = 0xFEC01400"
    and n: "0 < uint (corb_entries h)" "uint (corb_entries h) \<le> 256"
    and k: "0 < uint (rirb_entries h)" "uint (rirb_entries h) \<le> 256"
  shows "if next_entry (corb_entries h) (ucast (m 0xFED01048)) = ucast (m 0xFED0104A) \<or>
      rirb_rp h = ucast (m 0xFED01058)
    then codec_transmission ram_bus codec node payload (h, m) = None
    else \<exists>m'. codec_transmission ram_bus codec node payload (h, m) =
      Some (Inr (ram_word m (0xFEC01400 + 4 * ucast (next_entry (rirb_entries h) (rirb_rp h))),
        h\<lparr>rirb_rp := next_entry (rirb_entries h) (rirb_rp h)\<rparr>, m'))"
proof -
  let ?v = "verb_of codec node payload"
  let ?a = "0xFEC01400 + 4 * ucast (next_entry (rirb_entries h) (rirb_rp h)) :: u32"
  have run: "codec_transmission ram_bus codec node payload (h, m) =
      abind (corb_write ram_bus ?v) (\<lambda>_. abind (rirb_read ram_bus) (\<lambda>x. ret (ucast (x AND 0xffffffff)))) (h, m)"
    by (simp add: codec_transmission_def)
  show ?thesis
  proof (cases "next_entry (corb_entries h) (ucast (m 0xFED01048)) = ucast (m 0xFED0104A)")
    case True
    then show ?thesis using ram_corb_write [OF at(1,2) n, of m ?v] unfolding run by (simp add: abind_None)
  next
    case False
    then obtain m' where w: "corb_write ram_bus ?v (h, m) = Some (Inr ((), h, m'))"
      "\<And>a. 0xFEC01400 \<le> uint a \<Longrightarrow> a \<noteq> 0xFED01048 \<Longrightarrow> a \<noteq> 0xFED01049 \<Longrightarrow> m' a = m a"
      using ram_corb_write [OF at(1,2) n, of m ?v] by auto
    have rp: "m' 0xFED01058 = m 0xFED01058" by (rule w(2)) simp_all
    have word: "ram_word m' ?a = ram_word m ?a"
    proof -
      have top: "uint (ucast (next_entry (rirb_entries h) (rirb_rp h)) :: u32) < 256"
        "0 \<le> uint (ucast (next_entry (rirb_entries h) (rirb_rp h)) :: u32)"
        by (rule next_entry_range [OF k]) simp
      have far: "x \<noteq> 0xFED01048 \<and> x \<noteq> 0xFED01049" if "uint x < 0xFEC01900" for x :: u32
        using that by auto
      have "m' (?a + j) = m (?a + j)" if "uint j < 4" for j
      proof -
        have "uint (?a + j) = 0xFEC01400 + 4 * uint (ucast (next_entry (rirb_entries h) (rirb_rp h)) :: u32) + uint j"
          using ring_address [OF top(1), of "0xFEC01400" j] that by simp
        then have "0xFEC01400 \<le> uint (?a + j)" "uint (?a + j) < 0xFEC01900"
          using top that uint_nonnegative [of j] by linarith+
        then show ?thesis using far [of "?a + j"] by (intro w(2)) blast+
      qed
      from this [of 0] this [of 1] this [of 2] this [of 3] show ?thesis by (simp add: ram_word_def)
    qed
    have low: "ucast ((ucast x :: u64) AND 0xffffffff) = x" for x :: u32
    proof -
      have m: "(0xffffffff :: u64) = mask 32" by (simp add: mask_eq_decr_exp)
      show ?thesis unfolding m by (rule bit_word_eqI) (auto simp: bit_simps)
    qed
    show ?thesis
    proof (cases "rirb_rp h = ucast (m 0xFED01058)")
      case True
      then show ?thesis
        using ram_rirb_read [OF at(1,3) k, of m'] w(1) rp unfolding run by (simp add: abind_eq)
    next
      case empty: False
      then obtain m2 where r: "rirb_read ram_bus (h, m') =
          Some (Inr (ucast (ram_word m ?a), h\<lparr>rirb_rp := next_entry (rirb_entries h) (rirb_rp h)\<rparr>, m2))"
        using ram_rirb_read [OF at(1,3) k, of m'] unfolding rp word by auto
      have "codec_transmission ram_bus codec node payload (h, m) =
          Some (Inr (ram_word m ?a, h\<lparr>rirb_rp := next_entry (rirb_entries h) (rirb_rp h)\<rparr>, m2))"
        unfolding run abind_eq [of "corb_write ram_bus ?v"] w(1) by (simp add: abind_eq r ret_def low)
      then show ?thesis using False empty by auto
    qed
  qed
qed

lemma plain_memory_never_answers_witness:
  "codec_transmission ram_bus 0 0 0x70610 (demo_hda, \<lambda>a. 0) = None \<and>
   (\<exists>s. codec_transmission ram_bus 3 2 0x70610 (demo_hda\<lparr>rirb_rp := 5\<rparr>, \<lambda>a. 0) = Some (Inr (0, s)))"
  using plain_memory_never_answers [of demo_hda "\<lambda>a. 0" 0 0 "0x70610"]
    plain_memory_never_answers [of "demo_hda\<lparr>rirb_rp := 5\<rparr>" "\<lambda>a. 0" 3 2 "0x70610"]
  by (auto simp: demo_hda_def demo_io_def next_entry_def ram_word_def)

section \<open>The driver as a whole\<close>

text \<open>\<open>audio_set_volume\<close> makes a new output before it looks at it: the gain is zero.\<close>

lemma volume_without_gain: "v \<noteq> 0 \<Longrightarrow> scaled_volume v (amp_gain new_output) = 0"
  by (simp add: scaled_volume_def new_output_def)

lemma any_volume_is_zero: "v \<noteq> 0 \<Longrightarrow> audio_set_volume b v s = audio_set_volume b 255 s"
  using volume_without_gain [of v] volume_without_gain [of 255]
  by (cases s) (simp add: audio_set_volume_def abind_eq)

lemma no_registers_no_transmission:
  "mmio h = None \<Longrightarrow> codec_transmission b codec node payload (h, w) = Some (Inl NullDeref)"
  unfolding codec_transmission_def corb_write_def by (intro abind_Inl no_registers)

lemma obind_success:
  assumes "obind m f = Some (Inr y)"
  obtains x where "m = Some (Inr x)" "f x = Some (Inr y)"
  using assms by (auto simp: obind_def split: option.splits sum.splits bind_splits)

text \<open>The last step of \<open>init_dev\<close> takes the new \<open>audio_device\<close> of the stream for the driver's structure,
  where the pointer to the registers is null: \<open>init_dev\<close> runs for ever or faults, whatever the hardware,
  the memory and the structure before.\<close>

lemma init_dev_never_succeeds: "init_dev b frame garbage behind w \<noteq> Some (Inr r)"
proof
  assume "init_dev b frame garbage behind w = Some (Inr r)"
  then obtain x w3 where "audio_set_volume b 255 (as_hda behind, w3) = Some (Inr x)"
    unfolding init_dev_def Let_def by (auto elim!: obind_success)
  moreover have "audio_set_volume b 255 (as_hda behind, w3) = Some (Inl NullDeref)"
    by (simp add: audio_set_volume_def abind_eq as_hda_def no_registers_no_transmission)
  ultimately show False by simp
qed

text \<open>The verb that is sent for any volume but zero.\<close>

lemma volume_verb:
  assumes "v \<noteq> 0"
  shows "audio_set_volume b v (h, w) =
    abind (codec_transmission b 0 0 0x3B000) (\<lambda>_. ret ()) (h\<lparr>outp := Some new_output\<rparr>, w)"
proof -
  have "VERB_SET_AMP_GAIN_MUTE OR 0xB000 OR ucast (0 :: u8) = 0x3B000" by (simp add: VERB_SET_AMP_GAIN_MUTE_def)
  then show ?thesis
    using volume_without_gain [OF assms]
    by (simp add: audio_set_volume_def abind_eq [of "follow outp"] new_output_def)
qed

text \<open>The position is a buffer of the list and a frame inside it.\<close>

lemma position_in_range:
  assumes "uint p < uint (BDL_SIZE * BUFFER_SIZE)" "audio_position p = (k, f)"
  shows "uint k < uint BDL_SIZE" "uint f < 32768" "uint p = uint k * 65536 + 2 * uint f + uint p mod 2"
proof -
  have k: "uint k = uint p div 65536" "uint f = uint p mod 65536 div 2"
    using assms(2) by (auto simp: audio_position_def BUFFER_SIZE_def uint_div uint_mod)
  show "uint k < uint BDL_SIZE" "uint f < 32768" "uint p = uint k * 65536 + 2 * uint f + uint p mod 2"
    using assms(1) unfolding k by (simp_all add: BDL_SIZE_def BUFFER_SIZE_def) presburger+
qed

text \<open>The interrupt handler counts the completed buffers around the list.\<close>

lemma interrupt_counts:
  assumes "handle_interrupt b (h, w) = Some (Inr ((), h', w'))" "0 \<le> num_buffs_completed h" "num_buffs_completed h < 4"
  shows "h' = h \<or> h' = h\<lparr>num_buffs_completed := (num_buffs_completed h + 1) mod 4\<rparr>"
proof -
  have keep: "REG_OUTL b r x (h1, w1) = Some (Inr (u, h2, w2)) \<Longrightarrow> h2 = h1"
      "REG_OUTB b r y (h1, w1) = Some (Inr (u, h2, w2)) \<Longrightarrow> h2 = h1"
      "REG_INL b r (h1, w1) = Some (Inr (i, h2, w2)) \<Longrightarrow> h2 = h1"
      "REG_INB b r (h1, w1) = Some (Inr (j, h2, w2)) \<Longrightarrow> h2 = h1" for r x y u i j h1 h2 w1 w2
    by (cases "mmio h1"; auto simp: REG_OUTL_def REG_OUTB_def REG_INL_def REG_INB_def abind_eq load_def store_def
      rbind_def split: sum.splits)+
  have sm: "(num_buffs_completed h + 1) smod 4 = (num_buffs_completed h + 1) mod 4"
    using assms(2) by (simp add: signed_modulo_int_def)
  show ?thesis
    using assms(1) sm unfolding handle_interrupt_def
    by (auto simp: BDL_SIZE_def elim!: abind_success dest!: keep split: if_splits)
qed

end
