(* ===== verification/Play.thy ===== *)
theory Play
  imports Sys Audio_Correct
begin

text \<open>
  The system call \<open>play\<close> (\<open>kernel/sys.cc\<close>, case 14) with the sound driver behind it.  The memory and the
  hardware the driver works on are a world \<open>'w\<close> that is made from the state of the kernel and written
  back into it, by two functions that are a parameter.
\<close>

definition play_driver ::
    "'w mem_bus \<Rightarrow> (kstate \<Rightarrow> 'w) \<Rightarrow> ('w \<Rightarrow> kstate \<Rightarrow> kstate) \<Rightarrow> u32 \<Rightarrow> hda \<Rightarrow> hda \<Rightarrow>
     proc \<Rightarrow> kstate \<Rightarrow> (proc \<times> kstate) res option" where
  "play_driver b world back frame garbage behind p k =
     obind (init_dev b frame garbage behind (world k)) (\<lambda>(_, _, w). Some (Inr (p, back w k)))"

lemma sys_play_never:
  "sys_play (play_driver b world back frame garbage behind) esp p k \<noteq> Some (Inr r)"
proof
  assume "sys_play (play_driver b world back frame garbage behind) esp p k = Some (Inr r)"
  then obtain x where "init_dev b frame garbage behind (world k) = Some (Inr x)"
    unfolding sys_play_def play_driver_def by (auto elim!: obind_success)
  then show False by (simp add: init_dev_never_succeeds)
qed

text \<open>
  C18.  A program that calls \<open>play\<close> never gets an answer.  For every process and state of the kernel, every
  hardware and every contents of the heap, the handler does not return: the driver waits for ever or
  faults, and so does the call, also for a handle that is not open.
\<close>

theorem play_never_returns:
  "sysHandler c d e root junk (play_driver b world back frame garbage behind) 14 eip esp p k \<noteq> Some (Inr r)"
  by (simp add: sysHandler_def sys_play_never)

end
