(* ===== verification/Handles.thy ===== *)
theory Handles
  imports Sys_Props Play
begin

text \<open>
  Handles as the programs see them.  The three tables of a process are one partial map from handle
  numbers to objects: files from 0, semaphores from 10, children from 20.  Each system call refines an
  operation on that map: \<open>open\<close>, \<open>sem\<close> and \<open>fork\<close> bind the least free number of their range to an
  object that did not exist, \<open>close\<close> removes the number it is given, \<open>fork\<close> gives the child the files
  and semaphores of the parent, and every other call leaves the map alone.
\<close>

section \<open>The map\<close>

definition entry :: "obj list \<Rightarrow> nat \<Rightarrow> obj option" where
  "entry xs i = (if i < length xs \<and> xs ! i \<noteq> 0 then Some (xs ! i) else None)"

definition handles :: "proc \<Rightarrow> nat \<Rightarrow> obj option" where
  "handles p h =
     (if h < 10 then entry (p_fd p) h else if h < 20 then entry (p_sp p) (h - 10) else entry (p_cp p) (h - 20))"

definition free_handle :: "(nat \<Rightarrow> obj option) \<Rightarrow> nat \<Rightarrow> nat option" where
  "free_handle t lo = List.find (\<lambda>h. t h = None) [lo..<lo + 10]"

text \<open>What a call does to the map \<open>t\<close> and to the objects.  The handle of a new object, or \<open>-1\<close> when
  there is none.\<close>

definition binds :: "(nat \<Rightarrow> obj option) \<Rightarrow> nat option \<Rightarrow> obj \<Rightarrow> result \<Rightarrow> (nat \<Rightarrow> obj option) \<Rightarrow> bool" where
  "binds t free x r t' \<longleftrightarrow>
     (case free of None \<Rightarrow> r = Ret minus_1 \<and> t' = t | Some h \<Rightarrow> r = Ret (of_nat h) \<and> t' = t(h \<mapsto> x))"

definition opened :: "(nat \<Rightarrow> u8) \<Rightarrow> ext2 \<Rightarrow> node \<Rightarrow> byte_mem \<Rightarrow> u32 \<Rightarrow> node option" where
  "opened d e root m a =
     (if a < 0x80000000 then None
      else case ext2_find d e (Some root) (user_string m a) of Some (Inr file) \<Rightarrow> file | _ \<Rightarrow> None)"

definition handle_call ::
    "(nat \<Rightarrow> u8) \<Rightarrow> ext2 \<Rightarrow> node \<Rightarrow> u32 \<Rightarrow> u32 \<Rightarrow> u32 \<Rightarrow> proc \<Rightarrow> kstate \<Rightarrow> result \<Rightarrow> proc \<Rightarrow> kstate \<Rightarrow> bool" where
  "handle_call d e root eax eip esp p k r p' k' \<longleftrightarrow>
     (let t = handles p; t' = handles p'; a = user_arg p esp 1; x = k_fresh k in
      if eax = 10 then
        (case opened d e root (p_mem p) a of
           None \<Rightarrow> r = Ret minus_1 \<and> t' = t
         | Some nd \<Rightarrow> binds t (free_handle t 0) x r t' \<and>
             (r \<noteq> Ret minus_1 \<longrightarrow> k_desc k' = (k_desc k)(x := filedesc_new\<lparr>fd_file := Some nd\<rparr>)))
      else if eax = 3 then
        binds t (free_handle t 10) x r t' \<and> (r \<noteq> Ret minus_1 \<longrightarrow> k_sem k' = (k_sem k)(x := asem_init (unat a)))
      else if eax = 6 then
        (if t (unat a) = None then r = Ret minus_1 \<and> t' = t else r = Ret 0 \<and> t' = t(unat a := None))
      else if eax = 2 then
        (\<exists>h child. free_handle t 20 = Some h \<and> r = Forks (of_nat h) child eip esp \<and>
           t' = t(h \<mapsto> p_future child) \<and> handles child = t |` {..<20} \<and>
           x \<le> p_future child \<and> k_fut k' = (k_fut k)(p_future child := None))
      else t' = t)"

lemma handle_call_simps:
  "handle_call d e root 10 eip esp p k r p' k' \<longleftrightarrow>
     (case opened d e root (p_mem p) (user_arg p esp 1) of
        None \<Rightarrow> r = Ret minus_1 \<and> handles p' = handles p
      | Some nd \<Rightarrow> binds (handles p) (free_handle (handles p) 0) (k_fresh k) r (handles p') \<and>
          (r \<noteq> Ret minus_1 \<longrightarrow> k_desc k' = (k_desc k)(k_fresh k := filedesc_new\<lparr>fd_file := Some nd\<rparr>)))"
  "handle_call d e root 3 eip esp p k r p' k' \<longleftrightarrow>
     binds (handles p) (free_handle (handles p) 10) (k_fresh k) r (handles p') \<and>
     (r \<noteq> Ret minus_1 \<longrightarrow> k_sem k' = (k_sem k)(k_fresh k := asem_init (unat (user_arg p esp 1))))"
  "handle_call d e root 6 eip esp p k r p' k' \<longleftrightarrow>
     (if handles p (unat (user_arg p esp 1)) = None then r = Ret minus_1 \<and> handles p' = handles p
      else r = Ret 0 \<and> handles p' = (handles p)(unat (user_arg p esp 1) := None))"
  "handle_call d e root 2 eip esp p k r p' k' \<longleftrightarrow>
     (\<exists>h child. free_handle (handles p) 20 = Some h \<and> r = Forks (of_nat h) child eip esp \<and>
        handles p' = (handles p)(h \<mapsto> p_future child) \<and> handles child = handles p |` {..<20} \<and>
        k_fresh k \<le> p_future child \<and> k_fut k' = (k_fut k)(p_future child := None))"
  by (simp_all add: handle_call_def Let_def)

section \<open>Tables and the map\<close>

lemma first_null_free:
  assumes "length xs = 10" and "\<And>i. i < 10 \<Longrightarrow> t (lo + i) = entry xs i"
  shows "free_handle t lo = map_option ((+) lo) (first_null xs 0)"
proof (cases "first_null xs 0")
  case None
  then have "0 \<notin> set xs" by (simp add: first_null_none)
  then have "t (lo + i) \<noteq> None" if "i < 10" for i
    using that assms by (metis entry_def nth_mem option.distinct(1))
  then have "t h \<noteq> None" if "h \<in> set [lo..<lo + 10]" for h using that by (auto dest: le_Suc_ex)
  then show ?thesis using None by (auto simp: free_handle_def find_None_iff)
next
  case (Some i)
  note l = first_null_least [OF Some]
  have n: "i < 10" "t (lo + i) = None" using l assms by (auto simp: entry_def)
  have "t (lo + j) \<noteq> None" if "j < i" for j using l that n(1) assms by (simp add: entry_def)
  then show ?thesis unfolding free_handle_def Some
    by (simp del: upt_Suc add: find_Some_iff) (rule exI [of _ i], use n in simp)
qed

lemma child_slot_first: "child_slot xs b = (case first_null xs b of None \<Rightarrow> Inl OutOfRange | Some i \<Rightarrow> Inr i)"
  by (induction xs b rule: child_slot.induct) simp_all

lemma proc_ok_lengths: "proc_ok k p \<Longrightarrow> length (p_fd p) = 10 \<and> length (p_sp p) = 10 \<and> length (p_cp p) = 10"
  by (simp add: proc_ok_def handles_ok_def)

lemma zero_plus: "map_option ((+) 0) x = (x :: nat option)"
  by (cases x) simp_all

lemma free_handles:
  assumes "proc_ok k p"
  shows "free_handle (handles p) 0 = first_null (p_fd p) 0"
    "free_handle (handles p) 10 = map_option ((+) 10) (first_null (p_sp p) 0)"
    "free_handle (handles p) 20 = map_option ((+) 20) (first_null (p_cp p) 0)"
  using first_null_free [of "p_fd p" "handles p" 0, unfolded zero_plus] first_null_free [of "p_sp p" "handles p" 10]
    first_null_free [of "p_cp p" "handles p" 20] proc_ok_lengths [OF assms]
  by (simp_all add: handles_def option.map_ident)

lemma entry_update: "i < length xs \<Longrightarrow> entry (xs[i := x]) = (entry xs)(i := if x = 0 then None else Some x)"
  by (auto simp: entry_def fun_eq_iff nth_list_update)

lemma handles_update:
  assumes "proc_ok k p" and "i < 10"
  shows "handles (p\<lparr>p_fd := (p_fd p)[i := x]\<rparr>) = (handles p)(i := if x = 0 then None else Some x)"
    "handles (p\<lparr>p_sp := (p_sp p)[i := x]\<rparr>) = (handles p)(10 + i := if x = 0 then None else Some x)"
    "handles (p\<lparr>p_cp := (p_cp p)[i := x]\<rparr>) = (handles p)(20 + i := if x = 0 then None else Some x)"
  using proc_ok_lengths [OF assms(1)] assms(2)
  by (auto simp: handles_def fun_eq_iff entry_update)

lemma handles_mem [simp]: "handles (p\<lparr>p_mem := m\<rparr>) = handles p"
  by (simp add: handles_def fun_eq_iff)

lemma handles_of_word:
  assumes "proc_ok k p"
  shows "handles p (unat h) = (if handle_obj p h = 0 then None else Some (handle_obj p h))"
proof -
  note l = proc_ok_lengths [OF assms]
  have sub: "c \<le> h \<Longrightarrow> unat (h - c) = unat h - unat c" for c by (rule unat_sub) 
  show ?thesis
    using l sub [of 10] sub [of 20]
    by (auto simp: handles_def entry_def handle_obj_def word_less_nat_alt word_le_nat_alt not_less)
qed

section \<open>The calls\<close>

text \<open>Calls that leave the map alone.\<close>

definition keeps :: "proc \<Rightarrow> outcome \<Rightarrow> bool" where
  "keeps p out \<longleftrightarrow> (\<forall>r p' k'. out = Some (Inr (r, p', k')) \<longrightarrow> handles p' = handles p)"

lemma keeps_intros:
  "keeps p (Some (Inl e))" "keeps p None" "keeps p (Sys.ret v p k)" "keeps p (Some (Inr (r, p, k)))"
  "keeps p (Sys.ret v (p\<lparr>p_mem := m\<rparr>) k)" "keeps p (Some (Inr (r, p\<lparr>p_mem := m\<rparr>, k)))"
  by (simp_all add: keeps_def Sys.ret_def)

lemma keeps_obind: "(\<And>x. m = Some (Inr x) \<Longrightarrow> keeps p (f x)) \<Longrightarrow> keeps p (obind m f)"
  by (cases m) (auto simp: obind_def keeps_def split: sum.splits)

lemma keeps_bind: "(\<And>x. m = Some x \<Longrightarrow> keeps p (f x)) \<Longrightarrow> keeps p (Option.bind m f)"
  by (cases m) (auto simp: keeps_def)

lemma keeps_with: "(\<And>f. keeps p (body f)) \<Longrightarrow> keeps p (with_file n p k body)"
    "(\<And>f. keeps p (body f)) \<Longrightarrow> keeps p (with_sem n p k body)"
  by (auto simp: with_file_def with_sem_def keeps_intros intro!: keeps_obind)

lemma calls_keep:
  "keeps p (sys_exit esp p k)" "keeps p (sys_wait c esp p k)" "keeps p (sys_write c esp p k)"
  "keeps p (sys_len esp p k)" "keeps p (sys_read c d esp p k)" "keeps p (sys_seek esp p k)"
  "keeps p (sys_up esp p k)" "keeps p (sys_down esp p k)" "keeps p (sys_exec c d e root junk esp p k)"
  by (auto simp: sys_exit_def sys_wait_def sys_write_def sys_len_def sys_read_def sys_seek_def sys_up_def
      sys_down_def sys_exec_def Let_def keeps_intros intro!: keeps_with keeps_obind keeps_bind
      split: option.splits prod.splits)

text \<open>Calls that bind a handle.\<close>

lemma open_call:
  assumes ok: "proc_ok k p" and run: "sys_open d e root esp p k = Some (Inr (r, p', k'))"
  shows "handle_call d e root 10 eip esp p k r p' k'"
proof (cases "opened d e root (p_mem p) (user_arg p esp 1)")
  case None
  then show ?thesis using run
    by (auto simp: handle_call_simps opened_def sys_open_def Let_def Sys.ret_def obind_def
        split: if_splits option.splits sum.splits)
next
  case (Some nd)
  then have find: "\<not> user_arg p esp 1 < 0x80000000"
    "ext2_find d e (Some root) (user_string (p_mem p) (user_arg p esp 1)) = Some (Inr (Some nd))"
    by (auto simp: opened_def split: if_splits option.splits sum.splits)
  show ?thesis
  proof (cases "first_null (p_fd p) 0")
    case None
    then have "r = Ret minus_1" "p' = p"
      using run find by (simp_all add: sys_open_def Let_def Sys.ret_def)
    then show ?thesis using None Some by (simp add: handle_call_simps free_handles [OF ok] binds_def)
  next
    case free: (Some i)
    then have i: "i < 10" using first_null_least [OF free] proc_ok_lengths [OF ok] by simp
    then show ?thesis using run find Some free ok
      by (auto simp: handle_call_simps sys_open_def Let_def Sys.ret_def free_handles [OF ok] binds_def new_desc_def
          handles_update [OF ok i] proc_ok_def)
  qed
qed

lemma sem_call:
  assumes ok: "proc_ok k p" and run: "sys_sem esp p k = Some (Inr (r, p', k'))"
  shows "handle_call d e root 3 eip esp p k r p' k'"
proof (cases "first_null (p_sp p) 0")
  case None
  then have "r = Ret minus_1" "p' = p" using run by (simp_all add: sys_sem_def Let_def Sys.ret_def)
  then show ?thesis using None by (simp add: handle_call_simps free_handles [OF ok] binds_def)
next
  case (Some i)
  then have i: "i < 10" using first_null_least [OF Some] proc_ok_lengths [OF ok] by simp
  then show ?thesis using run Some ok
    by (auto simp: handle_call_simps sys_sem_def Let_def Sys.ret_def free_handles [OF ok] binds_def new_sem_def
        handles_update [OF ok i] proc_ok_def add.commute)
qed

lemma close_call:
  assumes ok: "proc_ok k p" and run: "sys_close esp p k = Some (Inr (r, p', k'))"
  shows "handle_call d e root 6 eip esp p k r p' k'"
proof (cases "handle_obj p (user_arg p esp 1) = 0")
  case True
  then have "r = Ret minus_1" "p' = p" using run by (simp_all add: sys_close_bad [OF ok] Sys.ret_def)
  then show ?thesis using True by (simp add: handle_call_simps handles_of_word [OF ok])
next
  case False
  let ?a = "user_arg p esp 1"
  have sub: "c \<le> ?a \<Longrightarrow> unat (?a - c) = unat ?a - unat c" for c by (rule unat_sub) 
  consider "?a < 10" | "10 \<le> ?a" "?a < 20" | "20 \<le> ?a" "?a < 30" | "30 \<le> ?a" by fastforce
  then show ?thesis
  proof cases
    case 1
    then have i: "unat ?a < 10" by (simp add: word_less_nat_alt)
    have "\<not> 29 < ?a" using 1 by (simp add: word_less_nat_alt)
    then show ?thesis using run False 1 handle_slots(1) [OF ok 1]
      by (auto simp: handle_call_simps sys_close_def Let_def Sys.ret_def handles_of_word [OF ok] handles_update [OF ok i])
  next
    case 2
    then have i: "unat (?a - 10) < 10" "10 + unat (?a - 10) = unat ?a"
      using sub [of 10] by (simp_all add: word_less_nat_alt word_le_nat_alt)
    have "\<not> 29 < ?a" "\<not> ?a < 10" using 2 by (simp_all add: word_less_nat_alt word_le_nat_alt)
    then show ?thesis using run False 2 handle_slots(2) [OF ok 2]
      by (auto simp: handle_call_simps sys_close_def Let_def Sys.ret_def handles_of_word [OF ok]
          handles_update [OF ok i(1)] i(2))
  next
    case 3
    then have i: "unat (?a - 20) < 10" "20 + unat (?a - 20) = unat ?a"
      using sub [of 20] by (simp_all add: word_less_nat_alt word_le_nat_alt)
    have "\<not> 29 < ?a" "\<not> ?a < 10" "\<not> ?a < 20" using 3 by (simp_all add: word_less_nat_alt word_le_nat_alt)
    then show ?thesis using run False 3 handle_slots(3) [OF ok 3]
      by (auto simp: handle_call_simps sys_close_def Let_def Sys.ret_def handles_of_word [OF ok]
          handles_update [OF ok i(1)] i(2))
  next
    case 4
    then have "handle_obj p ?a = 0" by (auto simp: handle_obj_def word_less_nat_alt word_le_nat_alt)
    then show ?thesis using False by blast
  qed
qed

lemma fork_call:
  assumes ok: "proc_ok k p" and run: "sys_fork eip esp p k = Some (Inr (r, p', k'))"
  shows "handle_call d e root 2 eip esp p k r p' k'"
proof (rule sys_fork_result [OF ok run])
  fix pid child
  assume c: "child_slot (p_cp p) 0 = Inr pid" "pid < 10" "r = Forks (of_nat pid + 20) child eip esp"
    "p' = p\<lparr>p_cp := (p_cp p)[pid := p_future child]\<rparr>" "p_fd child = p_fd p" "p_sp child = p_sp p"
    "p_future child = k_fresh k + 3" "k_fut k' = (k_fut k)(k_fresh k + 3 := None)" "proc_ok k' child" "p_cp child = replicate 10 0"
  have h: "free_handle (handles p) 20 = Some (20 + pid)"
    using c(1) unfolding free_handles(3) [OF ok] child_slot_first by (simp split: option.splits)
  have "handles p' = (handles p)(20 + pid \<mapsto> p_future child)"
    unfolding c(4) using handles_update(3) [OF ok c(2), of "p_future child"] c(7) by simp
  moreover have "handles child = handles p |` {..<20}"
    using c(5,6,10) by (auto simp: handles_def entry_def restrict_map_def fun_eq_iff)
  ultimately show ?thesis using h c(3,7,8)
    by (auto simp: handle_call_simps Let_def add.commute intro!: exI [of _ "20 + pid"])
qed

lemma other_call:
  assumes "eax \<noteq> 10" "eax \<noteq> 3" "eax \<noteq> 6" "eax \<noteq> 2" and "handles p' = handles p"
  shows "handle_call d e root eax eip esp p k r p' k'"
  using assms by (simp add: handle_call_def Let_def)

lemma handler_ok:
  assumes "proc_ok k p"
  shows "call_ok p k (sysHandler c d e root junk (play_driver b world back frame garbage behind) eax eip esp p k)"
proof -
  have "call_ok p k (sys_play (play_driver b world back frame garbage behind) esp p k)"
    using sys_play_never unfolding call_ok_def by blast
  then show ?thesis
    using sys_calls_ok [OF assms] sys_fork_ok [OF assms] sys_exec_ok [OF assms] assms
    by (simp add: sysHandler_def call_ok_ret call_ok_result)
qed

lemma handler_handles:
  assumes ok: "proc_ok k p"
    and run: "sysHandler c d e root junk (play_driver b world back frame garbage behind) eax eip esp p k =
      Some (Inr (r, p', k'))"
  shows "handle_call d e root eax eip esp p k r p' k'"
proof -
  consider "eax = 10" | "eax = 3" | "eax = 6" | "eax = 2" | "eax \<noteq> 10" "eax \<noteq> 3" "eax \<noteq> 6" "eax \<noteq> 2" by blast
  then show ?thesis
  proof cases
    case 1
    then show ?thesis using run open_call [OF ok] by (simp add: sysHandler_def)
  next
    case 2
    then show ?thesis using run sem_call [OF ok] by (simp add: sysHandler_def)
  next
    case 3
    then show ?thesis using run close_call [OF ok] by (simp add: sysHandler_def)
  next
    case 4
    then show ?thesis using run fork_call [OF ok] by (simp add: sysHandler_def)
  next
    case 5
    have play: "keeps p (sys_play (play_driver b world back frame garbage behind) esp p k)"
      using sys_play_never unfolding keeps_def by blast
    have "keeps p (sysHandler c d e root junk (play_driver b world back frame garbage behind) eax eip esp p k)"
      using 5 calls_keep play by (simp add: sysHandler_def keeps_intros)
    then have "handles p' = handles p" using run by (simp add: keeps_def)
    then show ?thesis using 5 by (intro other_call)
  qed
qed

section \<open>Properties\<close>

text \<open>
  C32.  System calls on handles.  Of a process the tables of which are well formed, every call that
  returns does to the map of handles what it promises: \<open>open\<close> of a path that names a file, \<open>sem\<close> and
  \<open>fork\<close> bind the least free number of their range to a new object, a descriptor of that file, a
  semaphore with that count, the future of the child; \<open>open\<close> and \<open>sem\<close> return \<open>-1\<close> when the range is
  full; the child has the parent's files and semaphores and no children; \<open>close\<close> removes exactly the
  number it is given, or returns \<open>-1\<close> if nothing is bound to it; no other call changes the map.  The
  tables stay well formed, also the child's, and no object goes away.
\<close>

theorem system_calls_on_handles:
  assumes "proc_ok k p"
    and "sysHandler c d e root junk (play_driver b world back frame garbage behind) eax eip esp p k =
      Some (Inr (r, p', k'))"
  shows "handle_call d e root eax eip esp p k r p' k' \<and>
    k_fresh k \<le> k_fresh k' \<and> proc_ok k' p' \<and> (\<forall>v child x y. r = Forks v child x y \<longrightarrow> proc_ok k' child)"
  using handler_handles [OF assms] handler_ok [OF assms(1), unfolded call_ok_def, rule_format, OF assms(2)] by simp

text \<open>A semaphore, the handle 1 closed, and a child.\<close>

lemma system_calls_on_handles_witness:
  "(\<exists>p' k'. sysHandler config_boot (\<lambda>_. 0) demo_fs demo_root 0 (play_driver ram_bus (\<lambda>_ _. 0) (\<lambda>_ k. k) 0 demo_hda demo_hda)
      3 0 0x90000000 (demo_proc [5]) demo_k = Some (Inr (Ret 10, p', k')) \<and>
      handles p' = (handles (demo_proc [5]))(10 \<mapsto> 5)) \<and>
   (\<exists>p' k'. sysHandler config_boot (\<lambda>_. 0) demo_fs demo_root 0 (play_driver ram_bus (\<lambda>_ _. 0) (\<lambda>_ k. k) 0 demo_hda demo_hda)
      6 0 0x90000000 (demo_proc [1]) demo_k = Some (Inr (Ret 0, p', k')) \<and>
      handles p' = (handles (demo_proc [1]))(1 := None)) \<and>
   (\<exists>child p' k'. sysHandler config_boot (\<lambda>_. 0) demo_fs demo_root 0 (play_driver ram_bus (\<lambda>_ _. 0) (\<lambda>_ k. k) 0 demo_hda demo_hda)
      2 7 0x90000000 (demo_proc []) demo_k = Some (Inr (Forks 20 child 7 0x90000000, p', k')) \<and>
      handles child = handles (demo_proc []) |` {..<20})"
proof -
  let ?call = "\<lambda>eax eip p. sysHandler config_boot (\<lambda>_. 0) demo_fs demo_root 0
    (play_driver ram_bus (\<lambda>_ _. 0) (\<lambda>_ k. k) 0 demo_hda demo_hda) eax eip 0x90000000 p demo_k"
  note law = system_calls_on_handles [OF demo_proc_ok, THEN conjunct1]
  have null: "first_null (p_sp (demo_proc ws)) 0 = Some 0" "child_slot (p_cp (demo_proc ws)) 0 = Inr 0" for ws
    by (simp_all add: demo_proc_fields numeral_eq_Suc)
  have free: "free_handle (handles (demo_proc ws)) 10 = Some 10" "free_handle (handles (demo_proc ws)) 20 = Some 20" for ws
    using null [of ws] by (simp_all add: free_handles [OF demo_proc_ok] child_slot_first split: option.splits)
  have arg: "user_arg (demo_proc [1]) 0x90000000 1 = 1" using demo_proc_arg [of 0 "[1]"] by simp
  have fresh: "k_fresh demo_k = 5" by (simp add: demo_k_def pcb_new_def new_desc_def new_future_def kstate_boot_def)
  obtain r p1 k1 where s: "?call 3 0 (demo_proc [5]) = Some (Inr (r, p1, k1))"
    by (simp add: sysHandler_def sys_sem_def Let_def Sys.ret_def new_sem_def null)
  have "r = Ret 10 \<and> handles p1 = (handles (demo_proc [5]))(10 \<mapsto> 5)"
    using law [OF s] by (simp add: handle_call_simps binds_def free fresh)
  moreover have b: "handles (demo_proc [1]) 1 \<noteq> None" by (simp add: handles_def entry_def demo_proc_fields)
  obtain r2 p2 k2 where c: "?call 6 0 (demo_proc [1]) = Some (Inr (r2, p2, k2))"
    by (simp add: sysHandler_def sys_close_def Let_def Sys.ret_def arg slot_at_def demo_proc_fields)
  have "r2 = Ret 0 \<and> handles p2 = (handles (demo_proc [1]))(1 := None)"
    using law [OF c] b by (simp add: handle_call_simps arg)
  moreover obtain r3 p3 k3 where f: "?call 2 7 (demo_proc []) = Some (Inr (r3, p3, k3))"
    by (simp add: sysHandler_def sys_fork_def Let_def null pcb_new_def new_desc_def new_future_def)
  have "\<exists>child. r3 = Forks 20 child 7 0x90000000 \<and> handles child = handles (demo_proc []) |` {..<20}"
    using law [OF f] by (auto simp: handle_call_simps free)
  ultimately show ?thesis using s c f by blast
qed

end
