(* ===== verification/Boot.thy ===== *)
theory Boot
  imports Heap_Props Vmm_Correct
begin

text \<open>
  The memory of the kernel as \<open>kernelInit\<close> (\<open>kernel/init.cc\<close>) sets it up on the first processor:
  the configuration, the heap at 1 MB, the frames from 6 MB to the end of memory, and the identity map.
  Here the components meet: each is initialised with what the one before has left it, and they keep out
  of each other's memory.
\<close>

definition HEAP_START :: u32 where "HEAP_START = 1 * 1024 * 1024"
definition HEAP_SIZE :: u32 where "HEAP_SIZE = 5 * 1024 * 1024"
definition VMM_FRAMES :: u32 where "VMM_FRAMES = HEAP_START + HEAP_SIZE"

text \<open>\<open>hm\<close> is what the cells of the heap hold at first, \<open>pm\<close> the words of the frames.  The objects
  of the serial port and the global constructors, which come between, are left out.\<close>

definition init_memory :: "config \<Rightarrow> (int \<Rightarrow> int) \<Rightarrow> (u32 \<Rightarrow> u32) \<Rightarrow> (heap \<times> u32 \<times> phys) res option" where
  "init_memory c hm pm =
     obind (heapInit HEAP_START HEAP_SIZE (heap_boot hm)) (\<lambda>h.
     obind (Some (phys_init VMM_FRAMES (memSize c - VMM_FRAMES) (phys_boot pm))) (\<lambda>s.
     obind (global_init c s) (\<lambda>(shared, s1). Some (Inr (h, shared, s1)))))"

definition kernel_memory :: "byte_mem \<Rightarrow> memInfo \<Rightarrow> (int \<Rightarrow> int) \<Rightarrow> (u32 \<Rightarrow> u32) \<Rightarrow>
    (config \<times> heap \<times> u32 \<times> phys) res option" where
  "kernel_memory m mi hm pm =
     obind (configInit m mi config_boot) (\<lambda>c.
     obind (init_memory c hm pm) (\<lambda>r. Some (Inr (c, r))))"

text \<open>Frames behind \<open>start\<close> and below the limit of the pool.\<close>

lemma frame_bounds:
  assumes inv: "pool_inv start s fl" and f: "f \<in> in_use start s fl" and a: "in_frame f a"
  shows "uint start \<le> uint a" "uint a < uint (p_limit s)"
proof -
  have fa: "uint f \<le> uint a" "uint a < uint f + 4096" using a by (simp_all add: in_frame_def)
  show "uint start \<le> uint a" using in_useD(4) [OF f] fa by linarith
  obtain k where k: "uint f = 4096 * k" using in_useD(1) [OF f] by (auto simp: offset_0_iff)
  obtain l where l: "uint (p_avail s) = 4096 * l" using pool_invD(1) [OF inv] by (auto simp: offset_0_iff)
  have "uint f < uint (p_avail s)" using in_useD(3) [OF f] .
  then have "k < l" using k l by linarith
  then have "uint f + 4096 \<le> uint (p_avail s)" using k l by linarith
  then show "uint a < uint (p_limit s)" using fa pool_invD(4) [OF inv] by linarith
qed

text \<open>Allocation and mapping leave the limit alone.\<close>

lemma alloc_frame_limit: "alloc_frame s = Inr (p, s') \<Longrightarrow> p_limit s' = p_limit s"
  by (auto simp: alloc_frame_def Let_def rbind_def assert_that_def split: if_splits sum.splits)

lemma map_page_limit: "map_page pd va pa s = Inr s' \<Longrightarrow> p_limit s' = p_limit s"
  by (auto simp: map_page_def Let_def rbind_eq_Inr_iff dest!: alloc_frame_limit split: if_splits)

lemma identity_loop_limit:
  assumes "identity_loop c sh va s = Some r"
  shows "r = Inr s' \<longrightarrow> p_limit s' = p_limit s"
proof (rule identity_loop.raw_induct [where P = "\<lambda>c sh va s r. r = Inr s' \<longrightarrow> p_limit s' = p_limit s", OF _ assms])
  fix loop :: "config \<Rightarrow> u32 \<Rightarrow> u32 \<Rightarrow> phys \<Rightarrow> phys res option" and c sh va s r
  assume ih: "\<And>c sh va s r. loop c sh va s = Some r \<Longrightarrow> r = Inr s' \<longrightarrow> p_limit s' = p_limit s"
    and run: "(if va < memSize c then (case map_page sh va va s of Inl e \<Rightarrow> Some (Inl e)
        | Inr s1 \<Rightarrow> loop c sh (va + FRAME_SIZE) s1) else Some (Inr s)) = Some r"
  show "r = Inr s' \<longrightarrow> p_limit s' = p_limit s"
  proof
    assume r: "r = Inr s'"
    show "p_limit s' = p_limit s"
    proof (cases "va < memSize c")
      case True
      then obtain s1 where "map_page sh va va s = Inr s1" "loop c sh (va + FRAME_SIZE) s1 = Some (Inr s')"
        using run r by (auto split: sum.splits)
      then show ?thesis using ih map_page_limit by metis
    qed (use run r in simp)
  qed
qed

lemma global_init_limit: "global_init c s = Some (Inr (sh, s')) \<Longrightarrow> p_limit s' = p_limit s"
  by (auto simp: global_init_def obind_def split: option.splits sum.splits bind_splits
      dest!: alloc_frame_limit identity_loop_limit)

section \<open>The memory after the initialisation\<close>

lemma int_div_less:
  assumes "0 < (d :: int)"
  shows "x div d < k \<longleftrightarrow> x < d * k"
proof
  assume "x div d < k"
  then have "d * (x div d + 1) \<le> d * k" using assms by (intro mult_left_mono) simp_all
  then have "d * (x div d) + d \<le> d * k" by (simp add: distrib_left)
  moreover have "d * (x div d) + x mod d = x" "x mod d < d" using assms by simp_all
  ultimately show "x < d * k" by linarith
next
  assume x: "x < d * k"
  show "x div d < k"
  proof (rule ccontr)
    assume "\<not> x div d < k"
    then have "d * k \<le> d * (x div d)" using assms by (intro mult_left_mono) simp_all
    moreover have "d * (x div d) + x mod d = x" "0 \<le> x mod d" using assms by simp_all
    ultimately show False using x by linarith
  qed
qed

lemma frames_enough:
  assumes "offset M = 0" "0x800000 \<le> uint M"
  shows "1 + nat ((uint M + 4194303) div 4194304) \<le> nat ((uint M - 0x600000) div 4096)"
proof -
  obtain k where k: "uint M = 4096 * k" using assms(1) by (auto simp: offset_0_iff)
  have k2: "2048 \<le> k" using assms(2) k by linarith
  have "(uint M - 0x600000) div 4096 = k - 1536"
  proof -
    have "uint M - 0x600000 = (k - 1536) * 4096" using k by simp
    then show ?thesis by simp
  qed
  moreover have "(uint M + 4194303) div 4194304 \<le> k - 1537"
  proof -
    have "uint M + 4194303 < 4194304 * (k - 1536)" using k2 by (simp add: k algebra_simps)
    then have "(uint M + 4194303) div 4194304 < k - 1536" by (simp add: int_div_less)
    then show ?thesis by linarith
  qed
  ultimately show ?thesis using k2 by linarith
qed

text \<open>
  C10.  The components of the kernel's memory fit together.  With between 8 MB and 4 GB of memory in whole
  pages, the initialisation returns.  Then the heap is well-formed, not locked, and lies from 1 MB to
  6 MB; the shared directory is well-formed and maps exactly the addresses from 4096 to the end of memory
  to themselves, so that the heap and every frame are where their addresses say and the null page is not
  mapped; and every frame in use lies behind the heap and below the end of memory.
\<close>

theorem init_memory_fits:
  assumes M: "offset (memSize c) = 0" "0x800000 \<le> uint (memSize c)" "uint (memSize c) \<le> 0xFFFFF000"
  shows "\<exists>h B fl sh s fl'. init_memory c hm pm = Some (Inr (h, sh, s)) \<and>
    heap_inv h B fl \<and> \<not> held h \<and> uint (hbase h) = 0x100000 \<and> uint (hbase h) + 4 * hlen h = 0x600000 \<and>
    pd_inv VMM_FRAMES s fl' sh \<and>
    (\<forall>va. translate (mem s) sh va = (if 4096 \<le> uint va \<and> uint va < uint (memSize c) then Some va else None)) \<and>
    (\<forall>f\<in>in_use VMM_FRAMES s fl'. \<forall>a. in_frame f a \<longrightarrow>
       uint (hbase h) + 4 * hlen h \<le> uint a \<and> uint a < uint (memSize c))"
proof -
  have H: "uint HEAP_SIZE = 0x500000" "uint HEAP_START = 0x100000" "uint VMM_FRAMES = 0x600000" "VMM_FRAMES = 0x600000"
    by (simp_all add: HEAP_SIZE_def HEAP_START_def VMM_FRAMES_def)
  obtain h B fl where h: "heapInit HEAP_START HEAP_SIZE (heap_boot hm) = Some (Inr h)" "heap_inv h B fl" "\<not> held h"
    "hbase h = HEAP_START" "hlen h = uint HEAP_SIZE div 4"
    by (rule heapInit_spec [of HEAP_SIZE HEAP_START hm]) (simp_all add: H)
  let ?sz = "memSize c - VMM_FRAMES"
  have sz: "uint ?sz = uint (memSize c) - 0x600000"
    using M(2) H by (subst uint_sub_lem [THEN iffD1]) simp_all
  obtain k where k: "uint (memSize c) = 4096 * k" using M(1) by (auto simp: offset_0_iff)
  have o: "offset VMM_FRAMES = 0" "offset ?sz = 0"
    using k sz H by (auto simp: offset_0_iff intro: exI [of _ "k - 1536"] exI [of _ 1536])
  have fits: "0 < uint VMM_FRAMES" "uint VMM_FRAMES + uint ?sz < 2 ^ 32" using sz M(3) H by simp_all
  note ph = phys_init_inv [OF o fits, of pm]
  let ?s = "phys_boot pm\<lparr>p_avail := VMM_FRAMES, p_limit := VMM_FRAMES + ?sz\<rparr>"
  have "free_frames ?s [] = nat ((uint (memSize c) - 0x600000) div 4096)"
    by (simp add: free_frames_def H)
  then have "1 + nat ((uint (memSize c) + 4194303) div 4194304) \<le> free_frames ?s []"
    using frames_enough [OF M(1,2)] by simp
  then obtain sh s fl' where g: "global_init c ?s = Some (Inr (sh, s))" "pd_inv VMM_FRAMES s fl' sh"
    "\<And>vb. translate (mem s) sh vb =
       (if 4096 \<le> uint vb \<and> uint (framedown vb) < uint (memSize c) then Some vb else None)"
    by (rule global_init_spec [OF ph(2) M(3)]) blast
  have whole: "uint (framedown vb) < uint (memSize c) \<longleftrightarrow> uint vb < uint (memSize c)" for vb
  proof -
    have "4096 * (uint vb div 4096) < 4096 * k \<longleftrightarrow> uint vb < 4096 * k"
      using int_div_less [of 4096 "uint vb" k] by simp
    then show ?thesis using k by (simp add: framedown_uint)
  qed
  have "p_limit s = memSize c" using global_init_limit [OF g(1)] by simp
  then have "uint (hbase h) + 4 * hlen h \<le> uint a \<and> uint a < uint (memSize c)"
    if "f \<in> in_use VMM_FRAMES s fl'" "in_frame f a" for f a
    using frame_bounds [OF pd_inv_pool [OF g(2)] that] h(4,5) H by simp
  moreover have "init_memory c hm pm = Some (Inr (h, sh, s))"
    using h(1) ph(1) g(1) by (simp add: init_memory_def)
  ultimately show ?thesis using h g(2,3) H whole by auto
qed

lemma init_memory_fits_witness:
  "\<exists>h B fl sh s. init_memory (config_boot\<lparr>memSize := 0x8000000\<rparr>) (\<lambda>_. 7) (\<lambda>_. 9) = Some (Inr (h, sh, s)) \<and>
     heap_inv h B fl \<and> translate (mem s) sh 0x123456 = Some 0x123456 \<and> translate (mem s) sh 0 = None"
proof -
  have M: "offset (memSize (config_boot\<lparr>memSize := 0x8000000\<rparr>)) = 0"
    "0x800000 \<le> uint (memSize (config_boot\<lparr>memSize := 0x8000000\<rparr>))"
    "uint (memSize (config_boot\<lparr>memSize := 0x8000000\<rparr>)) \<le> 0xFFFFF000"
    by (simp_all add: offset_def)
  show ?thesis using init_memory_fits [OF M, of "\<lambda>_. 7" "\<lambda>_. 9"] by fastforce
qed

end
