(* ===== verification/Pci.thy ===== *)
theory Pci
  imports Prelude
begin

text \<open>
  The scan of the PCI bus in \<open>kernel/pci.cc\<close>: every function of every slot of every bus is asked for
  its vendor through the two configuration ports, and those that answer go into an array of 32
  pointers.  The ports are a parameter, the host bridge behind them a contract.
\<close>

record 'w pci_ports =
  p_outl :: "u32 \<Rightarrow> u32 \<Rightarrow> 'w \<Rightarrow> 'w"
  p_inl32 :: "u32 \<Rightarrow> 'w \<Rightarrow> u32 \<times> 'w"

record pci_device =
  pd_vendor :: u32
  pd_device :: u32
  pd_func :: u32
  pd_driver :: "unit option"

record pci_state =
  pci_devices :: "pci_device option list"
  devices :: u32

definition add_device :: "pci_device \<Rightarrow> pci_state \<Rightarrow> pci_state res" where
  "add_device d p =
     (if unat (devices p) < length (pci_devices p)
      then Inr (p\<lparr>pci_devices := (pci_devices p)[unat (devices p) := Some d], devices := devices p + 1\<rparr>)
      else Inl OutOfRange)"

definition config_address :: "u8 \<Rightarrow> u8 \<Rightarrow> u8 \<Rightarrow> u8 \<Rightarrow> u32" where
  "config_address bs slot func off =
     push_bit 16 (ucast bs) OR push_bit 11 (ucast slot) OR push_bit 8 (ucast func) OR
     (ucast off AND 0xFC) OR 0x80000000"

definition pci_config_read_word :: "'w pci_ports \<Rightarrow> u8 \<Rightarrow> u8 \<Rightarrow> u8 \<Rightarrow> u8 \<Rightarrow> 'w \<Rightarrow> u16 \<times> 'w" where
  "pci_config_read_word b bs slot func off w =
     (case p_inl32 b 0xCFC (p_outl b 0xCF8 (config_address bs slot func off) w) of (x, w') \<Rightarrow>
        (ucast (drop_bit (8 * unat (off AND 2)) x AND 0xFFFF), w'))"

definition get_vendor_id :: "'w pci_ports \<Rightarrow> u16 \<Rightarrow> u16 \<Rightarrow> u16 \<Rightarrow> 'w \<Rightarrow> u16 \<times> 'w" where
  "get_vendor_id b bs slot func w = pci_config_read_word b (ucast bs) (ucast slot) (ucast func) 0 w"

definition get_device_id :: "'w pci_ports \<Rightarrow> u16 \<Rightarrow> u16 \<Rightarrow> u16 \<Rightarrow> 'w \<Rightarrow> u16 \<times> 'w" where
  "get_device_id b bs slot func w = pci_config_read_word b (ucast bs) (ucast slot) (ucast func) 2 w"

text \<open>The three nested loops, as the list of what they visit.\<close>

type_synonym pci_fn = "u32 \<times> u32 \<times> u32"

definition all_functions :: "pci_fn list" where
  "all_functions = List.product (map of_nat [0..<256]) (List.product (map of_nat [0..<32]) (map of_nat [0..<8]))"

primrec parse_devices :: "'w pci_ports \<Rightarrow> pci_fn list \<Rightarrow> pci_state \<Rightarrow> 'w \<Rightarrow> (pci_state \<times> 'w) res" where
  "parse_devices b [] p w = Inr (p, w)"
| "parse_devices b (x # xs) p w =
     (case x of (bs, slot, func) \<Rightarrow>
      case get_vendor_id b (ucast bs) (ucast slot) (ucast func) w of (vendor, w1) \<Rightarrow>
        if vendor = 0xFFFF then parse_devices b xs p w1
        else case get_device_id b (ucast bs) (ucast slot) (ucast func) w1 of (device, w2) \<Rightarrow>
          rbind (add_device \<lparr>pd_vendor = ucast vendor, pd_device = ucast device, pd_func = func, pd_driver = None\<rparr> p)
            (\<lambda>p1. parse_devices b xs p1 w2))"

definition pci_init :: "'w pci_ports \<Rightarrow> 'w \<Rightarrow> (pci_state \<times> 'w) res" where
  "pci_init b w = parse_devices b all_functions \<lparr>pci_devices = replicate 32 None, devices = 0\<rparr> w"

section \<open>The host bridge\<close>

text \<open>Configuration mechanism 1: a word written to the first port with bit 31 set selects bus, slot,
  function and register, and the second port gives the register.\<close>

definition host_bridge :: "'w pci_ports \<Rightarrow> (u32 \<Rightarrow> u32 \<Rightarrow> u32 \<Rightarrow> u32 \<Rightarrow> u32) \<Rightarrow> ('w \<Rightarrow> bool) \<Rightarrow> bool" where
  "host_bridge b cfg ok \<longleftrightarrow> (\<forall>a w. ok w \<longrightarrow> bit a 31 \<longrightarrow>
     (case p_inl32 b 0xCFC (p_outl b 0xCF8 a w) of (x, w') \<Rightarrow>
        ok w' \<and> x = cfg (drop_bit 16 a AND 0xFF) (drop_bit 11 a AND 0x1F) (drop_bit 8 a AND 7) (a AND 0xFC)))"

text \<open>What the configuration space says of a function.\<close>

definition vendor_of :: "(u32 \<Rightarrow> u32 \<Rightarrow> u32 \<Rightarrow> u32 \<Rightarrow> u32) \<Rightarrow> pci_fn \<Rightarrow> u16" where
  "vendor_of cfg x = ucast (cfg (fst x) (fst (snd x)) (snd (snd x)) 0)"

definition device_of :: "(u32 \<Rightarrow> u32 \<Rightarrow> u32 \<Rightarrow> u32 \<Rightarrow> u32) \<Rightarrow> pci_fn \<Rightarrow> pci_device" where
  "device_of cfg x = (let r = cfg (fst x) (fst (snd x)) (snd (snd x)) 0 in
     \<lparr>pd_vendor = r AND 0xFFFF, pd_device = drop_bit 16 r, pd_func = snd (snd x), pd_driver = None\<rparr>)"

lemma small_bits:
  fixes x :: "'a::len word"
  assumes "unat x < 2 ^ k" "bit x n"
  shows "n < k"
proof -
  have "take_bit k x = x" using assms(1) by (simp add: word_unat_eq_iff unsigned_take_bit_eq take_bit_nat_eq_self)
  then show ?thesis using assms(2) by (metis bit_take_bit_iff)
qed

lemma config_fields:
  assumes "unat slot < 32" "unat func < 8"
  shows "drop_bit 16 (config_address bs slot func off) AND 0xFF = ucast bs"
    "drop_bit 11 (config_address bs slot func off) AND 0x1F = ucast slot"
    "drop_bit 8 (config_address bs slot func off) AND 7 = ucast func"
    "config_address bs slot func off AND 0xFC = ucast off AND 0xFC"
    "bit (config_address bs slot func off) 31"
proof -
  have s: "bit slot n \<Longrightarrow> n < 5" and f: "bit func n \<Longrightarrow> n < 3" and l: "bit y n \<Longrightarrow> n < 8" for n and y :: u8
    using small_bits [of slot 5 n] small_bits [of func 3 n] assms bit_imp_le_length [of y n] by simp_all
  have top: "bit (0x80000000 :: u32) n \<longleftrightarrow> n = 31" for n
  proof -
    have e: "(0x80000000 :: u32) = 2 ^ 31" by simp
    show ?thesis unfolding e bit_exp_iff by auto
  qed
  have six: "bit (0xFC :: u32) n \<longleftrightarrow> 2 \<le> n \<and> n < 8" for n
  proof -
    have e: "(0xFC :: u32) = push_bit 2 (mask 6)" by (simp add: mask_eq_decr_exp)
    show ?thesis unfolding e by (auto simp: bit_push_bit_iff bit_mask_iff)
  qed
  have c: "bit (config_address bs slot func off) n \<longleftrightarrow> n < 32 \<and>
      (16 \<le> n \<and> bit bs (n - 16) \<or> 11 \<le> n \<and> bit slot (n - 11) \<or> 8 \<le> n \<and> bit func (n - 8) \<or>
       2 \<le> n \<and> n < 8 \<and> bit off n \<or> n = 31)" for n
    unfolding config_address_def bit_or_iff bit_and_iff bit_push_bit_iff top six bit_ucast_iff
    by (cases "n < 32") (simp_all add: less_imp_diff_less conj_ac)
  have m: "(0xFF :: u32) = mask 8" "(0x1F :: u32) = mask 5" "(7 :: u32) = mask 3"
    by (simp_all add: mask_eq_decr_exp)
  show "bit (config_address bs slot func off) 31" by (simp add: c)
  show "drop_bit 16 (config_address bs slot func off) AND 0xFF = ucast bs"
    unfolding m by (rule bit_word_eqI) (auto simp: bit_and_iff bit_drop_bit_eq bit_mask_iff bit_ucast_iff c dest: s f l)
  show "drop_bit 11 (config_address bs slot func off) AND 0x1F = ucast slot"
    unfolding m by (rule bit_word_eqI) (auto simp: bit_and_iff bit_drop_bit_eq bit_mask_iff bit_ucast_iff c dest: s f l)
  show "drop_bit 8 (config_address bs slot func off) AND 7 = ucast func"
    unfolding m by (rule bit_word_eqI) (auto simp: bit_and_iff bit_drop_bit_eq bit_mask_iff bit_ucast_iff c dest: s f l)
  show "config_address bs slot func off AND 0xFC = ucast off AND 0xFC"
    by (rule bit_word_eqI) (simp only: bit_and_iff bit_ucast_iff six c, auto)
qed

lemma narrow:
  assumes "unat (x :: u32) < 256"
  shows "ucast (ucast (ucast x :: u16) :: u8) = x" "unat (ucast (ucast x :: u16) :: u8) = unat x"
proof -
  have b: "bit x n \<Longrightarrow> n < 8" for n using small_bits [of x 8 n] assms by simp
  show e: "ucast (ucast (ucast x :: u16) :: u8) = x"
    by (rule bit_word_eqI) (auto simp: bit_ucast_iff dest: b)
  have "unat (ucast (ucast (ucast x :: u16) :: u8) :: u32) = unat (ucast (ucast x :: u16) :: u8)"
    by (simp add: unsigned_ucast_eq unsigned_take_bit_eq take_bit_nat_eq_self)
  then show "unat (ucast (ucast x :: u16) :: u8) = unat x" using e by simp
qed

definition on_bus :: "pci_fn \<Rightarrow> bool" where
  "on_bus x \<longleftrightarrow> unat (fst x) < 256 \<and> unat (fst (snd x)) < 32 \<and> unat (snd (snd x)) < 8"

lemma all_functions_on_bus: "\<forall>x\<in>set all_functions. on_bus x"
  by (auto simp: all_functions_def on_bus_def unsigned_of_nat take_bit_nat_eq_self)

lemma read_word:
  assumes b: "host_bridge b cfg ok" and w: "ok w" and x: "on_bus (bs, slot, func)" and o: "off = 0 \<or> off = 2"
  obtains w' where "pci_config_read_word b (ucast (ucast bs :: u16)) (ucast (ucast slot :: u16)) (ucast (ucast func :: u16)) off w =
      (ucast (drop_bit (8 * unat off) (cfg bs slot func 0)), w')" "ok w'"
proof -
  let ?b = "ucast (ucast bs :: u16) :: u8" and ?s = "ucast (ucast slot :: u16) :: u8" and ?f = "ucast (ucast func :: u16) :: u8"
  have u: "unat ?s < 32" "unat ?f < 8" "ucast ?b = bs" "ucast ?s = slot" "ucast ?f = func"
    using x narrow [of bs] narrow [of slot] narrow [of func] by (simp_all add: on_bus_def)
  note f = config_fields [OF u(1,2), of ?b off]
  obtain r w' where r: "p_inl32 b 0xCFC (p_outl b 0xCF8 (config_address ?b ?s ?f off) w) = (r, w')" by fastforce
  have "(ucast off :: u32) AND 0xFC = 0" using o by auto
  then have "ok w'" "r = cfg bs slot func 0"
    using b w f(5) r f(1-4) u(3-5) unfolding host_bridge_def by (auto split: prod.splits)
  moreover have "ucast (y AND 0xFFFF) = (ucast y :: u16)" for y :: u32
  proof -
    have m: "(0xFFFF :: u32) = mask 16" by (simp add: mask_eq_decr_exp)
    show ?thesis unfolding m by (rule bit_word_eqI) (auto simp: bit_simps)
  qed
  moreover have "off AND 2 = off" using o by auto
  ultimately have "pci_config_read_word b ?b ?s ?f off w = (ucast (drop_bit (8 * unat off) (cfg bs slot func 0)), w')"
    using r by (simp add: pci_config_read_word_def)
  then show ?thesis using that \<open>ok w'\<close> by blast
qed

text \<open>The functions that answer, in the order of the loops.\<close>

definition present_fns :: "(u32 \<Rightarrow> u32 \<Rightarrow> u32 \<Rightarrow> u32 \<Rightarrow> u32) \<Rightarrow> pci_fn list \<Rightarrow> pci_device list" where
  "present_fns cfg xs = map (device_of cfg) (filter (\<lambda>x. vendor_of cfg x \<noteq> 0xFFFF) xs)"

definition devices_are :: "pci_device list \<Rightarrow> pci_state \<Rightarrow> bool" where
  "devices_are ds p \<longleftrightarrow> length ds \<le> 32 \<and> unat (devices p) = length ds \<and>
     pci_devices p = map Some ds @ replicate (32 - length ds) None"

lemma add_device_list:
  assumes "devices_are ds p"
  shows "length ds < 32 \<Longrightarrow> \<exists>p'. add_device d p = Inr p' \<and> devices_are (ds @ [d]) p'"
    "length ds = 32 \<Longrightarrow> add_device d p = Inl OutOfRange"
proof -
  note h = assms [unfolded devices_are_def]
  have len: "length (pci_devices p) = 32" using h by simp
  show "add_device d p = Inl OutOfRange" if "length ds = 32" using that h len by (simp add: add_device_def)
  assume l: "length ds < 32"
  let ?p = "p\<lparr>pci_devices := (pci_devices p)[unat (devices p) := Some d], devices := devices p + 1\<rparr>"
  have "unat (devices p + 1) = length ds + 1" using l h by (subst unat_add_lem [THEN iffD1]) simp_all
  moreover have "replicate (32 - length ds) None = None # replicate (32 - length (ds @ [d])) (None :: pci_device option)"
    using l by (metis Suc_diff_Suc length_append_singleton replicate_Suc)
  ultimately have "devices_are (ds @ [d]) ?p"
    using l h by (simp add: devices_are_def list_update_append)
  then show "\<exists>p'. add_device d p = Inr p' \<and> devices_are (ds @ [d]) p'"
    using l h len by (simp add: add_device_def)
qed

lemma parse_finds:
  assumes b: "host_bridge b cfg ok"
  shows "ok w \<Longrightarrow> \<forall>x\<in>set xs. on_bus x \<Longrightarrow> devices_are ds p \<Longrightarrow>
    (if length (ds @ present_fns cfg xs) \<le> 32
     then \<exists>p' w'. parse_devices b xs p w = Inr (p', w') \<and> devices_are (ds @ present_fns cfg xs) p' \<and> ok w'
     else parse_devices b xs p w = Inl OutOfRange)"
proof (induction xs arbitrary: w ds p)
  case Nil
  then show ?case by (auto simp: present_fns_def devices_are_def)
next
  case (Cons x xs)
  obtain bs slot func where x: "x = (bs, slot, func)" by (cases x)
  have on: "on_bus (bs, slot, func)" using Cons.prems(2) x by simp
  obtain w1 where v: "get_vendor_id b (ucast bs) (ucast slot) (ucast func) w = (vendor_of cfg x, w1)" "ok w1"
    using read_word [OF b Cons.prems(1) on, of 0] x by (auto simp: get_vendor_id_def vendor_of_def)
  show ?case
  proof (cases "vendor_of cfg x = 0xFFFF")
    case True
    then show ?thesis
    proof -
      have pr: "present_fns cfg (x # xs) = present_fns cfg xs" using True by (simp add: present_fns_def)
      have run: "parse_devices b (x # xs) p w = parse_devices b xs p w1" using v(1) True by (simp add: x)
      have "\<forall>x\<in>set xs. on_bus x" using Cons.prems(2) by simp
      from Cons.IH [OF v(2) this Cons.prems(3)] show ?thesis unfolding run pr .
    qed
  next
    case False
    obtain w2 where dv: "get_device_id b (ucast bs) (ucast slot) (ucast func) w1 =
        (ucast (drop_bit 16 (cfg bs slot func 0)), w2)" "ok w2"
      using read_word [OF b v(2) on, of 2] by (auto simp: get_device_id_def)
    let ?d = "device_of cfg x"
    have d: "\<lparr>pd_vendor = ucast (vendor_of cfg x), pd_device = ucast (ucast (drop_bit 16 (cfg bs slot func 0)) :: u16),
        pd_func = func, pd_driver = None\<rparr> = ?d"
    proof -
      have m: "(0xFFFF :: u32) = mask 16" by (simp add: mask_eq_decr_exp)
      have "ucast (ucast y :: u16) = y AND 0xFFFF" "ucast (ucast (drop_bit 16 y) :: u16) = drop_bit 16 y" for y :: u32
        unfolding m by (rule bit_word_eqI, auto simp: bit_simps dest: bit_imp_le_length)+
      then show ?thesis by (simp add: device_of_def vendor_of_def x Let_def)
    qed
    have run: "parse_devices b (x # xs) p w = rbind (add_device ?d p) (\<lambda>p1. parse_devices b xs p1 w2)"
      using v(1) dv(1) False d by (simp add: x)
    have pr: "present_fns cfg (x # xs) = ?d # present_fns cfg xs" using False by (simp add: present_fns_def)
    show ?thesis
    proof (cases "length ds < 32")
      case True
      obtain p1 where p1: "add_device ?d p = Inr p1" "devices_are (ds @ [?d]) p1"
        using add_device_list(1) [OF Cons.prems(3) True] by blast
      have "\<forall>x\<in>set xs. on_bus x" using Cons.prems(2) by simp
      from Cons.IH [OF dv(2) this p1(2)] show ?thesis
        unfolding run pr p1(1) rbind_Inr append.assoc append_Cons append_Nil .
    next
      case False
      then have "length ds = 32" using Cons.prems(3) by (simp add: devices_are_def)
      then show ?thesis using add_device_list(2) [OF Cons.prems(3), of ?d] unfolding run pr by simp
    qed
  qed
qed

lemma pci_init_finds:
  assumes b: "host_bridge b cfg ok" and w: "ok w"
  shows "if length (present_fns cfg all_functions) \<le> 32
    then \<exists>p w'. pci_init b w = Inr (p, w') \<and> unat (devices p) = length (present_fns cfg all_functions) \<and>
      pci_devices p = map Some (present_fns cfg all_functions) @ replicate (32 - length (present_fns cfg all_functions)) None
    else pci_init b w = Inl OutOfRange"
proof -
  have "devices_are [] \<lparr>pci_devices = replicate 32 None, devices = 0\<rparr>" by (simp add: devices_are_def)
  from parse_finds [OF b w all_functions_on_bus this] show ?thesis
    by (auto simp: pci_init_def devices_are_def)
qed

text \<open>
  C19.  The scan finds every function of every slot of every bus that answers with a vendor, in the order
  of the loops, with its vendor, device and function number, when there are at most 32 of them; the
  thirty-third is written behind the end of the array, which nothing checks.
\<close>

theorem scan_finds_functions:
  assumes b: "host_bridge b cfg ok" and w: "ok w"
  shows "if length (present_fns cfg all_functions) \<le> 32
    then \<exists>p w'. pci_init b w = Inr (p, w') \<and> unat (devices p) = length (present_fns cfg all_functions) \<and>
      pci_devices p = map Some (present_fns cfg all_functions) @ replicate (32 - length (present_fns cfg all_functions)) None
    else pci_init b w = Inl OutOfRange"
  using assms by (rule pci_init_finds)

text \<open>A bridge with one device, at slot 2 of bus 0.\<close>

definition one_device :: "u32 \<Rightarrow> u32 \<Rightarrow> u32 \<Rightarrow> u32 \<Rightarrow> u32" where
  "one_device bs slot func reg = (if bs = 0 \<and> slot = 2 \<and> func = 0 \<and> reg = 0 then 0x26688086 else 0xFFFFFFFF)"

definition demo_ports :: "u32 pci_ports" where
  "demo_ports =
     \<lparr>p_outl = (\<lambda>port v w. if port = 0xCF8 then v else w),
      p_inl32 = (\<lambda>port a. (one_device (drop_bit 16 a AND 0xFF) (drop_bit 11 a AND 0x1F) (drop_bit 8 a AND 7) (a AND 0xFC), a))\<rparr>"

lemma demo_bridge: "host_bridge demo_ports one_device (\<lambda>_. True)"
  by (simp add: host_bridge_def demo_ports_def)

lemma all_functions_distinct: "distinct all_functions"
proof -
  have inj: "inj_on (of_nat :: nat \<Rightarrow> u32) (set [0..<n])" if "n \<le> 256" for n
  proof (rule inj_onI)
    fix i j :: nat assume ij: "i \<in> set [0..<n]" "j \<in> set [0..<n]" "(of_nat i :: u32) = of_nat j"
    have "unat (of_nat i :: u32) = i" "unat (of_nat j :: u32) = j"
      using ij(1,2) that by (simp_all add: unat_of_nat_u32)
    then show "i = j" unfolding ij(3) by (rule trans [OF sym])
  qed
  show ?thesis
    unfolding all_functions_def
    by (intro distinct_product; unfold distinct_map; intro conjI distinct_upt inj; simp)
qed

lemma one_function: "distinct xs \<Longrightarrow> a \<in> set xs \<Longrightarrow> filter (\<lambda>x. x = a) xs = [a]"
  by (induction xs) (auto simp: filter_empty_conv)

lemma one_device_present: "present_fns one_device all_functions =
    [\<lparr>pd_vendor = 0x8086, pd_device = 0x2668, pd_func = 0, pd_driver = None\<rparr>]"
proof -
  have v: "vendor_of one_device x \<noteq> 0xFFFF \<longleftrightarrow> x = (0, 2, 0)" for x
    by (cases x) (auto simp: vendor_of_def one_device_def)
  have mem: "(of_nat k :: u32) \<in> of_nat ` set [0..<n]" if "k < n" for k n
    using that by (intro imageI) (simp del: upt_conv_Cons)
  have "(of_nat 0, of_nat 2, of_nat 0) \<in> set all_functions"
    unfolding all_functions_def set_product set_map by (intro SigmaI mem) simp_all
  then have "(0, 2, 0) \<in> set all_functions" by simp
  then have "filter (\<lambda>x. x = (0, 2, 0)) all_functions = [(0, 2, 0)]"
    by (rule one_function [OF all_functions_distinct])
  then show ?thesis by (simp add: present_fns_def v device_of_def one_device_def Let_def)
qed

lemma scan_finds_functions_witness:
  "\<exists>p w'. pci_init demo_ports 0 = Inr (p, w') \<and> devices p = 1 \<and>
     pci_devices p ! 0 = Some \<lparr>pd_vendor = 0x8086, pd_device = 0x2668, pd_func = 0, pd_driver = None\<rparr>"
proof -
  have "unat (devices p) = 1 \<Longrightarrow> devices p = 1" for p by (simp add: word_unat_eq_iff)
  then show ?thesis using scan_finds_functions [OF demo_bridge, of 0] by (auto simp: one_device_present)
qed

end
