(* ===== verification/Random_Numbers.thy ===== *)
theory Random_Numbers
  imports Prelude
begin

text \<open>
  The pseudo-random numbers of \<open>kernel/random.h\<close>: two multiply-with-carry generators of 16 bit
  digits.  A step divides by \<open>2 ^ 16\<close> modulo a number that depends on the multiplier, so that only a
  multiple of that number can be left alone by a step.  The constructor keeps two such states away from
  each generator; for \<open>w\<close> there are four.
\<close>

record random =
  rng_w :: u32
  rng_z :: u32

definition Random :: "u32 \<Rightarrow> random" where
  "Random seed =
     (let w = seed; z = NOT seed in
      \<lparr>rng_w = (if w = 0 \<or> w = 0x464fffff then w + 1 else w),
       rng_z = (if z = 0 \<or> z = 0x9068ffff then z + 1 else z)\<rparr>)"

text \<open>One generator, with multiplier \<open>a\<close>.\<close>

definition mwc :: "u32 \<Rightarrow> u32 \<Rightarrow> u32" where
  "mwc a x = a * (x AND 65535) + drop_bit 16 x"

definition next_random :: "random \<Rightarrow> u32 \<times> random" where
  "next_random r =
     (let z = mwc 36969 (rng_z r); w = mwc 18000 (rng_w r) in
      (push_bit 16 z + w, \<lparr>rng_w = w, rng_z = z\<rparr>))"

section \<open>A step as division\<close>

text \<open>The modulus of a generator.\<close>

definition modulus :: "u32 \<Rightarrow> int" where
  "modulus a = uint a * 65536 - 1"

lemma mwc_uint:
  assumes "uint a \<le> 65535"
  shows "uint (mwc a x) = uint a * (uint x mod 65536) + uint x div 65536"
proof -
  have m: "(65535 :: u32) = mask 16" by (simp add: mask_eq_decr_exp)
  have lo: "uint (x AND 65535) = uint x mod 65536"
    unfolding m by (simp flip: take_bit_eq_mask add: unsigned_take_bit_eq take_bit_eq_mod uint_mod)
  have hi: "uint (drop_bit 16 x) = uint x div 65536"
    by (simp add: unsigned_drop_bit_eq drop_bit_eq_div uint_div)
  have lo': "0 \<le> uint x mod 65536" "uint x mod 65536 \<le> 65535" by simp_all
  have hi': "0 \<le> uint x div 65536" "uint x div 65536 \<le> 65535"
  proof -
    have h: "uint x \<le> 4294967295" using uint_bounded [of x] by simp
    show "uint x div 65536 \<le> 65535" using zdiv_mono1 [OF h, of 65536] by simp
    show "0 \<le> uint x div 65536" by (simp add: pos_imp_zdiv_nonneg_iff)
  qed
  have p: "uint a * (uint x mod 65536) \<le> 65535 * 65535"
    using assms lo' by (intro mult_mono) simp_all
  have mul: "uint (a * (x AND 65535)) = uint a * (uint x mod 65536)"
    using p lo by (subst uint_mult_lem [THEN iffD1]) simp_all
  show ?thesis
    unfolding mwc_def using p hi' mul hi
    by (subst uint_add_lem [THEN iffD1]) simp_all
qed

lemma mwc_divides:
  assumes "uint a \<le> 65535"
  shows "65536 * uint (mwc a x) = uint x + (uint x mod 65536) * modulus a"
proof -
  have "65536 * (uint x div 65536) + uint x mod 65536 = uint x" by simp
  then show ?thesis
    unfolding mwc_uint [OF assms] modulus_def by (simp add: algebra_simps)
qed

text \<open>A multiple of the modulus stays one, and nothing else becomes one.\<close>

lemma mwc_multiple:
  assumes "uint a \<le> 65535"
  shows "modulus a dvd uint (mwc a x) \<longleftrightarrow> modulus a dvd uint x"
proof -
  have "coprime (modulus a) (65536 :: int)"
  proof -
    have "coprime (modulus a) (uint a * 65536)"
      unfolding modulus_def using coprime_diff_one_left [of "uint a * 65536"] by simp
    then show ?thesis by simp
  qed
  then have "modulus a dvd uint (mwc a x) \<longleftrightarrow> modulus a dvd 65536 * uint (mwc a x)"
    by (metis coprime_dvd_mult_right_iff)
  also have "\<dots> \<longleftrightarrow> modulus a dvd uint x"
    unfolding mwc_divides [OF assms] by (simp add: dvd_add_left_iff)
  finally show ?thesis .
qed

primrec random_steps :: "nat \<Rightarrow> random \<Rightarrow> random" where
  "random_steps 0 r = r"
| "random_steps (Suc n) r = snd (next_random (random_steps n r))"

text \<open>Whether a state is a multiple of its modulus never changes.\<close>

lemma multiple_stays:
  "modulus 18000 dvd uint (rng_w (random_steps n r)) \<longleftrightarrow> modulus 18000 dvd uint (rng_w r)"
  "modulus 36969 dvd uint (rng_z (random_steps n r)) \<longleftrightarrow> modulus 36969 dvd uint (rng_z r)"
  by (induction n) (simp_all add: next_random_def Let_def mwc_multiple)

text \<open>A state that a step leaves alone is a multiple of the modulus: \<open>65535 * x\<close> is one, and 65535
  has no factor in common with the modulus.\<close>

lemma fixed_multiple:
  assumes "uint a \<le> 65535" "coprime (modulus a) 65535" "mwc a x = x"
  shows "modulus a dvd uint x"
proof -
  have "65535 * uint x = (uint x mod 65536) * modulus a"
    using mwc_divides [OF assms(1), of x] assms(3) by simp
  then have "modulus a dvd 65535 * uint x" by simp
  then show ?thesis using assms(2) by (simp add: coprime_dvd_mult_right_iff)
qed

lemma multiples_in_range:
  assumes "0 < p" "uint x < p * 4"
  shows "p dvd uint (x :: u32) \<longleftrightarrow> uint x = 0 \<or> uint x = p \<or> uint x = 2 * p \<or> uint x = 3 * p"
proof
  assume "p dvd uint x"
  then obtain k where k: "uint x = p * k" by (auto elim: dvdE)
  then have "0 \<le> k" using assms(1) uint_nonnegative [of x] by (metis mult_le_cancel_left_pos mult_zero_right)
  moreover have "k < 4" using k assms by (metis mult_less_cancel_left_pos)
  ultimately have "k = 0 \<or> k = 1 \<or> k = 2 \<or> k = 3" by linarith
  then show "uint x = 0 \<or> uint x = p \<or> uint x = 2 * p \<or> uint x = 3 * p" using k by auto
qed auto

lemma multiple_of_w:
  "modulus 18000 dvd uint (x :: u32) \<longleftrightarrow> x = 0 \<or> x = 0x464FFFFF \<or> x = 0x8C9FFFFE \<or> x = 0xD2EFFFFD"
proof -
  have eq: "uint y = k \<longleftrightarrow> y = of_int k" if "0 \<le> k" "k < 2 ^ 32" for y :: u32 and k
    using that uint_of_int_u32 by (metis word_uint_eqI)
  show ?thesis
    using multiples_in_range [of "modulus 18000" x] uint_bounded [of x] by (simp add: modulus_def eq)
qed

lemma multiple_of_z: "modulus 36969 dvd uint (x :: u32) \<longleftrightarrow> x = 0 \<or> x = 0x9068FFFF"
proof -
  have eq: "uint y = k \<longleftrightarrow> y = of_int k" if "0 \<le> k" "k < 2 ^ 32" for y :: u32 and k
    using that uint_of_int_u32 by (metis word_uint_eqI)
  show ?thesis
    using multiples_in_range [of "modulus 36969" x] uint_bounded [of x] by (auto simp: modulus_def eq)
qed

lemma Random_multiples:
  "modulus 18000 dvd uint (rng_w (Random seed)) \<longleftrightarrow> seed = 0x8C9FFFFE \<or> seed = 0xD2EFFFFD"
  "\<not> modulus 36969 dvd uint (rng_z (Random seed))"
  "rng_w (Random seed) \<noteq> 0 \<and> rng_w (Random seed) \<noteq> 0x464FFFFF"
  by (auto simp: multiple_of_w multiple_of_z Random_def Let_def)

lemma mwc_w_multiple:
  assumes "x = 0x464FFFFF \<or> x = 0x8C9FFFFE \<or> x = 0xD2EFFFFD"
  shows "mwc 18000 x = 0x464FFFFF"
  using assms by (auto simp: mwc_def)

lemma bad_seed_value:
  assumes "seed = 0x8C9FFFFE \<or> seed = 0xD2EFFFFD"
  shows "rng_w (random_steps (Suc n) (Random seed)) = 0x464FFFFF"
proof (induction n)
  case 0
  have "rng_w (Random seed) = seed" using assms by (auto simp: Random_def)
  then show ?case using assms by (simp add: next_random_def Let_def mwc_w_multiple)
qed (simp add: next_random_def Let_def mwc_w_multiple)

lemma w_repeats:
  "rng_w (random_steps (Suc n) (Random seed)) = rng_w (random_steps n (Random seed)) \<longleftrightarrow>
   0 < n \<and> (seed = 0x8C9FFFFE \<or> seed = 0xD2EFFFFD)"
proof
  assume "rng_w (random_steps (Suc n) (Random seed)) = rng_w (random_steps n (Random seed))"
  then have fixed: "mwc 18000 (rng_w (random_steps n (Random seed))) = rng_w (random_steps n (Random seed))"
    by (simp add: next_random_def Let_def)
  have "coprime (modulus 18000) (65535 :: int)" by (simp add: modulus_def coprime_iff_gcd_eq_1 gcd_int_def gcd_non_0_nat)
  from fixed_multiple [OF _ this fixed] have bad: "seed = 0x8C9FFFFE \<or> seed = 0xD2EFFFFD"
    by (simp add: multiple_stays Random_multiples)
  have "n \<noteq> 0"
  proof
    assume "n = 0"
    then have "rng_w (Random seed) = 0x464FFFFF" using bad_seed_value [OF bad, of 0] fixed
      by (simp add: next_random_def Let_def)
    then show False using Random_multiples(3) by simp
  qed
  then show "0 < n \<and> (seed = 0x8C9FFFFE \<or> seed = 0xD2EFFFFD)" using bad by simp
next
  assume h: "0 < n \<and> (seed = 0x8C9FFFFE \<or> seed = 0xD2EFFFFD)"
  then obtain k where "n = Suc k" by (cases n) auto
  then show "rng_w (random_steps (Suc n) (Random seed)) = rng_w (random_steps n (Random seed))"
    using bad_seed_value [of seed k] bad_seed_value [of seed n] h by simp
qed

lemma z_never_repeats:
  "rng_z (random_steps (Suc n) (Random seed)) \<noteq> rng_z (random_steps n (Random seed))"
proof
  assume "rng_z (random_steps (Suc n) (Random seed)) = rng_z (random_steps n (Random seed))"
  then have fixed: "mwc 36969 (rng_z (random_steps n (Random seed))) = rng_z (random_steps n (Random seed))"
    by (simp add: next_random_def Let_def)
  have "coprime (modulus 36969) (65535 :: int)" by (simp add: modulus_def coprime_iff_gcd_eq_1 gcd_int_def gcd_non_0_nat)
  from fixed_multiple [OF _ this fixed] show False by (simp add: multiple_stays Random_multiples)
qed

text \<open>A step is a division by \<open>2 ^ 16\<close> modulo the modulus.\<close>

lemma mwc_mod:
  "uint a \<le> 65535 \<Longrightarrow> (65536 * uint (mwc a x)) mod modulus a = uint x mod modulus a"
  by (simp add: mwc_divides)

text \<open>
  C37.  The law of the generator and its bad seeds.  Every step divides each state by \<open>2 ^ 16\<close> modulo
  \<open>a * 2 ^ 16 - 1\<close>, \<open>a\<close> the multiplier.  The step after the first \<open>n\<close> leaves \<open>w\<close> alone exactly if
  \<open>n\<close> is not 0 and the seed is \<open>0x8C9FFFFE\<close> or \<open>0xD2EFFFFD\<close>, which the constructor does not
  replace; \<open>w\<close> is then \<open>0x464FFFFF\<close> from the first step on.  No step from any seed leaves \<open>z\<close>
  alone.
\<close>

theorem bad_seeds:
  "65536 * uint (rng_w (snd (next_random r))) mod modulus 18000 = uint (rng_w r) mod modulus 18000 \<and>
   65536 * uint (rng_z (snd (next_random r))) mod modulus 36969 = uint (rng_z r) mod modulus 36969 \<and>
   (rng_w (random_steps (Suc n) (Random seed)) = rng_w (random_steps n (Random seed)) \<longleftrightarrow>
      0 < n \<and> (seed = 0x8C9FFFFE \<or> seed = 0xD2EFFFFD)) \<and>
   (seed = 0x8C9FFFFE \<or> seed = 0xD2EFFFFD \<longrightarrow> rng_w (random_steps (Suc n) (Random seed)) = 0x464FFFFF) \<and>
   rng_z (random_steps (Suc n) (Random seed)) \<noteq> rng_z (random_steps n (Random seed))"
proof (intro conjI)
  show "65536 * uint (rng_w (snd (next_random r))) mod modulus 18000 = uint (rng_w r) mod modulus 18000"
    using mwc_mod [of 18000 "rng_w r"] by (simp add: next_random_def Let_def)
  show "65536 * uint (rng_z (snd (next_random r))) mod modulus 36969 = uint (rng_z r) mod modulus 36969"
    using mwc_mod [of 36969 "rng_z r"] by (simp add: next_random_def Let_def)
qed (use w_repeats bad_seed_value z_never_repeats in blast)+

lemma bad_seeds_witness: "rng_w (random_steps (Suc 5) (Random 0x8C9FFFFE)) = 0x464FFFFF"
  by (rule bad_seeds [of "Random 7" 5 "0x8C9FFFFE", THEN conjunct2, THEN conjunct2, THEN conjunct2,
      THEN conjunct1, THEN mp]) simp

end
