(* ===== verification/Machine.thy ===== *)
theory Machine
  imports Prelude
begin

text \<open>
  The processor's own devices: the interrupt table (\<open>kernel/idt.cc\<close>), the local APIC with the messages
  between processors (\<open>kernel/smp.h\<close>, \<open>kernel/smp.cc\<close>), the timer (\<open>kernel/pit.h\<close>, \<open>kernel/pit.cc\<close>) and
  the serial port (\<open>kernel/u8250.cc\<close>).  Ports, memory-mapped registers and model specific registers are
  a parameter on an unknown state \<open>'w\<close>.
\<close>

record 'w machine =
  port_in :: "u32 \<Rightarrow> 'w \<Rightarrow> u32 \<times> 'w"
  port_out :: "u32 \<Rightarrow> u32 \<Rightarrow> 'w \<Rightarrow> 'w"
  apic_in :: "u32 \<Rightarrow> 'w \<Rightarrow> u32 \<times> 'w"
  apic_out :: "u32 \<Rightarrow> u32 \<Rightarrow> 'w \<Rightarrow> 'w"
  rdmsr :: "u32 \<Rightarrow> 'w \<Rightarrow> u64 \<times> 'w"
  wrmsr :: "u32 \<Rightarrow> u64 \<Rightarrow> 'w \<Rightarrow> 'w"

section \<open>The interrupt table\<close>

definition interrupt_gate :: "u32 \<Rightarrow> int \<Rightarrow> u32 \<Rightarrow> (int \<Rightarrow> u32) \<Rightarrow> int \<Rightarrow> u32" where
  "interrupt_gate kernelCS index handler idt =
     (let i0 = 2 * index; i1 = i0 + 1 in
      idt(i0 := push_bit 16 kernelCS + (handler AND 0xffff), i1 := (handler AND 0xffff0000) OR 0x8e00))"

definition trap_gate :: "u32 \<Rightarrow> int \<Rightarrow> u32 \<Rightarrow> u32 \<Rightarrow> (int \<Rightarrow> u32) \<Rightarrow> int \<Rightarrow> u32" where
  "trap_gate kernelCS index handler dpl idt =
     (let i0 = 2 * index; i1 = i0 + 1 in
      idt(i0 := push_bit 16 kernelCS + (handler AND 0xffff),
          i1 := (handler AND 0xffff0000) OR 0x8f00 OR push_bit 13 dpl))"

text \<open>What the processor reads: the address, the code segment, the type of the gate, and the least
  privilege that may use it.\<close>

definition gate_target :: "(int \<Rightarrow> u32) \<Rightarrow> int \<Rightarrow> u32" where
  "gate_target idt index = (idt (2 * index + 1) AND 0xffff0000) OR (idt (2 * index) AND 0xffff)"

definition gate_segment :: "(int \<Rightarrow> u32) \<Rightarrow> int \<Rightarrow> u32" where
  "gate_segment idt index = drop_bit 16 (idt (2 * index))"

definition gate_type :: "(int \<Rightarrow> u32) \<Rightarrow> int \<Rightarrow> u32" where
  "gate_type idt index = drop_bit 8 (idt (2 * index + 1)) AND 0x1f"

definition gate_dpl :: "(int \<Rightarrow> u32) \<Rightarrow> int \<Rightarrow> u32" where
  "gate_dpl idt index = drop_bit 13 (idt (2 * index + 1)) AND 3"

lemma low_and_high: "push_bit 16 cs + (handler AND 0xffff) = push_bit 16 cs OR (handler AND (0xffff :: u32))"
proof -
  have m: "(0xffff :: u32) = mask 16" by (simp add: mask_eq_decr_exp)
  have "push_bit 16 cs AND (handler AND mask 16) = 0" by (rule bit_word_eqI) (auto simp: bit_simps)
  then show ?thesis unfolding m by (simp add: disjunctive_add_eq_or)
qed

lemma gate_bits:
  "bit (0xffff :: u32) n \<longleftrightarrow> n < 16" "bit (0xffff0000 :: u32) n \<longleftrightarrow> 16 \<le> n \<and> n < 32"
proof -
  have m: "(0xffff :: u32) = mask 16" "(0xffff0000 :: u32) = push_bit 16 (mask 16)"
    by (simp_all add: mask_eq_decr_exp)
  show "bit (0xffff :: u32) n \<longleftrightarrow> n < 16" unfolding m by (auto simp: bit_mask_iff)
  show "bit (0xffff0000 :: u32) n \<longleftrightarrow> 16 \<le> n \<and> n < 32" unfolding m by (auto simp: bit_push_bit_iff bit_mask_iff)
qed

lemma no_low_bits: "(x :: u32) AND 0xffff = 0 \<Longrightarrow> n < 16 \<Longrightarrow> \<not> bit x n"
proof -
  assume z: "x AND 0xffff = 0" and n: "n < 16"
  have "\<not> bit (x AND 0xffff) n" unfolding z by simp
  then show "\<not> bit x n" using n unfolding bit_and_iff gate_bits by simp
qed

text \<open>A gate sends the interrupt to its handler and leaves every other gate alone.\<close>

lemma handler_back: "(((h AND 0xffff0000) OR t) AND 0xffff0000) OR ((push_bit 16 cs OR (h AND 0xffff)) AND (0xffff :: u32)) = h"
  if "t AND 0xffff0000 = 0" for h t cs :: u32
proof (rule bit_word_eqI)
  fix n assume "n < LENGTH(32)"
  then have n: "n < 32" by simp
  have "\<not> bit (t AND 0xffff0000) n" unfolding that by simp
  then show "bit ((((h AND 0xffff0000) OR t) AND 0xffff0000) OR ((push_bit 16 cs OR (h AND 0xffff)) AND 0xffff)) n = bit h n"
    using n unfolding bit_or_iff bit_and_iff bit_push_bit_iff gate_bits by (cases "n < 16") simp_all
qed

lemma interrupt_gate_works:
  "gate_target (interrupt_gate cs i handler idt) i = handler"
  "j \<noteq> i \<Longrightarrow> gate_target (interrupt_gate cs i handler idt) j = gate_target idt j"
  "gate_type (interrupt_gate cs i 0 idt) i = 0xe"
proof -
  have p: "2 * j + 1 \<noteq> 2 * i" "2 * i \<noteq> 2 * j + 1" for i j :: int by presburger+
  show "gate_target (interrupt_gate cs i handler idt) i = handler"
    by (simp add: gate_target_def interrupt_gate_def Let_def low_and_high handler_back p)
  show "j \<noteq> i \<Longrightarrow> gate_target (interrupt_gate cs i handler idt) j = gate_target idt j"
    by (simp add: gate_target_def interrupt_gate_def Let_def p)
  show "gate_type (interrupt_gate cs i 0 idt) i = 0xe"
    by (simp add: gate_type_def interrupt_gate_def Let_def p)
qed

lemma trap_gate_works:
  assumes "dpl AND 0xfffffffc = 0"
  shows "gate_target (trap_gate cs i handler dpl idt) i = handler"
    "j \<noteq> i \<Longrightarrow> gate_target (trap_gate cs i handler dpl idt) j = gate_target idt j"
proof -
  have p: "2 * j + 1 \<noteq> 2 * i" "2 * i \<noteq> 2 * j + 1" for i j :: int by presburger+
  have d: "\<not> bit dpl n" if "2 \<le> n" for n
  proof (cases "n < 32")
    case True
    have e: "(0xfffffffc :: u32) = push_bit 2 (mask 30)" by (simp add: mask_eq_decr_exp)
    have "\<not> bit (dpl AND push_bit 2 (mask 30)) n" using assms unfolding e by simp
    then show ?thesis using that True by (auto simp: bit_and_iff bit_push_bit_iff bit_mask_iff)
  qed (use bit_imp_le_length in fastforce)
  have "(0x8f00 OR push_bit 13 dpl) AND 0xffff0000 = 0"
  proof (rule bit_word_eqI)
    fix n
    have "(0x8f00 :: u32) AND 0xffff0000 = 0" by simp
    then have "\<not> bit ((0x8f00 :: u32) AND 0xffff0000) n" by simp
    then show "bit ((0x8f00 OR push_bit 13 dpl) AND 0xffff0000) n = bit (0 :: u32) n"
      using d [of "n - 13"] unfolding bit_and_iff bit_or_iff bit_push_bit_iff gate_bits by auto
  qed
  then show "gate_target (trap_gate cs i handler dpl idt) i = handler"
    by (simp add: gate_target_def trap_gate_def Let_def low_and_high handler_back p or.assoc)
  show "j \<noteq> i \<Longrightarrow> gate_target (trap_gate cs i handler dpl idt) j = gate_target idt j"
    by (simp add: gate_target_def trap_gate_def Let_def p)
qed

section \<open>The local APIC\<close>

text \<open>The registers of the local APIC, as addresses, and the count of running processors.\<close>

record smp =
  smp_id :: u32
  eoi_reg :: u32
  spurious :: u32
  icr_low :: u32
  icr_high :: u32
  apit_lvt_timer :: u32
  apit_initial_count :: u32
  apit_current_count :: u32
  apit_divide :: u32
  smp_running :: u32

definition apic_registers :: "u32 \<Rightarrow> smp \<Rightarrow> smp" where
  "apic_registers localAPIC s =
     s\<lparr>smp_id := localAPIC + 0x20, eoi_reg := localAPIC + 0xb0, spurious := localAPIC + 0xf0,
       icr_low := localAPIC + 0x300, icr_high := localAPIC + 0x310, apit_lvt_timer := localAPIC + 0x320,
       apit_initial_count := localAPIC + 0x380, apit_current_count := localAPIC + 0x390,
       apit_divide := localAPIC + 0x3e0\<rparr>"

definition smp_init :: "'w machine \<Rightarrow> bool \<Rightarrow> u32 \<Rightarrow> u32 \<Rightarrow> u32 \<Rightarrow> smp \<times> (int \<Rightarrow> u32) \<times> 'w \<Rightarrow> smp \<times> (int \<Rightarrow> u32) \<times> 'w" where
  "smp_init m isFirst localAPIC kernelCS spuriousHandler = (\<lambda>(s, idt, w).
     let s1 = (if isFirst then apic_registers localAPIC s else s);
         idt1 = (if isFirst then interrupt_gate kernelCS 0xff spuriousHandler idt else idt);
         w1 = port_out m 0xa1 0xff (port_out m 0x21 0xff w)
     in case rdmsr m 0x1B w1 of (msr, w2) \<Rightarrow>
          (s1, idt1, apic_out m (spurious s1) 0x1ff (wrmsr m 0x1B (msr OR push_bit 11 1) w2)))"

definition smp_me :: "'w machine \<Rightarrow> smp \<Rightarrow> 'w \<Rightarrow> u32 \<times> 'w" where
  "smp_me m s w = (case apic_in m (smp_id s) w of (x, w1) \<Rightarrow> (drop_bit 24 x, w1))"

definition eoi :: "'w machine \<Rightarrow> smp \<Rightarrow> 'w \<Rightarrow> 'w" where
  "eoi m s w = apic_out m (eoi_reg s) 0 w"

partial_function (option) wait_delivery :: "'w machine \<Rightarrow> smp \<Rightarrow> 'w \<Rightarrow> 'w option" where
  "wait_delivery m s w =
     (case apic_in m (icr_low s) w of (x, w1) \<Rightarrow>
        if x AND push_bit 12 1 \<noteq> 0 then wait_delivery m s w1 else Some w1)"

definition ipi :: "'w machine \<Rightarrow> smp \<Rightarrow> u32 \<Rightarrow> u32 \<Rightarrow> 'w \<Rightarrow> 'w option" where
  "ipi m s cpu num w =
     wait_delivery m s (apic_out m (icr_low s) num (apic_out m (icr_high s) (push_bit 24 cpu) w))"

section \<open>The timer\<close>

definition PIT_FREQ :: u32 where "PIT_FREQ = 1193182"
definition APIT_vector :: u32 where "APIT_vector = 40"

record pit =
  jiffiesPerSecond :: u32
  apitCounter :: u32
  jiffies :: u32

definition pit_divider :: u32 where
  "pit_divider = (let d = PIT_FREQ div 20 in if d AND 0xffff \<noteq> d then 0xffff else d)"

text \<open>The loop that waits for 40 changes of the timer's output.\<close>

partial_function (option) wait_changes :: "'w machine \<Rightarrow> u32 \<Rightarrow> u32 \<Rightarrow> 'w \<Rightarrow> 'w option" where
  "wait_changes m prev changes w =
     (if changes < 40
      then (case port_in m 0x61 w of (x, w1) \<Rightarrow>
              let t = x AND 0x20 in
              if t \<noteq> prev then wait_changes m t (changes + 1) w1 else wait_changes m prev changes w1)
      else Some w)"

definition calibrate :: "'w machine \<Rightarrow> smp \<Rightarrow> u32 \<Rightarrow> u32 \<Rightarrow> u32 \<Rightarrow> pit \<times> (int \<Rightarrow> u32) \<times> 'w \<Rightarrow>
    (pit \<times> (int \<Rightarrow> u32) \<times> 'w) res option" where
  "calibrate m s kernelCS handler hz = (\<lambda>(p, idt, w).
     let w1 = apic_out m (apit_divide s) 0x0B (apic_out m (apit_lvt_timer s) 0x00010000 w);
         initial = 0xffffffff;
         w2 = port_out m 0x43 0xB6 (port_out m 0x61 1 (apic_out m (apit_initial_count s) initial w1));
         w3 = port_out m 0x42 (drop_bit 8 pit_divider) (port_out m 0x42 pit_divider w2)
     in case port_in m 0x61 w3 of (l, w4) \<Rightarrow>
        Option.bind (wait_changes m (l AND 0x20) 0 w4) (\<lambda>w5.
        case apic_in m (apit_current_count s) w5 of (cur, w6) \<Rightarrow>
          let diff = initial - cur; w7 = port_out m 0x61 0 w6 in
          Some (if hz = 0 then Inl DivByZero
                else Inr (p\<lparr>apitCounter := diff div hz, jiffiesPerSecond := hz\<rparr>,
                          interrupt_gate kernelCS (uint APIT_vector) handler idt, w7))))"

definition pit_init :: "'w machine \<Rightarrow> smp \<Rightarrow> pit \<Rightarrow> 'w \<Rightarrow> 'w res" where
  "pit_init m s p w =
     (if apitCounter p = 0 then Inl Panic
      else Inr (apic_out m (apit_initial_count s) (apitCounter p)
             (apic_out m (apit_lvt_timer s) (push_bit 17 1 OR push_bit 16 0 OR APIT_vector)
               (apic_out m (apit_divide s) 0x0B w))))"

definition secondsToJiffies :: "pit \<Rightarrow> u32 \<Rightarrow> u32" where
  "secondsToJiffies p secs = jiffiesPerSecond p * secs"

definition seconds :: "pit \<Rightarrow> u32 res" where
  "seconds p = (if jiffiesPerSecond p = 0 then Inl DivByZero else Inr (jiffies p div jiffiesPerSecond p))"

text \<open>The handler of the timer: \<open>active\<close> gives the thread of a core, with the flags \<open>isIdle\<close> and
  \<open>no_preempt\<close>.  The result says whether it yields.\<close>

definition apitHandler :: "'w machine \<Rightarrow> smp \<Rightarrow> (u32 \<Rightarrow> (bool \<times> bool) option) \<Rightarrow> pit \<times> 'w \<Rightarrow> bool \<times> pit \<times> 'w" where
  "apitHandler m s active = (\<lambda>(p, w).
     case smp_me m s w of (me, w1) \<Rightarrow>
       let p1 = (if me = 0 then p\<lparr>jiffies := jiffies p + 1\<rparr> else p);
           w2 = apic_out m (eoi_reg s) 0 w1
       in (case active me of None \<Rightarrow> False | Some (isIdle, no_preempt) \<Rightarrow> \<not> isIdle \<and> \<not> no_preempt, p1, w2))"

text \<open>The loop ends when the output changes for ever.  The hardware is a sequence of values of the
  port; \<open>n\<close> is how often it has been read.\<close>

definition pit_signal :: "(nat \<Rightarrow> u32) \<Rightarrow> nat machine" where
  "pit_signal f = \<lparr>port_in = (\<lambda>p n. (f n, Suc n)), port_out = (\<lambda>p v n. n), apic_in = (\<lambda>a n. (0, n)),
     apic_out = (\<lambda>a v n. n), rdmsr = (\<lambda>r n. (0, n)), wrmsr = (\<lambda>r v n. n)\<rparr>"

lemma wait_one_change:
  assumes "changes < 40" "f (n + k) AND 0x20 \<noteq> prev"
  shows "\<exists>j. wait_changes (pit_signal f) prev changes n = wait_changes (pit_signal f) (f (n + j) AND 0x20) (changes + 1) (Suc (n + j))"
  using assms(2)
proof (induction k arbitrary: n)
  case 0
  then show ?case using assms(1)
    by (intro exI [of _ 0]) (subst wait_changes.simps, simp add: pit_signal_def Let_def)
next
  case (Suc k)
  show ?case
  proof (cases "f n AND 0x20 = prev")
    case True
    have "f (Suc n + k) AND 0x20 \<noteq> prev" using Suc.prems by simp
    then obtain j where j: "wait_changes (pit_signal f) prev changes (Suc n) =
        wait_changes (pit_signal f) (f (Suc n + j) AND 0x20) (changes + 1) (Suc (Suc n + j))"
      using Suc.IH by blast
    have "wait_changes (pit_signal f) prev changes n = wait_changes (pit_signal f) prev changes (Suc n)"
      using True assms(1) by (subst wait_changes.simps) (simp add: pit_signal_def Let_def)
    then show ?thesis using j by (intro exI [of _ "Suc j"]) simp
  next
    case False
    then show ?thesis using assms(1)
      by (intro exI [of _ 0]) (subst wait_changes.simps, simp add: pit_signal_def Let_def)
  qed
qed

lemma wait_changes_returns:
  assumes alive: "\<And>n. \<exists>k. f (n + k) AND 0x20 \<noteq> f n AND 0x20"
  shows "d \<le> 40 \<Longrightarrow> prev = f n AND 0x20 \<Longrightarrow> \<exists>n'. wait_changes (pit_signal f) prev (40 - of_nat d) (Suc n) = Some n'"
proof (induction d arbitrary: prev n)
  case 0
  then show ?case by (subst wait_changes.simps) simp
next
  case (Suc d)
  have c: "(40 - of_nat (Suc d) :: u32) < 40" "(40 - of_nat (Suc d) :: u32) + 1 = 40 - of_nat d"
  proof -
    have "unat (of_nat (Suc d) :: u32) = Suc d" using Suc.prems(1) by (intro unat_of_nat_u32) simp
    then have "unat (40 - of_nat (Suc d) :: u32) = 40 - Suc d"
      using Suc.prems(1) by (subst unat_sub) (simp_all add: word_le_nat_alt)
    then show "(40 - of_nat (Suc d) :: u32) < 40" by (simp add: word_less_nat_alt)
  qed simp
  obtain k where k: "f (n + k) AND 0x20 \<noteq> f n AND 0x20" using alive by blast
  then obtain l where l: "k = Suc l" by (cases k) auto
  have "f (Suc n + l) AND 0x20 \<noteq> prev" using k l Suc.prems(2) by simp
  then obtain j where j: "wait_changes (pit_signal f) prev (40 - of_nat (Suc d)) (Suc n) =
      wait_changes (pit_signal f) (f (Suc n + j) AND 0x20) (40 - of_nat d) (Suc (Suc n + j))"
    using wait_one_change [OF c(1), of f "Suc n" l prev] unfolding c(2) by blast
  have "d \<le> 40" using Suc.prems(1) by simp
  from Suc.IH [OF this refl] show ?case unfolding j .
qed

lemma calibrate_returns:
  assumes "\<And>n. \<exists>k. f (n + k) AND 0x20 \<noteq> f n AND 0x20" and hz: "hz \<noteq> 0"
  shows "\<exists>w'. calibrate (pit_signal f) s cs handler hz (p, idt, n) =
    Some (Inr (p\<lparr>apitCounter := 0xffffffff div hz, jiffiesPerSecond := hz\<rparr>, interrupt_gate cs 40 handler idt, w'))"
proof -
  obtain n' where "wait_changes (pit_signal f) (f n AND 0x20) 0 (Suc n) = Some n'"
    using wait_changes_returns [OF assms(1), of 40 _ n] by auto
  then show ?thesis using hz by (simp add: calibrate_def Let_def pit_signal_def APIT_vector_def)
qed

section \<open>The serial port\<close>

partial_function (option) wait_line :: "'w machine \<Rightarrow> u32 \<Rightarrow> 'w \<Rightarrow> 'w option" where
  "wait_line m bits w =
     (case port_in m 0x3FD w of (x, w1) \<Rightarrow> if x AND bits = 0 then wait_line m bits w1 else Some w1)"

definition u8250_put :: "'w machine \<Rightarrow> u8 \<Rightarrow> 'w \<Rightarrow> 'w option" where
  "u8250_put m c w = map_option (port_out m 0x3F8 (scast c)) (wait_line m 0x20 w)"

definition u8250_get :: "'w machine \<Rightarrow> 'w \<Rightarrow> (u8 \<times> 'w) option" where
  "u8250_get m w = map_option (\<lambda>w1. case port_in m 0x3F8 w1 of (x, w2) \<Rightarrow> (ucast x, w2)) (wait_line m 0x01 w)"

end
