(* ===== verification/Codec_Bus.thy ===== *)
theory Codec_Bus
  imports Prelude
begin

text \<open>
  The bus of codecs in \<open>kernel/bus.h\<close> and \<open>kernel/bus.cc\<close>, which nothing calls.  A device is found by
  taking children off the queue and putting them back (\<open>Queue_Model\<close> shows that the queue is a list); but
  the result is stored through a null pointer, and a device that is not there is looked for for ever.
\<close>

record device_state =
  codec_address :: u32
  num_child_bus :: u32

record bus_state =
  bus_name :: u32
  parent_device :: "device_state option"
  bus_children :: "device_state list"
  bus_size :: u32

text \<open>\<open>codec_bus_init\<close> on a bus whose \<open>bus_st\<close> points to a structure; the two functions are stored.\<close>

definition codec_bus_init :: "device_state option \<Rightarrow> bus_state option \<Rightarrow> u32 \<Rightarrow> (device_state option \<times> bus_state) res" where
  "codec_bus_init device bus_st size_of =
     (case bus_st of None \<Rightarrow> Inl NullDeref
      | Some b \<Rightarrow> (let d = map_option (\<lambda>d. d\<lparr>num_child_bus := num_child_bus d + 1\<rparr>) device in
          Inr (d, b\<lparr>bus_name := 0, parent_device := d, bus_size := size_of\<rparr>)))"

text \<open>The loop of \<open>codec_find\<close> over the children; \<open>ret\<close> is null all the time.\<close>

partial_function (option) codec_find :: "u32 \<Rightarrow> device_state list \<Rightarrow> unit res option" where
  "codec_find address q =
     (case q of [] \<Rightarrow> Some (Inl NullDeref)
      | child # rest \<Rightarrow>
          if codec_address child = address then Some (Inl NullDeref)
          else codec_find address (rest @ [child]))"

lemma codec_find_present:
  assumes "\<exists>d\<in>set q. codec_address d = address"
  shows "codec_find address q = Some (Inl NullDeref)"
proof -
  have "codec_find address (ys @ d # zs @ xs) = Some (Inl NullDeref)"
    if "codec_address d = address" for d ys zs xs
  proof (induction ys arbitrary: xs)
    case Nil
    then show ?case using that by (subst codec_find.simps) simp
  next
    case (Cons y ys)
    then show ?case using Cons [of "xs @ [y]"] by (subst codec_find.simps) simp
  qed
  then show ?thesis using assms by (metis split_list append_Nil2)
qed

lemma codec_find_absent:
  assumes "q \<noteq> []" "\<forall>d\<in>set q. codec_address d \<noteq> address"
  shows "codec_find address q = None"
proof (rule ccontr)
  assume "codec_find address q \<noteq> None"
  then obtain r where r: "codec_find address q = Some r" by blast
  have "q = [] \<or> (\<exists>d\<in>set q. codec_address d = address)"
  proof (rule codec_find.raw_induct [where P = "\<lambda>address q r. q = [] \<or> (\<exists>d\<in>set q. codec_address d = address)", OF _ r])
    fix loop :: "u32 \<Rightarrow> device_state list \<Rightarrow> unit res option" and address q r
    assume ih: "\<And>address q r. loop address q = Some r \<Longrightarrow> q = [] \<or> (\<exists>d\<in>set q. codec_address d = address)"
      and run: "(case q of [] \<Rightarrow> Some (Inl NullDeref) | child # rest \<Rightarrow>
        if codec_address child = address then Some (Inl NullDeref) else loop address (rest @ [child])) = Some r"
    show "q = [] \<or> (\<exists>d\<in>set q. codec_address d = address)"
      using run ih [of address "tl q @ [hd q]" r] by (cases q) (auto split: if_splits)
  qed
  then show False using assms by blast
qed

text \<open>No call finds a device.\<close>

lemma codec_find_never_succeeds: "codec_find address q \<noteq> Some (Inr u)"
proof (cases "q = []")
  case True
  then show ?thesis by (simp add: codec_find.simps [of address "[]"])
next
  case False
  then show ?thesis
    using codec_find_present [of q address] codec_find_absent [of q address]
    by (cases "\<exists>d\<in>set q. codec_address d = address") auto
qed

end
