(* ===== verification/Main_Thread.thy ===== *)
theory Main_Thread
  imports Sys_Correct Pci
begin

text \<open>
  The first thread of the kernel, \<open>kernelMain\<close> (\<open>kernel/kernel.cc\<close>): it scans the PCI bus, mounts the
  file system on the second disk, finds \<open>sbin\<close> in the root and \<open>init\<close> in there, loads it and enters it in
  user mode with a stack of two words.  Neither look-up is checked; the checks are comments.  The bytes of
  the disk are \<open>d\<close>, \<open>argv\<close> the address \<open>new\<close> gives for the array of arguments and \<open>behind\<close> the byte
  behind the pointer to it on the kernel's stack, which the code copies too.
\<close>

definition sbin_name :: "u8 list" where "sbin_name = [115, 98, 105, 110]"
definition init_name :: "u8 list" where "init_name = [105, 110, 105, 116]"

definition getFile :: "(nat \<Rightarrow> u8) \<Rightarrow> ext2 \<Rightarrow> node option \<Rightarrow> u8 list \<Rightarrow> node option res option" where
  "getFile d fs nd name = ext2_find d fs nd (cstr name)"

definition getDir :: "(nat \<Rightarrow> u8) \<Rightarrow> ext2 \<Rightarrow> node option \<Rightarrow> u8 list \<Rightarrow> node option res option" where
  "getDir d fs nd name = ext2_find d fs nd (cstr name)"

text \<open>The stack of the first program.\<close>

definition init_stack :: "u32 \<Rightarrow> u8 \<Rightarrow> byte_mem \<Rightarrow> u32 \<times> byte_mem" where
  "init_stack argv behind m =
     (let userEsp = 0xefffe000 - 20;
          m1 = write_bytes m userEsp (put32 argv @ [behind]);
          userEsp = userEsp - 4;
          argc = 1
      in (userEsp, write_bytes m1 userEsp (put32 argc)))"

definition kernelMain ::
    "'w pci_ports \<Rightarrow> (nat \<Rightarrow> u8) \<Rightarrow> u32 \<Rightarrow> u8 \<Rightarrow> 'w \<Rightarrow> byte_mem \<Rightarrow> (u32 \<times> u32 \<times> byte_mem) res option" where
  "kernelMain b d argv behind w m =
     obind (Some (pci_init b w)) (\<lambda>_.
     obind (ext2_mount d) (\<lambda>(fs, root).
     obind (getDir d fs (Some root) sbin_name) (\<lambda>sbin.
     obind (getFile d fs sbin init_name) (\<lambda>ini.
     obind (elf_load d ini m) (\<lambda>(e, m1).
     case init_stack argv behind m1 of (userEsp, m2) \<Rightarrow> Some (Inr (e, userEsp, m2)))))))"

section \<open>What the first program finds\<close>

lemma find_plain:
  assumes "0 \<notin> set cs" "slash \<notin> set cs" "cs \<noteq> []"
  shows "ext2_find d fs (Some nd) (cstr cs) = walk d fs nd [cs]"
proof -
  have "at_path (cstr cs) 0 cs" using assms(1) by (auto simp: at_path_def cstr_def)
  moreover have "components cs = [cs]"
  proof (cases cs)
    case (Cons c r)
    have "takeWhile (\<lambda>x. x \<noteq> slash) (c # r) = c # r" "dropWhile (\<lambda>x. x \<noteq> slash) (c # r) = []"
      using assms(2) Cons by (auto simp: takeWhile_eq_all_conv dropWhile_eq_Nil_conv)
    moreover have "c \<noteq> slash" using assms(2) Cons by auto
    ultimately show ?thesis unfolding Cons by (simp only: components.simps if_False)
  qed (use assms in simp)
  ultimately show ?thesis unfolding ext2_find_def by (simp add: path_loop_walk)
qed

lemma find_from_nowhere:
  assumes "slash \<notin> set cs"
  shows "ext2_find d fs None (cstr cs) = Some (Inr None)"
proof -
  have "cstr cs 0 \<noteq> slash" using assms by (cases cs) (auto simp: cstr_def slash_def)
  then have "skip_slashes (cstr cs) 0 = Some 0" by (simp add: skip_slashes.simps)
  then show ?thesis by (simp add: ext2_find_def path_loop.simps)
qed

lemma names:
  "0 \<notin> set sbin_name" "slash \<notin> set sbin_name" "sbin_name \<noteq> []"
  "0 \<notin> set init_name" "slash \<notin> set init_name" "init_name \<noteq> []"
  by (simp_all add: sbin_name_def init_name_def slash_def)

text \<open>The two words of the stack, and the memory elsewhere.\<close>

definition stack_words :: "u32 set" where
  "stack_words = {x. unat (x - 0xefffdfe8) < 9}"

lemma init_stack_spec:
  assumes "init_stack argv behind m = (sp, m')"
  shows "sp = 0xefffdfe8" "mem32 m' 0xefffdfe8 = 1" "mem32 m' 0xefffdfec = argv"
    "x \<notin> stack_words \<Longrightarrow> m' x = m x"
proof -
  let ?bs = "put32 1 @ put32 argv @ [behind]"
  have "m' = write_bytes (write_bytes m (0xefffdfe8 + of_nat (length (put32 1))) (put32 argv @ [behind])) 0xefffdfe8 (put32 1)"
    using assms by (simp add: init_stack_def Let_def)
  also have "\<dots> = write_bytes m 0xefffdfe8 ?bs"
    by (rule write_bytes_prepend) simp_all
  finally have m': "m' = write_bytes m 0xefffdfe8 ?bs" .
  show "sp = 0xefffdfe8" using assms by (simp add: init_stack_def Let_def)
  have "bytes32 ?bs 0 = 1" "bytes32 ?bs 4 = argv"
    using bytes32_put [of "[]" 0 1] bytes32_put [of "put32 1" 4 argv "[behind]"] by simp_all
  then show "mem32 m' 0xefffdfe8 = 1" "mem32 m' 0xefffdfec = argv"
    using mem32_write_bytes [of 0 ?bs m "0xefffdfe8"] mem32_write_bytes [of 4 ?bs m "0xefffdfe8"] by (simp_all add: m')
  show "m' x = m x" if "x \<notin> stack_words"
    unfolding m' by (rule write_bytes_other) (use that in \<open>simp add: stack_words_def\<close>)
qed

text \<open>A node that holds a program the loader can load, with segments that do not overlap.\<close>

definition executable :: "(nat \<Rightarrow> u8) \<Rightarrow> node \<Rightarrow> bool" where
  "executable d nd \<longleftrightarrow>
     (let F = node_bytes d nd; segs = segments_of F (file_headers F) in
      node_ok d nd \<and> 52 \<le> length F \<and> eh_magic F = elf_magic \<and>
      unat (eh_phoff F) + 32 * unat (eh_phnum F) \<le> length F \<and>
      (\<forall>p\<in>set (file_headers F). ph_type p = 1 \<longrightarrow> unat (ph_offset p) \<le> length F) \<and>
      distinct segs \<and> pairwise (\<lambda>s t. disjnt (seg_range s) (seg_range t)) (set segs))"

definition node_segments :: "(nat \<Rightarrow> u8) \<Rightarrow> node \<Rightarrow> (u32 \<times> u8 list) list" where
  "node_segments d nd = segments_of (node_bytes d nd) (file_headers (node_bytes d nd))"

lemma load_executable:
  assumes "executable d nd"
  obtains m' where "elf_load d (Some nd) m = Some (Inr (eh_entry (node_bytes d nd), m'))"
    "\<And>a bs k. (a, bs) \<in> set (node_segments d nd) \<Longrightarrow> k < length bs \<Longrightarrow> m' (a + of_nat k) = bs ! k"
    "\<And>x. (\<forall>s\<in>set (node_segments d nd). x \<notin> seg_range s) \<Longrightarrow> m' x = m x"
  using elf_load_segments [of d nd "node_bytes d nd" m] assms
  unfolding executable_def node_segments_def Let_def by blast

text \<open>
  C2.  How the system starts its first program.  On a bus with at most 32 PCI functions and a disk that
  mounts, where the walk finds \<open>sbin\<close> and in there \<open>init\<close>, an executable, the first thread enters user mode at
  its entry point: every loadable segment is in memory where the stack does not lie over it, the stack holds
  one argument and the address of the array, and nothing else is written.  When one of the two names is not
  there, the thread follows a null pointer.
\<close>

theorem kernelMain_enters_init:
  assumes b: "host_bridge b cfg ok" "ok w" "length (present_fns cfg all_functions) \<le> 32"
    and fs: "ext2_mount d = Some (Inr (fs, root))"
    and sbin: "walk d fs root [sbin_name] = Some (Inr sbin)"
    and ini: "case sbin of None \<Rightarrow> ini = None | Some s \<Rightarrow> walk d fs s [init_name] = Some (Inr ini)"
    and prog: "\<forall>nd. ini = Some nd \<longrightarrow> executable d nd"
  shows "case ini of
      None \<Rightarrow> kernelMain b d argv behind w m = Some (Inl NullDeref)
    | Some nd \<Rightarrow> \<exists>m'. kernelMain b d argv behind w m = Some (Inr (eh_entry (node_bytes d nd), 0xefffdfe8, m')) \<and>
        mem32 m' 0xefffdfe8 = 1 \<and> mem32 m' 0xefffdfec = argv \<and>
        (\<forall>(a, bs)\<in>set (node_segments d nd). \<forall>k < length bs.
           a + of_nat k \<notin> stack_words \<longrightarrow> m' (a + of_nat k) = bs ! k) \<and>
        (\<forall>x. x \<notin> stack_words \<longrightarrow> (\<forall>s\<in>set (node_segments d nd). x \<notin> seg_range s) \<longrightarrow> m' x = m x)"
proof -
  obtain r where "pci_init b w = Inr r" using pci_init_finds [OF b(1,2)] b(3) by auto
  moreover have "getDir d fs (Some root) sbin_name = Some (Inr sbin)"
    unfolding getDir_def find_plain [OF names(1-3)] by (rule sbin)
  moreover have "getFile d fs sbin init_name = Some (Inr ini)"
    using ini by (cases sbin) (simp_all only: getFile_def find_plain [OF names(4-6)] find_from_nowhere [OF names(5)] option.case)
  ultimately have run: "kernelMain b d argv behind w m =
      obind (elf_load d ini m) (\<lambda>(e, m1). case init_stack argv behind m1 of (userEsp, m2) \<Rightarrow> Some (Inr (e, userEsp, m2)))"
    by (simp add: kernelMain_def fs)
  show ?thesis
  proof (cases ini)
    case None
    then show ?thesis by (simp add: run elf_load_def)
  next
    case (Some nd)
    then have "executable d nd" using prog by simp
    then obtain m1 where m1: "elf_load d (Some nd) m = Some (Inr (eh_entry (node_bytes d nd), m1))"
      "\<And>a bs k. (a, bs) \<in> set (node_segments d nd) \<Longrightarrow> k < length bs \<Longrightarrow> m1 (a + of_nat k) = bs ! k"
      "\<And>x. (\<forall>s\<in>set (node_segments d nd). x \<notin> seg_range s) \<Longrightarrow> m1 x = m x"
      by (rule load_executable [of d nd m]) blast
    obtain sp m2 where st: "init_stack argv behind m1 = (sp, m2)" by fastforce
    note spec = init_stack_spec [OF st]
    show ?thesis unfolding Some option.case
      by (rule exI [of _ m2]) (use m1 spec in \<open>auto simp: run Some st\<close>)
  qed
qed

section \<open>A disk to start from\<close>

text \<open>As the sample disk of \<open>Ext2_Correct\<close>, with the directory \<open>sbin\<close> (i-node 3, data in block 11) and in it
  \<open>init\<close> (i-node 4, data in block 12), the sample program.\<close>

definition boot_disk :: "nat \<Rightarrow> u8" where
  "boot_disk = (\<lambda>i. if 12288 \<le> i \<and> i < 12376 then prog_bytes ! (i - 12288) else ((\<lambda>_. 0)
     (1024 := 16, 1028 := 64, 1057 := 0x20, 1064 := 16, 1112 := 128, 2056 := 5,
      5249 := 0x40, 5252 := 12, 5276 := 2, 5288 := 10,
      5377 := 0x40, 5380 := 12, 5404 := 2, 5416 := 11,
      5505 := 0x80, 5508 := 88, 5532 := 2, 5544 := 12,
      10240 := 3, 10244 := 12, 10246 := 4, 10247 := 2, 10248 := 115, 10249 := 98, 10250 := 105, 10251 := 110,
      11264 := 4, 11268 := 12, 11270 := 4, 11271 := 1, 11272 := 105, 11273 := 110, 11274 := 105, 11275 := 116)) i)"

definition boot_node :: "nat \<Rightarrow> node" where
  "boot_node n = \<lparr>number = of_nat n, nblock_size = 1024, ndata = map boot_disk [4992 + 128 * n..<4992 + 128 * n + 128]\<rparr>"

lemma boot_field: "k < 128 \<Longrightarrow> map boot_disk [a..<a + 128] ! k = boot_disk (a + k)"
  by simp

lemma boot_facts:
  "is_dir (ndata (boot_node 2))" "unat (node_size (boot_node 2)) = 12" "nd_n_sectors (ndata (boot_node 2)) = 2"
  "nd_direct (ndata (boot_node 2)) 0 = 10" "nblock_size (boot_node n) = 1024"
  "is_dir (ndata (boot_node 3))" "unat (node_size (boot_node 3)) = 12" "nd_n_sectors (ndata (boot_node 3)) = 2"
  "nd_direct (ndata (boot_node 3)) 0 = 11"
  "unat (node_size (boot_node 4)) = 88" "nd_n_sectors (ndata (boot_node 4)) = 2"
  "nd_direct (ndata (boot_node 4)) 0 = 12"
  unfolding boot_node_def node.simps node_fields
  by (simp_all add: boot_field del: upt_rec_numeral) (simp_all add: boot_disk_def)

lemma boot_node_ok: "node_ok boot_disk (boot_node 2)" "node_ok boot_disk (boot_node 3)" "node_ok boot_disk (boot_node 4)"
  by (auto simp: node_ok_def node_block_ok_def node_blk_def boot_facts Let_def)

lemma boot_dirs:
  "node_bytes boot_disk (boot_node 2) = concat (map dir_enc [(3, 2, sbin_name, [])])"
  "node_bytes boot_disk (boot_node 3) = concat (map dir_enc [(4, 1, init_name, [])])"
proof -
  have u: "[0..<12] = [0, 1, 2, 3, 4, 5, 6, 7, 8, 9, 10, 11 :: nat]" by (simp add: upt_conv_Cons)
  have c: "i < 1024 \<Longrightarrow> node_content boot_disk (boot_node 2) i = boot_disk (10240 + i)"
    "i < 1024 \<Longrightarrow> node_content boot_disk (boot_node 3) i = boot_disk (11264 + i)" for i
    by (simp_all add: node_content_def node_blk_def boot_facts)
  show "node_bytes boot_disk (boot_node 2) = concat (map dir_enc [(3, 2, sbin_name, [])])"
    "node_bytes boot_disk (boot_node 3) = concat (map dir_enc [(4, 1, init_name, [])])"
    unfolding node_bytes_def boot_facts u
    by (simp_all add: c sbin_name_def init_name_def dir_enc_def put32_def put16_def) (simp_all add: boot_disk_def)
qed

lemma boot_program: "node_bytes boot_disk (boot_node 4) = prog_bytes"
  by (rule nth_equalityI)
     (auto simp: node_bytes_def node_content_def node_blk_def boot_facts length_prog boot_disk_def)

lemma boot_find:
  "node_find boot_disk (boot_node 2) sbin_name = Some (Inr 3)"
  "node_find boot_disk (boot_node 3) init_name = Some (Inr 4)"
proof -
  have wf: "\<forall>x\<in>set [(3 :: u32, 2 :: u8, sbin_name, [] :: u8 list)]. dir_wf x"
    "\<forall>x\<in>set [(4 :: u32, 1 :: u8, init_name, [] :: u8 list)]. dir_wf x"
    by (simp_all add: dir_wf_def sbin_name_def init_name_def)
  show "node_find boot_disk (boot_node 2) sbin_name = Some (Inr 3)"
    unfolding node_find_bytes [OF boot_facts(1) boot_node_ok(1) boot_dirs(1) wf(1)]
    by (simp add: dir_item_def)
  show "node_find boot_disk (boot_node 3) init_name = Some (Inr 4)"
    unfolding node_find_bytes [OF boot_facts(6) boot_node_ok(2) boot_dirs(2) wf(2)]
    by (simp add: dir_item_def)
qed

lemma boot_get:
  "get_node boot_disk demo_fs 2 = Some (Inr (boot_node 2))" "get_node boot_disk demo_fs 3 = Some (Inr (boot_node 3))"
  "get_node boot_disk demo_fs 4 = Some (Inr (boot_node 4))"
  unfolding get_node_spec [OF demo_fs_ok]
  by (simp_all add: demo_fs_def boot_node_def node_position_def Let_def del: upt_rec_numeral)

lemma boot_mount: "ext2_mount boot_disk = Some (Inr (demo_fs, boot_node 2))"
proof -
  have f: "sb_log_block_size (map boot_disk [1024..<1024 + 140]) = 0"
    "sb_blocks_per_group (map boot_disk [1024..<1024 + 140]) = 8192"
    "sb_blocks_count (map boot_disk [1024..<1024 + 140]) = 64"
    "sb_inodes_count (map boot_disk [1024..<1024 + 140]) = 16"
    "sb_inodes_per_group (map boot_disk [1024..<1024 + 140]) = 16"
    "sb_inode_size (map boot_disk [1024..<1024 + 140]) = 128"
    "bg_inode_table (map boot_disk [2048..<2048 + 32]) 0 = 5"
    unfolding sb_log_block_size_def sb_blocks_per_group_def sb_blocks_count_def sb_inodes_count_def
      sb_inodes_per_group_def sb_inode_size_def bg_inode_table_def bytes32_def bytes16_def u32_le_def u16_le_def
    by (simp_all add: boot_disk_def del: upt_rec_numeral)
  show ?thesis
    using mount_reads_geometry [of boot_disk] f
    by (simp add: demo_fs_def [symmetric] boot_get Let_def del: upt_rec_numeral)
qed

lemma boot_segments:
  "executable boot_disk (boot_node 4)" "node_segments boot_disk (boot_node 4) = [(0x80000000, [0x90, 0xCD, 0x30])]"
proof -
  have "\<forall>p\<in>set (file_headers prog_bytes). ph_type p = 1 \<longrightarrow> unat (ph_offset p) \<le> length prog_bytes"
    unfolding prog_fields(5) by (simp add: prog_fields(7) length_prog)
  then show "executable boot_disk (boot_node 4)"
    unfolding executable_def boot_program Let_def prog_fields(8)
    by (simp add: boot_node_ok prog_fields(1,3,4) length_prog)
  show "node_segments boot_disk (boot_node 4) = [(0x80000000, [0x90, 0xCD, 0x30])]"
    unfolding node_segments_def boot_program by (rule prog_fields(8))
qed

lemma kernelMain_enters_init_witness:
  "\<exists>m'. kernelMain demo_ports boot_disk 0x123450 7 0 (\<lambda>_. 0) = Some (Inr (0x80000001, 0xefffdfe8, m')) \<and>
     mem32 m' 0xefffdfec = 0x123450 \<and> m' 0x80000002 = 0x30"
proof -
  have len: "length (present_fns one_device all_functions) \<le> 32" by (simp add: one_device_present)
  have w: "walk boot_disk demo_fs (boot_node 2) [sbin_name] = Some (Inr (Some (boot_node 3)))"
    "case Some (boot_node 3) of None \<Rightarrow> Some (boot_node 4) = None
      | Some s \<Rightarrow> walk boot_disk demo_fs s [init_name] = Some (Inr (Some (boot_node 4)))"
    by (simp_all add: boot_find boot_get sbin_name_def [THEN arg_cong [of _ _ length]]
      init_name_def [THEN arg_cong [of _ _ length]])
  have x: "\<forall>nd. Some (boot_node 4) = Some nd \<longrightarrow> executable boot_disk nd" using boot_segments(1) by simp
  from kernelMain_enters_init [where w = 0 and argv = "0x123450" and behind = 7 and m = "\<lambda>_. 0",
      OF demo_bridge _ len boot_mount w x]
  obtain m' where m': "kernelMain demo_ports boot_disk 0x123450 7 0 (\<lambda>_. 0) = Some (Inr (0x80000001, 0xefffdfe8, m'))"
    "mem32 m' 0xefffdfec = 0x123450"
    "\<forall>(a, bs)\<in>{(0x80000000, [0x90, 0xCD, 0x30])}. \<forall>k < length bs.
       a + of_nat k \<notin> stack_words \<longrightarrow> m' (a + of_nat k) = bs ! k"
    unfolding boot_segments(2) boot_program prog_fields(2) option.case by auto
  have "0x80000000 + of_nat 2 \<notin> stack_words" by (simp add: stack_words_def)
  then have "m' (0x80000000 + of_nat 2) = [0x90, 0xCD, 0x30] ! 2"
    using m'(3) unfolding ball_simps prod.case by (elim conjE allE [of _ 2]) simp
  then show ?thesis using m'(1,2) by auto
qed

end
