(* ===== verification/User_Files.thy ===== *)
theory User_Files
  imports Sys_Correct
begin

text \<open>
  The file functions of the user library, \<open>puts\<close> and \<open>cp\<close> of \<open>test.dir/sbin/libc.c\<close>, as a process runs them
  on the kernel.  A system call pushes the return address \<open>here\<close> and the arguments on the stack of the process
  (\<open>esp\<close> is the stack pointer at the trap) and gets the value the handler returns; a call that does not return
  is \<open>None\<close>.  The handler is an argument \<open>sys\<close> of the number of the call, the stack pointer, the process and
  the kernel; \<open>kernel_calls\<close> is the kernel's.  The address of a local variable is an argument, and so is the
  \<open>printf\<close> of an error message (line and handle).
\<close>

section \<open>System calls of a process\<close>

type_synonym mach = "proc \<times> kstate"

definition trap ::
    "(u32 \<Rightarrow> u32 \<Rightarrow> proc \<Rightarrow> kstate \<Rightarrow> outcome) \<Rightarrow> u32 \<Rightarrow> u32 \<Rightarrow> u32 \<Rightarrow> u32 list \<Rightarrow> mach \<Rightarrow> (int \<times> mach) res option" where
  "trap sys here esp eax args s =
     obind (sys eax esp ((fst s)\<lparr>p_mem := write_bytes (p_mem (fst s)) esp (put_words (here # args))\<rparr>) (snd s))
       (\<lambda>(r, p, k). case r of Ret v \<Rightarrow> Some (Inr (sint v, (p, k))) | _ \<Rightarrow> None)"

definition u_write where
  "u_write sys here esp fd buf n = trap sys here esp 1 [of_int fd, buf, of_int n]"

definition u_read where
  "u_read sys here esp fd buf n = trap sys here esp 12 [of_int fd, buf, of_int n]"

definition kernel_calls ::
    "config \<Rightarrow> (nat \<Rightarrow> u8) \<Rightarrow> ext2 \<Rightarrow> node \<Rightarrow> u32 \<Rightarrow> (proc \<Rightarrow> kstate \<Rightarrow> (proc \<times> kstate) res option) \<Rightarrow> u32 \<Rightarrow>
     u32 \<Rightarrow> u32 \<Rightarrow> proc \<Rightarrow> kstate \<Rightarrow> outcome" where
  "kernel_calls c d e root junk init_dev eip eax esp p k = sysHandler c d e root junk init_dev eax eip esp p k"

section \<open>puts\<close>

text \<open>\<open>t\<close> is the address of the local variable of \<open>putchar\<close>.\<close>

definition putchar_at ::
    "(u32 \<Rightarrow> u32 \<Rightarrow> proc \<Rightarrow> kstate \<Rightarrow> outcome) \<Rightarrow> u32 \<Rightarrow> u32 \<Rightarrow> u32 \<Rightarrow> int \<Rightarrow> mach \<Rightarrow> (int \<times> mach) res option" where
  "putchar_at sys here esp t c s =
     u_write sys here esp 1 t 1 ((fst s)\<lparr>p_mem := (p_mem (fst s))(t := of_int c)\<rparr>, snd s)"

partial_function (option) puts_loop ::
    "(u32 \<Rightarrow> u32 \<Rightarrow> proc \<Rightarrow> kstate \<Rightarrow> outcome) \<Rightarrow> u32 \<Rightarrow> u32 \<Rightarrow> u32 \<Rightarrow> u32 \<Rightarrow> int \<Rightarrow> mach \<Rightarrow> (int \<times> mach) res option" where
  "puts_loop sys here esp t p count s =
     (let c = p_mem (fst s) p in
      if c \<noteq> 0 then
        (case putchar_at sys here esp t (sint c) s of
           None \<Rightarrow> None
         | Some (Inl e) \<Rightarrow> Some (Inl e)
         | Some (Inr (n, s1)) \<Rightarrow>
             if n < 0 then Some (Inr (n, s1)) else puts_loop sys here esp t (p + 1) (s32 (count + 1)) s1)
      else obind (putchar_at sys here esp t 10 s) (\<lambda>(_, s1). Some (Inr (s32 (count + 1), s1))))"

definition puts where
  "puts sys here esp t p = puts_loop sys here esp t p 0"

section \<open>cp\<close>

text \<open>The loop that writes what has been read; an error leaves it, and only it.\<close>

partial_function (option) cp_write ::
    "(u32 \<Rightarrow> u32 \<Rightarrow> proc \<Rightarrow> kstate \<Rightarrow> outcome) \<Rightarrow> (int \<Rightarrow> int \<Rightarrow> mach \<Rightarrow> mach res option) \<Rightarrow> u32 \<Rightarrow> u32 \<Rightarrow> int \<Rightarrow>
     u32 \<Rightarrow> int \<Rightarrow> mach \<Rightarrow> mach res option" where
  "cp_write sys complain here esp to ptr n s =
     (if n > 0 then
        (case u_write sys here esp to ptr n s of
           None \<Rightarrow> None
         | Some (Inl e) \<Rightarrow> Some (Inl e)
         | Some (Inr (m, s1)) \<Rightarrow>
             if m < 0 then complain 34 to s1
             else cp_write sys complain here esp to (ptr + of_int m) (s32 (n - m)) s1)
      else Some (Inr s))"

partial_function (option) cp ::
    "(u32 \<Rightarrow> u32 \<Rightarrow> proc \<Rightarrow> kstate \<Rightarrow> outcome) \<Rightarrow> (int \<Rightarrow> int \<Rightarrow> mach \<Rightarrow> mach res option) \<Rightarrow> u32 \<Rightarrow> u32 \<Rightarrow> u32 \<Rightarrow>
     int \<Rightarrow> int \<Rightarrow> mach \<Rightarrow> mach res option" where
  "cp sys complain here esp buf from to s =
     (case u_read sys here esp from buf 100 s of
        None \<Rightarrow> None
      | Some (Inl e) \<Rightarrow> Some (Inl e)
      | Some (Inr (n, s1)) \<Rightarrow>
          if n = 0 then Some (Inr s1)
          else if n < 0 then complain 27 from s1
          else (case cp_write sys complain here esp to buf n s1 of
              None \<Rightarrow> None
            | Some (Inl e) \<Rightarrow> Some (Inl e)
            | Some (Inr s2) \<Rightarrow> cp sys complain here esp buf from to s2))"

declare puts_loop.simps [code] cp_write.simps [code] cp.simps [code]

section \<open>The calls on the kernel\<close>

lemma pushed_arg:
  assumes "i < length ws" "length ws < 100"
  shows "user_arg (p\<lparr>p_mem := write_bytes m esp (put_words (here # ws))\<rparr>) esp (of_nat (Suc i)) = ws ! i"
proof -
  have "esp + 4 * of_nat (Suc i) = esp + of_nat (4 * Suc i)" by simp
  then show ?thesis
    unfolding user_arg_def using mem32_put_words [of "Suc i" "here # ws" m esp] assms by simp
qed

lemma pushed_args:
  "user_arg (p\<lparr>p_mem := write_bytes m esp (put_words [here, x, y, z])\<rparr>) esp 1 = x"
  "user_arg (p\<lparr>p_mem := write_bytes m esp (put_words [here, x, y, z])\<rparr>) esp 2 = y"
  "user_arg (p\<lparr>p_mem := write_bytes m esp (put_words [here, x, y, z])\<rparr>) esp 3 = z"
  using pushed_arg [where i = 0 and ws = "[x, y, z]"] pushed_arg [where i = 1 and ws = "[x, y, z]"]
    pushed_arg [where i = 2 and ws = "[x, y, z]"]
  by (simp_all add: numeral_2_eq_2 numeral_3_eq_3)

lemma small_handle:
  assumes "0 \<le> fd" "fd \<le> 9"
  shows "(of_int fd :: u32) \<le> 9" "unat (of_int fd :: u32) = nat fd" "(of_int fd :: u32) < 3 \<longleftrightarrow> fd < 3"
proof -
  obtain n where n: "fd = int n" using assms(1) nonneg_int_cases by blast
  show u: "unat (of_int fd :: u32) = nat fd"
    using assms(2) unat_of_nat_u32 [of n] by (simp add: n)
  show "(of_int fd :: u32) \<le> 9" "(of_int fd :: u32) < 3 \<longleftrightarrow> fd < 3"
    unfolding word_le_nat_alt word_less_nat_alt u using assms by auto
qed

lemma sint_of_nat_small:
  assumes "n < 2 ^ 31"
  shows "sint (of_nat n :: u32) = int n"
proof -
  have "uint (of_nat n :: u32) = int n" using unat_of_nat_u32 [of n] assms by (simp add: uint_unat)
  then show ?thesis using assms by (simp add: sint_uint signed_take_bit_int_eq_self)
qed

text \<open>A buffer of \<open>n\<close> bytes in private space, away from the interrupt controllers and from the pushed words.\<close>

definition room :: "config \<Rightarrow> u32 \<Rightarrow> u32 \<Rightarrow> nat \<Rightarrow> bool" where
  "room c esp buf n \<longleftrightarrow> (\<forall>j < n. 16 \<le> unat (buf + of_nat j - esp)) \<and>
     (\<forall>j \<le> n. 0x80000000 \<le> buf + of_nat j \<and> \<not> in_page (buf + of_nat j) (localAPIC c) \<and>
        \<not> in_page (buf + of_nat j) (ioAPIC c))"

lemma roomD:
  assumes "room c esp buf n"
  shows "\<not> bad_buffer c buf" "m \<le> n \<Longrightarrow> \<not> in_page (buf + of_nat m) (ioAPIC c)"
    "m \<le> n \<Longrightarrow> \<not> in_page (buf + of_nat m) (localAPIC c)"
    "j < n \<Longrightarrow> write_bytes m' esp (put_words [here, x, y, z]) (buf + of_nat j) = m' (buf + of_nat j)"
proof -
  have "0x80000000 \<le> buf + of_nat 0 \<and> \<not> in_page (buf + of_nat 0) (localAPIC c) \<and> \<not> in_page (buf + of_nat 0) (ioAPIC c)"
    using assms unfolding room_def by blast
  then show "\<not> bad_buffer c buf" by (simp add: bad_buffer_def not_less)
  show "m \<le> n \<Longrightarrow> \<not> in_page (buf + of_nat m) (ioAPIC c)" "m \<le> n \<Longrightarrow> \<not> in_page (buf + of_nat m) (localAPIC c)"
    using assms unfolding room_def by blast+
  show "j < n \<Longrightarrow> write_bytes m' esp (put_words [here, x, y, z]) (buf + of_nat j) = m' (buf + of_nat j)"
    by (rule write_bytes_other) (use assms in \<open>simp add: room_def\<close>)
qed

text \<open>The process and its kernel after a call that pushed three arguments.\<close>

definition pushed :: "u32 \<Rightarrow> u32 \<Rightarrow> u32 list \<Rightarrow> proc \<Rightarrow> proc" where
  "pushed here esp ws p = p\<lparr>p_mem := write_bytes (p_mem p) esp (put_words (here # ws))\<rparr>"

lemma pushed_simps [simp]:
  "p_fd (pushed here esp ws p) = p_fd p" "p_mem (pushed here esp ws p) = write_bytes (p_mem p) esp (put_words (here # ws))"
  by (simp_all add: pushed_def)

lemma pushed_user_args:
  "user_arg (pushed here esp [x, y, z] p) esp 1 = x" "user_arg (pushed here esp [x, y, z] p) esp 2 = y"
  "user_arg (pushed here esp [x, y, z] p) esp 3 = z"
  by (simp_all add: pushed_def pushed_args)

lemma u_write_kernel:
  assumes "length (p_fd p) = 10" and fd: "0 \<le> fd" "fd \<le> 9" and f: "p_fd p ! nat fd \<noteq> 0"
    and r: "fd < 3 \<longrightarrow> fd_reserved (k_desc k (p_fd p ! nat fd))" and buf: "room c esp buf N" "n \<le> N" and n: "n < 2 ^ 31"
  shows "u_write (kernel_calls c d e root junk init_dev eip) here esp fd buf (int n) (p, k) =
    Some (Inr (int n, pushed here esp [of_int fd, buf, of_nat n] p,
      k\<lparr>k_console := k_console k @ map (\<lambda>j. p_mem p (buf + of_nat j)) [0..<n]\<rparr>))"
proof -
  let ?p = "pushed here esp [of_int fd, buf, of_nat n] p"
  have u: "unat (of_nat n :: u32) = n" using n by (intro unat_of_nat_u32) simp
  have fd10: "nat fd < 10" using fd by linarith
  have "sys_write c esp ?p k = ret (of_nat n) ?p
      (k\<lparr>k_console := k_console k @ map (\<lambda>i. p_mem ?p (buf + of_nat i)) [0..<n]\<rparr>)"
    using assms(1) f r roomD(1) [OF buf(1)] fd10
    unfolding sys_write_def pushed_user_args Let_def small_handle [OF fd] u
    by (auto simp: slot_at_def)
  moreover have "map (\<lambda>i. p_mem ?p (buf + of_nat i)) [0..<n] = map (\<lambda>i. p_mem p (buf + of_nat i)) [0..<n]"
    by (rule map_cong [OF refl]) (use roomD(4) [OF buf(1)] buf(2) in simp)
  ultimately show ?thesis
    by (simp add: u_write_def trap_def kernel_calls_def sysHandler_def pushed_def [symmetric] ret_def sint_of_nat_small [OF n]
        del: signed_of_nat)
qed

lemma u_read_kernel:
  assumes len: "length (p_fd p) = 10" and fd: "0 \<le> fd" "fd \<le> 9"
    and f: "f = p_fd p ! nat fd" "f \<noteq> 0" "\<not> fd_reserved (k_desc k f)"
    and nd: "fd_file (k_desc k f) = Some nd" "node_ok d nd"
    and off: "off = unat (fd_offset (k_desc k f))" "off \<le> unat (node_size nd)"
    and buf: "room c esp buf n" and n: "n < 2 ^ 31" "off + n < 2 ^ 32" and m: "m = min n (unat (node_size nd) - off)"
    and q: "q = pushed here esp [of_int fd, buf, of_nat n] p"
  shows "u_read (kernel_calls c d e root junk init_dev eip) here esp fd buf (int n) (p, k) =
    Some (Inr (int m, q\<lparr>p_mem := write_bytes (p_mem q) buf (take m (drop off (node_bytes d nd)))\<rparr>,
      k\<lparr>k_desc := (k_desc k)(f := (k_desc k f)\<lparr>fd_offset := fd_offset (k_desc k f) + of_nat m\<rparr>)\<rparr>))"
proof -
  have u: "unat (of_nat n :: u32) = n" using n by (intro unat_of_nat_u32) simp
  have args: "user_arg q esp 1 = of_int fd" "user_arg q esp 2 = buf" "user_arg q esp 3 = of_nat n"
    by (simp_all add: q pushed_user_args)
  have pf: "p_fd q = p_fd p" by (simp add: q)
  have "sys_read c d esp q k = Some (Inr (Ret (of_nat m),
      q\<lparr>p_mem := write_bytes (p_mem q) buf (take m (drop off (node_bytes d nd)))\<rparr>,
      k\<lparr>k_desc := (k_desc k)(f := (k_desc k f)\<lparr>fd_offset := fd_offset (k_desc k f) + of_nat m\<rparr>)\<rparr>))"
  proof (rule sys_read_exact)
    show "length (p_fd q) = 10" "user_arg q esp 1 \<le> 9" "f = p_fd q ! unat (user_arg q esp 1)"
      using len f(1) by (simp_all add: args small_handle [OF fd] pf)
    show "buf = user_arg q esp 2" "\<not> bad_buffer c buf" using roomD(1) [OF buf] by (simp_all add: args)
    show "off + unat (user_arg q esp 3) < 2 ^ 32" "m = min (unat (user_arg q esp 3)) (unat (node_size nd) - off)"
      unfolding args u using n(2) m by simp_all
    show "\<not> in_page (buf + of_nat m) (ioAPIC c)" "\<not> in_page (buf + of_nat m) (localAPIC c)"
      using roomD(2,3) [OF buf] m by simp_all
  qed (fact f nd off)+
  moreover have "m < 2 ^ 31" using n m by simp
  ultimately show ?thesis
    using sint_of_nat_small [of m]
    by (simp add: u_read_def trap_def kernel_calls_def sysHandler_def pushed_def [symmetric] q [symmetric] del: signed_of_nat)
qed

lemma bytes_written:
  "length bs \<le> 4294967296 \<Longrightarrow> map (\<lambda>j. write_bytes m buf bs (buf + of_nat j)) [0..<length bs] = bs"
  by (rule nth_equalityI) (simp_all add: write_bytes_at)

section \<open>Printing a line\<close>

lemma putchar_kernel:
  assumes "length (p_fd p) = 10" "p_fd p ! 1 \<noteq> 0" "fd_reserved (k_desc k (p_fd p ! 1))" "room c esp t 1"
  shows "putchar_at (kernel_calls c d e root junk init_dev eip) here esp t ch (p, k) =
    Some (Inr (1, pushed here esp [1, t, 1] (p\<lparr>p_mem := (p_mem p)(t := of_int ch)\<rparr>),
      k\<lparr>k_console := k_console k @ [of_int ch]\<rparr>))"
  using u_write_kernel [where p = "p\<lparr>p_mem := (p_mem p)(t := of_int ch)\<rparr>" and fd = 1 and k = k and n = 1 and N = 1
      and c = c and esp = esp and buf = t and d = d and e = e and root = root and junk = junk and init_dev = init_dev
      and eip = eip and here = here] assms
  by (simp add: putchar_at_def)

text \<open>The bytes of a string, terminated, where the calls of \<open>putchar\<close> do not write.\<close>

definition string_at :: "u32 \<Rightarrow> u32 \<Rightarrow> u32 \<Rightarrow> u8 list \<Rightarrow> byte_mem \<Rightarrow> bool" where
  "string_at esp t a cs m \<longleftrightarrow> 0 \<notin> set cs \<and>
     (\<forall>j \<le> length cs. m (a + of_nat j) = (cs @ [0]) ! j \<and> 16 \<le> unat (a + of_nat j - esp) \<and> a + of_nat j \<noteq> t)"

lemma string_at_head: "string_at esp t a cs m \<Longrightarrow> m a = (cs @ [0]) ! 0"
  unfolding string_at_def by (elim conjE allE [of _ 0]) simp

lemma string_at_next:
  assumes "string_at esp t a (x # cs) m"
  shows "string_at esp t (a + 1) cs (write_bytes (m(t := y)) esp (put_words [w0, w1, w2, w3]))"
  unfolding string_at_def
proof (intro conjI allI impI)
  show "0 \<notin> set cs" using assms by (simp add: string_at_def)
  fix j assume "j \<le> length cs"
  then have "Suc j \<le> length (x # cs)" by simp
  moreover have e: "a + of_nat (Suc j) = a + 1 + of_nat j" by simp
  ultimately have *: "m (a + 1 + of_nat j) = (cs @ [0]) ! j" "16 \<le> unat (a + 1 + of_nat j - esp)" "a + 1 + of_nat j \<noteq> t"
    using assms unfolding string_at_def by (metis append_Cons nth_Cons_Suc)+
  then show "write_bytes (m(t := y)) esp (put_words [w0, w1, w2, w3]) (a + 1 + of_nat j) = (cs @ [0]) ! j"
    by (simp add: write_bytes_other)
  show "16 \<le> unat (a + 1 + of_nat j - esp)" "a + 1 + of_nat j \<noteq> t" by (fact *)+
qed

lemma puts_loop_prints:
  assumes "length (p_fd p) = 10" "p_fd p ! 1 \<noteq> 0" "fd_reserved (k_desc k (p_fd p ! 1))" and t: "room c esp t 1"
    and "string_at esp t a cs (p_mem p)" "0 \<le> n" "n + int (length cs) + 1 < 2 ^ 31"
  shows "\<exists>p'. puts_loop (kernel_calls c d e root junk init_dev eip) here esp t a n (p, k) =
    Some (Inr (n + int (length cs) + 1, p', k\<lparr>k_console := k_console k @ cs @ [10]\<rparr>))"
  using assms(1-3,5-)
proof (induction cs arbitrary: a n p k)
  case Nil
  have "p_mem p a = 0" using string_at_head [OF Nil.prems(4)] by simp
  then show ?case
    using putchar_kernel [OF Nil.prems(1-3) t] Nil.prems(5,6)
    by (subst puts_loop.simps) (simp add: s32_id Let_def)
next
  case (Cons x cs)
  let ?p = "pushed here esp [1, t, 1] (p\<lparr>p_mem := (p_mem p)(t := x)\<rparr>)"
  have x: "p_mem p a = x" using string_at_head [OF Cons.prems(4)] by simp
  have "x \<noteq> 0" using Cons.prems(4) by (auto simp: string_at_def)
  then have run: "puts_loop (kernel_calls c d e root junk init_dev eip) here esp t a n (p, k) =
      puts_loop (kernel_calls c d e root junk init_dev eip) here esp t (a + 1) (n + 1) (?p, k\<lparr>k_console := k_console k @ [x]\<rparr>)"
    using putchar_kernel [OF Cons.prems(1-3) t, of d e root junk init_dev eip here "sint x"] Cons.prems(5,6) x
    by (subst puts_loop.simps) (simp add: s32_id Let_def)
  have "\<exists>p'. puts_loop (kernel_calls c d e root junk init_dev eip) here esp t (a + 1) (n + 1)
      (?p, k\<lparr>k_console := k_console k @ [x]\<rparr>) =
    Some (Inr (n + 1 + int (length cs) + 1, p',
      (k\<lparr>k_console := k_console k @ [x]\<rparr>)\<lparr>k_console := k_console (k\<lparr>k_console := k_console k @ [x]\<rparr>) @ cs @ [10]\<rparr>))"
    by (rule Cons.IH) (use Cons.prems string_at_next [OF Cons.prems(4)] in simp_all)
  then show ?case unfolding run by (simp add: algebra_simps)
qed

lemma puts_prints:
  assumes "length (p_fd p) = 10" "p_fd p ! 1 \<noteq> 0" "fd_reserved (k_desc k (p_fd p ! 1))" "room c esp t 1"
    and "string_at esp t a cs (p_mem p)" "int (length cs) + 1 < 2 ^ 31"
  shows "\<exists>p'. puts (kernel_calls c d e root junk init_dev eip) here esp t a (p, k) =
    Some (Inr (int (length cs) + 1, p', k\<lparr>k_console := k_console k @ cs @ [10]\<rparr>))"
  using puts_loop_prints [OF assms(1-5), of 0] assms(6) by (simp add: puts_def)

section \<open>Copying a file\<close>

lemma cp_write_whole:
  assumes "u_write sys here esp to ptr n s = Some (Inr (n, s1))" "0 < n"
  shows "cp_write sys complain here esp to ptr n s = Some (Inr s1)"
  using assms by (simp add: cp_write.simps [of _ _ _ _ _ _ n] s32_def) (simp add: cp_write.simps)

lemma cp_rest:
  assumes from1: "0 \<le> from1" "from1 \<le> 9" and to: "0 \<le> to" "to \<le> 9"
    and nd: "node_ok d nd" "unat (node_size nd) + 100 < 2 ^ 32" and room: "room c esp buf 100"
    and len: "length (p_fd p) = 10" and f: "f = p_fd p ! nat from1" "f \<noteq> 0" "\<not> fd_reserved (k_desc k f)"
    and fl: "fd_file (k_desc k f) = Some nd"
    and off: "off = unat (fd_offset (k_desc k f))" "off \<le> unat (node_size nd)"
    and t: "p_fd p ! nat to \<noteq> 0" "to < 3 \<longrightarrow> fd_reserved (k_desc k (p_fd p ! nat to))"
  shows "\<exists>p'. cp (kernel_calls c d e root junk init_dev eip) complain here esp buf from1 to (p, k) =
      Some (Inr (p', k\<lparr>k_desc := (k_desc k)(f := (k_desc k f)\<lparr>fd_offset := node_size nd\<rparr>),
        k_console := k_console k @ drop off (node_bytes d nd)\<rparr>)) \<and>
    p_fd p' = p_fd p \<and> (\<forall>x. 16 \<le> unat (x - esp) \<longrightarrow> 100 \<le> unat (x - buf) \<longrightarrow> p_mem p' x = p_mem p x)"
  using len f fl off t
proof (induction "unat (node_size nd) - off" arbitrary: p k off rule: less_induct)
  case less
  let ?K = "kernel_calls c d e root junk init_dev eip"
  define m where "m = min 100 (unat (node_size nd) - off)"
  define bs where "bs = take m (drop off (node_bytes d nd))"
  define q where "q = pushed here esp [of_int from1, buf, of_nat 100] p"
  define p1 where "p1 = q\<lparr>p_mem := write_bytes (p_mem q) buf bs\<rparr>"
  define k1 where "k1 = k\<lparr>k_desc := (k_desc k)(f := (k_desc k f)\<lparr>fd_offset := fd_offset (k_desc k f) + of_nat m\<rparr>)\<rparr>"
  have lb: "length bs = m" by (simp add: bs_def m_def)
  have "off + 100 < 2 ^ 32" using less.prems(7) nd(2) by linarith
  with u_read_kernel [OF less.prems(1) from1 less.prems(2-5) nd(1) less.prems(6,7) room _ _ m_def q_def,
    where e = e and root = root and junk = junk and init_dev = init_dev and eip = eip]
  have rd: "u_read ?K here esp from1 buf 100 (p, k) = Some (Inr (int m, p1, k1))"
    by (simp add: p1_def k1_def bs_def)
  have p1: "p_fd p1 = p_fd p" by (simp add: p1_def q_def)
  have mem1: "p_mem p1 x = p_mem p x" if "16 \<le> unat (x - esp)" "100 \<le> unat (x - buf)" for x
  proof -
    have "m \<le> 100" by (simp add: m_def)
    then have "p_mem p1 x = p_mem q x" unfolding p1_def by (simp add: write_bytes_other lb that(2) order_trans)
    also have "\<dots> = p_mem p x" unfolding q_def by (simp add: write_bytes_other that(1))
    finally show ?thesis .
  qed
  show ?case
  proof (cases "m = 0")
    case True
    then have o: "off = unat (node_size nd)" using less.prems(7) by (simp add: m_def split: if_splits)
    then have "fd_offset (k_desc k f) = node_size nd" using less.prems(6) by (simp add: word_unat_eq_iff)
    then have "k1 = k\<lparr>k_desc := (k_desc k)(f := (k_desc k f)\<lparr>fd_offset := node_size nd\<rparr>),
        k_console := k_console k @ drop off (node_bytes d nd)\<rparr>"
      using True o by (simp add: k1_def)
    moreover have "cp ?K complain here esp buf from1 to (p, k) = Some (Inr (p1, k1))"
      using rd True by (subst cp.simps) simp
    ultimately show ?thesis using p1 mem1 by blast
  next
    case False
    define p2 where "p2 = pushed here esp [of_int to, buf, of_nat m] p1"
    define k2 where "k2 = k1\<lparr>k_console := k_console k1 @ bs\<rparr>"
    have bytes: "map (\<lambda>j. p_mem p1 (buf + of_nat j)) [0..<m] = bs"
      using bytes_written [of bs "p_mem q" buf] lb by (simp add: p1_def m_def)
    have d1: "k_desc k1 g = (if g = f then (k_desc k f)\<lparr>fd_offset := fd_offset (k_desc k f) + of_nat m\<rparr> else k_desc k g)" for g
      by (simp add: k1_def)
    have "u_write ?K here esp to buf (int m) (p1, k1) = Some (Inr (int m, p2, k2))"
      unfolding p2_def k2_def bytes [symmetric]
      by (rule u_write_kernel [OF _ to _ _ room]) (use less.prems p1 d1 in \<open>auto simp: m_def\<close>)
    then have run: "cp ?K complain here esp buf from1 to (p, k) = cp ?K complain here esp buf from1 to (p2, k2)"
      using rd False by (subst cp.simps) (simp add: cp_write_whole)
    have o2: "unat (fd_offset (k_desc k f) + of_nat m) = off + m"
    proof -
      have "unat (of_nat m :: u32) = m" by (rule unat_of_nat_u32) (simp add: m_def)
      then show ?thesis using less.prems(6,7) nd(2) by (subst unat_add_lem [THEN iffD1]) (simp_all add: m_def)
    qed
    have d2: "k_desc k2 = k_desc k1" and f2: "p_fd p2 = p_fd p" by (simp_all add: k2_def p2_def p1)
    have "\<exists>p'. cp ?K complain here esp buf from1 to (p2, k2) =
        Some (Inr (p', k2\<lparr>k_desc := (k_desc k2)(f := (k_desc k2 f)\<lparr>fd_offset := node_size nd\<rparr>),
          k_console := k_console k2 @ drop (off + m) (node_bytes d nd)\<rparr>)) \<and>
      p_fd p' = p_fd p2 \<and> (\<forall>x. 16 \<le> unat (x - esp) \<longrightarrow> 100 \<le> unat (x - buf) \<longrightarrow> p_mem p' x = p_mem p2 x)"
    proof (rule less.hyps)
      show "unat (node_size nd) - (off + m) < unat (node_size nd) - off" using False less.prems(7) by (simp add: m_def)
      show "off + m = unat (fd_offset (k_desc k2 f))" by (simp add: d2 d1 o2)
      show "off + m \<le> unat (node_size nd)" using less.prems(7) by (simp add: m_def)
    qed (use less.prems in \<open>auto simp: d2 d1 f2\<close>)
    moreover have "k2\<lparr>k_desc := (k_desc k2)(f := (k_desc k2 f)\<lparr>fd_offset := node_size nd\<rparr>),
          k_console := k_console k2 @ drop (off + m) (node_bytes d nd)\<rparr> =
        k\<lparr>k_desc := (k_desc k)(f := (k_desc k f)\<lparr>fd_offset := node_size nd\<rparr>),
          k_console := k_console k @ drop off (node_bytes d nd)\<rparr>"
    proof -
      have "bs @ drop (off + m) (node_bytes d nd) = drop off (node_bytes d nd)"
        unfolding bs_def by (metis add.commute append_take_drop_id drop_drop)
      then show ?thesis by (simp add: k2_def k1_def)
    qed
    moreover have "p_mem p2 x = p_mem p1 x" if "16 \<le> unat (x - esp)" for x
      unfolding p2_def by (simp add: write_bytes_other that)
    ultimately show ?thesis unfolding run f2 using mem1 by metis
  qed
qed

text \<open>
  C3.  \<open>cp\<close> copies the rest of a file to the console.  For an open file whose blocks are readable and whose size
  does not come within 100 bytes of 4 GB, a writable handle, and a local buffer in private space that
  overlaps neither the pushed arguments nor an interrupt controller, \<open>cp\<close> returns; the console has got exactly the
  bytes from the offset to the end of the file, in order; the offset is the end of the file; no other
  state of the kernel and no other byte of the process has changed.  A handle of a file does not make
  a difference: the kernel writes to the console whatever the handle.
\<close>

theorem cp_copies_file:
  assumes "0 \<le> from1" "from1 \<le> 9" and "0 \<le> to" "to \<le> 9"
    and "node_ok d nd" "unat (node_size nd) + 100 < 2 ^ 32" and "room c esp buf 100"
    and "length (p_fd p) = 10" and "f = p_fd p ! nat from1" "f \<noteq> 0" "\<not> fd_reserved (k_desc k f)"
    and "fd_file (k_desc k f) = Some nd"
    and "off = unat (fd_offset (k_desc k f))" "off \<le> unat (node_size nd)"
    and "p_fd p ! nat to \<noteq> 0" "to < 3 \<longrightarrow> fd_reserved (k_desc k (p_fd p ! nat to))"
  shows "\<exists>p'. cp (kernel_calls c d e root junk init_dev eip) complain here esp buf from1 to (p, k) =
      Some (Inr (p', k\<lparr>k_desc := (k_desc k)(f := (k_desc k f)\<lparr>fd_offset := node_size nd\<rparr>),
        k_console := k_console k @ drop off (node_bytes d nd)\<rparr>)) \<and>
    p_fd p' = p_fd p \<and> (\<forall>x. 16 \<le> unat (x - esp) \<longrightarrow> 100 \<le> unat (x - buf) \<longrightarrow> p_mem p' x = p_mem p x)"
  using assms by (rule cp_rest)

lemma demo_room: "room config_boot 0x90000000 0x90000020 100"
  unfolding room_def
proof (intro conjI allI impI)
  fix j :: nat
  assume "j < 100"
  then have "unat (of_nat (32 + j) :: u32) = 32 + j" by (intro unat_of_nat_u32) simp
  moreover have "0x90000020 + of_nat j - 0x90000000 = (of_nat (32 + j) :: u32)" by simp
  ultimately show "16 \<le> unat (0x90000020 + of_nat j - 0x90000000 :: u32)" by (simp only: le_add1 trans_le_add1)
next
  fix j :: nat
  assume "j \<le> 100"
  then have "unat (of_nat (0x90000020 + j) :: u32) = 0x90000020 + j" by (intro unat_of_nat_u32) simp
  moreover have "(0x90000020 :: u32) + of_nat j = of_nat (0x90000020 + j)" by simp
  ultimately have u: "unat (0x90000020 + of_nat j :: u32) = 0x90000020 + j" by (simp only:)
  show "0x80000000 \<le> 0x90000020 + (of_nat j :: u32)"
    "\<not> in_page (0x90000020 + of_nat j) (localAPIC config_boot)" "\<not> in_page (0x90000020 + of_nat j) (ioAPIC config_boot)"
    unfolding in_page_def word_le_nat_alt word_less_nat_alt u by (simp_all add: config_boot_def)
qed

lemma cp_copies_file_witness:
  "\<exists>p' k'. cp (kernel_calls config_boot demo_disk demo_fs demo_root 0 (\<lambda>_ _. None) 0) (\<lambda>_ _. Some \<circ> Inr)
     7 0x90000000 0x90000020 3 1 (demo_reader, demo_open) = Some (Inr (p', k')) \<and>
   k_console k' = [104, 101, 108, 108, 111] \<and> fd_offset (k_desc k' 5) = 5"
proof -
  have sz: "node_size demo_file = 5" using demo_file_facts(1) by (simp add: word_unat_eq_iff)
  have f: "(5 :: nat) = p_fd demo_reader ! nat 3" "(5 :: nat) \<noteq> 0" "\<not> fd_reserved (k_desc demo_open 5)"
    "fd_file (k_desc demo_open 5) = Some demo_file" "0 = unat (fd_offset (k_desc demo_open 5))"
    by (simp_all add: demo_reader_fd demo_open_desc filedesc_new_def)
  have t: "p_fd demo_reader ! nat 1 \<noteq> 0" "1 < (3 :: int) \<longrightarrow> fd_reserved (k_desc demo_open (p_fd demo_reader ! nat 1))"
    by (simp_all add: demo_reader_fd) (simp add: demo_open_def demo_k_def pcb_new_def new_desc_def new_future_def kstate_boot_def filedesc_new_def)
  have con: "k_console demo_open = []"
    by (simp add: demo_open_def demo_k_def pcb_new_def new_desc_def new_future_def kstate_boot_def)
  from cp_copies_file [OF _ _ _ _ demo_node_ok(2) _ demo_room _ f(1-5) _ t,
      where e = demo_fs and root = demo_root and junk = 0 and init_dev = "\<lambda>_ _. None" and eip = 0
        and complain = "\<lambda>_ _. Some \<circ> Inr" and here = 7]
  show ?thesis by (auto simp: sz demo_reader_fd con demo_file_bytes)
qed

end
