(* ===== verification/Spec2Isabelle.thy ===== *)
theory Spec2Isabelle
  imports Heap_Correct Vmm_Correct Ide Ext2_Correct Snprintf_Props User_Printf_Correct User_Heap_Correct Elf Bounded_Buffer
    Future Barrier Sys_Props Address_Space Shared_Ptr Condition Threads Play Handles Boot Pci Random_Numbers Machine Codec_Bus Main_Thread User_Files
begin

text \<open>
  A verification development for the teaching operating system under \<open>src\<close>: a 32 bit x86 kernel
  (\<open>src/kernel\<close>), its user library and programs (\<open>src/test.dir/sbin\<close>).  File names below are relative to
  \<open>src\<close>; without a directory they are in \<open>kernel\<close>.

  \<^bold>\<open>The system.\<close>  At boot \<open>kernelInit\<close> reads the configuration from the firmware, makes the kernel heap at
  1 MB and the pool of page frames from 6 MB on, and maps physical memory to itself.  Threads are switched
  by a scheduler of one ready queue; semaphores, futures, barriers, condition variables and bounded buffers
  are built on queues and on spinning locks.  The first thread mounts an ext2 file system on an IDE disk and
  enters the first program in user mode.  A program traps into \<open>sysHandler\<close>, whose cases work on the three
  tables of handles of its process (files, semaphores, children); its memory is a page directory whose
  private half (from 2 GB) is filled by page faults and copied by \<open>fork\<close>.  A driver for an Intel HDA sound
  controller is the system's own extension; the call \<open>play\<close> starts it.

  \<^bold>\<open>Conventions.\<close>  The definitions follow the source function by function under the source's names.  A word of
  the machine is a \<open>w word\<close>, so every wrap-around of the code is a wrap-around of the model; C's signed
  numbers are \<open>int\<close> where the code cannot overflow them or with the wrap written out (\<open>s32\<close>).  A fault is
  a value: \<open>Inl Panic\<close> (also a failed \<open>ASSERT\<close>), \<open>NullDeref\<close>, \<open>OutOfRange\<close>, \<open>DivByZero\<close>.  A loop that may
  not end is a partial function whose result \<open>None\<close> is a run that never returns; no definition has fuel,
  and a theorem that something returns says \<open>= Some ...\<close>.  Concurrency is a step function per thread and an
  inductive relation of the reachable states, over all interleavings of any number of threads or cores; an
  operation that the code runs under a lock with interrupts off is one step.  Compiler-generated lifetimes
  (\<open>Shared\<close> variables of a caller) are not repeated in the components; theory \<open>Shared_Ptr\<close> treats them on
  their own.

  \<^bold>\<open>Theories, their sources and what is proved.\<close>

  \<^item> \<open>Prelude\<close>, \<open>Bytes\<close>: words, results and faults (\<open>rbind\<close>, \<open>obind\<close>), little-endian numbers in byte memory;
    the collections \<open>res_simps\<close>, \<open>word_facts\<close>.
  \<^item> \<open>Allocator\<close>: the contract of a memory provider, locale \<open>allocator\<close>; its clients' histories.
  \<^item> \<open>Heap_Alloc\<close> (\<open>heap.cc\<close>), \<open>Heap_Inv\<close>, \<open>Heap_Ops\<close>, \<open>Heap_Props\<close>, \<open>Heap_Correct\<close>: the kernel heap with boundary tags
    and a free list, \<open>malloc\<close>, \<open>free\<close>, \<open>heapInit\<close>.  The invariant \<open>heap_inv\<close> (blocks tile the array, the free list
    is the list of the free blocks, neighbours are merged) is preserved; every access stays in the array; the
    heap implements the allocator contract (\<open>kheap\<close>), so in any history no live block is handed out twice.
  \<^item> \<open>User_Heap\<close>, \<open>User_Heap_Correct\<close> (\<open>test.dir/sbin/heap.c\<close>): the first-fit heap of programs as a second
    instance (\<open>uheap\<close>), with \<open>realloc\<close>, which loses the old block when there is no memory.
  \<^item> \<open>Queue_Model\<close> (\<open>queue.h\<close>): the intrusive queue refines a list (locale \<open>fifo_queue\<close>, \<open>iq\<close>).
  \<^item> \<open>Phys_Mem\<close> (\<open>physmem.cc\<close>, \<open>physmem.h\<close>): the frame pool, another allocator (\<open>kpool\<close>).
  \<^item> \<open>Kernel_Config\<close> (\<open>config.cc\<close>, \<open>config.h\<close>): the search for the firmware tables; which entries are lost.
  \<^item> \<open>Vmm\<close>, \<open>Vmm_Correct\<close> (\<open>vmm.cc\<close>): page tables against the translation the hardware makes of them:
    \<open>map\<close>, \<open>unmap\<close>, page faults, the identity map, directories of processes; \<open>Fork\<close> (case 2 of \<open>sys.cc\<close>):
    the copy of the private half; \<open>Address_Space\<close>: the refinement to one word per private address,
    zero until written, that the theories on processes start from.
  \<^item> \<open>Boot\<close> (\<open>init.cc\<close>): heap, frames and identity map as \<open>kernelInit\<close> puts them together keep out of each other.
  \<^item> \<open>Lib_K\<close> (\<open>libk.cc\<close>): strings.  \<open>Block_IO\<close> (\<open>block_io.h\<close>, \<open>block_io.cc\<close>): bytes on top of blocks, proved in
    the locale \<open>block_device\<close>, of which the disk (\<open>disk\<close> in \<open>Ide\<close>) and every file (\<open>fnode\<close> in
    \<open>Ext2_Correct\<close>) is an instance.
  \<^item> \<open>Ide\<close> (\<open>ide.cc\<close>): the disk driver on a controller that keeps its documented protocol: the sector
    arrives, or the driver panics on the status of a busy drive.
  \<^item> \<open>Ext2\<close>, \<open>Ext2_Correct\<close> (\<open>ext2.cc\<close>, \<open>ext2.h\<close>): mounting, i-nodes, blocks direct and indirect, directories,
    paths; \<open>find\<close> equals a walk along the components of the path, reading a file gives its bytes.
  \<^item> \<open>Elf\<close> (\<open>elf.cc\<close>, \<open>elf.h\<close>): the loader places exactly the loadable segments.
  \<^item> \<open>Snprintf\<close>, \<open>Snprintf_Correct\<close>, \<open>Snprintf_Grammar\<close>, \<open>Snprintf_Props\<close> (\<open>snprintf.cc\<close>): the formatter; its state
    machine is an interpreter of a grammar of directives, numbers read back.  \<open>User_Printf\<close>,
    \<open>User_Printf_Correct\<close> (\<open>test.dir/sbin/printf.c\<close>): the user-level copy simulates it.
  \<^item> \<open>Locks\<close> (\<open>atomic.h\<close>): interrupt flag, atomic variables, three spinning locks as instances (\<open>spin\<close>,
    \<open>safe\<close>, \<open>isl\<close>) of \<open>lock_protocol\<close>: mutual exclusion, and the flag comes back as it was.
    \<open>Shared_Ptr\<close> (\<open>shared.h\<close>): counts equal references, nothing is used after it is deleted.
    \<open>Threads\<close> (\<open>threads.h\<close>, \<open>threads.cc\<close>): a thread is in exactly one place, also in the middle of a switch.
  \<^item> \<open>Semaphore\<close> (\<open>semaphore.h\<close>, \<open>blocking_lock.h\<close>): locale \<open>semaphore_spec\<close> and its two instances \<open>ks\<close> and
    \<open>as\<close> (the second is the specification as a model of its own, which the clients use), and \<open>sem_client\<close>, the lemmas
    that every client of a semaphore shares, with instances in \<open>Bounded_Buffer\<close> (\<open>bb.h\<close>), \<open>Future\<close>
    (\<open>future.h\<close>) and \<open>Barrier\<close> (\<open>barrier.h\<close>).  \<open>Condition\<close> (\<open>condition.h\<close>, \<open>barrier.h\<close>): condition variable and
    reusable barrier, no wake-up is lost.
  \<^item> \<open>Process\<close> (\<open>process.h\<close>), \<open>Sys\<close>, \<open>Sys_Correct\<close>, \<open>Sys_Props\<close> (\<open>sys.cc\<close>): control blocks and every case of
    \<open>sysHandler\<close>: the tables stay well-formed, files are read as they are, exit codes arrive, the stack of
    a new program; the calls whose checks are missing.  \<open>Handles\<close>: every call refines an operation on the map
    from handle numbers to objects.
  \<^item> \<open>Audio\<close>, \<open>Audio_Correct\<close>, \<open>Play\<close> (\<open>audio.cc\<close>, \<open>audio.h\<close>, case 14 of \<open>sys.cc\<close>): the sound driver on a
    controller that keeps the protocol of its rings, and why \<open>play\<close> never answers.
    \<open>Codec_Bus\<close> (\<open>bus.cc\<close>, \<open>bus.h\<close>): code that nothing calls.
  \<^item> \<open>Pci\<close> (\<open>pci.cc\<close>, \<open>pci.h\<close>): the scan of the bus.  \<open>Machine\<close> (\<open>idt.cc\<close>, \<open>smp.h\<close>, \<open>smp.cc\<close>, \<open>pit.cc\<close>,
    \<open>pit.h\<close>, \<open>u8250.cc\<close>): interrupt gates, local APIC, timer, serial port.  \<open>Random_Numbers\<close> (\<open>random.h\<close>).
  \<^item> \<open>Main_Thread\<close> (\<open>kernel.cc\<close>): the first thread, from the scan of the bus over disk, file system and loader to the
    entry of \<open>/sbin/init\<close>.  \<open>User_Files\<close> (\<open>test.dir/sbin/libc.c\<close>): \<open>puts\<close> and \<open>cp\<close> of a process on the system
    calls; \<open>cp\<close> brings the rest of a file to the console.

  \<^bold>\<open>Parameters and contracts.\<close>  What is not code of the repository is an argument of the definitions: the ports
  of the IDE controller (\<open>bus\<close>), the memory and registers behind the sound driver (\<open>mem_bus\<close>), the
  configuration ports of PCI, the registers of \<open>Machine\<close>, the floating-point unit of the formatters, the
  contents of memory and disk at boot, the system calls behind the user library (\<open>usys\<close>).  Theorems that rely on such
  a parameter say how in a named predicate (\<open>ata_contract\<close>, \<open>hda_contract\<close>, \<open>host_bridge\<close>, ...) that states the
  documented protocol of the device, and each has a witness with a concrete device.

  \<^bold>\<open>Bounds.\<close>  The heap has at most \<open>2 ^ 30\<close> cells, as a 32 bit address space implies; numbers of threads are
  below \<open>2 ^ 32\<close> (\<open>next_id\<close>) and counts of semaphores below \<open>2 ^ 64\<close>; memory is at most \<open>0xFFFFF000\<close> bytes, since
  the loop of the identity map does not end otherwise.  No number of threads, cores, steps or blocks is fixed.

  \<^bold>\<open>Not modelled.\<close>
  \<^item> \<open>debug.cc\<close>, \<open>debug.h\<close> and all text the kernel prints: output only; a panic is a value.
  \<^item> \<open>crti.cc\<close>, \<open>crtn.cc\<close>, \<open>crt.h\<close>: linker-generated constructor tables.
  \<^item> \<open>mbr.S\<close>, \<open>context.s\<close>, \<open>machine.S\<close>, \<open>tss.h\<close>, \<open>test.dir/sbin/*.S\<close>: boot sector, mode and stack switches and
    trap stubs in assembly; the routines that compute or move memory (\<open>bzero\<close>, \<open>memcpy\<close>) and \<open>cli\<close> and \<open>sti\<close>
    are in the components that use them.
  \<^item> \<open>kernelInit\<close> beside memory: identification of the processor, start of the other processors.
  \<^item> The switch to user mode and \<open>entry\<close> (\<open>threads.cc\<close>), which runs the work of a thread and reads its result from
    a register; stacks and saved registers of threads.
  \<^item> \<open>stream\<close> and \<open>future\<close> (the functions that make a thread for a buffer or a future): a call of
    \<open>thread\<close> (theory \<open>Threads\<close>) around components that are modelled; nothing in the repository calls them.
  \<^item> \<open>codec_response\<close> and \<open>codec_transfer\<close> (\<open>bus.cc\<close>), which follow a null pointer in their first statement, and
    \<open>add_driver\<close> and \<open>pci_debug\<close> (\<open>pci.cc\<close>), without a caller or without effect.
  \<^item> Some assertions: that an idle thread does not block on a semaphore (\<open>semaphore.h\<close>), and those of
    \<open>Condition::wait\<close> on the interrupt flag and on the owner of the lock (\<open>condition.h\<close>); and the flag
    \<open>no_preempt\<close> of \<open>block\<close> (\<open>threads.h\<close>), which only narrows the interleavings.
  \<^item> Simplifications of data: the theories on files take the disk as its bytes, which is what the contract of
    \<open>Ide\<close> delivers; the objects behind handles are numbers and never taken back; a pointer of the sound driver
    that was never set is null or to some record of its own, so a write through it changes nothing else; the
    cells of the heap are unbounded integers within the bounds below which they equal the 32 bit ones.
  \<^item> The programs \<open>init.c\<close> and \<open>shell.c\<close>: a few calls of what is modelled.
\<close>

end
